(* ===== verification/VPN_Prelude.thy ===== *)
theory VPN_Prelude
  imports Main "HOL-Library.Word" "HOL-Library.Monad_Syntax"
begin

unbundle bit_operations_syntax

section \<open>Prelude: machine types, aborts, memory blocks and wire encodings\<close>

text \<open>
  What the components share: the names of the C types, the result type of code that can run
  into \<^verbatim>\<open>ASSERT\<close> or \<^verbatim>\<open>msg(M_FATAL)\<close>, the effect of \<^verbatim>\<open>memcpy\<close> on a block of memory, the
  memory images of integers in network byte order, and the interface of fixed-width encodings.
\<close>

subsection \<open>Types\<close>

text \<open>
  \<^verbatim>\<open>uint8_t\<close>, \<^verbatim>\<open>uint16_t\<close>, \<^verbatim>\<open>uint32_t\<close> and \<^verbatim>\<open>size_t\<close> wrap around and are words. \<^verbatim>\<open>int\<close> and
  \<^verbatim>\<open>time_t\<close> are signed, their overflow is undefined in C, and they are modelled by \<^typ>\<open>int\<close>; a
  conversion that narrows or changes the sign is written out where the code has one.
\<close>

type_synonym byte = "8 word"
type_synonym u16 = "16 word"
type_synonym u32 = "32 word"
type_synonym u64 = "64 word"

text \<open>
  \<^verbatim>\<open>ASSERT(x)\<close> and \<^verbatim>\<open>msg(M_FATAL, ...)\<close> end the process. Code that can reach one returns an
  option, and \<^const>\<open>None\<close> is the aborted process; an error the code returns to its caller is a value
  of the result type.
\<close>

type_synonym 'a exec = "'a option"

definition assert_c :: "bool \<Rightarrow> unit exec" where
  "assert_c P = (if P then Some () else None)"

lemma assert_c_simps [simp]:
  "assert_c True = Some ()" "assert_c False = None"
  "(assert_c P = Some u) = P" "(assert_c P = None) = (\<not> P)"
  by (auto simp: assert_c_def)

lemma bind_assert_c_Some [simp]:
  "(Option.bind (assert_c P) f = Some r) = (P \<and> f () = Some r)"
  by (auto simp: assert_c_def)

text \<open>Conversion of a C \<^verbatim>\<open>int\<close> to \<^verbatim>\<open>size_t\<close> (64 bits on the targets the build has).\<close>

definition size_t_of_int :: "int \<Rightarrow> int" where
  "size_t_of_int i = i mod 2 ^ 64"

text \<open>Conversion to a 32-bit \<^verbatim>\<open>int\<close>: two's complement reinterpretation of the low 32 bits.\<close>

definition c_int :: "int \<Rightarrow> int" where
  "c_int i = sint (word_of_int i :: u32)"

lemma c_int_id: "- (2 ^ 31) \<le> i \<Longrightarrow> i < 2 ^ 31 \<Longrightarrow> c_int i = i"
  unfolding c_int_def by (simp add: sint_sbintrunc' signed_take_bit_int_eq_self)

text \<open>C's division truncates towards zero.\<close>

definition c_div :: "int \<Rightarrow> int \<Rightarrow> int" where
  "c_div a b = sgn a * sgn b * (\<bar>a\<bar> div \<bar>b\<bar>)"

definition c_mod :: "int \<Rightarrow> int \<Rightarrow> int" where
  "c_mod a b = a - c_div a b * b"

lemma c_div_nonneg: "0 \<le> a \<Longrightarrow> 0 < b \<Longrightarrow> c_div a b = a div b"
  by (cases "a = 0") (auto simp: c_div_def)

lemma c_mod_nonneg: "0 \<le> a \<Longrightarrow> 0 < b \<Longrightarrow> c_mod a b = a mod b"
  by (simp add: c_mod_def c_div_nonneg minus_div_mult_eq_mod)

subsection \<open>Word arithmetic\<close>

lemma uint_drop_bit_div: "uint (drop_bit n w) = uint w div 2 ^ n" for w :: "'a::len word"
  by (simp add: unsigned_drop_bit_eq bintr_uint flip: drop_bit_eq_div)

lemma unat_inc: "i < t \<Longrightarrow> unat (i + 1) = Suc (unat i)" for i t :: "'a::len word"
  proof -
  assume "i < t"
  moreover have "unat t < 2 ^ LENGTH('a)" by (rule unsigned_less)
  ultimately have "Suc (unat i) < 2 ^ LENGTH('a)" unfolding word_less_nat_alt by linarith
  then show ?thesis by (simp add: unat_word_ariths)
qed

lemma unat_diff_le: "b \<le> a \<Longrightarrow> unat (a - b) = unat a - unat b" for a b :: "'a::len word"
  by (simp add: unat_sub)

subsection \<open>Named collections\<close>

text \<open>
  \<open>buf_defs\<close>: definitions of the buffer primitives; \<open>content_simps\<close>: how each primitive changes the
  bytes a buffer holds; \<open>inv_intros\<close>: preservation of the components' invariants.
\<close>

named_theorems buf_defs
named_theorems content_simps
named_theorems inv_intros

subsection \<open>Memory blocks\<close>

text \<open>\<open>mem_store p bs d\<close> is the block \<open>d\<close> after \<^verbatim>\<open>memcpy(d + p, bs, n)\<close> with \<open>n = length bs\<close>.\<close>

definition mem_store :: "nat \<Rightarrow> 'a list \<Rightarrow> 'a list \<Rightarrow> 'a list" where
  "mem_store p bs d = take p d @ bs @ drop (p + length bs) d"

definition mem_load :: "nat \<Rightarrow> nat \<Rightarrow> 'a list \<Rightarrow> 'a list" where
  "mem_load p n d = take n (drop p d)"

lemma length_mem_store [simp]:
  "p + length bs \<le> length d \<Longrightarrow> length (mem_store p bs d) = length d"
  by (simp add: mem_store_def)

lemma length_mem_load [simp]:
  "p + n \<le> length d \<Longrightarrow> length (mem_load p n d) = n"
  by (simp add: mem_load_def)

lemma mem_store_Nil [simp]: "mem_store p [] d = d"
  by (simp add: mem_store_def)

lemma mem_load_0 [simp]: "mem_load p 0 d = []"
  by (simp add: mem_load_def)

lemma mem_load_store [simp]:
  "p + length bs \<le> length d \<Longrightarrow> mem_load p (length bs) (mem_store p bs d) = bs"
  by (simp add: mem_load_def mem_store_def min_absorb2)

lemma mem_load_add: "mem_load p (m + n) d = mem_load p m d @ mem_load (p + m) n d"
  by (simp add: mem_load_def take_add add.commute)

lemma nth_mem_store:
  "p + length bs \<le> length d \<Longrightarrow> i < length d \<Longrightarrow>
   mem_store p bs d ! i = (if p \<le> i \<and> i < p + length bs then bs ! (i - p) else d ! i)"
  by (auto simp: mem_store_def nth_append min_absorb2)

lemma nth_mem_load: "i < n \<Longrightarrow> p + n \<le> length d \<Longrightarrow> mem_load p n d ! i = d ! (p + i)"
  by (simp add: mem_load_def)

lemma mem_load_store_disjoint:
  assumes "p + length bs \<le> length d" and "q + n \<le> length d"
    and "q + n \<le> p \<or> p + length bs \<le> q"
  shows "mem_load q n (mem_store p bs d) = mem_load q n d"
  using assms by (intro nth_equalityI) (auto simp: nth_mem_load nth_mem_store)

lemma mem_load_store_append:
  "q + m = p \<Longrightarrow> p + length bs \<le> length d \<Longrightarrow>
   mem_load q (m + length bs) (mem_store p bs d) = mem_load q m d @ bs"
  by (simp add: mem_load_add mem_load_store_disjoint)

lemma mem_load_store_prepend:
  "q = p + length bs \<Longrightarrow> q + m \<le> length d \<Longrightarrow>
   mem_load p (length bs + m) (mem_store p bs d) = bs @ mem_load q m d"
  by (simp add: mem_load_add mem_load_store_disjoint)

lemma take_mem_load: "m \<le> n \<Longrightarrow> take m (mem_load p n d) = mem_load p m d"
  by (simp add: mem_load_def min_absorb1)

lemma drop_mem_load: "m \<le> n \<Longrightarrow> drop m (mem_load p n d) = mem_load (p + m) (n - m) d"
  by (simp add: mem_load_def drop_take add.commute)

subsection \<open>Searching arrays\<close>

text \<open>The index at which a loop that stops at the first element with \<open>P\<close> stops.\<close>

fun first_index :: "('a \<Rightarrow> bool) \<Rightarrow> 'a list \<Rightarrow> nat option" where
  "first_index P [] = None"
| "first_index P (x # xs) = (if P x then Some 0 else map_option Suc (first_index P xs))"

lemma first_index_Some:
  "first_index P xs = Some i \<longleftrightarrow> i < length xs \<and> P (xs ! i) \<and> (\<forall>j < i. \<not> P (xs ! j))"
proof (induction xs arbitrary: i)
  case (Cons x xs)
  then show ?case by (cases i) (auto simp: All_less_Suc2)
qed simp

lemma first_index_None: "first_index P xs = None \<longleftrightarrow> (\<forall>x \<in> set xs. \<not> P x)"
  by (induction xs) auto

lemma first_index_ex: "x \<in> set xs \<Longrightarrow> P x \<Longrightarrow> \<exists>i. first_index P xs = Some i"
  using first_index_None [of P xs] by (cases "first_index P xs") auto

subsection \<open>Integers in network byte order\<close>

text \<open>The memory image of \<^verbatim>\<open>htons(w)\<close> and \<^verbatim>\<open>htonl(w)\<close>, and the value \<^verbatim>\<open>ntohs\<close>/\<^verbatim>\<open>ntohl\<close> read back.\<close>

definition u16_bytes :: "u16 \<Rightarrow> byte list" where
  "u16_bytes w = [ucast (drop_bit 8 w), ucast w]"

definition bytes_u16 :: "byte list \<Rightarrow> u16" where
  "bytes_u16 bs = push_bit 8 (ucast (bs ! 0)) OR ucast (bs ! 1)"

definition u32_bytes :: "u32 \<Rightarrow> byte list" where
  "u32_bytes w =
     [ucast (drop_bit 24 w), ucast (drop_bit 16 w), ucast (drop_bit 8 w), ucast w]"

definition bytes_u32 :: "byte list \<Rightarrow> u32" where
  "bytes_u32 bs =
     push_bit 24 (ucast (bs ! 0)) OR push_bit 16 (ucast (bs ! 1))
     OR push_bit 8 (ucast (bs ! 2)) OR ucast (bs ! 3)"

lemma bytes_u16_of_u16: "bytes_u16 (u16_bytes w) = w"
proof (rule bit_word_eqI)
  fix n :: nat assume "n < LENGTH(16)"
  then show "bit (bytes_u16 (u16_bytes w)) n = bit w n"
    by (cases "n < 8") (auto simp: bytes_u16_def u16_bytes_def bit_simps)
qed

lemma bytes_u32_of_u32: "bytes_u32 (u32_bytes w) = w"
proof (rule bit_word_eqI)
  fix n :: nat assume "n < LENGTH(32)"
  then show "bit (bytes_u32 (u32_bytes w)) n = bit w n"
    by (cases "n < 8"; cases "n < 16"; cases "n < 24")
      (auto simp: bytes_u32_def u32_bytes_def bit_simps)
qed

lemma u32_bytes_of_bytes:
  assumes "length bs = 4"
  shows "u32_bytes (bytes_u32 bs) = bs"
proof -
  from assms obtain a b c d where bs: "bs = [a, b, c, d]"
    by (auto simp: length_Suc_conv numeral_eq_Suc)
  have "ucast (drop_bit 24 (bytes_u32 bs)) = a" "ucast (drop_bit 16 (bytes_u32 bs)) = b"
    "ucast (drop_bit 8 (bytes_u32 bs)) = c" "ucast (bytes_u32 bs) = d"
    by (rule bit_word_eqI, auto simp: bs bytes_u32_def bit_simps dest: bit_imp_le_length)+
  then show ?thesis by (simp add: bs u32_bytes_def)
qed

subsection \<open>Interface: fixed-width encodings\<close>

text \<open>
  A value with a fixed-width memory image: \<open>enc\<close> lays a value out, \<open>dec\<close> reads the first
  \<open>width\<close> bytes back. \<open>ok\<close> singles out the values that occur.
\<close>

locale codec =
  fixes enc :: "'a \<Rightarrow> byte list" and dec :: "byte list \<Rightarrow> 'a" and width :: nat and ok :: "'a \<Rightarrow> bool"
  assumes enc_width: "ok x \<Longrightarrow> length (enc x) = width"
    and dec_enc: "ok x \<Longrightarrow> dec (enc x) = x"
begin

lemma dec_take: "ok x \<Longrightarrow> dec (take width (enc x @ rest)) = x"
  by (simp add: enc_width dec_enc)

lemma drop_enc: "ok x \<Longrightarrow> drop width (enc x @ rest) = rest"
  by (simp add: enc_width)

lemma enc_inject: "ok x \<Longrightarrow> ok y \<Longrightarrow> enc x = enc y \<longleftrightarrow> x = y"
  by (metis dec_enc)

lemma length_concat_enc: "list_all ok xs \<Longrightarrow> length (concat (map enc xs)) = width * length xs"
  by (induction xs) (simp_all add: enc_width)

end

interpretation u8_codec: codec "\<lambda>w. [w]" "\<lambda>bs. bs ! 0" 1 "\<lambda>_. True"
  by unfold_locales simp_all

interpretation u16_codec: codec u16_bytes bytes_u16 2 "\<lambda>_. True"
  by unfold_locales (simp_all add: bytes_u16_of_u16, simp add: u16_bytes_def)

interpretation u32_codec: codec u32_bytes bytes_u32 4 "\<lambda>_. True"
  by unfold_locales (simp_all add: bytes_u32_of_u32, simp add: u32_bytes_def)

lemmas codec_widths [simp] =
  u16_codec.enc_width [OF TrueI] u32_codec.enc_width [OF TrueI]

end
