(* ===== verification/Integers.thy ===== *)
theory Integers
  imports VPN_Prelude
begin

section \<open>Integer helpers (integer.h)\<close>

text \<open>
  The inline functions of \<^verbatim>\<open>integer.h\<close>: minimum and maximum, arithmetic on the index circle of a
  ring buffer, and rounding up to a power of two. \<^verbatim>\<open>ASSERT\<close> is \<^const>\<open>assert_c\<close>.
\<close>

definition max_int :: "int \<Rightarrow> int \<Rightarrow> int" where
  "max_int x y = (if x > y then x else y)"

definition min_int :: "int \<Rightarrow> int \<Rightarrow> int" where
  "min_int x y = (if x < y then x else y)"

definition constrain_int :: "int \<Rightarrow> int \<Rightarrow> int \<Rightarrow> int" where
  "constrain_int x mn mx =
     (if mn > mx then mn else if x < mn then mn else if x > mx then mx else x)"

definition modulo_subtract :: "int \<Rightarrow> int \<Rightarrow> int \<Rightarrow> int exec" where
  "modulo_subtract x y m = (do {
     let d1 = x - y;
     let d2 = (if x > y then - m else m) + d1;
     assert_c (0 \<le> x \<and> x < m \<and> 0 \<le> y \<and> y < m);
     Some (if \<bar>d1\<bar> > \<bar>d2\<bar> then d2 else d1) })"

definition modulo_add :: "int \<Rightarrow> int \<Rightarrow> int \<Rightarrow> int exec" where
  "modulo_add x y m = (do {
     let s = x + y;
     assert_c (0 \<le> x \<and> x < m \<and> - m \<le> y \<and> y \<le> m);
     let s = (if s \<ge> m then s - m else s);
     Some (if s < 0 then s + m else s) })"

definition index_verify :: "int \<Rightarrow> int \<Rightarrow> int exec" where
  "index_verify index sz = (if index < 0 \<or> index \<ge> sz then None else Some index)"

text \<open>
  The doubling loop of \<^verbatim>\<open>adjust_power_of_2\<close> on a 64-bit \<^verbatim>\<open>size_t\<close>; the shift wraps, and
  \<^verbatim>\<open>ASSERT(ret > 0)\<close> ends the process once it has.
\<close>

partial_function (option) adjust_power_of_2_loop :: "u64 \<Rightarrow> u64 \<Rightarrow> u64 option" where
  "adjust_power_of_2_loop ret u =
     (if ret < u then (if push_bit 1 ret > 0 then adjust_power_of_2_loop (push_bit 1 ret) u else None)
      else Some ret)"

declare adjust_power_of_2_loop.simps [code]

definition adjust_power_of_2 :: "u64 \<Rightarrow> u64 exec" where
  "adjust_power_of_2 u = adjust_power_of_2_loop 1 u"

subsection \<open>Index arithmetic\<close>

lemma min_int_min [simp]: "min_int x y = min x y"
  by (simp add: min_int_def min_def)

lemma max_int_max [simp]: "max_int x y = max x y"
  by (simp add: max_int_def max_def)

lemma constrain_int_bounds: "mn \<le> mx \<Longrightarrow> mn \<le> constrain_int x mn mx \<and> constrain_int x mn mx \<le> mx"
  by (simp add: constrain_int_def)

text \<open>\<open>modulo_add\<close> is addition modulo the circumference; it aborts exactly outside its contract.\<close>

lemma modulo_add_mod:
  assumes "0 \<le> x" "x < m" "- m \<le> y" "y \<le> m"
  shows "modulo_add x y m = Some ((x + y) mod m)"
proof -
  have "(x + y) mod m =
      (if x + y \<ge> m then x + y - m else if x + y < 0 then x + y + m else x + y)"
  proof -
    consider "x + y \<ge> m" | "x + y < 0" | "0 \<le> x + y" "x + y < m" by linarith
    then show ?thesis
    proof cases
      case 1
      then have "(x + y) mod m = (x + y - m) mod m" by simp
      also have "\<dots> = x + y - m" using 1 assms by (intro mod_pos_pos_trivial) auto
      finally show ?thesis using 1 by simp
    next
      case 2
      have "(x + y) mod m = (x + y + m) mod m" by simp
      also have "\<dots> = x + y + m" using 2 assms by (intro mod_pos_pos_trivial) auto
      finally show ?thesis using 2 assms by simp
    next
      case 3
      then show ?thesis by simp
    qed
  qed
  then show ?thesis using assms by (auto simp: modulo_add_def Let_def)
qed

lemma modulo_add_abort: "modulo_add x y m = None \<longleftrightarrow> \<not> (0 \<le> x \<and> x < m \<and> - m \<le> y \<and> y \<le> m)"
  by (auto simp: modulo_add_def Let_def assert_c_def)

text \<open>\<open>modulo_subtract\<close> is the shortest signed distance on the circle.\<close>

lemma modulo_subtract_Some:
  assumes "0 \<le> x" "x < m" "0 \<le> y" "y < m"
  obtains d where "modulo_subtract x y m = Some d" "(y + d) mod m = x" "2 * \<bar>d\<bar> \<le> m"
proof -
  let ?d = "if \<bar>x - y\<bar> > \<bar>(if x > y then - m else m) + (x - y)\<bar>
            then (if x > y then - m else m) + (x - y) else x - y"
  have s: "modulo_subtract x y m = Some ?d"
    using assms by (simp add: modulo_subtract_def Let_def)
  moreover have "(y + ?d) mod m = x"
  proof -
    have "y + ?d = x \<or> y + ?d = x + m \<or> y + ?d = x - m" by auto
    then show ?thesis using assms by (auto simp: mod_pos_pos_trivial)
  qed
  moreover have "2 * \<bar>?d\<bar> \<le> m" using assms by auto
  ultimately show thesis by (rule that)
qed

subsection \<open>Rounding up to a power of two\<close>

lemma push_bit_1_pow: "k < 63 \<Longrightarrow> push_bit 1 (2 ^ k :: u64) = 2 ^ Suc k"
  by (simp add: push_bit_eq_mult mult.commute)

lemma unat_pow2_u64: "k < 64 \<Longrightarrow> unat (2 ^ k :: u64) = 2 ^ k"
  by (simp add: unat_eq_nat_uint uint_2p nat_power_eq word_neq_0_conv [symmetric])

lemma adjust_power_of_2_loop_pow:
  assumes "unat u \<le> 2 ^ 63" and "k \<le> 63" and "k = 0 \<or> 2 ^ (k - 1) < unat u"
  shows "\<exists>j. adjust_power_of_2_loop (2 ^ k) u = Some (2 ^ j) \<and> j \<le> 63
            \<and> unat u \<le> 2 ^ j \<and> (j = 0 \<or> 2 ^ (j - 1) < unat u)"
  using assms(2,3)
proof (induction "63 - k" arbitrary: k)
  case 0
  with assms(1) have "\<not> (2 ^ k :: u64) < u" "k = 63"
    by (auto simp: word_less_nat_alt unat_pow2_u64)
  then show ?case using 0 assms(1)
    by (subst adjust_power_of_2_loop.simps) (auto intro!: exI [of _ 63])
next
  case (Suc n)
  then have k: "k < 63" by simp
  have less: "(2 ^ k :: u64) < u \<longleftrightarrow> 2 ^ k < unat u"
    using k by (simp add: word_less_nat_alt unat_pow2_u64)
  show ?case
  proof (cases "(2 ^ k :: u64) < u")
    case True
    have pos: "0 < (2 ^ Suc k :: u64)"
      using k by (simp add: word_less_nat_alt unat_pow2_u64 del: power_Suc)
    have step: "adjust_power_of_2_loop (2 ^ k) u = adjust_power_of_2_loop (2 ^ Suc k) u"
      using True pos k
      by (subst adjust_power_of_2_loop.simps) (simp only: push_bit_1_pow if_True)
    have "\<exists>j. adjust_power_of_2_loop (2 ^ Suc k) u = Some (2 ^ j) \<and> j \<le> 63
            \<and> unat u \<le> 2 ^ j \<and> (j = 0 \<or> 2 ^ (j - 1) < unat u)"
      using Suc k True less by (intro Suc.hyps) auto
    then show ?thesis using step by simp
  next
    case False
    then show ?thesis using Suc.prems k less
      by (subst adjust_power_of_2_loop.simps) (auto intro!: exI [of _ k])
  qed
qed

text \<open>
  For every size up to \<open>2 ^ 63\<close> the loop returns, and its result is the least power of two that is
  not below the argument.
\<close>

lemma adjust_power_of_2_least:
  assumes "unat u \<le> 2 ^ 63"
  shows "\<exists>j. adjust_power_of_2 u = Some (2 ^ j) \<and> j \<le> 63
            \<and> unat u \<le> 2 ^ j \<and> (j = 0 \<or> 2 ^ (j - 1) < unat u)"
  using adjust_power_of_2_loop_pow [OF assms, of 0] by (simp add: adjust_power_of_2_def)

end
