(* ===== verification/Buffer.thy ===== *)
theory Buffer
  imports Integers
begin

section \<open>Buffers (buffer.h, buffer.c)\<close>

text \<open>
  \<^verbatim>\<open>struct buffer\<close> is a window \<^verbatim>\<open>[offset, offset + len)\<close> into a malloc'ed block of \<^verbatim>\<open>capacity\<close>
  bytes. \<open>b_data\<close> is \<^const>\<open>None\<close> for a \<^verbatim>\<open>NULL\<close> pointer and otherwise the contents of the block; a
  pointer into the block is its index. A buffer owns its block, so writing through a buffer changes no
  other one; \<^verbatim>\<open>buf_sub\<close> is the exception and is treated where it is defined.
\<close>

record buffer =
  b_capacity :: int
  b_offset :: int
  b_len :: int
  b_data :: "byte list option"

definition BUF_SIZE_MAX :: int where
  "BUF_SIZE_MAX = 1000000"

subsection \<open>Queries\<close>

definition clear_buf :: buffer where
  "clear_buf = \<lparr>b_capacity = 0, b_offset = 0, b_len = 0, b_data = None\<rparr>"

definition buf_defined :: "buffer \<Rightarrow> bool" where
  "buf_defined buf \<longleftrightarrow> b_data buf \<noteq> None"

definition buf_valid :: "buffer \<Rightarrow> bool" where
  "buf_valid buf \<longleftrightarrow> b_data buf \<noteq> None \<and> b_len buf \<ge> 0"

definition buf_bptr :: "buffer \<Rightarrow> int option" where
  "buf_bptr buf = (if buf_valid buf then Some (b_offset buf) else None)"

definition buf_len :: "buffer \<Rightarrow> int" where
  "buf_len buf = (if buf_valid buf then b_len buf else 0)"

definition buf_bend :: "buffer \<Rightarrow> int option" where
  "buf_bend buf = map_option (\<lambda>p. p + buf_len buf) (buf_bptr buf)"

definition buf_blast :: "buffer \<Rightarrow> int option" where
  "buf_blast buf =
     (if buf_len buf > 0 then map_option (\<lambda>p. p + buf_len buf - 1) (buf_bptr buf) else None)"

definition buf_size_valid :: "int \<Rightarrow> bool" where
  "buf_size_valid sz \<longleftrightarrow> size_t_of_int sz < BUF_SIZE_MAX"

definition buf_size_valid_signed :: "int \<Rightarrow> bool" where
  "buf_size_valid_signed sz \<longleftrightarrow> sz \<ge> - BUF_SIZE_MAX \<and> sz < BUF_SIZE_MAX"

definition buf_safe :: "buffer \<Rightarrow> int \<Rightarrow> bool" where
  "buf_safe buf n \<longleftrightarrow>
     buf_valid buf \<and> buf_size_valid n \<and> b_offset buf + b_len buf + n \<le> b_capacity buf"

definition buf_safe_bidir :: "buffer \<Rightarrow> int \<Rightarrow> bool" where
  "buf_safe_bidir buf n =
     (if buf_valid buf \<and> buf_size_valid_signed n
      then let newlen = b_len buf + n in newlen \<ge> 0 \<and> b_offset buf + newlen \<le> b_capacity buf
      else False)"

definition buf_forward_capacity :: "buffer \<Rightarrow> int" where
  "buf_forward_capacity buf =
     (if buf_valid buf
      then let ret = b_capacity buf - (b_offset buf + b_len buf) in if ret < 0 then 0 else ret
      else 0)"

definition buf_forward_capacity_total :: "buffer \<Rightarrow> int" where
  "buf_forward_capacity_total buf =
     (if buf_valid buf
      then let ret = b_capacity buf - b_offset buf in if ret < 0 then 0 else ret
      else 0)"

definition buf_reverse_capacity :: "buffer \<Rightarrow> int" where
  "buf_reverse_capacity buf = (if buf_valid buf then b_offset buf else 0)"

subsection \<open>Loads and stores\<close>

text \<open>\<^verbatim>\<open>memcpy\<close> from and to the block, at index \<open>p\<close>.\<close>

definition buf_load :: "buffer \<Rightarrow> int \<Rightarrow> int \<Rightarrow> byte list" where
  "buf_load buf p n = (case b_data buf of None \<Rightarrow> [] | Some d \<Rightarrow> mem_load (nat p) (nat n) d)"

definition buf_store :: "buffer \<Rightarrow> int \<Rightarrow> byte list \<Rightarrow> buffer" where
  "buf_store buf p bs = buf\<lparr>b_data := map_option (mem_store (nat p) bs) (b_data buf)\<rparr>"

text \<open>The \<^verbatim>\<open>BLEN(buf)\<close> bytes at \<^verbatim>\<open>BPTR(buf)\<close>.\<close>

definition buf_content :: "buffer \<Rightarrow> byte list" where
  "buf_content buf = (case buf_bptr buf of None \<Rightarrow> [] | Some p \<Rightarrow> buf_load buf p (buf_len buf))"

subsection \<open>Moving the window\<close>

definition buf_reset :: "buffer \<Rightarrow> buffer" where
  "buf_reset buf = buf\<lparr>b_capacity := 0, b_offset := 0, b_len := 0, b_data := None\<rparr>"

definition buf_reset_len :: "buffer \<Rightarrow> buffer" where
  "buf_reset_len buf = buf\<lparr>b_len := 0, b_offset := 0\<rparr>"

definition buf_init :: "buffer \<Rightarrow> int \<Rightarrow> bool \<times> buffer" where
  "buf_init buf off =
     (if off < 0 \<or> off > b_capacity buf \<or> b_data buf = None then (False, buf)
      else (True, buf\<lparr>b_len := 0, b_offset := off\<rparr>))"

definition buf_set_write :: "byte list option \<Rightarrow> int \<Rightarrow> buffer exec" where
  "buf_set_write dat sz =
     (if \<not> buf_size_valid sz then None
      else Some \<lparr>b_capacity = sz, b_offset = 0, b_len = 0,
                 b_data = (if sz > 0 then map_option (\<lambda>d. d[0 := 0]) dat else dat)\<rparr>)"

definition buf_set_read :: "byte list option \<Rightarrow> int \<Rightarrow> buffer exec" where
  "buf_set_read dat sz =
     (if \<not> buf_size_valid sz then None
      else Some \<lparr>b_capacity = sz, b_offset = 0, b_len = sz, b_data = dat\<rparr>)"

definition buf_inc_len :: "buffer \<Rightarrow> int \<Rightarrow> bool \<times> buffer" where
  "buf_inc_len buf inc =
     (if \<not> buf_safe_bidir buf inc then (False, buf)
      else (True, buf\<lparr>b_len := b_len buf + inc\<rparr>))"

definition buf_prepend :: "buffer \<Rightarrow> int \<Rightarrow> int option \<times> buffer" where
  "buf_prepend buf sz =
     (if \<not> buf_valid buf \<or> sz < 0 \<or> sz > b_offset buf then (None, buf)
      else let buf' = buf\<lparr>b_offset := b_offset buf - sz, b_len := b_len buf + sz\<rparr>
           in (buf_bptr buf', buf'))"

definition buf_advance :: "buffer \<Rightarrow> int \<Rightarrow> bool \<times> buffer" where
  "buf_advance buf sz =
     (if \<not> buf_valid buf \<or> sz < 0 \<or> b_len buf < sz then (False, buf)
      else (True, buf\<lparr>b_offset := b_offset buf + sz, b_len := b_len buf - sz\<rparr>))"

definition buf_write_alloc :: "buffer \<Rightarrow> int \<Rightarrow> int option \<times> buffer" where
  "buf_write_alloc buf sz =
     (if \<not> buf_safe buf sz then (None, buf)
      else (map_option (\<lambda>p. p + b_len buf) (buf_bptr buf), buf\<lparr>b_len := b_len buf + sz\<rparr>))"

definition buf_write_alloc_prepend :: "buffer \<Rightarrow> int \<Rightarrow> bool \<Rightarrow> int option \<times> buffer" where
  "buf_write_alloc_prepend buf sz prepend =
     (if prepend then buf_prepend buf sz else buf_write_alloc buf sz)"

definition buf_read_alloc :: "buffer \<Rightarrow> int \<Rightarrow> int option \<times> buffer" where
  "buf_read_alloc buf sz =
     (if sz < 0 \<or> b_len buf < sz then (None, buf)
      else (buf_bptr buf, buf\<lparr>b_offset := b_offset buf + sz, b_len := b_len buf - sz\<rparr>))"

subsection \<open>Writing\<close>

text \<open>\<open>src\<close> is the object the pointer argument points to; \<open>sz\<close> bytes of it are copied.\<close>

definition buf_write :: "buffer \<Rightarrow> byte list \<Rightarrow> int \<Rightarrow> bool \<times> buffer" where
  "buf_write dest src sz =
     (case buf_write_alloc dest sz of
        (None, dest') \<Rightarrow> (False, dest')
      | (Some cp, dest') \<Rightarrow> (True, buf_store dest' cp (take (nat sz) src)))"

definition buf_write_prepend :: "buffer \<Rightarrow> byte list \<Rightarrow> int \<Rightarrow> bool \<times> buffer" where
  "buf_write_prepend dest src sz =
     (case buf_prepend dest sz of
        (None, dest') \<Rightarrow> (False, dest')
      | (Some cp, dest') \<Rightarrow> (True, buf_store dest' cp (take (nat sz) src)))"

definition buf_write_u8 :: "buffer \<Rightarrow> int \<Rightarrow> bool \<times> buffer" where
  "buf_write_u8 dest dat = buf_write dest [word_of_int dat] 1"

definition buf_write_u16 :: "buffer \<Rightarrow> int \<Rightarrow> bool \<times> buffer" where
  "buf_write_u16 dest dat = buf_write dest (u16_bytes (word_of_int dat)) 2"

definition buf_write_u32 :: "buffer \<Rightarrow> int \<Rightarrow> bool \<times> buffer" where
  "buf_write_u32 dest dat = buf_write dest (u32_bytes (word_of_int dat)) 4"

definition buf_copy :: "buffer \<Rightarrow> buffer \<Rightarrow> bool \<times> buffer" where
  "buf_copy dest src = buf_write dest (buf_content src) (buf_len src)"

definition buf_copy_n :: "buffer \<Rightarrow> buffer \<Rightarrow> int \<Rightarrow> bool \<times> buffer \<times> buffer" where
  "buf_copy_n dest src n =
     (case buf_read_alloc src n of
        (None, src') \<Rightarrow> (False, dest, src')
      | (Some cp, src') \<Rightarrow>
          (case buf_write dest (buf_load src' cp n) n of (ok, dest') \<Rightarrow> (ok, dest', src')))"

definition buf_copy_range :: "buffer \<Rightarrow> int \<Rightarrow> buffer \<Rightarrow> int \<Rightarrow> int \<Rightarrow> bool \<times> buffer" where
  "buf_copy_range dest dest_index src src_index src_len =
     (if src_index < 0 \<or> src_len < 0 \<or> src_index + src_len > b_len src
         \<or> dest_index < 0 \<or> b_offset dest + dest_index + src_len > b_capacity dest
      then (False, dest)
      else let dest' = buf_store dest (b_offset dest + dest_index)
                         (buf_load src (b_offset src + src_index) src_len)
           in (True, if dest_index + src_len > b_len dest'
                     then dest'\<lparr>b_len := dest_index + src_len\<rparr> else dest'))"

definition buf_copy_excess :: "buffer \<Rightarrow> buffer \<Rightarrow> int \<Rightarrow> bool \<times> buffer \<times> buffer" where
  "buf_copy_excess dest src n =
     (if n < 0 then (False, dest, src)
      else if b_len src > n then
        let b = src; src' = src\<lparr>b_len := n\<rparr>
        in case buf_advance b n of
             (False, _) \<Rightarrow> (False, dest, src')
           | (True, b') \<Rightarrow> (case buf_copy dest b' of (ok, dest') \<Rightarrow> (ok, dest', src'))
      else (True, dest, src))"

subsection \<open>Reading\<close>

definition buf_read :: "buffer \<Rightarrow> int \<Rightarrow> byte list option \<times> buffer" where
  "buf_read src sz =
     (case buf_read_alloc src sz of
        (None, src') \<Rightarrow> (None, src')
      | (Some cp, src') \<Rightarrow> (Some (buf_load src' cp sz), src'))"

definition buf_read_u8 :: "buffer \<Rightarrow> int \<times> buffer" where
  "buf_read_u8 buf =
     (if buf_len buf < 1 then (-1, buf)
      else (uint (buf_load buf (b_offset buf) 1 ! 0), snd (buf_advance buf 1)))"

definition buf_read_u16 :: "buffer \<Rightarrow> int \<times> buffer" where
  "buf_read_u16 buf =
     (case buf_read buf 2 of
        (None, buf') \<Rightarrow> (-1, buf')
      | (Some bs, buf') \<Rightarrow> (uint (bytes_u16 bs), buf'))"

definition buf_read_u32 :: "buffer \<Rightarrow> (u32 \<times> bool) \<times> buffer" where
  "buf_read_u32 buf =
     (case buf_read buf 4 of
        (None, buf') \<Rightarrow> ((0, False), buf')
      | (Some bs, buf') \<Rightarrow> ((bytes_u32 bs, True), buf'))"

subsection \<open>Comparison\<close>

definition buf_equal :: "buffer \<Rightarrow> buffer \<Rightarrow> bool" where
  "buf_equal a b \<longleftrightarrow> buf_len a = buf_len b \<and> buf_content a = buf_content b"

definition buf_string_match :: "buffer \<Rightarrow> byte list \<Rightarrow> int \<Rightarrow> bool" where
  "buf_string_match src match sz =
     (if sz \<noteq> b_len src then False
      else buf_load src (b_offset src) sz = take (nat sz) match)"

definition buf_string_match_head :: "buffer \<Rightarrow> byte list \<Rightarrow> int \<Rightarrow> bool" where
  "buf_string_match_head src match sz =
     (if sz < 0 \<or> sz > b_len src then False
      else buf_load src (b_offset src) sz = take (nat sz) match)"

subsection \<open>Allocation\<close>

text \<open>
  \<^verbatim>\<open>calloc\<close> returns a zeroed block. \<^verbatim>\<open>malloc\<close> does not: where the code uses it, \<open>blk\<close> is the block
  as the allocator returns it.
\<close>

definition alloc_buf :: "int \<Rightarrow> buffer exec" where
  "alloc_buf sz =
     (if \<not> buf_size_valid sz then None
      else Some \<lparr>b_capacity = sz, b_offset = 0, b_len = 0, b_data = Some (replicate (nat sz) 0)\<rparr>)"

definition alloc_buf_gc :: "byte list \<Rightarrow> int \<Rightarrow> buffer exec" where
  "alloc_buf_gc blk sz =
     (if \<not> buf_size_valid sz then None
      else Some \<lparr>b_capacity = sz, b_offset = 0, b_len = 0,
                 b_data = Some (if sz \<noteq> 0 then blk[0 := 0] else blk)\<rparr>)"

definition clone_buf :: "byte list \<Rightarrow> buffer \<Rightarrow> buffer" where
  "clone_buf blk buf =
     (let ret = \<lparr>b_capacity = b_capacity buf, b_offset = b_offset buf, b_len = b_len buf,
                 b_data = Some blk\<rparr>
      in case buf_bptr ret of None \<Rightarrow> ret | Some p \<Rightarrow> buf_store ret p (buf_content buf))"

definition buf_clear :: "buffer \<Rightarrow> buffer" where
  "buf_clear buf =
     (let buf' = (if b_capacity buf > 0
                  then buf_store buf 0 (replicate (nat (b_capacity buf)) 0) else buf)
      in buf'\<lparr>b_len := 0, b_offset := 0\<rparr>)"

definition buf_assign :: "buffer \<Rightarrow> buffer \<Rightarrow> bool \<times> buffer" where
  "buf_assign dest src =
     (case buf_init dest (b_offset src) of
        (False, dest') \<Rightarrow> (False, dest')
      | (True, dest') \<Rightarrow> buf_write dest' (buf_content src) (buf_len src))"

definition free_buf :: "buffer \<Rightarrow> buffer" where
  "free_buf buf = clear_buf"

text \<open>
  \<^verbatim>\<open>buf_sub\<close> reserves \<open>sz\<close> bytes of \<open>buf\<close> and returns a buffer whose block is that region: the two
  share memory. The model returns the region's index and its current bytes; \<open>buf_sub_commit\<close> is what
  the shared memory means for \<open>buf\<close> once the sub-buffer has been written: its region holds the
  sub-buffer's block.
\<close>

definition buf_sub :: "buffer \<Rightarrow> int \<Rightarrow> bool \<Rightarrow> buffer \<times> buffer \<times> int" where
  "buf_sub buf sz prepend =
     (case (if prepend then buf_prepend buf sz else buf_write_alloc buf sz) of
        (None, buf') \<Rightarrow> (clear_buf, buf', 0)
      | (Some p, buf') \<Rightarrow>
          (\<lparr>b_capacity = sz, b_offset = 0, b_len = 0, b_data = Some (buf_load buf' p sz)\<rparr>, buf', p))"

definition buf_sub_commit :: "buffer \<Rightarrow> buffer \<Rightarrow> int \<Rightarrow> buffer" where
  "buf_sub_commit sub buf p =
     (case b_data sub of None \<Rightarrow> buf | Some bs \<Rightarrow> buf_store buf p bs)"

lemmas [buf_defs] =
  buf_defined_def buf_valid_def buf_bptr_def buf_len_def buf_safe_def buf_safe_bidir_def
  buf_load_def buf_store_def buf_inc_len_def buf_prepend_def buf_advance_def
  buf_write_alloc_def buf_read_alloc_def buf_init_def

subsection \<open>Well-formed buffers\<close>

text \<open>
  The window lies inside the block, and the block is smaller than \<^const>\<open>BUF_SIZE_MAX\<close>, which every
  allocation enforces; hence no sum of two of the fields exceeds a 32-bit \<^verbatim>\<open>int\<close>.
\<close>

definition buf_ok :: "buffer \<Rightarrow> bool" where
  "buf_ok buf \<longleftrightarrow>
     (case b_data buf of
        None \<Rightarrow> b_capacity buf = 0 \<and> b_offset buf = 0 \<and> b_len buf = 0
      | Some d \<Rightarrow> 0 \<le> b_offset buf \<and> 0 \<le> b_len buf \<and> b_offset buf + b_len buf \<le> b_capacity buf
                  \<and> b_capacity buf = int (length d) \<and> b_capacity buf < BUF_SIZE_MAX)"

lemma buf_ok_cases [consumes 1, case_names null block]:
  assumes "buf_ok buf"
  obtains (null) "b_data buf = None" "b_capacity buf = 0" "b_offset buf = 0" "b_len buf = 0"
  | (block) d where "b_data buf = Some d" "0 \<le> b_offset buf" "0 \<le> b_len buf"
      "b_offset buf + b_len buf \<le> int (length d)" "b_capacity buf = int (length d)"
      "int (length d) < BUF_SIZE_MAX"
  using assms by (auto simp: buf_ok_def split: option.splits)

lemma buf_okI:
  "b_data buf \<noteq> None \<Longrightarrow> 0 \<le> b_offset buf \<Longrightarrow> 0 \<le> b_len buf \<Longrightarrow>
   b_offset buf + b_len buf \<le> b_capacity buf \<Longrightarrow> b_capacity buf = int (length (the (b_data buf))) \<Longrightarrow>
   b_capacity buf < BUF_SIZE_MAX \<Longrightarrow> buf_ok buf"
  by (auto simp: buf_ok_def)

lemma buf_ok_null: "b_data buf = None \<Longrightarrow> buf_ok buf \<Longrightarrow> b_capacity buf = 0 \<and> b_offset buf = 0 \<and> b_len buf = 0"
  by (simp add: buf_ok_def)

lemma buf_ok_clear [simp]: "buf_ok clear_buf"
  by (simp add: buf_ok_def clear_buf_def)

lemma buf_size_valid_small [simp]:
  "0 \<le> n \<Longrightarrow> n < 2 ^ 64 \<Longrightarrow> buf_size_valid n \<longleftrightarrow> n < BUF_SIZE_MAX"
  by (simp add: buf_size_valid_def size_t_of_int_def)

lemma buf_size_valid_negative:
  "- (2 ^ 63) \<le> n \<Longrightarrow> n < 0 \<Longrightarrow> \<not> buf_size_valid n"
proof -
  assume n: "- (2 ^ 63) \<le> n" "n < 0"
  have "n mod 2 ^ 64 = (n + 2 ^ 64) mod 2 ^ 64" by simp
  also have "\<dots> = n + 2 ^ 64" using n by (intro mod_pos_pos_trivial) auto
  finally show ?thesis using n by (simp add: buf_size_valid_def size_t_of_int_def BUF_SIZE_MAX_def)
qed

lemma buf_ok_bounds [simp]:
  assumes "buf_ok buf"
  shows "buf_len buf = b_len buf" "0 \<le> b_len buf" "0 \<le> b_offset buf"
    "b_offset buf + b_len buf \<le> b_capacity buf" "b_capacity buf < BUF_SIZE_MAX"
    "0 \<le> b_capacity buf"
  using assms by (cases rule: buf_ok_cases; simp add: buf_defs BUF_SIZE_MAX_def)+

lemma length_buf_content [simp]:
  assumes "buf_ok buf"
  shows "length (buf_content buf) = nat (b_len buf)"
  using assms
proof (cases rule: buf_ok_cases)
  case (block d)
  then have "nat (b_offset buf) + nat (b_len buf) \<le> length d" by linarith
  with block show ?thesis by (simp add: buf_content_def buf_defs)
qed (simp_all add: buf_content_def buf_defs)

lemma buf_content_block:
  "buf_ok buf \<Longrightarrow> b_data buf = Some d \<Longrightarrow>
   buf_content buf = mem_load (nat (b_offset buf)) (nat (b_len buf)) d"
  by (simp add: buf_content_def buf_defs)

lemma buf_content_null: "b_data buf = None \<Longrightarrow> buf_content buf = []"
  by (simp add: buf_content_def buf_defs)

lemma buf_content_empty: "b_len buf = 0 \<Longrightarrow> buf_content buf = []"
  by (simp add: buf_content_def buf_defs split: option.split)

text \<open>No C \<^verbatim>\<open>int\<close> overflows in the guards: both sums that the guards form stay below \<open>2 ^ 31\<close>.\<close>

lemma buf_guard_no_overflow:
  assumes "buf_ok buf" and "0 \<le> n" and "n < BUF_SIZE_MAX"
  shows "b_offset buf + b_len buf + n < 2 ^ 31"
  using buf_ok_bounds(4,5) [OF assms(1)] assms(2,3) by (simp add: BUF_SIZE_MAX_def)

lemma buf_ok_len_defined: "buf_ok b \<Longrightarrow> 0 < b_len b \<Longrightarrow> buf_defined b"
  by (erule buf_ok_cases) (auto simp: buf_defined_def)

lemma buf_ok_empty [simp]:
  assumes "buf_ok buf"
  shows "buf_ok (buf\<lparr>b_len := 0\<rparr>)"
  using assms
proof (cases rule: buf_ok_cases)
  case null
  then show ?thesis by (simp add: buf_ok_def)
next
  case (block d)
  then show ?thesis by (intro buf_okI) auto
qed

subsection \<open>Appending and prepending\<close>

lemma buf_write_iff:
  assumes "buf_ok buf"
  shows "fst (buf_write buf src (int (length src))) \<longleftrightarrow>
           buf_defined buf \<and> int (length src) \<le> buf_forward_capacity buf"
  using assms
  by (cases rule: buf_ok_cases)
    (auto simp: buf_write_def buf_defs buf_forward_capacity_def BUF_SIZE_MAX_def)

lemma buf_write_False: "buf_write buf src n = (False, buf') \<Longrightarrow> buf' = buf"
  by (auto simp: buf_write_def buf_defs split: if_splits)

lemma buf_write_True:
  assumes ok: "buf_ok buf" and w: "buf_write buf src n = (True, buf')" and n: "n = int (length src)"
  shows "buf_ok buf'" "buf_content buf' = buf_content buf @ src" "b_len buf' = b_len buf + n"
    "b_offset buf' = b_offset buf" "b_capacity buf' = b_capacity buf" "buf_defined buf'"
    "buf_defined buf"
proof -
  from ok w obtain d where d: "b_data buf = Some d" "0 \<le> b_offset buf" "0 \<le> b_len buf"
      "b_capacity buf = int (length d)" "int (length d) < BUF_SIZE_MAX"
    and fit: "b_offset buf + b_len buf + int (length src) \<le> int (length d)"
    by (cases rule: buf_ok_cases) (auto simp: buf_write_def buf_defs n split: if_splits)
  from d w have buf': "buf' = buf\<lparr>b_len := b_len buf + n,
      b_data := Some (mem_store (nat (b_offset buf + b_len buf)) src d)\<rparr>"
    by (auto simp: buf_write_def buf_defs n split: if_splits)
  from d fit have pos: "nat (b_offset buf + b_len buf) + length src \<le> length d" by linarith
  from d fit pos show okb': "buf_ok buf'" by (intro buf_okI) (simp_all add: buf' n)
  have "buf_content buf' =
      mem_load (nat (b_offset buf)) (nat (b_len buf) + length src)
        (mem_store (nat (b_offset buf + b_len buf)) src d)"
    using d by (subst buf_content_block [OF okb']) (auto simp: buf' n nat_add_distrib)
  also have "\<dots> = buf_content buf @ src"
    using d pos by (simp add: buf_content_block [OF ok d(1)] mem_load_store_append nat_add_distrib)
  finally show "buf_content buf' = buf_content buf @ src" .
qed (use w in \<open>auto simp: buf_write_def buf_defs split: if_splits\<close>)

lemma buf_write_prepend_iff:
  assumes "buf_ok buf"
  shows "fst (buf_write_prepend buf src (int (length src))) \<longleftrightarrow>
           buf_defined buf \<and> int (length src) \<le> b_offset buf"
  using assms
  by (cases rule: buf_ok_cases) (auto simp: buf_write_prepend_def buf_defs Let_def)

lemma buf_write_prepend_False: "buf_write_prepend buf src n = (False, buf') \<Longrightarrow> buf_ok buf \<Longrightarrow> buf' = buf"
  by (auto simp: buf_write_prepend_def buf_defs Let_def split: if_splits)

lemma buf_write_prepend_True:
  assumes ok: "buf_ok buf" and w: "buf_write_prepend buf src n = (True, buf')"
    and n: "n = int (length src)"
  shows "buf_ok buf'" "buf_content buf' = src @ buf_content buf" "b_len buf' = b_len buf + n"
    "b_offset buf' = b_offset buf - n" "b_capacity buf' = b_capacity buf" "buf_defined buf'"
    "buf_defined buf"
proof -
  from ok w obtain d where d: "b_data buf = Some d" "0 \<le> b_len buf"
      "b_capacity buf = int (length d)" "int (length d) < BUF_SIZE_MAX"
      "b_offset buf + b_len buf \<le> int (length d)"
    and fit: "int (length src) \<le> b_offset buf"
    by (cases rule: buf_ok_cases) (auto simp: buf_write_prepend_def buf_defs n Let_def split: if_splits)
  from d fit w have buf': "buf' = buf\<lparr>b_offset := b_offset buf - n, b_len := b_len buf + n,
      b_data := Some (mem_store (nat (b_offset buf - n)) src d)\<rparr>"
    by (auto simp: buf_write_prepend_def buf_defs n Let_def split: if_splits)
  from d fit have pos: "nat (b_offset buf - n) + length src = nat (b_offset buf)"
    "nat (b_offset buf) + nat (b_len buf) \<le> length d" by (simp_all add: n)
  from d fit pos show okb': "buf_ok buf'" by (intro buf_okI) (simp_all add: buf' n)
  have "buf_content buf' =
      mem_load (nat (b_offset buf - n)) (length src + nat (b_len buf))
        (mem_store (nat (b_offset buf - n)) src d)"
    using d by (subst buf_content_block [OF okb']) (auto simp: buf' n nat_add_distrib add.commute)
  also have "\<dots> = src @ buf_content buf"
    using pos by (simp add: buf_content_block [OF ok d(1)] mem_load_store_prepend)
  finally show "buf_content buf' = src @ buf_content buf" .
qed (use w in \<open>auto simp: buf_write_prepend_def buf_defs Let_def split: if_splits\<close>)

subsection \<open>Consuming\<close>

lemma buf_read_alloc_Some:
  assumes ok: "buf_ok buf" and n: "0 \<le> n" "n \<le> b_len buf" and d: "b_data buf = Some d"
  defines "buf' \<equiv> buf\<lparr>b_offset := b_offset buf + n, b_len := b_len buf - n\<rparr>"
  shows "buf_read_alloc buf n = (Some (b_offset buf), buf')"
    "buf_ok buf'" "buf_content buf' = drop (nat n) (buf_content buf)"
    "buf_load buf (b_offset buf) n = take (nat n) (buf_content buf)"
proof -
  show "buf_read_alloc buf n = (Some (b_offset buf), buf')"
    using ok n d by (auto simp: buf_defs buf'_def)
  show okb': "buf_ok buf'" using ok n d by (cases rule: buf_ok_cases) (auto simp: buf'_def intro: buf_okI)
  have d': "b_data buf' = Some d" by (simp add: buf'_def d)
  show "buf_content buf' = drop (nat n) (buf_content buf)"
    using ok n
    by (simp add: buf_content_block [OF ok d] buf_content_block [OF okb' d'] drop_mem_load)
      (simp add: buf'_def nat_add_distrib nat_diff_distrib)
  show "buf_load buf (b_offset buf) n = take (nat n) (buf_content buf)"
    using n by (simp add: buf_content_block [OF ok d] take_mem_load buf_load_def d nat_mono)
qed

text \<open>A read succeeds exactly when the buffer holds enough bytes, and it returns and removes them.\<close>

lemma buf_read_Some:
  assumes ok: "buf_ok buf" and r: "buf_read buf n = (Some bs, buf')"
  shows "0 \<le> n" "n \<le> b_len buf" "bs = take (nat n) (buf_content buf)"
    "buf_content buf' = drop (nat n) (buf_content buf)" "buf_ok buf'"
    "b_len buf' = b_len buf - n" "b_capacity buf' = b_capacity buf"
    "b_offset buf' = b_offset buf + n" "length bs = nat n"
proof -
  from r show n: "0 \<le> n" "n \<le> b_len buf" by (auto simp: buf_read_def buf_defs split: if_splits)
  from ok r obtain d where d: "b_data buf = Some d"
    by (cases rule: buf_ok_cases) (auto simp: buf_read_def buf_defs split: if_splits)
  note alloc = buf_read_alloc_Some [OF ok n d]
  from r alloc show bs: "bs = take (nat n) (buf_content buf)"
    by (simp add: buf_read_def) (auto simp: buf_load_def)
  from r alloc have b': "buf' = buf\<lparr>b_offset := b_offset buf + n, b_len := b_len buf - n\<rparr>"
    by (simp add: buf_read_def)
  from alloc show "buf_content buf' = drop (nat n) (buf_content buf)" "buf_ok buf'"
    by (simp_all add: b')
  from ok n show "b_len buf' = b_len buf - n" "b_capacity buf' = b_capacity buf"
    "b_offset buf' = b_offset buf + n" "length bs = nat n"
    by (simp_all add: b' bs min_absorb2 nat_mono)
qed

lemma buf_read_None:
  "buf_ok buf \<Longrightarrow> 0 < n \<Longrightarrow> fst (buf_read buf n) = None \<longleftrightarrow> b_len buf < n"
  by (cases rule: buf_ok_cases) (auto simp: buf_read_def buf_defs)

lemma buf_read_None_same:
  "buf_ok buf \<Longrightarrow> 0 < n \<Longrightarrow> buf_read buf n = (None, buf') \<Longrightarrow> buf' = buf"
  by (cases rule: buf_ok_cases) (auto simp: buf_read_def buf_defs split: if_splits)

lemma buf_read_prefix:
  assumes ok: "buf_ok buf" and c: "buf_content buf = bs @ rest" and n: "n = int (length bs)" "0 < n"
  obtains buf' where "buf_read buf n = (Some bs, buf')" "buf_ok buf'" "buf_content buf' = rest"
    "b_len buf' = b_len buf - n" "b_offset buf' = b_offset buf + n" "b_capacity buf' = b_capacity buf"
proof -
  from ok have "nat (b_len buf) = length bs + length rest"
    using length_buf_content [OF ok] c by simp
  then have len: "n \<le> b_len buf" using n by linarith
  obtain r buf' where r: "buf_read buf n = (r, buf')" by fastforce
  with len buf_read_None [OF ok n(2)] obtain bs' where r': "r = Some bs'" by (cases r) auto
  from buf_read_Some [OF ok r [unfolded r']] that r r' show thesis by (simp add: c n(1))
qed

lemma buf_advance_True:
  assumes ok: "buf_ok buf" and a: "buf_advance buf n = (True, buf')"
  shows "0 \<le> n" "n \<le> b_len buf" "buf_ok buf'" "buf_content buf' = drop (nat n) (buf_content buf)"
    "b_len buf' = b_len buf - n" "b_offset buf' = b_offset buf + n"
    "b_capacity buf' = b_capacity buf"
proof -
  from a show n: "0 \<le> n" "n \<le> b_len buf" by (auto simp: buf_defs split: if_splits)
  from a obtain d where d: "b_data buf = Some d" by (auto simp: buf_defs split: if_splits)
  from a have b': "buf' = buf\<lparr>b_offset := b_offset buf + n, b_len := b_len buf - n\<rparr>"
    by (auto simp: buf_defs split: if_splits)
  from buf_read_alloc_Some [OF ok n d] show "buf_ok buf'"
    "buf_content buf' = drop (nat n) (buf_content buf)" by (simp_all add: b')
qed (use a in \<open>auto simp: buf_defs split: if_splits\<close>)

lemma buf_advance_iff:
  "buf_ok buf \<Longrightarrow> fst (buf_advance buf n) \<longleftrightarrow> buf_defined buf \<and> 0 \<le> n \<and> n \<le> b_len buf"
  by (cases rule: buf_ok_cases) (auto simp: buf_defs)

subsection \<open>Initialisation and copying\<close>

lemma alloc_buf_ok:
  assumes "alloc_buf n = Some buf" and "0 \<le> n" and "n < 2 ^ 64"
  shows "buf_ok buf" "buf_content buf = []" "b_capacity buf = n" "buf_defined buf"
    "b_offset buf = 0" "b_len buf = 0"
  using assms
  by (auto simp: alloc_buf_def buf_content_empty buf_defs intro!: buf_okI split: if_splits)

lemma buf_init_True:
  assumes "buf_ok buf" and "buf_init buf off = (True, buf')"
  shows "buf_ok buf'" "buf_content buf' = []" "b_offset buf' = off" "b_len buf' = 0"
    "b_capacity buf' = b_capacity buf" "buf_defined buf'" "b_data buf' = b_data buf" "0 \<le> off"
    "off \<le> b_capacity buf"
  using assms
  by (auto elim!: buf_ok_cases simp: buf_content_empty buf_defs intro!: buf_okI split: if_splits)

lemma buf_init_iff: "fst (buf_init buf off) \<longleftrightarrow> 0 \<le> off \<and> off \<le> b_capacity buf \<and> buf_defined buf"
  by (auto simp: buf_init_def buf_defs)

lemma buf_copy_True:
  assumes "buf_ok dest" and "buf_ok src" and "buf_copy dest src = (True, dest')"
  shows "buf_ok dest'" "buf_content dest' = buf_content dest @ buf_content src"
    "b_len dest' = b_len dest + b_len src" "b_offset dest' = b_offset dest"
    "b_capacity dest' = b_capacity dest"
proof -
  have w: "buf_write dest (buf_content src) (int (length (buf_content src))) = (True, dest')"
    using assms by (simp add: buf_copy_def)
  from buf_write_True [OF assms(1) w] assms(2) show "buf_ok dest'"
    "buf_content dest' = buf_content dest @ buf_content src"
    "b_len dest' = b_len dest + b_len src" "b_offset dest' = b_offset dest"
    "b_capacity dest' = b_capacity dest"
    by simp_all
qed

lemma buf_assign_True:
  assumes "buf_ok dest" and "buf_ok src" and "buf_assign dest src = (True, dest')"
  shows "buf_ok dest'" "buf_content dest' = buf_content src" "b_offset dest' = b_offset src"
proof -
  from assms(3) obtain d1 where i: "buf_init dest (b_offset src) = (True, d1)"
    and w: "buf_write d1 (buf_content src) (buf_len src) = (True, dest')"
    by (auto simp: buf_assign_def split: prod.splits bool.splits)
  note i' = buf_init_True [OF assms(1) i]
  have "buf_write d1 (buf_content src) (int (length (buf_content src))) = (True, dest')"
    using w assms(2) by simp
  from buf_write_True [OF i'(1) this] i' show "buf_ok dest'" "buf_content dest' = buf_content src"
    "b_offset dest' = b_offset src" by simp_all
qed

lemma clone_buf_content:
  assumes "buf_ok buf" and "length blk = nat (b_capacity buf)"
  shows "buf_content (clone_buf blk buf) = buf_content buf" "buf_ok (clone_buf blk buf)"
proof -
  have le: "nat (b_offset buf) + nat (b_len buf) \<le> length blk" "0 \<le> b_capacity buf"
    using buf_ok_bounds [OF assms(1)] assms(2) by linarith+
  have c: "clone_buf blk buf = \<lparr>b_capacity = b_capacity buf, b_offset = b_offset buf,
      b_len = b_len buf, b_data = Some (mem_store (nat (b_offset buf)) (buf_content buf) blk)\<rparr>"
    using assms by (simp add: clone_buf_def buf_defs Let_def)
  show ok: "buf_ok (clone_buf blk buf)"
    using assms le buf_ok_bounds [OF assms(1)] by (intro buf_okI) (simp_all add: c)
  show "buf_content (clone_buf blk buf) = buf_content buf"
    using assms le mem_load_store [of "nat (b_offset buf)" "buf_content buf" blk]
    by (subst buf_content_block [OF ok]) (simp_all add: c)
qed

subsection \<open>Sub-buffers\<close>

lemma buf_sub_Some:
  assumes ok: "buf_ok buf" and s: "buf_sub buf sz prepend = (sub, buf', p)" and d: "buf_defined sub"
    and sz: "0 \<le> sz"
  shows "buf_ok sub" "b_capacity sub = sz" "b_len sub = 0" "b_offset sub = 0"
    "length (the (b_data sub)) = nat sz"
proof -
  have "sub = \<lparr>b_capacity = sz, b_offset = 0, b_len = 0, b_data = Some (buf_load buf' p sz)\<rparr>
      \<and> sz < BUF_SIZE_MAX \<and> length (buf_load buf' p sz) = nat sz"
    using ok
  proof (cases rule: buf_ok_cases)
    case (block bs)
    then have "nat (b_offset buf - sz) + nat sz \<le> length bs" if "sz \<le> b_offset buf" using that sz by linarith
    moreover have "nat (b_offset buf + b_len buf) + nat sz \<le> length bs"
      if "b_offset buf + b_len buf + sz \<le> int (length bs)" using that sz block by linarith
    ultimately show ?thesis using s d sz block
      by (auto simp: buf_sub_def clear_buf_def buf_defs BUF_SIZE_MAX_def Let_def
          split: if_splits option.splits)
  qed (use s d in \<open>auto simp: buf_sub_def clear_buf_def buf_defs Let_def split: if_splits\<close>)
  then show "buf_ok sub" "b_capacity sub = sz" "b_len sub = 0" "b_offset sub = 0"
    "length (the (b_data sub)) = nat sz"
    using sz by (auto intro!: buf_okI)
qed

text \<open>
  Writing a sub-buffer's whole block and letting the parent see it is the same as appending, or
  prepending, the block to the parent.
\<close>

lemma buf_sub_commit_write:
  assumes "buf_sub buf sz False = (sub, buf', p)" and "buf_defined sub"
    and "b_data sub' = Some bs" and "length bs = nat sz"
  shows "buf_write buf bs sz = (True, buf_sub_commit sub' buf' p)"
  using assms
  by (auto simp: buf_sub_def buf_sub_commit_def buf_write_def clear_buf_def buf_defined_def
      split: prod.splits option.splits)

lemma buf_sub_commit_prepend:
  assumes "buf_sub buf sz True = (sub, buf', p)" and "buf_defined sub"
    and "b_data sub' = Some bs" and "length bs = nat sz"
  shows "buf_write_prepend buf bs sz = (True, buf_sub_commit sub' buf' p)"
  using assms
  by (auto simp: buf_sub_def buf_sub_commit_def buf_write_prepend_def clear_buf_def buf_defined_def
      split: prod.splits option.splits)

subsection \<open>Copying between buffers\<close>

lemma buf_copy_n_True:
  assumes dest: "buf_ok dest" and src: "buf_ok src" and c: "buf_copy_n dest src n = (True, dest', src')"
  shows "0 \<le> n" "n \<le> b_len src" "buf_ok dest'" "buf_ok src'"
    "buf_content dest' = buf_content dest @ take (nat n) (buf_content src)"
    "buf_content src' = drop (nat n) (buf_content src)"
    "b_offset dest' = b_offset dest" "b_capacity dest' = b_capacity dest"
    "b_len dest' = b_len dest + n" "b_len src' = b_len src - n" "b_capacity src' = b_capacity src"
proof -
  from c obtain bs where r: "buf_read src n = (Some bs, src')"
    and w: "buf_write dest bs n = (True, dest')"
    by (auto simp: buf_copy_n_def buf_read_def split: prod.splits option.splits)
  note r' = buf_read_Some [OF src r]
  have n: "n = int (length bs)" using r' by simp
  note w' = buf_write_True [OF dest w n]
  from r' w' show "0 \<le> n" "n \<le> b_len src" "buf_ok dest'" "buf_ok src'"
    "buf_content dest' = buf_content dest @ take (nat n) (buf_content src)"
    "buf_content src' = drop (nat n) (buf_content src)"
    "b_offset dest' = b_offset dest" "b_capacity dest' = b_capacity dest"
    "b_len dest' = b_len dest + n" "b_len src' = b_len src - n" "b_capacity src' = b_capacity src"
    by simp_all
qed

lemma buf_copy_n_iff:
  assumes "buf_ok dest" and "buf_ok src" and "0 \<le> n"
  shows "fst (buf_copy_n dest src n) \<longleftrightarrow>
           n \<le> b_len src \<and> buf_defined src \<and> buf_defined dest \<and> n \<le> buf_forward_capacity dest"
proof (cases "n \<le> b_len src \<and> buf_defined src")
  case True
  then obtain d where d: "b_data src = Some d" by (auto simp: buf_defined_def)
  note alloc = buf_read_alloc_Some [OF assms(2,3) _ d]
  have len: "int (length (buf_load src (b_offset src) n)) = n"
    using True assms alloc(4) by (simp add: min_absorb2 nat_mono)
  have "fst (buf_copy_n dest src n) = fst (buf_write dest (buf_load src (b_offset src) n) n)"
    using True alloc by (simp add: buf_copy_n_def buf_load_def split: prod.split)
  with buf_write_iff [OF assms(1), of "buf_load src (b_offset src) n"] len True show ?thesis by simp
next
  case False
  then have "fst (buf_copy_n dest src n) = False"
    using assms by (auto simp: buf_copy_n_def buf_read_alloc_def buf_bptr_def buf_valid_def
        buf_defined_def split: prod.splits)
  with False show ?thesis by auto
qed

text \<open>
  \<open>buf_copy_range\<close> writes the source bytes at \<open>dest_index\<close> of the destination's content and
  extends the content when they reach beyond its end.
\<close>

lemma buf_copy_range_True:
  assumes dest: "buf_ok dest" and src: "buf_ok src" and dd: "buf_defined dest"
    and c: "buf_copy_range dest i src 0 n = (True, dest')"
  shows "0 \<le> i" "0 \<le> n" "n \<le> b_len src" "buf_ok dest'" "buf_defined dest'"
    "b_len dest' = max (b_len dest) (i + n)" "b_offset dest' = b_offset dest"
    "b_capacity dest' = b_capacity dest" "b_offset dest + i + n \<le> b_capacity dest"
    "the (b_data dest') =
       mem_store (nat (b_offset dest + i)) (take (nat n) (buf_content src)) (the (b_data dest))"
proof -
  from c show i: "0 \<le> i" "0 \<le> n" "n \<le> b_len src" and fit: "b_offset dest + i + n \<le> b_capacity dest"
    by (auto simp: buf_copy_range_def split: if_splits)
  from dd obtain d where d: "b_data dest = Some d" by (auto simp: buf_defined_def)
  have cap: "b_capacity dest = int (length d)" using dest d by (auto elim: buf_ok_cases)
  have load: "buf_load src (b_offset src) n = take (nat n) (buf_content src)"
  proof (cases "b_data src")
    case None
    then show ?thesis by (simp add: buf_load_def buf_content_null)
  next
    case (Some s)
    then show ?thesis by (rule buf_read_alloc_Some(4) [OF src i(2,3)])
  qed
  have len: "length (take (nat n) (buf_content src)) = nat n" using src i by (simp add: nat_mono)
  have b': "dest' = dest\<lparr>b_len := max (b_len dest) (i + n),
      b_data := Some (mem_store (nat (b_offset dest + i)) (take (nat n) (buf_content src)) d)\<rparr>"
    using c i fit d load by (auto simp: buf_copy_range_def buf_store_def Let_def max_def split: if_splits)
  have pos: "nat (b_offset dest + i) + nat n \<le> length d"
    using fit cap i buf_ok_bounds(3) [OF dest] by linarith
  show "buf_ok dest'" using dest i fit len pos cap buf_ok_bounds(4,5) [OF dest]
    by (intro buf_okI) (auto simp: b' max_def)
  show "buf_defined dest'" "b_len dest' = max (b_len dest) (i + n)" "b_offset dest' = b_offset dest"
    "b_capacity dest' = b_capacity dest"
    "the (b_data dest') =
       mem_store (nat (b_offset dest + i)) (take (nat n) (buf_content src)) (the (b_data dest))"
    by (simp_all add: b' d buf_defined_def)
qed

lemma buf_copy_excess_True:
  assumes dest: "buf_ok dest" and src: "buf_ok src"
    and c: "buf_copy_excess dest src n = (True, dest', src')"
  shows "buf_ok dest'" "buf_ok src'" "0 \<le> n"
    "buf_content src' = take (nat n) (buf_content src)"
    "buf_content dest' = buf_content dest @ drop (nat n) (buf_content src)"
proof -
  from c show n: "0 \<le> n" by (auto simp: buf_copy_excess_def split: if_splits)
  have "buf_ok dest' \<and> buf_ok src' \<and> buf_content src' = take (nat n) (buf_content src)
    \<and> buf_content dest' = buf_content dest @ drop (nat n) (buf_content src)"
  proof (cases "n < b_len src")
    case False
    then have le: "nat (b_len src) \<le> nat n" by simp
    from False c n have "dest' = dest" "src' = src" by (auto simp: buf_copy_excess_def)
    with dest src le show ?thesis by simp
  next
    case True
    with c n obtain b' where a: "buf_advance src n = (True, b')"
      and w: "buf_copy dest b' = (True, dest')" and s': "src' = src\<lparr>b_len := n\<rparr>"
      by (auto simp: buf_copy_excess_def Let_def split: prod.splits bool.splits)
    note a' = buf_advance_True [OF src a]
    note w' = buf_copy_True [OF dest a'(3) w]
    from a obtain d where d: "b_data src = Some d" by (auto simp: buf_defs split: if_splits)
    have ok': "buf_ok src'" using src d True n by (cases rule: buf_ok_cases) (auto simp: s' intro!: buf_okI)
    have "buf_content src' = take (nat n) (buf_content src)"
      using True n d by (subst buf_content_block [OF ok', of d])
        (simp_all add: buf_content_block [OF src d] take_mem_load nat_mono s')
    with a' w' ok' show ?thesis by simp
  qed
  then show "buf_ok dest'" "buf_ok src'" "buf_content src' = take (nat n) (buf_content src)"
    "buf_content dest' = buf_content dest @ drop (nat n) (buf_content src)" by auto
qed

subsection \<open>Encoded values in buffers\<close>

text \<open>Whatever has a fixed-width encoding can be written to a buffer and read back.\<close>

context codec
begin

lemma buf_write_enc:
  assumes "buf_ok buf" and "ok x" and "buf_write buf (enc x) (int width) = (True, buf')"
  shows "buf_ok buf'" "buf_content buf' = buf_content buf @ enc x"
    "b_len buf' = b_len buf + int width" "b_offset buf' = b_offset buf"
    "b_capacity buf' = b_capacity buf"
  using buf_write_True [OF assms(1,3)] assms(2) by (simp_all add: enc_width)

lemma buf_write_enc_iff:
  "buf_ok buf \<Longrightarrow> ok x \<Longrightarrow>
   fst (buf_write buf (enc x) (int width)) \<longleftrightarrow> buf_defined buf \<and> int width \<le> buf_forward_capacity buf"
  using buf_write_iff [of buf "enc x"] by (simp add: enc_width)

lemma buf_read_enc:
  assumes "buf_ok buf" and "ok x" and "0 < width" and "buf_content buf = enc x @ rest"
  obtains buf' where "buf_read buf (int width) = (Some (enc x), buf')" "buf_ok buf'"
    "buf_content buf' = rest" "b_len buf' = b_len buf - int width" "dec (enc x) = x"
    "b_offset buf' = b_offset buf + int width" "b_capacity buf' = b_capacity buf"
proof -
  have n: "int width = int (length (enc x))" "0 < int width"
    using assms by (simp_all add: enc_width)
  show thesis
    by (rule buf_read_prefix [OF assms(1,4) n]) (rule that, assumption+, simp_all add: dec_enc assms(2))
qed

end

end
