(* ===== verification/Circ_List.thy ===== *)
theory Circ_List
  imports Integers
begin

section \<open>Circular lists (circ_list.h)\<close>

text \<open>
  The \<^verbatim>\<open>CIRC_LIST\<close> macros: a ring of \<^verbatim>\<open>x_cap\<close> slots whose index 0 is the item pushed last. A push
  into a full ring overwrites the oldest item. The field \<^verbatim>\<open>x_sizeof\<close>, which only a debug message
  prints, is left out.
\<close>

record 'a circ_list =
  x_head :: int
  x_size :: int
  x_cap :: int
  x_list :: "'a list"

definition circ_push :: "'a circ_list \<Rightarrow> 'a \<Rightarrow> 'a circ_list exec" where
  "circ_push obj item = (do {
     h \<leftarrow> modulo_add (x_head obj) (- 1) (x_cap obj);
     Some (obj\<lparr>x_head := h, x_list := (x_list obj)[nat h := item],
               x_size := min_int (x_size obj + 1) (x_cap obj)\<rparr>) })"

definition circ_index :: "'a circ_list \<Rightarrow> int \<Rightarrow> int exec" where
  "circ_index obj index = (do {
     i \<leftarrow> index_verify index (x_size obj);
     modulo_add (x_head obj) i (x_cap obj) })"

definition circ_item :: "'a circ_list \<Rightarrow> int \<Rightarrow> 'a exec" where
  "circ_item obj index = (do { k \<leftarrow> circ_index obj index; Some (x_list obj ! nat k) })"

text \<open>\<^verbatim>\<open>CIRC_LIST_ITEM(obj, index) = v\<close>: the macro used as the target of an assignment.\<close>

definition circ_assign :: "'a circ_list \<Rightarrow> int \<Rightarrow> 'a \<Rightarrow> 'a circ_list exec" where
  "circ_assign obj index v =
     (do { k \<leftarrow> circ_index obj index; Some (obj\<lparr>x_list := (x_list obj)[nat k := v]\<rparr>) })"

definition circ_reset :: "'a circ_list \<Rightarrow> 'a circ_list" where
  "circ_reset obj = obj\<lparr>x_head := 0, x_size := 0\<rparr>"

text \<open>\<^verbatim>\<open>memset\<close> zeroes the slots; \<open>z\<close> is the value of the element type with all bits 0.\<close>

definition circ_alloc :: "'a \<Rightarrow> int \<Rightarrow> 'a circ_list" where
  "circ_alloc z n = \<lparr>x_head = 0, x_size = 0, x_cap = n, x_list = replicate (nat n) z\<rparr>"

subsection \<open>Interface: a bounded window of the most recent items\<close>

text \<open>
  What a client relies on: the view is a list, most recent item first; a push drops what no longer
  fits; items can be read and overwritten by index; nothing aborts inside the view.
\<close>

locale recent_window =
  fixes push :: "'s \<Rightarrow> 'a \<Rightarrow> 's exec" and item :: "'s \<Rightarrow> int \<Rightarrow> 'a exec"
    and assign :: "'s \<Rightarrow> int \<Rightarrow> 'a \<Rightarrow> 's exec" and reset :: "'s \<Rightarrow> 's"
    and view :: "'s \<Rightarrow> 'a list" and cap :: "'s \<Rightarrow> nat" and invar :: "'s \<Rightarrow> bool"
  assumes push_law: "invar s \<Longrightarrow>
      \<exists>s'. push s v = Some s' \<and> invar s' \<and> cap s' = cap s \<and> view s' = take (cap s) (v # view s)"
    and item_law: "invar s \<Longrightarrow> item s (int i) = (if i < length (view s) then Some (view s ! i) else None)"
    and assign_law: "invar s \<Longrightarrow> i < length (view s) \<Longrightarrow>
      \<exists>s'. assign s (int i) v = Some s' \<and> invar s' \<and> cap s' = cap s \<and> view s' = (view s)[i := v]"
    and reset_law: "invar s \<Longrightarrow> invar (reset s) \<and> view (reset s) = [] \<and> cap (reset s) = cap s"
    and view_bound: "invar s \<Longrightarrow> length (view s) \<le> cap s"
begin

fun push_many :: "nat \<Rightarrow> 'a \<Rightarrow> 's \<Rightarrow> 's exec" where
  "push_many 0 v s = Some s"
| "push_many (Suc n) v s = Option.bind (push s v) (push_many n v)"

lemma push_many_law:
  "invar s \<Longrightarrow> \<exists>s'. push_many n v s = Some s' \<and> invar s' \<and> cap s' = cap s
      \<and> view s' = take (cap s) (replicate n v @ view s)"
proof (induction n arbitrary: s)
  case 0
  then show ?case using view_bound by simp
next
  case (Suc n)
  from push_law [OF Suc.prems, of v] obtain s1 where s1: "push s v = Some s1" "invar s1"
    "cap s1 = cap s" "view s1 = take (cap s) (v # view s)" by blast
  from Suc.IH [OF s1(2)] obtain s2 where s2: "push_many n v s1 = Some s2" "invar s2"
    "cap s2 = cap s" "view s2 = take (cap s) (replicate n v @ view s1)" using s1(3) by auto
  have "take (cap s) (replicate n v @ take (cap s) (v # view s)) =
      take (cap s) (replicate n v @ v # view s)"
    by (simp add: min_def)
  moreover have "replicate n v @ v # view s = replicate (Suc n) v @ view s"
    by (simp add: replicate_app_Cons_same)
  ultimately show ?case using s1 s2 by simp
qed

end

subsection \<open>The ring implements the interface\<close>

definition circ_invar :: "'a circ_list \<Rightarrow> bool" where
  "circ_invar l \<longleftrightarrow> 0 < x_cap l \<and> length (x_list l) = nat (x_cap l) \<and> 0 \<le> x_head l
     \<and> x_head l < x_cap l \<and> 0 \<le> x_size l \<and> x_size l \<le> x_cap l"

definition circ_slot :: "'a circ_list \<Rightarrow> nat \<Rightarrow> nat" where
  "circ_slot l i = nat ((x_head l + int i) mod x_cap l)"

definition circ_view :: "'a circ_list \<Rightarrow> 'a list" where
  "circ_view l = map (\<lambda>i. x_list l ! circ_slot l i) [0..<nat (x_size l)]"

lemma length_circ_view [simp]: "length (circ_view l) = nat (x_size l)"
  by (simp add: circ_view_def)

lemma nth_circ_view: "i < nat (x_size l) \<Longrightarrow> circ_view l ! i = x_list l ! circ_slot l i"
  by (simp add: circ_view_def)

lemma circ_slot_less: "circ_invar l \<Longrightarrow> circ_slot l i < length (x_list l)"
  by (simp add: circ_invar_def circ_slot_def nat_less_iff)

lemma circ_slot_inject:
  assumes "circ_invar l" and "int i < x_cap l" and "int j < x_cap l" and "circ_slot l i = circ_slot l j"
  shows "i = j"
proof -
  have c: "0 < x_cap l" using assms(1) by (simp add: circ_invar_def)
  from assms(4) c have "(x_head l + int i) mod x_cap l = (x_head l + int j) mod x_cap l"
    by (simp add: circ_slot_def nat_eq_iff2)
  then have "int i mod x_cap l = int j mod x_cap l" by (simp add: mod_eq_dvd_iff)
  with assms(2,3) show ?thesis by simp
qed

lemma circ_index_slot:
  "circ_invar l \<Longrightarrow> circ_index l (int i) = (if i < nat (x_size l) then Some (int (circ_slot l i)) else None)"
  by (auto simp: circ_index_def index_verify_def circ_invar_def modulo_add_mod circ_slot_def)

lemma circ_item_law:
  "circ_invar l \<Longrightarrow>
   circ_item l (int i) = (if i < length (circ_view l) then Some (circ_view l ! i) else None)"
  by (simp add: circ_item_def circ_index_slot nth_circ_view)

lemma circ_assign_law:
  assumes "circ_invar l" and "i < length (circ_view l)"
  shows "\<exists>l'. circ_assign l (int i) v = Some l' \<and> circ_invar l' \<and> nat (x_cap l') = nat (x_cap l)
            \<and> circ_view l' = (circ_view l)[i := v]"
proof -
  let ?l' = "l\<lparr>x_list := (x_list l)[circ_slot l i := v]\<rparr>"
  have slot: "circ_slot ?l' j = circ_slot l j" for j by (simp add: circ_slot_def)
  have "circ_view ?l' = (circ_view l)[i := v]"
  proof (rule nth_equalityI)
    fix j assume "j < length (circ_view ?l')"
    then have j: "j < nat (x_size l)" by simp
    have "int i < x_cap l" "int j < x_cap l"
      using assms j unfolding circ_invar_def length_circ_view by linarith+
    then have "circ_slot l i = circ_slot l j \<longleftrightarrow> i = j"
      using circ_slot_inject [OF assms(1)] by blast
    then show "circ_view ?l' ! j = (circ_view l)[i := v] ! j"
      using assms j circ_slot_less [OF assms(1)] by (simp add: nth_circ_view slot nth_list_update)
  qed simp
  moreover have "circ_assign l (int i) v = Some ?l'"
    using assms by (simp add: circ_assign_def circ_index_slot)
  moreover have "circ_invar ?l'" using assms(1) by (simp add: circ_invar_def)
  ultimately show ?thesis by (intro exI [of _ ?l']) simp
qed

lemma circ_push_law:
  assumes "circ_invar l"
  shows "\<exists>l'. circ_push l v = Some l' \<and> circ_invar l' \<and> nat (x_cap l') = nat (x_cap l)
            \<and> circ_view l' = take (nat (x_cap l)) (v # circ_view l)"
proof -
  let ?h = "(x_head l - 1) mod x_cap l"
  let ?l' = "l\<lparr>x_head := ?h, x_list := (x_list l)[nat ?h := v], x_size := min (x_size l + 1) (x_cap l)\<rparr>"
  have c: "0 < x_cap l" and h: "0 \<le> ?h" "?h < x_cap l" using assms by (simp_all add: circ_invar_def)
  have push: "circ_push l v = Some ?l'"
    using assms by (simp add: circ_push_def modulo_add_mod circ_invar_def)
  have inv: "circ_invar ?l'" using assms h by (simp add: circ_invar_def)
  have slot0: "circ_slot ?l' 0 = nat ?h" using h by (simp add: circ_slot_def)
  have slotS: "circ_slot ?l' (Suc j) = circ_slot l j" for j
  proof -
    have "(?h + int (Suc j)) mod x_cap l = (x_head l - 1 + int (Suc j)) mod x_cap l"
      by (rule mod_add_left_eq)
    also have "x_head l - 1 + int (Suc j) = x_head l + int j" by simp
    finally show ?thesis by (simp add: circ_slot_def)
  qed
  have "circ_view ?l' = take (nat (x_cap l)) (v # circ_view l)"
  proof (rule nth_equalityI)
    show "length (circ_view ?l') = length (take (nat (x_cap l)) (v # circ_view l))"
      using assms by (auto simp: circ_invar_def min_def)
  next
    fix i assume "i < length (circ_view ?l')"
    then have i: "i < nat (min (x_size l + 1) (x_cap l))" by simp
    show "circ_view ?l' ! i = take (nat (x_cap l)) (v # circ_view l) ! i"
    proof (cases i)
      case 0
      then show ?thesis using i h assms by (simp add: nth_circ_view slot0 circ_invar_def)
    next
      case (Suc j)
      have "int (Suc j) < x_cap l" using i Suc by linarith
      then have "circ_slot l j \<noteq> nat ?h"
        using circ_slot_inject [OF inv, of "Suc j" 0] i Suc slot0 slotS [of j] c by auto
      then show ?thesis using i Suc by (simp add: nth_circ_view slotS)
    qed
  qed
  with push inv show ?thesis by (intro exI [of _ ?l']) simp
qed

interpretation circ: recent_window circ_push circ_item circ_assign circ_reset circ_view
  "\<lambda>l. nat (x_cap l)" circ_invar
proof unfold_locales
  fix s :: "'a circ_list"
  assume "circ_invar s"
  then show "circ_invar (circ_reset s) \<and> circ_view (circ_reset s) = [] \<and>
      nat (x_cap (circ_reset s)) = nat (x_cap s)"
    by (simp add: circ_reset_def circ_invar_def circ_view_def)
qed (simp_all add: circ_push_law circ_item_law circ_assign_law, simp add: circ_invar_def nat_mono)

lemma circ_alloc_invar: "0 < n \<Longrightarrow> circ_invar (circ_alloc z n) \<and> circ_view (circ_alloc z n) = []
    \<and> x_cap (circ_alloc z n) = n"
  by (simp add: circ_alloc_def circ_invar_def circ_view_def)

end
