(* ===== verification/Packet_Id.thy ===== *)
theory Packet_Id
  imports Buffer Circ_List
begin

section \<open>Packet identifiers and replay protection (packet_id.h, packet_id.c, crypto.c)\<close>

text \<open>
  The sender numbers its packets; the receiver accepts each number at most once, inside a sliding
  window when packets may be reordered (UDP), or strictly in sequence (TCP). \<^verbatim>\<open>now\<close> is a global
  variable of the program and an argument of the model. \<^verbatim>\<open>packet_id_type\<close> and \<^verbatim>\<open>net_time_t\<close> are
  32-bit words, \<^verbatim>\<open>time_t\<close> is an integer.
\<close>

subsection \<open>State\<close>

definition SEQ_UNSEEN :: int where "SEQ_UNSEEN = 0"

definition SEQ_EXPIRED :: int where "SEQ_EXPIRED = 1"

definition PACKET_ID_MAX :: u32 where "PACKET_ID_MAX = 0xFFFFFFFF"

definition PACKET_ID_WRAP_TRIGGER :: u32 where "PACKET_ID_WRAP_TRIGGER = 0xFF000000"

definition MIN_SEQ_BACKTRACK :: int where "MIN_SEQ_BACKTRACK = 0"

definition MAX_SEQ_BACKTRACK :: int where "MAX_SEQ_BACKTRACK = 65536"

definition MIN_TIME_BACKTRACK :: int where "MIN_TIME_BACKTRACK = 0"

definition MAX_TIME_BACKTRACK :: int where "MAX_TIME_BACKTRACK = 600"

definition SEQ_REAP_INTERVAL :: int where "SEQ_REAP_INTERVAL = 5"

record packet_id_rec =
  r_last_reap :: int
  r_time :: int
  r_id :: u32
  r_seq_backtrack :: int
  r_time_backtrack :: int
  r_max_backtrack_stat :: int
  r_initialized :: bool
  r_seq_list :: "int circ_list option"
  r_name :: string
  r_unit :: int

record packet_id_persist =
  ps_filename :: "string option"
  ps_fd :: int
  ps_time :: int
  ps_id :: u32
  ps_time_last_written :: int
  ps_id_last_written :: u32

record packet_id_send =
  s_id :: u32
  s_time :: int

record packet_id_net =
  pn_id :: u32
  pn_time :: int

record packet_id =
  pid_send :: packet_id_send
  pid_rec :: packet_id_rec

subsection \<open>Initialisation\<close>

definition packet_id_clear :: packet_id where
  "packet_id_clear =
     \<lparr>pid_send = \<lparr>s_id = 0, s_time = 0\<rparr>,
      pid_rec = \<lparr>r_last_reap = 0, r_time = 0, r_id = 0, r_seq_backtrack = 0, r_time_backtrack = 0,
                 r_max_backtrack_stat = 0, r_initialized = False, r_seq_list = None, r_name = [],
                 r_unit = 0\<rparr>\<rparr>"

definition packet_id_init :: "int \<Rightarrow> int \<Rightarrow> string \<Rightarrow> int \<Rightarrow> packet_id exec" where
  "packet_id_init seq_backtrack time_backtrack name uni = (do {
     let rec0 = (pid_rec packet_id_clear)\<lparr>r_name := name, r_unit := uni\<rparr>;
     rec1 \<leftarrow> (if seq_backtrack \<noteq> 0 then do {
                assert_c (MIN_SEQ_BACKTRACK \<le> seq_backtrack \<and> seq_backtrack \<le> MAX_SEQ_BACKTRACK);
                assert_c (MIN_TIME_BACKTRACK \<le> time_backtrack \<and> time_backtrack \<le> MAX_TIME_BACKTRACK);
                Some (rec0\<lparr>r_seq_list := Some (circ_alloc 0 seq_backtrack),
                           r_seq_backtrack := seq_backtrack, r_time_backtrack := time_backtrack\<rparr>) }
              else Some rec0);
     Some (packet_id_clear\<lparr>pid_rec := rec1\<lparr>r_initialized := True\<rparr>\<rparr>) })"

definition packet_id_free :: "packet_id \<Rightarrow> packet_id" where
  "packet_id_free p = packet_id_clear"

definition packet_id_initialized :: "packet_id \<Rightarrow> bool" where
  "packet_id_initialized pid \<longleftrightarrow> r_initialized (pid_rec pid)"

subsection \<open>Receiving\<close>

text \<open>The loop \<^verbatim>\<open>while (p->id < pin->id) { CIRC_LIST_PUSH(...); ++p->id; }\<close>.\<close>

function packet_id_fill :: "u32 \<Rightarrow> u32 \<Rightarrow> int circ_list \<Rightarrow> (u32 \<times> int circ_list) exec" where
  "packet_id_fill i target l =
     (if i < target
      then (case circ_push l SEQ_UNSEEN of None \<Rightarrow> None | Some l' \<Rightarrow> packet_id_fill (i + 1) target l')
      else Some (i, l))"
  by pat_completeness auto
termination
proof (relation "measure (\<lambda>(i, target, l). unat target - unat i)")
  fix i target :: u32 and l l' :: "int circ_list"
  assume "i < target" "circ_push l SEQ_UNSEEN = Some l'"
  then have "unat i < unat target" "unat (i + 1) = Suc (unat i)"
    by (simp_all add: unat_inc) (simp add: word_less_nat_alt)
  then show "((i + 1, target, l'), (i, target, l)) \<in> measure (\<lambda>(i, target, l). unat target - unat i)"
    by simp
qed simp

declare packet_id_fill.simps [simp del]

definition packet_id_add :: "int \<Rightarrow> packet_id_rec \<Rightarrow> packet_id_net \<Rightarrow> packet_id_rec exec" where
  "packet_id_add now p pin =
     (case r_seq_list p of
        Some sl \<Rightarrow> do {
          let sb = (word_of_int (r_seq_backtrack p) :: u32);
          let (p1, sl1) =
            (if x_size sl = 0 \<or> pn_time pin > r_time p
                \<or> (pn_id pin \<ge> sb \<and> pn_id pin - sb > r_id p)
             then (p\<lparr>r_time := pn_time pin, r_id := (if pn_id pin > sb then pn_id pin - sb else 0)\<rparr>,
                   circ_reset sl)
             else (p, sl));
          (i2, sl2) \<leftarrow> packet_id_fill (r_id p1) (pn_id pin) sl1;
          let diff = i2 - pn_id pin;
          sl3 \<leftarrow> (if diff < word_of_int (x_size sl2) \<and> now > SEQ_EXPIRED
                  then circ_assign sl2 (uint diff) now else Some sl2);
          Some (p1\<lparr>r_id := i2, r_seq_list := Some sl3\<rparr>) }
      | None \<Rightarrow> Some (p\<lparr>r_time := pn_time pin, r_id := pn_id pin\<rparr>))"

text \<open>The \<^verbatim>\<open>for\<close> loop of \<^verbatim>\<open>packet_id_reap\<close> from index \<open>i\<close>, with \<open>n\<close> iterations left.\<close>

fun packet_id_reap_loop :: "nat \<Rightarrow> int \<Rightarrow> bool \<Rightarrow> int \<Rightarrow> int \<Rightarrow> int circ_list \<Rightarrow> int circ_list exec" where
  "packet_id_reap_loop 0 i expire time_backtrack now sl = Some sl"
| "packet_id_reap_loop (Suc n) i expire time_backtrack now sl = (do {
     t \<leftarrow> circ_item sl i;
     if t = SEQ_EXPIRED then Some sl
     else do {
       let expire' = (if \<not> expire \<and> t \<noteq> 0 \<and> t + time_backtrack < now then True else expire);
       sl' \<leftarrow> (if expire' then circ_assign sl i SEQ_EXPIRED else Some sl);
       packet_id_reap_loop n (i + 1) expire' time_backtrack now sl' } })"

definition packet_id_reap :: "int \<Rightarrow> packet_id_rec \<Rightarrow> packet_id_rec exec" where
  "packet_id_reap now p = (do {
     p' \<leftarrow> (if r_time_backtrack p \<noteq> 0
            then (case r_seq_list p of
                    None \<Rightarrow> None
                  | Some sl \<Rightarrow> do {
                      sl' \<leftarrow> packet_id_reap_loop (nat (x_size sl)) 0 False (r_time_backtrack p) now sl;
                      Some (p\<lparr>r_seq_list := Some sl'\<rparr>) })
            else Some p);
     Some (p'\<lparr>r_last_reap := now\<rparr>) })"

definition packet_id_reap_test :: "int \<Rightarrow> packet_id_rec \<Rightarrow> packet_id_rec exec" where
  "packet_id_reap_test now p =
     (if r_last_reap p + SEQ_REAP_INTERVAL \<le> now then packet_id_reap now p else Some p)"

text \<open>The test returns its verdict and the record, whose statistics field it may update.\<close>

definition packet_id_test :: "packet_id_rec \<Rightarrow> packet_id_net \<Rightarrow> (bool \<times> packet_id_rec) exec" where
  "packet_id_test p pin = (do {
     assert_c (r_initialized p);
     if pn_id pin = 0 then Some (False, p)
     else if r_seq_backtrack p \<noteq> 0 then
       (if pn_time pin = r_time p then
          (if pn_id pin > r_id p then Some (True, p)
           else do {
             let diff = r_id p - pn_id pin;
             let p' = (if sint diff > r_max_backtrack_stat p
                       then p\<lparr>r_max_backtrack_stat := sint diff\<rparr> else p);
             sl \<leftarrow> r_seq_list p;
             if diff \<ge> word_of_int (x_size sl) then Some (False, p')
             else do { v \<leftarrow> circ_item sl (uint diff); Some (v = 0, p') } })
        else if pn_time pin < r_time p then Some (False, p)
        else Some (True, p))
     else
       (if pn_time pin = r_time p then Some (r_id p = 0 \<or> pn_id pin = r_id p + 1, p)
        else if pn_time pin < r_time p then Some (False, p)
        else Some (pn_id pin = 1, p)) })"

subsection \<open>Sending\<close>

definition packet_id_send_update :: "int \<Rightarrow> packet_id_send \<Rightarrow> bool \<Rightarrow> bool \<times> packet_id_send" where
  "packet_id_send_update now p long_form =
     (let p1 = (if s_time p = 0 then p\<lparr>s_time := now\<rparr> else p) in
      if s_id p1 = PACKET_ID_MAX \<and> (\<not> long_form \<or> now \<le> s_time p1) then (False, p1)
      else let p2 = (if s_id p1 = PACKET_ID_MAX then p1\<lparr>s_time := now, s_id := 0\<rparr> else p1)
           in (True, p2\<lparr>s_id := s_id p2 + 1\<rparr>))"

text \<open>\<^verbatim>\<open>htontime\<close> narrows the time to 32 bits.\<close>

definition packet_id_write ::
    "int \<Rightarrow> packet_id_send \<Rightarrow> buffer \<Rightarrow> bool \<Rightarrow> bool \<Rightarrow> bool \<times> packet_id_send \<times> buffer" where
  "packet_id_write now p buf long_form prepend =
     (case packet_id_send_update now p long_form of
        (False, p') \<Rightarrow> (False, p', buf)
      | (True, p') \<Rightarrow>
          (let net_id = u32_bytes (s_id p'); net_time = u32_bytes (word_of_int (s_time p')) in
           if prepend then
             (case (if long_form then buf_write_prepend buf net_time 4 else (True, buf)) of
                (False, buf1) \<Rightarrow> (False, p', buf1)
              | (True, buf1) \<Rightarrow>
                  (case buf_write_prepend buf1 net_id 4 of (ok, buf2) \<Rightarrow> (ok, p', buf2)))
           else
             (case buf_write buf net_id 4 of
                (False, buf1) \<Rightarrow> (False, p', buf1)
              | (True, buf1) \<Rightarrow>
                  (case (if long_form then buf_write buf1 net_time 4 else (True, buf1)) of
                     (ok, buf2) \<Rightarrow> (ok, p', buf2)))))"

definition packet_id_read :: "buffer \<Rightarrow> bool \<Rightarrow> bool \<times> packet_id_net \<times> buffer" where
  "packet_id_read buf long_form =
     (case buf_read buf 4 of
        (None, buf1) \<Rightarrow> (False, \<lparr>pn_id = 0, pn_time = 0\<rparr>, buf1)
      | (Some net_id, buf1) \<Rightarrow>
          (if long_form then
             (case buf_read buf1 4 of
                (None, buf2) \<Rightarrow> (False, \<lparr>pn_id = bytes_u32 net_id, pn_time = 0\<rparr>, buf2)
              | (Some net_time, buf2) \<Rightarrow>
                  (True, \<lparr>pn_id = bytes_u32 net_id, pn_time = uint (bytes_u32 net_time)\<rparr>, buf2))
           else (True, \<lparr>pn_id = bytes_u32 net_id, pn_time = 0\<rparr>, buf1)))"

definition packet_id_size :: "bool \<Rightarrow> int" where
  "packet_id_size long_form = 4 + (if long_form then 4 else 0)"

definition packet_id_close_to_wrapping :: "packet_id_send \<Rightarrow> bool" where
  "packet_id_close_to_wrapping p \<longleftrightarrow> s_id p \<ge> PACKET_ID_WRAP_TRIGGER"

text \<open>\<^verbatim>\<open>abs\<close> is an \<^verbatim>\<open>unsigned int\<close>: the difference is reduced to 32 bits before it is compared.\<close>

definition check_timestamp_delta :: "int \<Rightarrow> int \<Rightarrow> u32 \<Rightarrow> bool" where
  "check_timestamp_delta now remote max_delta \<longleftrightarrow>
     (if now \<ge> remote then word_of_int (now - remote) else word_of_int (remote - now)) \<le> max_delta"

subsection \<open>Persistence across sessions\<close>

definition packet_id_persist_init :: packet_id_persist where
  "packet_id_persist_init =
     \<lparr>ps_filename = None, ps_fd = -1, ps_time = 0, ps_id = 0, ps_time_last_written = 0,
      ps_id_last_written = 0\<rparr>"

definition packet_id_persist_enabled :: "packet_id_persist \<Rightarrow> bool" where
  "packet_id_persist_enabled p \<longleftrightarrow> ps_fd p \<ge> 0"

text \<open>Closing: the descriptor is closed and the structure disabled; a failing \<^verbatim>\<open>close\<close> is only logged.\<close>

definition packet_id_persist_close :: "packet_id_persist \<Rightarrow> packet_id_persist" where
  "packet_id_persist_close p = (if packet_id_persist_enabled p then packet_id_persist_init else p)"

text \<open>
  The file operations are the environment: \<open>fd\<close> is the result of \<^verbatim>\<open>platform_open\<close>, \<open>img\<close> the record
  that \<^verbatim>\<open>read\<close> returned when it returned a full one. \<open>written\<close> says whether seek and write succeeded.
\<close>

definition packet_id_persist_load ::
    "packet_id_persist \<Rightarrow> string \<Rightarrow> int \<Rightarrow> (int \<times> u32) option \<Rightarrow> packet_id_persist" where
  "packet_id_persist_load p filename fd img =
     (if \<not> packet_id_persist_enabled p then
        (let p1 = p\<lparr>ps_fd := fd\<rparr> in
         if fd = -1 then p1
         else let p2 = p1\<lparr>ps_filename := Some filename\<rparr> in
              case img of
                Some (t, i) \<Rightarrow> p2\<lparr>ps_time := t, ps_time_last_written := t, ps_id := i,
                                  ps_id_last_written := i\<rparr>
              | None \<Rightarrow> p2)
      else p)"

definition packet_id_persist_save ::
    "packet_id_persist \<Rightarrow> bool \<Rightarrow> (int \<times> u32) option \<times> packet_id_persist" where
  "packet_id_persist_save p written =
     (if packet_id_persist_enabled p \<and> ps_time p \<noteq> 0
         \<and> (ps_time p \<noteq> ps_time_last_written p \<or> ps_id p \<noteq> ps_id_last_written p)
      then (if written
            then (Some (ps_time p, ps_id p),
                  p\<lparr>ps_time_last_written := ps_time p, ps_id_last_written := ps_id p\<rparr>)
            else (None, p))
      else (None, p))"

definition packet_id_persist_load_obj :: "packet_id_persist \<Rightarrow> packet_id \<Rightarrow> packet_id" where
  "packet_id_persist_load_obj p pid =
     (if packet_id_persist_enabled p \<and> ps_time p \<noteq> 0
      then pid\<lparr>pid_rec := (pid_rec pid)\<lparr>r_time := ps_time p, r_id := ps_id p\<rparr>\<rparr>
      else pid)"

definition packet_id_persist_save_obj :: "packet_id_persist \<Rightarrow> packet_id \<Rightarrow> packet_id_persist" where
  "packet_id_persist_save_obj p pid =
     (if packet_id_persist_enabled p \<and> r_time (pid_rec pid) \<noteq> 0
      then p\<lparr>ps_time := r_time (pid_rec pid), ps_id := r_id (pid_rec pid)\<rparr>
      else p)"

subsection \<open>The replay check of the data and control channels (crypto.c)\<close>

record crypto_replay =
  cr_packet_id :: packet_id
  cr_pid_persist :: "packet_id_persist option"
  cr_long_form :: bool

definition crypto_check_replay ::
    "int \<Rightarrow> crypto_replay \<Rightarrow> packet_id_net \<Rightarrow> (bool \<times> crypto_replay) exec" where
  "crypto_check_replay now opt pin = (do {
     p1 \<leftarrow> packet_id_reap_test now (pid_rec (cr_packet_id opt));
     (ok, p2) \<leftarrow> packet_id_test p1 pin;
     if ok then do {
       p3 \<leftarrow> packet_id_add now p2 pin;
       let pid = (cr_packet_id opt)\<lparr>pid_rec := p3\<rparr>;
       Some (True, opt\<lparr>cr_packet_id := pid,
         cr_pid_persist := (case cr_pid_persist opt of
            Some ps \<Rightarrow> Some (if cr_long_form opt then packet_id_persist_save_obj ps pid else ps)
          | None \<Rightarrow> None)\<rparr>) }
     else Some (False, opt\<lparr>cr_packet_id := (cr_packet_id opt)\<lparr>pid_rec := p2\<rparr>\<rparr>) })"

end
