(* ===== verification/Replay.thy ===== *)
theory Replay
  imports Packet_Id
begin

section \<open>Replay protection is sound\<close>

text \<open>
  An abstract window over natural numbers and a list of marks specifies the receiver of
  \<^verbatim>\<open>packet_id.c\<close>; the ring-buffer code refines it. Over the specification a packet accepted once is
  never accepted again. The contract of a replay check is a locale, interpreted for the windowed
  (UDP) and the sequential (TCP) mode of \<^const>\<open>crypto_check_replay\<close>.
\<close>

subsection \<open>Specification: a window of marks\<close>

text \<open>\<open>w_marks ! k\<close> is the mark of packet number \<open>w_id - k\<close>: 0 unseen, 1 expired, else the arrival time.\<close>

record window =
  w_time :: int
  w_id :: nat
  w_marks :: "int list"
  w_cap :: nat

definition win_test :: "window \<Rightarrow> int \<Rightarrow> nat \<Rightarrow> bool" where
  "win_test w t i \<longleftrightarrow> i \<noteq> 0 \<and>
     (t > w_time w \<or> t = w_time w \<and>
        (i > w_id w \<or> w_id w - i < length (w_marks w) \<and> w_marks w ! (w_id w - i) = 0))"

definition win_open :: "window \<Rightarrow> int \<Rightarrow> nat \<Rightarrow> window" where
  "win_open w t i =
     (if w_marks w = [] \<or> t > w_time w \<or> i > w_id w + w_cap w
      then w\<lparr>w_time := t, w_id := i - w_cap w, w_marks := []\<rparr> else w)"

definition win_slide :: "window \<Rightarrow> nat \<Rightarrow> window" where
  "win_slide w i = w\<lparr>w_id := max (w_id w) i,
     w_marks := take (w_cap w) (replicate (i - w_id w) 0 @ w_marks w)\<rparr>"

definition win_mark :: "int \<Rightarrow> window \<Rightarrow> nat \<Rightarrow> window" where
  "win_mark now w i = (if w_id w - i < length (w_marks w) \<and> now > 1
     then w\<lparr>w_marks := (w_marks w)[w_id w - i := now]\<rparr> else w)"

definition win_add :: "int \<Rightarrow> window \<Rightarrow> int \<Rightarrow> nat \<Rightarrow> window" where
  "win_add now w t i = win_mark now (win_slide (win_open w t i) i) i"

text \<open>
  Expiry: from the first mark that is too old on, every mark expires; the scan stops at a mark that
  already has.
\<close>

fun reap_marks :: "int \<Rightarrow> int \<Rightarrow> bool \<Rightarrow> int list \<Rightarrow> int list" where
  "reap_marks now tb e [] = []"
| "reap_marks now tb e (t # ts) =
     (if t = 1 then t # ts
      else let e' = (e \<or> t \<noteq> 0 \<and> t + tb < now)
           in (if e' then 1 else t) # reap_marks now tb e' ts)"

lemma length_reap_marks [simp]: "length (reap_marks now tb e ts) = length ts"
  by (induction ts arbitrary: e) (auto simp: Let_def)

lemma reap_marks_marked:
  "k < length ts \<Longrightarrow> ts ! k \<noteq> 0 \<Longrightarrow> reap_marks now tb e ts ! k \<noteq> 0"
  by (induction ts arbitrary: e k) (auto simp: Let_def nth_Cons split: nat.splits)

lemma reap_marks_Nil [simp]: "reap_marks now tb e ts = [] \<longleftrightarrow> ts = []"
  by (cases ts) (auto simp: Let_def)

subsection \<open>The specification never accepts twice\<close>

text \<open>
  \<open>win_covers w H\<close>: the window remembers every packet of \<open>H\<close>, by its time, by having slid past
  it, or by a mark.
\<close>

definition win_covers :: "window \<Rightarrow> (int \<times> nat) set \<Rightarrow> bool" where
  "win_covers w H \<longleftrightarrow> 0 < w_cap w \<and> length (w_marks w) \<le> w_cap w \<and> length (w_marks w) \<le> w_id w
     \<and> (w_marks w = [] \<longrightarrow> H = {})
     \<and> (\<forall>(t, i) \<in> H. t < w_time w \<or> t = w_time w \<and> i \<le> w_id w
          \<and> (w_id w - i < length (w_marks w) \<longrightarrow> w_marks w ! (w_id w - i) \<noteq> 0))"

lemma win_covers_test: "win_covers w H \<Longrightarrow> win_test w t i \<Longrightarrow> (t, i) \<notin> H"
  by (auto simp: win_covers_def win_test_def)

lemma win_mark_covers:
  assumes "win_covers w H" and "now > 1" and "i \<le> w_id w" and "w_marks w \<noteq> []"
  shows "win_covers (win_mark now w i) (insert (w_time w, i) H)"
  using assms by (auto simp: win_covers_def win_mark_def nth_list_update)

lemma win_slide_covers:
  assumes c: "win_covers w H" and H: "w_marks w = [] \<longrightarrow> H = {}"
  shows "win_covers (win_slide w i) H"
proof -
  let ?n = "i - w_id w" and ?ms = "take (w_cap w) (replicate (i - w_id w) (0::int) @ w_marks w)"
  have old: "?ms ! (max (w_id w) i - j) \<noteq> 0"
    if "j \<le> w_id w" "w_id w - j < length (w_marks w) \<longrightarrow> w_marks w ! (w_id w - j) \<noteq> 0"
      and k: "max (w_id w) i - j < length ?ms" for j
  proof -
    have e: "max (w_id w) i - j = ?n + (w_id w - j)" using that(1) by (simp add: max_def)
    with k have "w_id w - j < length (w_marks w)" by (simp add: min_def split: if_splits)
    moreover have "length ?ms \<le> w_cap w" by (simp del: take_append)
    with k e have "?n + (w_id w - j) < w_cap w" by linarith
    ultimately show ?thesis using that(2) by (simp add: e nth_append del: take_append)
  qed
  have "length ?ms \<le> max (w_id w) i" using c by (auto simp: win_covers_def max_def)
  with c H old show ?thesis
    unfolding win_covers_def win_slide_def by (auto 4 3 simp: max_def)
qed

lemma win_open_covers:
  assumes c: "win_covers w H" and t: "t \<ge> w_time w"
  shows "win_covers (win_slide (win_open w t i) i) H \<or> i = 0"
proof (cases "w_marks w = [] \<or> t > w_time w \<or> i > w_id w + w_cap w")
  case False
  then show ?thesis using win_slide_covers [OF c] c by (simp add: win_open_def win_covers_def)
next
  case True
  show ?thesis
  proof (cases "i = 0")
    case False
    let ?w = "win_slide (win_open w t i) i"
    have w: "w_time ?w = t" "w_id ?w = i" "w_cap ?w = w_cap w"
      "w_marks ?w = replicate (min i (w_cap w)) 0"
      using True by (auto simp: win_open_def win_slide_def max_def min_def)
    have "t' < t \<or> t' = t \<and> j \<le> i \<and> \<not> i - j < min i (w_cap w)" if "(t', j) \<in> H" for t' j
      using that c t True by (fastforce simp: win_covers_def)
    then show ?thesis using w c False by (auto 4 3 simp: win_covers_def)
  qed simp
qed

lemma win_slide_nonempty: "0 < w_cap w \<Longrightarrow> i \<noteq> 0 \<Longrightarrow> w_marks (win_slide (win_open w t i) i) \<noteq> []"
  by (auto simp: win_slide_def win_open_def)

lemma win_add_covers:
  assumes c: "win_covers w H" and ok: "win_test w t i" and now: "now > 1"
  shows "win_covers (win_add now w t i) (insert (t, i) H)"
proof -
  let ?w = "win_slide (win_open w t i) i"
  from ok have i: "i \<noteq> 0" and t: "t \<ge> w_time w" by (auto simp: win_test_def)
  have "win_covers ?w H" using win_open_covers [OF c t] i by blast
  moreover have "w_time ?w = t" "i \<le> w_id ?w"
    using t ok by (auto simp: win_slide_def win_open_def win_test_def)
  moreover have "w_marks ?w \<noteq> []"
    using win_slide_nonempty c i unfolding win_covers_def by blast
  ultimately show ?thesis using win_mark_covers [of ?w H now i] now by (simp add: win_add_def)
qed

lemma win_reap_covers:
  "win_covers w H \<Longrightarrow> win_covers (w\<lparr>w_marks := reap_marks now tb False (w_marks w)\<rparr>) H"
  by (auto simp: win_covers_def dest: reap_marks_marked)

subsection \<open>The ring-buffer code refines the specification\<close>

definition pid_refines :: "packet_id_rec \<Rightarrow> window \<Rightarrow> bool" where
  "pid_refines p w \<longleftrightarrow> r_initialized p \<and> (case r_seq_list p of None \<Rightarrow> False | Some sl \<Rightarrow>
     circ_invar sl \<and> r_seq_backtrack p = x_cap sl \<and> x_cap sl \<le> MAX_SEQ_BACKTRACK \<and>
     w = \<lparr>w_time = r_time p, w_id = unat (r_id p), w_marks = circ_view sl, w_cap = nat (x_cap sl)\<rparr>)"

lemma pid_refinesE:
  assumes "pid_refines p w"
  obtains sl where "r_initialized p" "r_seq_list p = Some sl" "circ_invar sl"
    "r_seq_backtrack p = x_cap sl" "0 < x_cap sl" "x_cap sl \<le> 65536"
    "w = \<lparr>w_time = r_time p, w_id = unat (r_id p), w_marks = circ_view sl, w_cap = nat (x_cap sl)\<rparr>"
  using assms by (auto simp: pid_refines_def MAX_SEQ_BACKTRACK_def circ_invar_def split: option.splits)

lemma pid_refinesI:
  "r_initialized p \<Longrightarrow> r_seq_list p = Some sl \<Longrightarrow> circ_invar sl \<Longrightarrow> r_seq_backtrack p = x_cap sl \<Longrightarrow>
   x_cap sl \<le> 65536 \<Longrightarrow> w_time w = r_time p \<Longrightarrow> w_id w = unat (r_id p) \<Longrightarrow> w_marks w = circ_view sl \<Longrightarrow>
   w_cap w = nat (x_cap sl) \<Longrightarrow> pid_refines p w"
  by (simp add: pid_refines_def MAX_SEQ_BACKTRACK_def)

lemma packet_id_init_refines:
  assumes "packet_id_init sb tb nm u = Some pid" and "sb \<noteq> 0"
  shows "pid_refines (pid_rec pid) \<lparr>w_time = 0, w_id = 0, w_marks = [], w_cap = nat sb\<rparr>"
  using assms circ_alloc_invar [of sb 0]
  by (auto simp: packet_id_init_def pid_refines_def packet_id_clear_def Let_def MIN_SEQ_BACKTRACK_def)

lemma packet_id_fill_push_many:
  "packet_id_fill i t l = map_option (Pair (max i t)) (circ.push_many (unat t - unat i) SEQ_UNSEEN l)"
proof (induction i t l rule: packet_id_fill.induct)
  case (1 i t l)
  show ?case
  proof (cases "i < t")
    case True
    then have "unat t - unat i = Suc (unat t - unat (i + 1))"
      by (simp add: unat_inc) (simp add: word_less_nat_alt)
    moreover have "max (i + 1) t = max i t"
      using True inc_le [OF True] by (simp add: max_absorb2)
    ultimately show ?thesis
      using 1 True by (subst packet_id_fill.simps) (auto split: option.splits)
  next
    case False
    then have "t \<le> i" "unat t \<le> unat i" by (simp_all add: word_le_nat_alt word_less_nat_alt)
    with False show ?thesis by (subst packet_id_fill.simps) (simp add: max_absorb1)
  qed
qed

lemma word_of_int_cap:
  "0 \<le> n \<Longrightarrow> n \<le> 65536 \<Longrightarrow> unat (word_of_int n :: u32) = nat n"
  by (simp add: unat_eq_nat_uint uint_word_of_int_eq take_bit_int_eq_self)

lemma circ_size_cap: "circ_invar sl \<Longrightarrow> x_cap sl \<le> 65536 \<Longrightarrow>
    unat (word_of_int (x_size sl) :: u32) = length (circ_view sl)"
  by (simp add: word_of_int_cap circ_invar_def)

lemma circ_cap_eq: "circ_invar a \<Longrightarrow> circ_invar b \<Longrightarrow> nat (x_cap a) = nat (x_cap b) \<Longrightarrow> x_cap a = x_cap b"
  unfolding circ_invar_def by linarith

lemma packet_id_fill_law:
  assumes "circ_invar sl"
  obtains sl' where "packet_id_fill i t sl = Some (max i t, sl')" "circ_invar sl'"
    "x_cap sl' = x_cap sl"
    "circ_view sl' = take (nat (x_cap sl)) (replicate (unat t - unat i) 0 @ circ_view sl)"
proof -
  from circ.push_many_law [OF assms, of "unat t - unat i" 0] obtain s' where
    s': "circ.push_many (unat t - unat i) 0 sl = Some s'" "circ_invar s'" "nat (x_cap s') = nat (x_cap sl)"
      "circ_view s' = take (nat (x_cap sl)) (replicate (unat t - unat i) 0 @ circ_view sl)" by blast
  show ?thesis
    by (rule that [of s'], simp add: packet_id_fill_push_many SEQ_UNSEEN_def s'(1))
      (use s' circ_cap_eq assms in blast)+
qed

text \<open>Marking the slot of packet \<open>i\<close> in a ring whose most recent packet is \<open>top\<close>.\<close>

lemma circ_mark_law:
  fixes i top :: u32
  assumes inv: "circ_invar sl" and cap: "x_cap sl \<le> 65536" and i: "i \<le> top"
  obtains sl' where "(if top - i < word_of_int (x_size sl) \<and> now > SEQ_EXPIRED
        then circ_assign sl (uint (top - i)) now else Some sl) = Some sl'"
    "circ_invar sl'" "x_cap sl' = x_cap sl"
    "circ_view sl' = (if unat top - unat i < length (circ_view sl) \<and> now > 1
       then (circ_view sl)[unat top - unat i := now] else circ_view sl)"
proof (cases "top - i < word_of_int (x_size sl) \<and> now > SEQ_EXPIRED")
  case True
  have d: "unat (top - i) = unat top - unat i" using i by (rule unat_diff_le)
  from True have k: "unat (top - i) < length (circ_view sl)"
    using circ_size_cap [OF inv cap] by (simp add: word_less_nat_alt)
  from circ.assign_law [OF inv k, of now] obtain s' where s': "circ_assign sl (int (unat (top - i))) now = Some s'"
    "circ_invar s'" "nat (x_cap s') = nat (x_cap sl)" "circ_view s' = (circ_view sl)[unat (top - i) := now]"
    by blast
  have "circ_assign sl (uint (top - i)) now = Some s'" using s'(1) by simp
  then show ?thesis
    using True k s' circ_cap_eq [OF s'(2) inv] by (intro that [of s']) (auto simp: d SEQ_EXPIRED_def)
next
  case False
  then have "\<not> (unat top - unat i < length (circ_view sl) \<and> now > 1)"
    using circ_size_cap [OF inv cap] unat_diff_le [OF i] by (auto simp: word_less_nat_alt SEQ_EXPIRED_def)
  with False inv show ?thesis by (intro that [of sl]) auto
qed

lemma packet_id_add_refines:
  assumes r: "pid_refines p w"
  shows "\<exists>p'. packet_id_add now p pin = Some p'
      \<and> pid_refines p' (win_add now w (pn_time pin) (unat (pn_id pin)))
      \<and> r_time_backtrack p' = r_time_backtrack p"
proof -
  obtain sl where sl: "r_initialized p" "r_seq_list p = Some sl" "circ_invar sl"
    "r_seq_backtrack p = x_cap sl" "0 < x_cap sl" "x_cap sl \<le> 65536"
    "w = \<lparr>w_time = r_time p, w_id = unat (r_id p), w_marks = circ_view sl, w_cap = nat (x_cap sl)\<rparr>"
    by (rule pid_refinesE [OF r])
  let ?i = "pn_id pin" and ?sb = "word_of_int (x_cap sl) :: u32"
  have sb: "unat ?sb = nat (x_cap sl)" using sl(5,6) by (simp add: word_of_int_cap)
  let ?open = "x_size sl = 0 \<or> pn_time pin > r_time p \<or> (?i \<ge> ?sb \<and> ?i - ?sb > r_id p)"
  define p1 where "p1 = (if ?open
    then p\<lparr>r_time := pn_time pin, r_id := (if ?i > ?sb then ?i - ?sb else 0)\<rparr> else p)"
  define sl1 where "sl1 = (if ?open then circ_reset sl else sl)"
  have cond: "?open \<longleftrightarrow> w_marks w = [] \<or> pn_time pin > w_time w \<or> unat ?i > w_id w + w_cap w"
    using sl(3) by (auto simp: sl(7) circ_view_def circ_invar_def word_less_nat_alt word_le_nat_alt
        unat_diff_le sb)
  have base: "unat (if ?i > ?sb then ?i - ?sb else 0) = unat ?i - nat (x_cap sl)"
    by (auto simp: word_less_nat_alt unat_diff_le word_le_nat_alt sb)
  have sl1: "circ_invar sl1" "x_cap sl1 = x_cap sl" "circ_view sl1 = w_marks (win_open w (pn_time pin) (unat ?i))"
    using circ.reset_law [OF sl(3)] sl(3) cond
    by (auto simp: sl1_def win_open_def sl(7) circ_reset_def)
  have w1: "w_time (win_open w (pn_time pin) (unat ?i)) = r_time p1"
    "w_id (win_open w (pn_time pin) (unat ?i)) = unat (r_id p1)"
    "w_cap (win_open w (pn_time pin) (unat ?i)) = nat (x_cap sl)"
    using cond base by (auto simp: p1_def win_open_def sl(7))
  obtain sl2 where sl2: "packet_id_fill (r_id p1) ?i sl1 = Some (max (r_id p1) ?i, sl2)"
    "circ_invar sl2" "x_cap sl2 = x_cap sl1"
    "circ_view sl2 = take (nat (x_cap sl1)) (replicate (unat ?i - unat (r_id p1)) 0 @ circ_view sl1)"
    by (rule packet_id_fill_law [OF sl1(1)])
  have c2: "x_cap sl2 \<le> 65536" using sl2(3) sl1(2) sl(6) by simp
  obtain sl3 where sl3: "(if max (r_id p1) ?i - ?i < word_of_int (x_size sl2) \<and> now > SEQ_EXPIRED
        then circ_assign sl2 (uint (max (r_id p1) ?i - ?i)) now else Some sl2) = Some sl3"
    "circ_invar sl3" "x_cap sl3 = x_cap sl2"
    "circ_view sl3 = (if unat (max (r_id p1) ?i) - unat ?i < length (circ_view sl2) \<and> now > 1
       then (circ_view sl2)[unat (max (r_id p1) ?i) - unat ?i := now] else circ_view sl2)"
    by (rule circ_mark_law [OF sl2(2) c2, of ?i "max (r_id p1) ?i" now]) simp
  have m: "unat (max (r_id p1) ?i) = max (unat (r_id p1)) (unat ?i)"
    by (simp add: max_def word_le_nat_alt)
  have p1: "r_initialized p1" "r_seq_backtrack p1 = x_cap sl" "r_time_backtrack p1 = r_time_backtrack p"
    using sl(1,4) by (simp_all add: p1_def)
  have pair: "(if ?open then (p\<lparr>r_time := pn_time pin, r_id := (if ?i > ?sb then ?i - ?sb else 0)\<rparr>,
      circ_reset sl) else (p, sl)) = (p1, sl1)"
    by (simp add: p1_def sl1_def)
  have "packet_id_add now p pin = Some (p1\<lparr>r_id := max (r_id p1) ?i, r_seq_list := Some sl3\<rparr>)"
    using sl3(1) sl2(1) unfolding packet_id_add_def sl(2,4) Let_def option.case pair prod.case by simp
  moreover have "pid_refines (p1\<lparr>r_id := max (r_id p1) ?i, r_seq_list := Some sl3\<rparr>)
      (win_add now w (pn_time pin) (unat ?i))"
    using sl3(2,3) sl2(3) sl1(2) p1 sl(6) w1 m
    by (intro pid_refinesI [where sl = sl3])
      (simp_all add: win_add_def win_mark_def win_slide_def sl3(4) sl2(4) sl1(2,3))
  ultimately show ?thesis using p1(3) by simp
qed

lemma packet_id_test_refines:
  assumes r: "pid_refines p w"
  shows "\<exists>p'. packet_id_test p pin = Some (win_test w (pn_time pin) (unat (pn_id pin)), p')
      \<and> pid_refines p' w \<and> r_time_backtrack p' = r_time_backtrack p"
proof -
  obtain sl where sl: "r_initialized p" "r_seq_list p = Some sl" "circ_invar sl"
    "r_seq_backtrack p = x_cap sl" "0 < x_cap sl" "x_cap sl \<le> 65536"
    "w = \<lparr>w_time = r_time p, w_id = unat (r_id p), w_marks = circ_view sl, w_cap = nat (x_cap sl)\<rparr>"
    by (rule pid_refinesE [OF r])
  let ?d = "r_id p - pn_id pin"
  have z: "pn_id pin = 0 \<longleftrightarrow> unat (pn_id pin) = 0" by (simp add: unat_eq_0)
  have item: "circ_item sl (uint ?d) =
      (if unat ?d < length (circ_view sl) then Some (circ_view sl ! unat ?d) else None)"
    using circ.item_law [OF sl(3), of "unat ?d"] by simp
  have g: "?d \<ge> word_of_int (x_size sl) \<longleftrightarrow> \<not> unat ?d < length (circ_view sl)"
    using circ_size_cap [OF sl(3,6)] by (simp add: word_le_nat_alt not_less)
  have d: "\<not> pn_id pin > r_id p \<Longrightarrow> unat ?d = unat (r_id p) - unat (pn_id pin)"
    by (simp add: unat_diff_le not_less)
  have keep: "pid_refines (p\<lparr>r_max_backtrack_stat := m\<rparr>) w" for m
    using r by (auto simp: pid_refines_def split: option.splits)
  show ?thesis
    using sl(1,2,4,5) r keep z item d g
    by (auto simp: packet_id_test_def win_test_def sl(7) Let_def word_less_nat_alt simp del: length_circ_view)
qed

lemma packet_id_reap_loop_law:
  assumes "circ_invar sl" and "i + n = length (circ_view sl)"
  shows "\<exists>sl'. packet_id_reap_loop n (int i) e tb now sl = Some sl' \<and> circ_invar sl'
      \<and> x_cap sl' = x_cap sl
      \<and> circ_view sl' = take i (circ_view sl) @ reap_marks now tb e (drop i (circ_view sl))"
  using assms
proof (induction n arbitrary: i e sl)
  case 0
  then show ?case by simp
next
  case (Suc n)
  then have i: "i < length (circ_view sl)" by simp
  let ?t = "circ_view sl ! i"
  have it: "circ_item sl (int i) = Some ?t" using circ.item_law [OF Suc.prems(1)] i by simp
  have dr: "drop i (circ_view sl) = ?t # drop (Suc i) (circ_view sl)" by (rule Cons_nth_drop_Suc [OF i, symmetric])
  define e' where "e' = (e \<or> ?t \<noteq> 0 \<and> ?t + tb < now)"
  from circ.assign_law [OF Suc.prems(1) i, of 1] obtain s1 where s1: "circ_assign sl (int i) 1 = Some s1"
    "circ_invar s1" "x_cap s1 = x_cap sl" "circ_view s1 = (circ_view sl)[i := 1]"
    using circ_cap_eq Suc.prems(1) by blast
  define s2 where "s2 = (if e' then s1 else sl)"
  have s2: "circ_invar s2" "x_cap s2 = x_cap sl" "circ_view s2 = (circ_view sl)[i := if e' then 1 else ?t]"
    using s1 Suc.prems(1) i by (simp_all add: s2_def)
  have "Suc i + n = length (circ_view s2)" using Suc.prems(2) s2(3) by (simp del: length_circ_view)
  from Suc.IH [OF s2(1) this, of e'] obtain s3 where s3:
    "packet_id_reap_loop n (int (Suc i)) e' tb now s2 = Some s3" "circ_invar s3" "x_cap s3 = x_cap sl"
    "circ_view s3 = take (Suc i) (circ_view s2) @ reap_marks now tb e' (drop (Suc i) (circ_view s2))"
    using s2(2) by auto
  have step: "packet_id_reap_loop (Suc n) (int i) e tb now sl =
      (if ?t = 1 then Some sl else packet_id_reap_loop n (int (Suc i)) e' tb now s2)"
    using it s1(1) by (simp add: s2_def e'_def SEQ_EXPIRED_def Let_def add.commute)
  have "take (Suc i) (circ_view s2) = take i (circ_view sl) @ [if e' then 1 else ?t]"
    using i by (simp add: s2(3) take_Suc_conv_app_nth del: length_circ_view)
  then show ?case
    using step s3 Suc.prems(1) dr
    by (auto simp: s2(3) e'_def Let_def simp del: packet_id_reap_loop.simps) (metis append_take_drop_id dr)+
qed

lemma packet_id_reap_test_refines:
  assumes r: "pid_refines p w"
  shows "\<exists>p' ms. packet_id_reap_test now p = Some p' \<and> pid_refines p' (w\<lparr>w_marks := ms\<rparr>)
      \<and> r_time_backtrack p' = r_time_backtrack p
      \<and> ms = (if r_last_reap p + SEQ_REAP_INTERVAL \<le> now \<and> r_time_backtrack p \<noteq> 0
               then reap_marks now (r_time_backtrack p) False (w_marks w) else w_marks w)"
proof -
  obtain sl where sl: "r_initialized p" "r_seq_list p = Some sl" "circ_invar sl"
    "r_seq_backtrack p = x_cap sl" "0 < x_cap sl" "x_cap sl \<le> 65536"
    "w = \<lparr>w_time = r_time p, w_id = unat (r_id p), w_marks = circ_view sl, w_cap = nat (x_cap sl)\<rparr>"
    by (rule pid_refinesE [OF r])
  from packet_id_reap_loop_law [OF sl(3), of 0 "nat (x_size sl)" False "r_time_backtrack p" now]
  obtain s' where s': "packet_id_reap_loop (nat (x_size sl)) 0 False (r_time_backtrack p) now sl = Some s'"
    "circ_invar s'" "x_cap s' = x_cap sl"
    "circ_view s' = reap_marks now (r_time_backtrack p) False (circ_view sl)"
    by auto
  show ?thesis
  proof (cases "r_last_reap p + SEQ_REAP_INTERVAL \<le> now \<and> r_time_backtrack p \<noteq> 0")
    case True
    then have "packet_id_reap_test now p = Some (p\<lparr>r_seq_list := Some s', r_last_reap := now\<rparr>)"
      using s'(1) sl(2) by (simp add: packet_id_reap_test_def packet_id_reap_def)
    moreover have "pid_refines (p\<lparr>r_seq_list := Some s', r_last_reap := now\<rparr>) (w\<lparr>w_marks := circ_view s'\<rparr>)"
      using sl s' by (intro pid_refinesI [where sl = s']) simp_all
    ultimately show ?thesis using True s'(4) sl(7) by auto
  next
    case False
    have "pid_refines (p\<lparr>r_last_reap := now\<rparr>) w"
      using sl by (intro pid_refinesI [where sl = sl]) simp_all
    with False r sl(7) show ?thesis by (auto simp: packet_id_reap_test_def packet_id_reap_def)
  qed
qed

end
