(* ===== verification/Replay_Check.thy ===== *)
theory Replay_Check
  imports Replay "HOL-Library.Product_Lexorder" "HOL-Library.Sublist"
begin

section \<open>Accepting every packet at most once\<close>

text \<open>
  The contract of a replay check is a locale: it never aborts, it never accepts a packet that it has
  accepted before, and it keeps its invariant. It is interpreted for the windowed (UDP) and for the
  sequential (TCP) mode of \<^const>\<open>crypto_check_replay\<close>. The properties about whole runs of a
  receiver, and about a sender and a receiver together, follow.
\<close>

lemma word_less_inc: "i + 1 \<noteq> 0 \<Longrightarrow> i < i + 1" for i :: "'a::len word"
  using unatSuc [of i] by (simp add: word_less_nat_alt add.commute)

subsection \<open>Runs of a check\<close>

text \<open>A run feeds arrivals to a check one after the other and collects those it accepts.\<close>

fun run_check :: "('s \<Rightarrow> 'e \<Rightarrow> (bool \<times> 's) exec) \<Rightarrow> 's \<Rightarrow> 'e list \<Rightarrow> ('e list \<times> 's) exec" where
  "run_check check s [] = Some ([], s)"
| "run_check check s (e # es) = (do {
     (ok, s') \<leftarrow> check s e;
     (acc, s'') \<leftarrow> run_check check s' es;
     Some (if ok then e # acc else acc, s'') })"

locale replay_filter =
  fixes check :: "'s \<Rightarrow> 'e \<Rightarrow> (bool \<times> 's) exec" and key :: "'e \<Rightarrow> 'k" and sane :: "'e \<Rightarrow> bool"
    and rel :: "'s \<Rightarrow> 'k set \<Rightarrow> bool"
  assumes check_law: "rel s H \<Longrightarrow> sane e \<Longrightarrow> \<exists>ok s'. check s e = Some (ok, s')
      \<and> (ok \<longrightarrow> key e \<notin> H) \<and> rel s' (if ok then insert (key e) H else H)"
begin

lemma run_check_law:
  "rel s H \<Longrightarrow> list_all sane es \<Longrightarrow> \<exists>acc s'. run_check check s es = Some (acc, s')
     \<and> distinct (map key acc) \<and> key ` set acc \<inter> H = {} \<and> rel s' (H \<union> key ` set acc)"
proof (induction es arbitrary: s H)
  case Nil
  then show ?case by simp
next
  case (Cons e es)
  then obtain ok s1 where s1: "check s e = Some (ok, s1)" "ok \<longrightarrow> key e \<notin> H"
    "rel s1 (if ok then insert (key e) H else H)" using check_law [of s H e] by auto
  with Cons obtain acc s2 where s2: "run_check check s1 es = Some (acc, s2)" "distinct (map key acc)"
    "key ` set acc \<inter> (if ok then insert (key e) H else H) = {}"
    "rel s2 ((if ok then insert (key e) H else H) \<union> key ` set acc)" by fastforce
  with s1 show ?case by (cases ok) (auto simp: insert_commute)
qed

end

subsection \<open>The two modes of the replay check\<close>

text \<open>An arrival is the time of the local clock and the identifier read from the packet.\<close>

definition replay_step :: "crypto_replay \<Rightarrow> int \<times> packet_id_net \<Rightarrow> (bool \<times> crypto_replay) exec" where
  "replay_step opt e = crypto_check_replay (fst e) opt (snd e)"

abbreviation stamp :: "packet_id_net \<Rightarrow> int \<times> u32" where
  "stamp pin \<equiv> (pn_time pin, pn_id pin)"

definition windowed :: "crypto_replay \<Rightarrow> (int \<times> u32) set \<Rightarrow> bool" where
  "windowed opt H \<longleftrightarrow>
     (\<exists>w. pid_refines (pid_rec (cr_packet_id opt)) w \<and> win_covers w (apsnd unat ` H))"

definition sequential :: "crypto_replay \<Rightarrow> (int \<times> u32) set \<Rightarrow> bool" where
  "sequential opt H \<longleftrightarrow> (let p = pid_rec (cr_packet_id opt) in
     r_initialized p \<and> r_seq_backtrack p = 0 \<and> r_seq_list p = None \<and> r_time_backtrack p = 0
     \<and> (H \<noteq> {} \<longrightarrow> r_id p \<noteq> 0) \<and> (\<forall>(t, i) \<in> H. t < r_time p \<or> t = r_time p \<and> i \<le> r_id p))"

lemma crypto_check_replay_windowed:
  assumes r: "pid_refines (pid_rec (cr_packet_id opt)) w" and c: "win_covers w H" and now: "now > 1"
  shows "\<exists>ok opt' w'. crypto_check_replay now opt pin = Some (ok, opt')
     \<and> (ok \<longrightarrow> (pn_time pin, unat (pn_id pin)) \<notin> H)
     \<and> pid_refines (pid_rec (cr_packet_id opt')) w'
     \<and> win_covers w' (if ok then insert (pn_time pin, unat (pn_id pin)) H else H)"
proof -
  let ?p = "pid_rec (cr_packet_id opt)" and ?t = "pn_time pin" and ?i = "unat (pn_id pin)"
  from packet_id_reap_test_refines [OF r, of now] obtain p1 ms where
    p1: "packet_id_reap_test now ?p = Some p1" "pid_refines p1 (w\<lparr>w_marks := ms\<rparr>)"
    "ms = (if r_last_reap ?p + SEQ_REAP_INTERVAL \<le> now \<and> r_time_backtrack ?p \<noteq> 0
       then reap_marks now (r_time_backtrack ?p) False (w_marks w) else w_marks w)" by blast
  let ?w1 = "w\<lparr>w_marks := ms\<rparr>"
  have c1: "win_covers ?w1 H" using win_reap_covers [OF c] c p1(3) by (simp split: if_splits)
  from packet_id_test_refines [OF p1(2), of pin] obtain p2 where
    p2: "packet_id_test p1 pin = Some (win_test ?w1 ?t ?i, p2)" "pid_refines p2 ?w1" by blast
  from packet_id_add_refines [OF p2(2), of now pin] obtain p3 where
    p3: "packet_id_add now p2 pin = Some p3" "pid_refines p3 (win_add now ?w1 ?t ?i)" by blast
  show ?thesis
  proof (cases "win_test ?w1 ?t ?i")
    case True
    then show ?thesis
      using p1(1) p2(1) p3 win_covers_test [OF c1 True] win_add_covers [OF c1 True now]
      by (auto simp: crypto_check_replay_def Let_def)
  next
    case False
    then show ?thesis using p1(1) p2 c1 by (auto simp: crypto_check_replay_def)
  qed
qed

interpretation udp: replay_filter replay_step "\<lambda>e. stamp (snd e)" "\<lambda>e. fst e > 1" windowed
proof
  fix opt :: crypto_replay and H :: "(int \<times> u32) set" and e :: "int \<times> packet_id_net"
  assume "windowed opt H" and now: "fst e > 1"
  then obtain w where w: "pid_refines (pid_rec (cr_packet_id opt)) w" "win_covers w (apsnd unat ` H)"
    by (auto simp: windowed_def)
  obtain ok opt' w' where s: "crypto_check_replay (fst e) opt (snd e) = Some (ok, opt')"
    "ok \<longrightarrow> (pn_time (snd e), unat (pn_id (snd e))) \<notin> apsnd unat ` H"
    "pid_refines (pid_rec (cr_packet_id opt')) w'"
    "win_covers w' (if ok then insert (pn_time (snd e), unat (pn_id (snd e))) (apsnd unat ` H)
                    else apsnd unat ` H)"
    using crypto_check_replay_windowed [OF w now, of "snd e"] by blast
  have "ok \<longrightarrow> stamp (snd e) \<notin> H" using s(2) by (force simp: image_iff)
  then show "\<exists>ok s'. replay_step opt e = Some (ok, s') \<and> (ok \<longrightarrow> stamp (snd e) \<notin> H)
      \<and> windowed s' (if ok then insert (stamp (snd e)) H else H)"
    using s by (cases ok) (auto simp: replay_step_def windowed_def)
qed

lemma crypto_check_replay_sequential:
  assumes "sequential opt H"
  shows "\<exists>opt'. crypto_check_replay now opt pin =
       Some (pn_id pin \<noteq> 0 \<and> (let p = pid_rec (cr_packet_id opt) in
         if pn_time pin = r_time p then r_id p = 0 \<or> pn_id pin = r_id p + 1
         else pn_time pin > r_time p \<and> pn_id pin = 1), opt')
     \<and> (let p = pid_rec (cr_packet_id opt); p' = pid_rec (cr_packet_id opt') in
        r_initialized p' \<and> r_seq_backtrack p' = 0 \<and> r_seq_list p' = None \<and> r_time_backtrack p' = 0
        \<and> (r_time p', r_id p') = (if fst (the (crypto_check_replay now opt pin)) then stamp pin
                                 else (r_time p, r_id p)))"
  using assms
  by (auto simp: crypto_check_replay_def sequential_def Let_def packet_id_reap_test_def packet_id_reap_def
      packet_id_test_def packet_id_add_def)

interpretation tcp: replay_filter replay_step "\<lambda>e. stamp (snd e)" "\<lambda>e. True" sequential
proof
  fix opt :: crypto_replay and H :: "(int \<times> u32) set" and e :: "int \<times> packet_id_net"
  assume s: "sequential opt H"
  let ?p = "pid_rec (cr_packet_id opt)" and ?pin = "snd e"
  define ok where "ok = (pn_id ?pin \<noteq> 0 \<and>
    (if pn_time ?pin = r_time ?p then r_id ?p = 0 \<or> pn_id ?pin = r_id ?p + 1
     else pn_time ?pin > r_time ?p \<and> pn_id ?pin = 1))"
  obtain opt' where c: "crypto_check_replay (fst e) opt ?pin = Some (ok, opt')"
    "let p' = pid_rec (cr_packet_id opt') in
        r_initialized p' \<and> r_seq_backtrack p' = 0 \<and> r_seq_list p' = None \<and> r_time_backtrack p' = 0
        \<and> (r_time p', r_id p') = (if ok then stamp ?pin else (r_time ?p, r_id ?p))"
    using crypto_check_replay_sequential [OF s, of "fst e" ?pin] unfolding ok_def Let_def by auto
  have old: "t < pn_time ?pin \<or> t = pn_time ?pin \<and> i < pn_id ?pin" if "ok" "(t, i) \<in> H" for t i
  proof -
    from that s have "r_id ?p \<noteq> 0" "t < r_time ?p \<or> t = r_time ?p \<and> i \<le> r_id ?p"
      by (auto simp: sequential_def Let_def)
    with \<open>ok\<close> show ?thesis
      using word_less_inc [of "r_id ?p"] unfolding ok_def by (auto split: if_splits)
  qed
  have "sequential opt' (if ok then insert (stamp ?pin) H else H)"
  proof (cases ok)
    case True
    then have "pn_id ?pin \<noteq> 0" by (simp add: ok_def)
    with True c(2) show ?thesis by (auto simp: sequential_def Let_def dest: old less_imp_le)
  next
    case False
    with c(2) s show ?thesis by (simp add: sequential_def Let_def)
  qed
  then show "\<exists>ok s'. replay_step opt e = Some (ok, s') \<and> (ok \<longrightarrow> stamp (snd e) \<notin> H)
      \<and> sequential s' (if ok then insert (stamp (snd e)) H else H)"
    using c(1) old by (auto simp: replay_step_def)
qed

text \<open>A fresh receiver: \<^verbatim>\<open>packet_id_init\<close> and nothing received.\<close>

definition fresh_receiver :: "int \<Rightarrow> int \<Rightarrow> bool \<Rightarrow> crypto_replay exec" where
  "fresh_receiver seq_backtrack time_backtrack long_form = (do {
     pid \<leftarrow> packet_id_init seq_backtrack time_backtrack ''RX'' 0;
     Some \<lparr>cr_packet_id = pid, cr_pid_persist = None, cr_long_form = long_form\<rparr> })"

lemma fresh_receiver_windowed:
  assumes "1 \<le> sb" "sb \<le> MAX_SEQ_BACKTRACK" "MIN_TIME_BACKTRACK \<le> tb" "tb \<le> MAX_TIME_BACKTRACK"
  obtains opt where "fresh_receiver sb tb lf = Some opt" "windowed opt {}"
    "pid_refines (pid_rec (cr_packet_id opt)) \<lparr>w_time = 0, w_id = 0, w_marks = [], w_cap = nat sb\<rparr>"
proof -
  obtain pid where pid: "packet_id_init sb tb ''RX'' 0 = Some pid"
    using assms by (auto simp: packet_id_init_def Let_def MIN_SEQ_BACKTRACK_def)
  then have r: "pid_refines (pid_rec pid) \<lparr>w_time = 0, w_id = 0, w_marks = [], w_cap = nat sb\<rparr>"
    using packet_id_init_refines assms(1) by fastforce
  let ?opt = "\<lparr>cr_packet_id = pid, cr_pid_persist = None, cr_long_form = lf\<rparr>"
  have "windowed ?opt {}" using r assms(1) by (auto simp: windowed_def win_covers_def)
  with pid r show ?thesis by (intro that [of ?opt]) (simp_all add: fresh_receiver_def)
qed

lemma fresh_receiver_sequential:
  "\<exists>opt. fresh_receiver 0 tb lf = Some opt \<and> sequential opt {}
     \<and> r_time (pid_rec (cr_packet_id opt)) = 0 \<and> r_id (pid_rec (cr_packet_id opt)) = 0"
  by (simp add: fresh_receiver_def packet_id_init_def packet_id_clear_def sequential_def Let_def)

text \<open>
  C1: replay protection over an unreliable transport. Whatever packets arrive, in whatever order and at
  whatever times, the windowed receiver never aborts and never accepts two packets with the same
  time stamp and number.
\<close>

theorem no_replay_udp:
  assumes "1 \<le> sb" "sb \<le> MAX_SEQ_BACKTRACK" "MIN_TIME_BACKTRACK \<le> tb" "tb \<le> MAX_TIME_BACKTRACK"
    and "list_all (\<lambda>(now, pin). now > 1) arrivals"
  shows "\<exists>opt accepted opt'. fresh_receiver sb tb lf = Some opt
     \<and> run_check replay_step opt arrivals = Some (accepted, opt')
     \<and> distinct (map (\<lambda>(now, pin). (pn_time pin, pn_id pin)) accepted)"
proof -
  obtain opt where opt: "fresh_receiver sb tb lf = Some opt" "windowed opt {}"
    using fresh_receiver_windowed [OF assms(1-4)] by blast
  have "list_all (\<lambda>e. fst e > 1) arrivals" using assms(5) by (simp add: case_prod_unfold)
  from udp.run_check_law [OF opt(2) this] opt(1) show ?thesis by (auto simp: case_prod_unfold)
qed

theorem no_replay_udp_witness:
  "\<exists>opt accepted opt'. fresh_receiver 64 15 True = Some opt
     \<and> run_check replay_step opt [(100, \<lparr>pn_id = 7, pn_time = 90\<rparr>), (101, \<lparr>pn_id = 7, pn_time = 90\<rparr>)]
       = Some (accepted, opt')
     \<and> distinct (map (\<lambda>(now, pin). (pn_time pin, pn_id pin)) accepted)"
  by (rule no_replay_udp)
    (simp_all add: MAX_SEQ_BACKTRACK_def MIN_TIME_BACKTRACK_def MAX_TIME_BACKTRACK_def)

subsection \<open>The sequential mode accepts an unbroken sequence\<close>

text \<open>The successor relation of stamps: the next number, or number 1 of a later time.\<close>

definition stamp_next :: "int \<times> u32 \<Rightarrow> int \<times> u32 \<Rightarrow> bool" where
  "stamp_next a b \<longleftrightarrow> (fst b = fst a \<and> snd b = snd a + 1 \<and> snd b \<noteq> 0) \<or> (fst b > fst a \<and> snd b = 1)"

lemma replay_step_sequential:
  assumes "sequential opt H"
  obtains ok opt' where "replay_step opt e = Some (ok, opt')"
    "sequential opt' (if ok then insert (stamp (snd e)) H else H)"
    "ok \<longrightarrow> pn_id (snd e) \<noteq> 0
       \<and> (r_id (pid_rec (cr_packet_id opt)) \<noteq> 0 \<longrightarrow>
            stamp_next (r_time (pid_rec (cr_packet_id opt)), r_id (pid_rec (cr_packet_id opt))) (stamp (snd e)))"
    "(r_time (pid_rec (cr_packet_id opt')), r_id (pid_rec (cr_packet_id opt'))) = (if ok then stamp (snd e)
       else (r_time (pid_rec (cr_packet_id opt)), r_id (pid_rec (cr_packet_id opt))))"
proof -
  obtain ok opt' where c: "replay_step opt e = Some (ok, opt')"
    "sequential opt' (if ok then insert (stamp (snd e)) H else H)"
    using tcp.check_law [OF assms, of e] by auto
  then show ?thesis
    using crypto_check_replay_sequential [OF assms, of "fst e" "snd e"]
    by (intro that [of ok opt']) (auto simp: replay_step_def Let_def stamp_next_def split: if_splits)
qed

lemma run_sequential:
  assumes "sequential opt H"
  shows "\<exists>acc opt'. run_check replay_step opt es = Some (acc, opt')
     \<and> successively stamp_next (map (\<lambda>e. stamp (snd e)) acc)
     \<and> (r_id (pid_rec (cr_packet_id opt)) \<noteq> 0 \<longrightarrow> successively stamp_next
          ((r_time (pid_rec (cr_packet_id opt)), r_id (pid_rec (cr_packet_id opt)))
           # map (\<lambda>e. stamp (snd e)) acc))"
  using assms
proof (induction es arbitrary: opt H)
  case Nil
  then show ?case by simp
next
  case (Cons e es)
  obtain ok o1 where s: "replay_step opt e = Some (ok, o1)"
    "sequential o1 (if ok then insert (stamp (snd e)) H else H)"
    "ok \<longrightarrow> pn_id (snd e) \<noteq> 0
       \<and> (r_id (pid_rec (cr_packet_id opt)) \<noteq> 0 \<longrightarrow>
            stamp_next (r_time (pid_rec (cr_packet_id opt)), r_id (pid_rec (cr_packet_id opt))) (stamp (snd e)))"
    "(r_time (pid_rec (cr_packet_id o1)), r_id (pid_rec (cr_packet_id o1))) = (if ok then stamp (snd e)
       else (r_time (pid_rec (cr_packet_id opt)), r_id (pid_rec (cr_packet_id opt))))"
    by (rule replay_step_sequential [OF Cons.prems])
  from Cons.IH [OF s(2)] obtain acc o2 where r: "run_check replay_step o1 es = Some (acc, o2)"
    "successively stamp_next (map (\<lambda>e. stamp (snd e)) acc)"
    "r_id (pid_rec (cr_packet_id o1)) \<noteq> 0 \<longrightarrow> successively stamp_next
       ((r_time (pid_rec (cr_packet_id o1)), r_id (pid_rec (cr_packet_id o1))) # map (\<lambda>e. stamp (snd e)) acc)"
    by blast
  show ?case using s r by (cases ok) auto
qed

text \<open>
  C2: over a reliable transport the receiver accepts an unbroken sequence: whatever arrives, each accepted
  packet has the number after the previous one, or number 1 and a later time. A replayed, dropped or
  reordered packet is refused.
\<close>

theorem tcp_unbroken_sequence:
  "\<exists>opt accepted opt'. fresh_receiver 0 tb lf = Some opt
     \<and> run_check replay_step opt arrivals = Some (accepted, opt')
     \<and> successively stamp_next (map (\<lambda>e. (pn_time (snd e), pn_id (snd e))) accepted)"
  using fresh_receiver_sequential [of tb lf] run_sequential by blast

subsection \<open>A receiver in the windowed mode accepts every fresh packet\<close>

lemma packet_id_add_stamp:
  assumes r: "pid_refines p w" and a: "packet_id_add now p pin = Some p'" and t: "pn_time pin \<ge> r_time p"
    and f: "stamp pin > (r_time p, r_id p)"
  shows "(r_time p', r_id p') = stamp pin"
proof -
  obtain p'' where p'': "packet_id_add now p pin = Some p''"
    "pid_refines p'' (win_add now w (pn_time pin) (unat (pn_id pin)))"
    using packet_id_add_refines [OF r, of now pin] by blast
  with a have "pid_refines p' (win_add now w (pn_time pin) (unat (pn_id pin)))" by simp
  moreover have "w_time (win_add now w (pn_time pin) (unat (pn_id pin))) = pn_time pin"
    "w_id (win_add now w (pn_time pin) (unat (pn_id pin))) = unat (pn_id pin)"
    using r f by (auto elim!: pid_refinesE simp: win_add_def win_mark_def win_slide_def win_open_def word_less_nat_alt)
  ultimately show ?thesis by (auto elim!: pid_refinesE simp: word_unat_eq_iff)
qed

lemma windowed_accepts_fresh:
  assumes w: "windowed opt H" and now: "now > 1" and id: "pn_id pin \<noteq> 0"
    and f: "stamp pin > (r_time (pid_rec (cr_packet_id opt)), r_id (pid_rec (cr_packet_id opt)))"
  shows "\<exists>opt'. replay_step opt (now, pin) = Some (True, opt') \<and> windowed opt' (insert (stamp pin) H)
     \<and> (r_time (pid_rec (cr_packet_id opt')), r_id (pid_rec (cr_packet_id opt'))) = stamp pin"
proof -
  let ?p = "pid_rec (cr_packet_id opt)"
  obtain w' where r: "pid_refines ?p w'" using w by (auto simp: windowed_def)
  from packet_id_reap_test_refines [OF r, of now] obtain p1 ms where
    p1: "packet_id_reap_test now ?p = Some p1" "pid_refines p1 (w'\<lparr>w_marks := ms\<rparr>)" by blast
  from packet_id_test_refines [OF p1(2), of pin] obtain p2 where
    p2: "packet_id_test p1 pin = Some (win_test (w'\<lparr>w_marks := ms\<rparr>) (pn_time pin) (unat (pn_id pin)), p2)"
      "pid_refines p2 (w'\<lparr>w_marks := ms\<rparr>)" by blast
  have st: "r_time p2 = r_time ?p" "r_id p2 = r_id ?p"
    using p2(2) r by (auto elim!: pid_refinesE simp: word_unat_eq_iff)
  have test: "win_test (w'\<lparr>w_marks := ms\<rparr>) (pn_time pin) (unat (pn_id pin))"
    using r f id by (auto elim!: pid_refinesE simp: win_test_def word_less_nat_alt unat_eq_0)
  from packet_id_add_refines [OF p2(2), of now pin] obtain p3 where p3: "packet_id_add now p2 pin = Some p3"
    by blast
  have "(r_time p3, r_id p3) = stamp pin"
    using packet_id_add_stamp [OF p2(2) p3] st f by auto
  then show ?thesis
    using udp.check_law [OF w, of "(now, pin)"] now p1(1) p2(1) p3 test
    by (auto simp: replay_step_def crypto_check_replay_def Let_def)
qed

lemma run_windowed_increasing:
  assumes "windowed opt H" and "list_all (\<lambda>e. fst e > 1 \<and> pn_id (snd e) \<noteq> 0) es"
    and "sorted_wrt (<) ((r_time (pid_rec (cr_packet_id opt)), r_id (pid_rec (cr_packet_id opt)))
            # map (\<lambda>e. stamp (snd e)) es)"
  shows "\<exists>opt'. run_check replay_step opt es = Some (es, opt')"
  using assms
proof (induction es arbitrary: opt H)
  case Nil
  then show ?case by simp
next
  case (Cons e es)
  then obtain o1 where "replay_step opt (fst e, snd e) = Some (True, o1)" "windowed o1 (insert (stamp (snd e)) H)"
    "(r_time (pid_rec (cr_packet_id o1)), r_id (pid_rec (cr_packet_id o1))) = stamp (snd e)"
    using windowed_accepts_fresh [OF Cons.prems(1), of "fst e" "snd e"] by auto
  with Cons.IH [of o1] Cons.prems show ?case by fastforce
qed

subsection \<open>The sender\<close>

text \<open>The stamps of the packets a sender emits when it sends at the times \<open>nows\<close>; a refused send emits none.\<close>

fun send_run :: "bool \<Rightarrow> packet_id_send \<Rightarrow> int list \<Rightarrow> (int \<times> u32) list" where
  "send_run lf p [] = []"
| "send_run lf p (now # nows) =
     (case packet_id_send_update now p lf of
        (True, p') \<Rightarrow> (s_time p', s_id p') # send_run lf p' nows
      | (False, p') \<Rightarrow> send_run lf p' nows)"

lemma send_update_increases:
  assumes "packet_id_send_update now p lf = (ok, p')" and "0 < now" and "0 \<le> s_time p"
    and "s_time p = 0 \<longrightarrow> s_id p = 0"
  shows "0 < s_time p'" "ok \<longrightarrow> (s_time p', s_id p') > (s_time p, s_id p) \<and> s_id p' \<noteq> 0"
    "\<not> ok \<longrightarrow> s_id p' = s_id p \<and> s_time p' \<ge> s_time p"
    "\<not> lf \<longrightarrow> s_time p' = (if s_time p = 0 then now else s_time p)"
proof -
  have inc: "i < i + 1 \<and> i + 1 \<noteq> 0" if "i \<noteq> PACKET_ID_MAX" for i :: u32
  proof -
    have "PACKET_ID_MAX + 1 = 0" by (simp add: PACKET_ID_MAX_def)
    then have "i + 1 \<noteq> 0" using that by (metis add_right_cancel)
    then show ?thesis using word_less_inc by blast
  qed
  show "0 < s_time p'" "ok \<longrightarrow> (s_time p', s_id p') > (s_time p, s_id p) \<and> s_id p' \<noteq> 0"
    "\<not> ok \<longrightarrow> s_id p' = s_id p \<and> s_time p' \<ge> s_time p"
    "\<not> lf \<longrightarrow> s_time p' = (if s_time p = 0 then now else s_time p)"
    using assms inc [of "s_id p"]
    by (auto simp: packet_id_send_update_def Let_def less_prod_simp split: if_splits)
qed

lemma send_run_increases:
  assumes "list_all (\<lambda>now. 0 < now) nows" and "0 \<le> s_time p" and "s_time p = 0 \<longrightarrow> s_id p = 0"
  shows "sorted_wrt (<) ((s_time p, s_id p) # send_run lf p nows) \<and> (\<forall>x \<in> set (send_run lf p nows). snd x \<noteq> 0)
     \<and> (\<not> lf \<and> 0 < s_time p \<longrightarrow> (\<forall>x \<in> set (send_run lf p nows). fst x = s_time p))"
  using assms
proof (induction nows arbitrary: p)
  case Nil
  then show ?case by simp
next
  case (Cons now nows)
  obtain ok p' where u: "packet_id_send_update now p lf = (ok, p')" by fastforce
  have "0 < now" "0 \<le> s_time p" "s_time p = 0 \<longrightarrow> s_id p = 0" using Cons.prems by auto
  note s = send_update_increases [OF u this]
  have "0 \<le> s_time p'" "s_time p' = 0 \<longrightarrow> s_id p' = 0" using s(1) by auto
  note IH = Cons.IH [OF _ this]
  have *: "list_all (\<lambda>now. 0 < now) nows" using Cons.prems by simp
  show ?case
  proof (cases ok)
    case True
    then have lt: "(s_time p', s_id p') > (s_time p, s_id p)" "s_id p' \<noteq> 0" using s(2) by auto
    have "x > (s_time p, s_id p)" if "x \<in> set (send_run lf p' nows)" for x
      using IH [OF *] lt(1) that by (meson less_trans list.set_intros(2) sorted_wrt.simps(2))
    then show ?thesis using IH [OF *] u True lt s(1,4) by (auto; force)
  next
    case False
    then have le: "(s_time p', s_id p') \<ge> (s_time p, s_id p)" using s(3) by (auto simp: less_eq_prod_simp)
    have "x > (s_time p, s_id p)" if "x \<in> set (send_run lf p' nows)" for x
      using IH [OF *] le that by (meson le_less_trans sorted_wrt.simps(2))
    then show ?thesis using IH [OF *] u False s(1,4) by (auto; force)
  qed
qed

text \<open>
  C26: a sender never reuses a packet number under one time stamp. However the clock behaves, the stamps
  of the packets it emits increase strictly, and no number is 0; when a 32-bit counter would wrap, the
  sender refuses to send or moves to a later time stamp.
\<close>

theorem sender_never_reuses:
  assumes "list_all (\<lambda>now. 0 < now) nows"
  shows "sorted_wrt (<) (send_run lf (pid_send packet_id_clear) nows)
     \<and> list_all (\<lambda>x. snd x \<noteq> 0) (send_run lf (pid_send packet_id_clear) nows)"
  using send_run_increases [OF assms, of "pid_send packet_id_clear" lf]
  by (simp add: packet_id_clear_def list_all_iff)

theorem sender_never_reuses_witness:
  "sorted_wrt (<) (send_run True (pid_send packet_id_clear) [50, 40, 60])
     \<and> list_all (\<lambda>x. snd x \<noteq> 0) (send_run True (pid_send packet_id_clear) [50, 40, 60])"
  by (rule sender_never_reuses) simp

subsection \<open>On the wire\<close>

definition wire_pid :: "bool \<Rightarrow> packet_id_send \<Rightarrow> byte list" where
  "wire_pid lf p = u32_bytes (s_id p) @ (if lf then u32_bytes (word_of_int (s_time p)) else [])"

lemma packet_id_write_content:
  assumes ok: "buf_ok buf" and w: "packet_id_write now p buf lf pre = (True, p', buf')"
  shows "buf_ok buf'" "packet_id_send_update now p lf = (True, p')"
    "buf_content buf' = (if pre then wire_pid lf p' @ buf_content buf else buf_content buf @ wire_pid lf p')"
proof -
  show u: "packet_id_send_update now p lf = (True, p')"
    using w by (auto simp: packet_id_write_def Let_def split: prod.splits bool.splits if_splits)
  let ?id = "u32_bytes (s_id p')" and ?t = "u32_bytes (word_of_int (s_time p'))"
  have "buf_ok buf' \<and>
    buf_content buf' = (if pre then wire_pid lf p' @ buf_content buf else buf_content buf @ wire_pid lf p')"
  proof (cases pre)
    case True
    with w u obtain b1 where b1: "(if lf then buf_write_prepend buf ?t 4 else (True, buf)) = (True, b1)"
      "buf_write_prepend b1 ?id 4 = (True, buf')"
      by (auto simp: packet_id_write_def Let_def split: prod.splits bool.splits)
    have "buf_ok b1 \<and> buf_content b1 = (if lf then ?t else []) @ buf_content buf"
    proof (cases lf)
      case True
      with b1(1) have "buf_write_prepend buf ?t 4 = (True, b1)" by simp
      from buf_write_prepend_True(1,2) [OF ok this] True show ?thesis by simp
    qed (use b1(1) ok in simp)
    with buf_write_prepend_True(1,2) [OF _ b1(2)] True show ?thesis by (simp add: wire_pid_def)
  next
    case False
    with w u obtain b1 where b1: "buf_write buf ?id 4 = (True, b1)"
      "(if lf then buf_write b1 ?t 4 else (True, b1)) = (True, buf')"
      by (auto simp: packet_id_write_def Let_def split: prod.splits bool.splits)
    have b: "buf_ok b1" "buf_content b1 = buf_content buf @ ?id"
      using buf_write_True(1,2) [OF ok b1(1)] by simp_all
    show ?thesis
    proof (cases lf)
      case True
      with b1(2) have "buf_write b1 ?t 4 = (True, buf')" by simp
      from buf_write_True(1,2) [OF b(1) this] True b(2) \<open>\<not> pre\<close> show ?thesis by (simp add: wire_pid_def)
    qed (use b1(2) b \<open>\<not> pre\<close> in \<open>simp add: wire_pid_def\<close>)
  qed
  then show "buf_ok buf'"
    "buf_content buf' = (if pre then wire_pid lf p' @ buf_content buf else buf_content buf @ wire_pid lf p')"
    by auto
qed

lemma packet_id_read_wire:
  assumes ok: "buf_ok buf" and c: "buf_content buf = wire_pid lf p @ rest"
  shows "\<exists>buf'. packet_id_read buf lf =
       (True, \<lparr>pn_id = s_id p, pn_time = (if lf then s_time p mod 2 ^ 32 else 0)\<rparr>, buf')
     \<and> buf_ok buf' \<and> buf_content buf' = rest"
proof -
  have c1: "buf_content buf = u32_bytes (s_id p) @ (if lf then u32_bytes (word_of_int (s_time p)) else []) @ rest"
    using c by (simp add: wire_pid_def)
  obtain b1 where b1: "buf_read buf 4 = (Some (u32_bytes (s_id p)), b1)" "buf_ok b1"
    "buf_content b1 = (if lf then u32_bytes (word_of_int (s_time p)) else []) @ rest"
    by (rule buf_read_prefix [OF ok c1, of 4]) auto
  show ?thesis
  proof (cases lf)
    case True
    then have c2: "buf_content b1 = u32_bytes (word_of_int (s_time p)) @ rest" using b1 by simp
    obtain b2 where "buf_read b1 4 = (Some (u32_bytes (word_of_int (s_time p))), b2)" "buf_ok b2"
      "buf_content b2 = rest"
      by (rule buf_read_prefix [OF b1(2) c2, of 4]) auto
    with b1(1) True show ?thesis
      by (auto simp: packet_id_read_def u32_codec.dec_enc uint_word_of_int)
  next
    case False
    with b1 show ?thesis by (auto simp: packet_id_read_def u32_codec.dec_enc)
  qed
qed

text \<open>
  C27: what a sender prepends to a packet is what the receiver reads: the number of the updated sender,
  and in the long form its time modulo \<open>2 ^ 32\<close>; the packet itself is left unchanged.
\<close>

theorem packet_id_wire_roundtrip:
  assumes "buf_ok buf" and "packet_id_write now p buf lf True = (True, p', buf')"
  shows "\<exists>buf''. packet_id_read buf' lf =
       (True, \<lparr>pn_id = s_id p', pn_time = (if lf then s_time p' mod 2 ^ 32 else 0)\<rparr>, buf'')
     \<and> buf_ok buf'' \<and> buf_content buf'' = buf_content buf"
  using packet_id_read_wire [OF packet_id_write_content(1) [OF assms]] packet_id_write_content(3) [OF assms]
  by simp

theorem packet_id_wire_roundtrip_witness:
  "\<exists>p' buf' buf''. packet_id_write 77 (pid_send packet_id_clear)
       \<lparr>b_capacity = 9, b_offset = 8, b_len = 1, b_data = Some (replicate 9 5)\<rparr> True True = (True, p', buf')
     \<and> packet_id_read buf' True =
         (True, \<lparr>pn_id = s_id p', pn_time = (if True then s_time p' mod 2 ^ 32 else 0)\<rparr>, buf'')
     \<and> buf_content buf'' = [5]"
proof -
  let ?b = "\<lparr>b_capacity = 9, b_offset = 8, b_len = 1, b_data = Some (replicate 9 5)\<rparr>"
  have ok: "buf_ok ?b" by (simp add: buf_ok_def BUF_SIZE_MAX_def)
  have c: "buf_content ?b = [5]" by (simp add: buf_content_def buf_defs mem_load_def numeral_eq_Suc)
  obtain p' buf' where w: "packet_id_write 77 (pid_send packet_id_clear) ?b True True = (True, p', buf')"
    by (simp add: packet_id_write_def packet_id_send_update_def packet_id_clear_def PACKET_ID_MAX_def
        buf_write_prepend_def buf_defs Let_def)
  show ?thesis using packet_id_wire_roundtrip [OF ok w] w c by auto
qed

subsection \<open>Sender and receiver together\<close>

lemma subseq_sorted_wrt:
  "subseq xs ys \<Longrightarrow> sorted_wrt P ys \<Longrightarrow> sorted_wrt P xs \<and> set xs \<subseteq> set ys"
  by (induction rule: list_emb.induct) auto

lemma send_run_times:
  "x \<in> set (send_run lf p nows) \<Longrightarrow> fst x = s_time p \<or> fst x \<in> set nows"
proof (induction nows arbitrary: p)
  case (Cons now nows)
  obtain ok p' where u: "packet_id_send_update now p lf = (ok, p')" by fastforce
  then have "s_time p' = s_time p \<or> s_time p' = now"
    by (auto simp: packet_id_send_update_def Let_def split: if_splits)
  with Cons.IH [of p'] Cons.prems u show ?case by (cases ok) fastforce+
qed simp

text \<open>The identifier a receiver reads from a packet of the long form.\<close>

definition wire_net :: "int \<times> u32 \<Rightarrow> packet_id_net" where
  "wire_net x = \<lparr>pn_id = snd x, pn_time = fst x mod 2 ^ 32\<rparr>"

text \<open>
  protection does not cost a legitimate packet. If the network loses packets of a sender but keeps the
  order of the rest, a fresh windowed receiver accepts everything that arrives, whatever the clocks of the
  two ends show.
\<close>

theorem lossy_delivery_accepted:
  assumes "1 \<le> sb" "sb \<le> MAX_SEQ_BACKTRACK" "MIN_TIME_BACKTRACK \<le> tb" "tb \<le> MAX_TIME_BACKTRACK"
    and nows: "list_all (\<lambda>now. 0 < now \<and> now < 2 ^ 32) nows"
    and deliv: "subseq delivered (send_run True (pid_send packet_id_clear) nows)"
    and arr: "map snd arrivals = map wire_net delivered" "list_all (\<lambda>e. fst e > 1) arrivals"
  shows "\<exists>opt opt'. fresh_receiver sb tb True = Some opt
     \<and> run_check replay_step opt arrivals = Some (arrivals, opt')"
proof -
  obtain opt where opt: "fresh_receiver sb tb True = Some opt" "windowed opt {}"
    "pid_refines (pid_rec (cr_packet_id opt)) \<lparr>w_time = 0, w_id = 0, w_marks = [], w_cap = nat sb\<rparr>"
    by (rule fresh_receiver_windowed [OF assms(1-4)])
  have z: "r_time (pid_rec (cr_packet_id opt)) = 0" "r_id (pid_rec (cr_packet_id opt)) = 0"
    using opt(3) by (auto elim!: pid_refinesE simp: unat_eq_0)
  let ?p = "pid_send packet_id_clear"
  have pos: "list_all (\<lambda>now. 0 < now) nows" using nows by (simp add: list_all_iff)
  from send_run_increases [OF pos, of ?p True] subseq_sorted_wrt [OF deliv]
  have s: "sorted_wrt (<) delivered" "\<forall>x \<in> set delivered. snd x \<noteq> 0 \<and> x > (0, 0)"
    by (auto simp: packet_id_clear_def)
  have "fst x mod 2 ^ 32 = fst x" if "x \<in> set delivered" for x
  proof -
    have "x \<in> set (send_run True ?p nows)"
      using that subseq_sorted_wrt [OF deliv, of "\<lambda>_ _. True"] by (auto simp: sorted_wrt_true)
    then have "fst x = 0 \<or> fst x \<in> set nows" using send_run_times [of x True ?p nows] by (simp add: packet_id_clear_def)
    with nows show ?thesis by (auto simp: list_all_iff)
  qed
  then have st: "map (\<lambda>x. stamp (wire_net x)) delivered = delivered"
    by (intro map_idI) (auto simp: wire_net_def)
  have sn: "map (\<lambda>e. stamp (snd e)) arrivals = delivered"
    using arg_cong [OF arr(1), of "map stamp"] st by (simp add: comp_def)
  have ids: "list_all (\<lambda>e. fst e > 1 \<and> pn_id (snd e) \<noteq> 0) arrivals"
    unfolding list_all_iff
  proof
    fix e assume e: "e \<in> set arrivals"
    then have "stamp (snd e) \<in> set delivered" unfolding sn [symmetric] by simp
    then show "fst e > 1 \<and> pn_id (snd e) \<noteq> 0" using s(2) arr(2) e by (fastforce simp: list_all_iff)
  qed
  show ?thesis
    using run_windowed_increasing [OF opt(2) ids] s z sn opt(1) by auto
qed

theorem lossy_delivery_accepted_witness:
  "\<exists>opt opt'. fresh_receiver 64 15 True = Some opt
     \<and> run_check replay_step opt [(9, wire_net (50, 1)), (7, wire_net (50, 3))]
       = Some ([(9, wire_net (50, 1)), (7, wire_net (50, 3))], opt')"
  by (rule lossy_delivery_accepted [where nows = "[50, 40, 60]" and delivered = "[(50, 1), (50, 3)]"])
    (simp_all add: MAX_SEQ_BACKTRACK_def MIN_TIME_BACKTRACK_def MAX_TIME_BACKTRACK_def
      packet_id_send_update_def packet_id_clear_def PACKET_ID_MAX_def Let_def)

end
