(* ===== verification/Replay_Persist.thy ===== *)
theory Replay_Persist
  imports Replay_Check
begin

section \<open>Replay state across restarts\<close>

text \<open>What \<^verbatim>\<open>--replay-persist\<close> keeps of the state of a receiver, and what a restarted receiver does with it.\<close>

subsection \<open>Restarting with a persisted state\<close>

text \<open>
  A receiver that starts from a persisted state: \<^verbatim>\<open>packet_id_init\<close> followed by
  \<^verbatim>\<open>packet_id_persist_load_obj\<close>.
\<close>

definition restarted_receiver :: "packet_id_persist \<Rightarrow> int \<Rightarrow> int \<Rightarrow> crypto_replay exec" where
  "restarted_receiver ps seq_backtrack time_backtrack = (do {
     pid \<leftarrow> packet_id_init seq_backtrack time_backtrack ''RX'' 0;
     Some \<lparr>cr_packet_id = packet_id_persist_load_obj ps pid, cr_pid_persist = Some ps,
           cr_long_form = True\<rparr> })"

definition persist_scenario :: "(u32 list \<times> u32 list) exec" where
  "persist_scenario = (do {
     o0 \<leftarrow> restarted_receiver (packet_id_persist_load packet_id_persist_init ''f'' 3 None) 8 0;
     (acc1, o1) \<leftarrow> run_check replay_step o0
        [(100, \<lparr>pn_id = 1, pn_time = 90\<rparr>), (100, \<lparr>pn_id = 2, pn_time = 90\<rparr>), (100, \<lparr>pn_id = 3, pn_time = 90\<rparr>)];
     ps1 \<leftarrow> cr_pid_persist o1;
     let img = fst (packet_id_persist_save ps1 True);
     o2 \<leftarrow> restarted_receiver (packet_id_persist_load packet_id_persist_init ''f'' 3 img) 8 0;
     (acc2, o3) \<leftarrow> run_check replay_step o2
        [(110, \<lparr>pn_id = 4, pn_time = 90\<rparr>), (110, \<lparr>pn_id = 2, pn_time = 90\<rparr>)];
     Some (map (\<lambda>e. pn_id (snd e)) acc1, map (\<lambda>e. pn_id (snd e)) acc2) })"


end
