(* ===== verification/Session_Id.thy ===== *)
theory Session_Id
  imports Buffer
begin

section \<open>Session identifiers (session_id.h, session_id.c)\<close>

text \<open>
  A session identifier is 8 random bytes; the all-zero one means undefined. \<open>sid_ok\<close> is the length of
  the array. The bytes that \<^verbatim>\<open>prng_bytes\<close> produces are an argument.
\<close>

definition SID_SIZE :: int where "SID_SIZE = 8"

record session_id =
  sid_id :: "byte list"

definition x_session_id_zero :: session_id where
  "x_session_id_zero = \<lparr>sid_id = replicate 8 0\<rparr>"

definition session_id_equal :: "session_id \<Rightarrow> session_id \<Rightarrow> bool" where
  "session_id_equal sid1 sid2 \<longleftrightarrow> take (nat SID_SIZE) (sid_id sid1) = take (nat SID_SIZE) (sid_id sid2)"

definition session_id_defined :: "session_id \<Rightarrow> bool" where
  "session_id_defined sid1 \<longleftrightarrow>
     take (nat SID_SIZE) (sid_id sid1) \<noteq> take (nat SID_SIZE) (sid_id x_session_id_zero)"

definition session_id_read :: "buffer \<Rightarrow> session_id option \<times> buffer" where
  "session_id_read buf =
     (case buf_read buf SID_SIZE of
        (None, buf') \<Rightarrow> (None, buf')
      | (Some bs, buf') \<Rightarrow> (Some \<lparr>sid_id = bs\<rparr>, buf'))"

definition session_id_write_prepend :: "session_id \<Rightarrow> buffer \<Rightarrow> bool \<times> buffer" where
  "session_id_write_prepend sid buf = buf_write_prepend buf (sid_id sid) SID_SIZE"

definition session_id_write :: "session_id \<Rightarrow> buffer \<Rightarrow> bool \<times> buffer" where
  "session_id_write sid buf = buf_write buf (sid_id sid) SID_SIZE"

definition session_id_random :: "byte list \<Rightarrow> session_id" where
  "session_id_random random_bytes = \<lparr>sid_id = take (nat SID_SIZE) random_bytes\<rparr>"

definition sid_ok :: "session_id \<Rightarrow> bool" where
  "sid_ok sid \<longleftrightarrow> length (sid_id sid) = 8"

interpretation sid_codec: codec sid_id "\<lambda>bs. \<lparr>sid_id = bs\<rparr>" 8 sid_ok
  by unfold_locales (simp_all add: sid_ok_def)

lemma session_id_equal_iff: "sid_ok a \<Longrightarrow> sid_ok b \<Longrightarrow> session_id_equal a b \<longleftrightarrow> a = b"
  by (cases a; cases b) (simp add: session_id_equal_def SID_SIZE_def sid_ok_def)

lemma session_id_zero_undefined: "\<not> session_id_defined x_session_id_zero"
  by (simp add: session_id_defined_def)

lemma session_id_read_enc:
  assumes "buf_ok buf" and "sid_ok sid" and "buf_content buf = sid_id sid @ rest"
  obtains buf' where "session_id_read buf = (Some sid, buf')" "buf_ok buf'" "buf_content buf' = rest"
    "b_len buf' = b_len buf - 8" "b_capacity buf' = b_capacity buf" "b_offset buf' = b_offset buf + 8"
proof -
  obtain buf' where b: "buf_read buf (int 8) = (Some (sid_id sid), buf')" "buf_ok buf'"
    "buf_content buf' = rest" "b_len buf' = b_len buf - int 8" "\<lparr>sid_id = sid_id sid\<rparr> = sid"
    "b_offset buf' = b_offset buf + int 8" "b_capacity buf' = b_capacity buf"
    by (rule sid_codec.buf_read_enc [OF assms(1,2) _ assms(3)]) simp_all
  then show ?thesis by (intro that [of buf']) (simp_all add: session_id_read_def SID_SIZE_def)
qed

end
