(* ===== verification/Reliable.thy ===== *)
theory Reliable
  imports Session_Id
begin

section \<open>The reliability layer (reliable.h, reliable.c)\<close>

text \<open>
  The control channel numbers its packets, keeps each until it is acknowledged, and hands the received
  ones over in order. An array of entries with their buffers serves each direction; a pointer to a
  buffer of the array is the index of its entry. The arrays keep their fixed size, and the loops run
  over their first \<^verbatim>\<open>size\<close> or \<^verbatim>\<open>len\<close> elements. Log messages are left out.
\<close>

subsection \<open>State\<close>

definition RELIABLE_ACK_SIZE :: int where "RELIABLE_ACK_SIZE = 8"

definition RELIABLE_CAPACITY :: int where "RELIABLE_CAPACITY = 8"

definition BIG_TIMEOUT :: int where "BIG_TIMEOUT = 60 * 60 * 24 * 7"

record reliable_ack =
  ak_len :: int
  ak_packet_id :: "u32 list"

record reliable_entry =
  e_active :: bool
  e_timeout :: int
  e_next_try :: int
  e_packet_id :: u32
  e_opcode :: int
  e_buf :: buffer

record reliable =
  rl_size :: int
  rl_initial_timeout :: int
  rl_packet_id :: u32
  rl_offset :: int
  rl_hold :: bool
  rl_array :: "reliable_entry list"

text \<open>The entries the loops visit, the identifiers of an acknowledgement record, a write through a pointer.\<close>

definition rl_entries :: "reliable \<Rightarrow> reliable_entry list" where
  "rl_entries rel = take (nat (rl_size rel)) (rl_array rel)"

definition ack_ids :: "reliable_ack \<Rightarrow> u32 list" where
  "ack_ids ack = take (nat (ak_len ack)) (ak_packet_id ack)"

definition rl_update :: "reliable \<Rightarrow> nat \<Rightarrow> (reliable_entry \<Rightarrow> reliable_entry) \<Rightarrow> reliable" where
  "rl_update rel i f = rel\<lparr>rl_array := (rl_array rel)[i := f (rl_array rel ! i)]\<rparr>"

subsection \<open>Comparing packet identifiers\<close>

definition reliable_pid_in_range1 :: "u32 \<Rightarrow> u32 \<Rightarrow> u32 \<Rightarrow> bool" where
  "reliable_pid_in_range1 test base extent =
     (if test \<ge> base then test - base < extent
      else (test + 0x80000000) - (base + 0x80000000) < extent)"

definition reliable_pid_in_range2 :: "u32 \<Rightarrow> u32 \<Rightarrow> u32 \<Rightarrow> bool" where
  "reliable_pid_in_range2 test base extent =
     (if base + extent \<ge> base then test < base + extent
      else test + 0x80000000 < (base + 0x80000000) + extent)"

definition reliable_pid_min :: "u32 \<Rightarrow> u32 \<Rightarrow> bool" where
  "reliable_pid_min p1 p2 \<longleftrightarrow> \<not> reliable_pid_in_range1 p1 p2 0x80000000"

subsection \<open>Acknowledgement records\<close>

definition reliable_ack_empty :: "reliable_ack \<Rightarrow> bool" where
  "reliable_ack_empty ack \<longleftrightarrow> ak_len ack = 0"

definition reliable_ack_packet_id_present :: "reliable_ack \<Rightarrow> u32 \<Rightarrow> bool" where
  "reliable_ack_packet_id_present ack pid = list_ex (\<lambda>x. x = pid) (ack_ids ack)"

definition reliable_ack_read_packet_id :: "buffer \<Rightarrow> u32 option \<times> buffer" where
  "reliable_ack_read_packet_id buf =
     (case buf_read buf 4 of
        (Some net_pid, buf') \<Rightarrow> (Some (bytes_u32 net_pid), buf')
      | (None, buf') \<Rightarrow> (None, buf'))"

definition ack_append :: "reliable_ack \<Rightarrow> u32 \<Rightarrow> reliable_ack" where
  "ack_append ack pid = ack\<lparr>ak_packet_id := (ak_packet_id ack)[nat (ak_len ack) := pid], ak_len := ak_len ack + 1\<rparr>"

definition reliable_ack_acknowledge_packet_id :: "reliable_ack \<Rightarrow> u32 \<Rightarrow> bool \<times> reliable_ack" where
  "reliable_ack_acknowledge_packet_id ack pid =
     (if \<not> reliable_ack_packet_id_present ack pid \<and> ak_len ack < RELIABLE_ACK_SIZE
      then (True, ack_append ack pid) else (False, ack))"

fun reliable_ack_read_ids :: "nat \<Rightarrow> reliable_ack \<Rightarrow> buffer \<Rightarrow> bool \<times> reliable_ack \<times> buffer" where
  "reliable_ack_read_ids 0 ack buf = (True, ack, buf)"
| "reliable_ack_read_ids (Suc n) ack buf =
     (case buf_read buf 4 of
        (None, buf') \<Rightarrow> (False, ack, buf')
      | (Some net_pid, buf') \<Rightarrow>
          (if ak_len ack \<ge> RELIABLE_ACK_SIZE then (False, ack, buf')
           else reliable_ack_read_ids n (ack_append ack (bytes_u32 net_pid)) buf'))"

definition reliable_ack_read :: "reliable_ack \<Rightarrow> buffer \<Rightarrow> session_id \<Rightarrow> bool \<times> reliable_ack \<times> buffer" where
  "reliable_ack_read ack buf sid =
     (case buf_read buf 1 of
        (None, buf1) \<Rightarrow> (False, ack, buf1)
      | (Some count, buf1) \<Rightarrow>
          (case reliable_ack_read_ids (unat (count ! 0)) ack buf1 of
             (False, ack2, buf2) \<Rightarrow> (False, ack2, buf2)
           | (True, ack2, buf2) \<Rightarrow>
               (if count ! 0 \<noteq> 0 then
                  (case session_id_read buf2 of
                     (None, buf3) \<Rightarrow> (False, ack2, buf3)
                   | (Some session_id_remote, buf3) \<Rightarrow>
                       (if \<not> session_id_defined session_id_remote \<or> \<not> session_id_equal session_id_remote sid
                        then (False, ack2, buf3) else (True, ack2, buf3)))
                else (True, ack2, buf2))))"

definition ACK_SIZE :: "int \<Rightarrow> int" where
  "ACK_SIZE n = 1 + (if n \<noteq> 0 then SID_SIZE else 0) + 4 * n"

text \<open>\<^verbatim>\<open>ASSERT(buf_write(...))\<close>.\<close>

definition assert_ok :: "bool \<times> 'a \<Rightarrow> 'a exec" where
  "assert_ok r = (if fst r then Some (snd r) else None)"

fun reliable_ack_write_ids :: "u32 list \<Rightarrow> buffer \<Rightarrow> buffer exec" where
  "reliable_ack_write_ids [] sub = Some sub"
| "reliable_ack_write_ids (pid # pids) sub = (do {
     sub' \<leftarrow> assert_ok (buf_write sub (u32_bytes pid) 4);
     reliable_ack_write_ids pids sub' })"

text \<open>The loop that moves the identifiers left over to the front: \<open>k\<close> iterations from \<open>i\<close>, \<open>j\<close>.\<close>

fun ack_shift_loop :: "nat \<Rightarrow> nat \<Rightarrow> nat \<Rightarrow> u32 list \<Rightarrow> u32 list" where
  "ack_shift_loop 0 i j ids = ids"
| "ack_shift_loop (Suc k) i j ids = ack_shift_loop k (Suc i) (Suc j) (ids[i := ids ! j])"

definition reliable_ack_write ::
    "reliable_ack \<Rightarrow> buffer \<Rightarrow> session_id \<Rightarrow> int \<Rightarrow> bool \<Rightarrow> (bool \<times> reliable_ack \<times> buffer) exec" where
  "reliable_ack_write ack buf sid max_ack prepend =
     (let n0 = (word_of_int (ak_len ack) :: byte);
          n = (if uint n0 > max_ack then word_of_int max_ack else n0);
          (sub, buf1, p) = buf_sub buf (ACK_SIZE (uint n)) prepend
      in if \<not> buf_defined sub then Some (False, ack, buf1)
         else do {
           sub1 \<leftarrow> assert_ok (buf_write sub [n] 1);
           sub2 \<leftarrow> reliable_ack_write_ids (take (unat n) (ak_packet_id ack)) sub1;
           if n \<noteq> 0 then do {
             assert_c (session_id_defined sid);
             sub3 \<leftarrow> assert_ok (session_id_write sid sub2);
             let left = nat (ak_len ack - uint n);
             let ids = ack_shift_loop left 0 (unat n) (ak_packet_id ack);
             Some (True, ack\<lparr>ak_packet_id := ids, ak_len := int left\<rparr>, buf_sub_commit sub3 buf1 p) }
           else Some (True, ack, buf_sub_commit sub2 buf1 p) })"

subsection \<open>The array of entries\<close>

definition reliable_entry_clear :: reliable_entry where
  "reliable_entry_clear =
     \<lparr>e_active = False, e_timeout = 0, e_next_try = 0, e_packet_id = 0, e_opcode = 0, e_buf = clear_buf\<rparr>"

definition reliable_init :: "int \<Rightarrow> int \<Rightarrow> int \<Rightarrow> bool \<Rightarrow> reliable exec" where
  "reliable_init buf_size offset array_size hold = (do {
     assert_c (array_size > 0 \<and> array_size \<le> RELIABLE_CAPACITY);
     b0 \<leftarrow> alloc_buf buf_size;
     b \<leftarrow> assert_ok (buf_init b0 offset);
     Some \<lparr>rl_size = array_size, rl_initial_timeout = 0, rl_packet_id = 0, rl_offset = offset, rl_hold = hold,
           rl_array = replicate (nat array_size) (reliable_entry_clear\<lparr>e_buf := b\<rparr>)
                      @ replicate (nat (RELIABLE_CAPACITY - array_size)) reliable_entry_clear\<rparr> })"

definition reliable_free :: "reliable \<Rightarrow> reliable" where
  "reliable_free rel =
     rel\<lparr>rl_array := map (\<lambda>e. e\<lparr>e_buf := free_buf (e_buf e)\<rparr>) (rl_entries rel) @ drop (nat (rl_size rel)) (rl_array rel)\<rparr>"

definition reliable_set_timeout :: "reliable \<Rightarrow> int \<Rightarrow> reliable" where
  "reliable_set_timeout rel timeout = rel\<lparr>rl_initial_timeout := timeout\<rparr>"

definition reliable_empty :: "reliable \<Rightarrow> bool" where
  "reliable_empty rel \<longleftrightarrow> \<not> list_ex e_active (rl_entries rel)"

text \<open>For each acknowledged identifier the inner loop stops at the first active entry that has it.\<close>

fun reliable_send_purge_ids :: "u32 list \<Rightarrow> reliable \<Rightarrow> reliable" where
  "reliable_send_purge_ids [] rel = rel"
| "reliable_send_purge_ids (pid # pids) rel =
     reliable_send_purge_ids pids
       (case first_index (\<lambda>e. e_active e \<and> e_packet_id e = pid) (rl_entries rel) of
          None \<Rightarrow> rel
        | Some j \<Rightarrow> rl_update rel j (\<lambda>e. e\<lparr>e_active := False\<rparr>))"

definition reliable_send_purge :: "reliable \<Rightarrow> reliable_ack \<Rightarrow> reliable" where
  "reliable_send_purge rel ack = reliable_send_purge_ids (ack_ids ack) rel"

definition reliable_can_get :: "reliable \<Rightarrow> bool" where
  "reliable_can_get rel = list_ex (\<lambda>e. \<not> e_active e) (rl_entries rel)"

definition reliable_not_replay :: "reliable \<Rightarrow> u32 \<Rightarrow> bool" where
  "reliable_not_replay rel pid =
     (if reliable_pid_min pid (rl_packet_id rel) then False
      else \<not> list_ex (\<lambda>e. e_active e \<and> e_packet_id e = pid) (rl_entries rel))"

definition reliable_wont_break_sequentiality :: "reliable \<Rightarrow> u32 \<Rightarrow> bool" where
  "reliable_wont_break_sequentiality rel pid =
     reliable_pid_in_range2 pid (rl_packet_id rel) (word_of_int (rl_size rel))"

definition reliable_get_buf :: "reliable \<Rightarrow> (nat option \<times> reliable) exec" where
  "reliable_get_buf rel =
     (case first_index (\<lambda>e. \<not> e_active e) (rl_entries rel) of
        None \<Rightarrow> Some (None, rel)
      | Some i \<Rightarrow> do {
          b \<leftarrow> assert_ok (buf_init (e_buf (rl_array rel ! i)) (rl_offset rel));
          Some (Some i, rl_update rel i (\<lambda>e. e\<lparr>e_buf := b\<rparr>)) })"

fun reliable_min_active :: "reliable_entry list \<Rightarrow> u32 option \<Rightarrow> u32 option" where
  "reliable_min_active [] min_id = min_id"
| "reliable_min_active (e # es) min_id =
     reliable_min_active es
       (if e_active e then
          (case min_id of
             None \<Rightarrow> Some (e_packet_id e)
           | Some m \<Rightarrow> if reliable_pid_min (e_packet_id e) m then Some (e_packet_id e) else Some m)
        else min_id)"

definition reliable_get_buf_output_sequenced :: "reliable \<Rightarrow> (nat option \<times> reliable) exec" where
  "reliable_get_buf_output_sequenced rel =
     (case reliable_min_active (rl_entries rel) None of
        None \<Rightarrow> reliable_get_buf rel
      | Some min_id \<Rightarrow>
          (if reliable_pid_in_range1 (rl_packet_id rel) min_id (word_of_int (rl_size rel))
           then reliable_get_buf rel else Some (None, rel)))"

definition reliable_get_buf_sequenced :: "reliable \<Rightarrow> nat option" where
  "reliable_get_buf_sequenced rel =
     first_index (\<lambda>e. e_active e \<and> e_packet_id e = rl_packet_id rel) (rl_entries rel)"

definition reliable_can_send :: "int \<Rightarrow> reliable \<Rightarrow> bool" where
  "reliable_can_send now rel \<longleftrightarrow>
     int (length (filter (\<lambda>e. e_active e \<and> now \<ge> e_next_try e) (rl_entries rel))) > 0 \<and> \<not> rl_hold rel"

text \<open>The search of \<^verbatim>\<open>reliable_send\<close>, at index \<open>i\<close> with the best entry so far.\<close>

fun reliable_send_best ::
    "int \<Rightarrow> reliable_entry list \<Rightarrow> nat \<Rightarrow> (nat \<times> u32) option \<Rightarrow> (nat \<times> u32) option" where
  "reliable_send_best now [] i best = best"
| "reliable_send_best now (e # es) i best =
     reliable_send_best now es (Suc i)
       (if e_active e \<and> now \<ge> e_next_try e then
          (case best of
             None \<Rightarrow> Some (i, e_packet_id e)
           | Some (k, m) \<Rightarrow> if reliable_pid_min (e_packet_id e) m then Some (i, e_packet_id e) else Some (k, m))
        else best)"

text \<open>
  \<^verbatim>\<open>reliable.h\<close> defines \<^verbatim>\<open>EXPONENTIAL_BACKOFF\<close>, so each send doubles the timeout. The result is the
  entry and its opcode.
\<close>

definition reliable_send :: "int \<Rightarrow> reliable \<Rightarrow> (nat \<times> int) option \<times> reliable" where
  "reliable_send now rel =
     (case reliable_send_best now (rl_entries rel) 0 None of
        None \<Rightarrow> (None, rel)
      | Some (k, m) \<Rightarrow>
          (Some (k, e_opcode (rl_array rel ! k)),
           rl_update rel k (\<lambda>e. e\<lparr>e_next_try := now + e_timeout e,
                                e_timeout := e_timeout e * 2\<rparr>)))"

definition reliable_schedule_now :: "int \<Rightarrow> reliable \<Rightarrow> reliable" where
  "reliable_schedule_now now rel =
     rel\<lparr>rl_hold := False,
         rl_array := map (\<lambda>e. if e_active e then e\<lparr>e_next_try := now, e_timeout := rl_initial_timeout rel\<rparr> else e)
                       (rl_entries rel) @ drop (nat (rl_size rel)) (rl_array rel)\<rparr>"

fun reliable_timeout_loop :: "int \<Rightarrow> reliable_entry list \<Rightarrow> int \<Rightarrow> int" where
  "reliable_timeout_loop now [] ret = ret"
| "reliable_timeout_loop now (e # es) ret =
     (if e_active e then
        (if e_next_try e \<le> now then 0
         else reliable_timeout_loop now es (min_int ret (c_int (e_next_try e - now))))
      else reliable_timeout_loop now es ret)"

definition reliable_send_timeout :: "int \<Rightarrow> reliable \<Rightarrow> int" where
  "reliable_send_timeout now rel = reliable_timeout_loop now (rl_entries rel) BIG_TIMEOUT"

text \<open>A buffer that is in none of the entries reaches \<^verbatim>\<open>ASSERT(0)\<close>.\<close>

definition reliable_mark_active_incoming :: "reliable \<Rightarrow> nat \<Rightarrow> u32 \<Rightarrow> int \<Rightarrow> reliable exec" where
  "reliable_mark_active_incoming rel i pid opcode = (do {
     assert_c (i < length (rl_entries rel));
     assert_c (\<not> reliable_pid_min pid (rl_packet_id rel));
     Some (rl_update rel i (\<lambda>e. e\<lparr>e_active := True, e_packet_id := pid, e_opcode := opcode,
                                  e_next_try := 0, e_timeout := 0\<rparr>)) })"

definition reliable_mark_active_outgoing :: "reliable \<Rightarrow> nat \<Rightarrow> int \<Rightarrow> reliable exec" where
  "reliable_mark_active_outgoing rel i opcode = (do {
     assert_c (i < length (rl_entries rel));
     let pid = rl_packet_id rel;
     b \<leftarrow> assert_ok (buf_write_prepend (e_buf (rl_array rel ! i)) (u32_bytes pid) 4);
     Some (rl_update (rel\<lparr>rl_packet_id := pid + 1\<rparr>) i
             (\<lambda>e. e\<lparr>e_packet_id := pid, e_buf := b, e_active := True, e_opcode := opcode,
                    e_next_try := 0, e_timeout := rl_initial_timeout rel\<rparr>)) })"

definition reliable_mark_deleted :: "reliable \<Rightarrow> nat \<Rightarrow> bool \<Rightarrow> reliable exec" where
  "reliable_mark_deleted rel i inc_pid = (do {
     assert_c (i < length (rl_entries rel));
     let rel1 = rl_update rel i (\<lambda>e. e\<lparr>e_active := False\<rparr>);
     Some (if inc_pid then rel1\<lparr>rl_packet_id := e_packet_id (rl_array rel ! i) + 1\<rparr> else rel1) })"

end
