(* ===== verification/Reliable_Ack.thy ===== *)
theory Reliable_Ack
  imports Reliable
begin

section \<open>Acknowledgement records on the wire\<close>

text \<open>
  An acknowledgement record is a count, that many packet identifiers and, if the count is not 0, the
  session identifier of the peer. \<^const>\<open>reliable_ack_write\<close> writes the oldest pending identifiers and
  keeps the rest; \<^const>\<open>reliable_ack_read\<close> reads back what was written.
\<close>

definition ack_ok :: "reliable_ack \<Rightarrow> bool" where
  "ack_ok ack \<longleftrightarrow> length (ak_packet_id ack) = 8 \<and> 0 \<le> ak_len ack \<and> ak_len ack \<le> 8"

definition wire_ack :: "u32 list \<Rightarrow> session_id \<Rightarrow> byte list" where
  "wire_ack ids sid = [of_nat (length ids)] @ concat (map u32_bytes ids) @ (if ids = [] then [] else sid_id sid)"

lemma length_ack_ids [simp]: "ack_ok ack \<Longrightarrow> length (ack_ids ack) = nat (ak_len ack)"
  by (auto simp: ack_ok_def ack_ids_def)

lemma length_wire_ack:
  "sid_ok sid \<Longrightarrow> int (length (wire_ack ids sid)) = ACK_SIZE (int (length ids))"
  using u32_codec.length_concat_enc [of ids]
  by (simp add: wire_ack_def ACK_SIZE_def SID_SIZE_def sid_ok_def list_all_iff)

lemma ack_append_ids:
  assumes "ack_ok ack" and "ak_len ack < 8"
  shows "ack_ok (ack_append ack pid)" "ack_ids (ack_append ack pid) = ack_ids ack @ [pid]"
    "ak_len (ack_append ack pid) = ak_len ack + 1"
  using assms
  by (auto simp: ack_append_def ack_ok_def ack_ids_def nat_add_distrib take_Suc_conv_app_nth)

lemma reliable_ack_acknowledge_law:
  assumes "ack_ok ack"
  shows "ack_ok (snd (reliable_ack_acknowledge_packet_id ack pid))"
    "set (ack_ids (snd (reliable_ack_acknowledge_packet_id ack pid))) \<subseteq> insert pid (set (ack_ids ack))"
    "distinct (ack_ids ack) \<Longrightarrow> distinct (ack_ids (snd (reliable_ack_acknowledge_packet_id ack pid)))"
  using assms ack_append_ids [OF assms]
  by (auto simp: reliable_ack_acknowledge_packet_id_def reliable_ack_packet_id_present_def
      RELIABLE_ACK_SIZE_def list_ex_iff)

subsection \<open>Writing\<close>

lemma assert_write_fits:
  assumes "buf_ok b" and "buf_defined b" and "b_offset b + b_len b + int (length src) \<le> b_capacity b"
    and n: "n = int (length src)"
  obtains b' where "assert_ok (buf_write b src n) = Some b'" "buf_ok b'" "buf_defined b'"
    "buf_content b' = buf_content b @ src" "b_len b' = b_len b + n" "b_offset b' = b_offset b"
    "b_capacity b' = b_capacity b"
proof -
  have v: "buf_valid b" using assms(1,2) buf_ok_bounds(2) by (simp add: buf_valid_def buf_defined_def)
  have "fst (buf_write b src n)"
    unfolding n buf_write_iff [OF assms(1)] using assms(1-3) v by (simp add: buf_forward_capacity_def Let_def)
  then obtain b' where w: "buf_write b src n = (True, b')" by (cases "buf_write b src n") simp
  from buf_write_True [OF assms(1) w n] w show ?thesis
    by (intro that [of b']) (simp_all add: assert_ok_def)
qed

lemma reliable_ack_write_ids_law:
  assumes "buf_ok b" and "buf_defined b" and "b_offset b + b_len b + 4 * int (length ids) \<le> b_capacity b"
  shows "\<exists>b'. reliable_ack_write_ids ids b = Some b' \<and> buf_ok b' \<and> buf_defined b'
     \<and> buf_content b' = buf_content b @ concat (map u32_bytes ids)
     \<and> b_len b' = b_len b + 4 * int (length ids) \<and> b_offset b' = b_offset b \<and> b_capacity b' = b_capacity b"
  using assms
proof (induction ids arbitrary: b)
  case (Cons pid ids)
  obtain b1 where b1: "assert_ok (buf_write b (u32_bytes pid) 4) = Some b1" "buf_ok b1" "buf_defined b1"
    "buf_content b1 = buf_content b @ u32_bytes pid" "b_len b1 = b_len b + 4" "b_offset b1 = b_offset b"
    "b_capacity b1 = b_capacity b"
    by (rule assert_write_fits [OF Cons.prems(1,2), of "u32_bytes pid" 4]) (use Cons.prems in auto)
  from Cons.IH [OF b1(2,3)] Cons.prems(3) b1 show ?case by (auto simp: algebra_simps)
qed simp

lemma ack_shift_loop_law:
  "i \<le> j \<Longrightarrow> j + k \<le> length ids \<Longrightarrow>
   length (ack_shift_loop k i j ids) = length ids
   \<and> take (i + k) (ack_shift_loop k i j ids) = take i ids @ take k (drop j ids)"
proof (induction k arbitrary: i j ids)
  case (Suc k)
  then have j: "j < length ids" by simp
  have "drop (Suc j) (ids[i := ids ! j]) = drop (Suc j) ids" using Suc.prems by (simp add: drop_update_cancel)
  moreover have "take (Suc i) (ids[i := ids ! j]) = take i ids @ [ids ! j]"
    using Suc.prems j by (simp add: take_Suc_conv_app_nth)
  moreover have "take (Suc k) (drop j ids) = ids ! j # take k (drop (Suc j) ids)"
    using j by (metis Cons_nth_drop_Suc take_Suc_Cons)
  ultimately show ?case using Suc.IH [of "Suc i" "Suc j" "ids[i := ids ! j]"] Suc.prems by simp
qed simp

text \<open>The fields of a buffer that is full from the start of its block determine the block.\<close>

lemma buf_full_data:
  assumes "buf_ok b" and "buf_defined b" and "b_offset b = 0" and "b_len b = b_capacity b"
  shows "b_data b = Some (buf_content b)"
  using assms by (cases rule: buf_ok_cases) (auto simp: buf_content_def buf_defs mem_load_def)

text \<open>The whole record is written into the sub-buffer, and none of the assertions fails.\<close>

lemma wire_ack_written:
  assumes sub: "buf_ok sub" "buf_defined sub" "b_offset sub = 0" "b_len sub = 0" "b_capacity sub = ACK_SIZE (int (length ids))"
    and sid: "sid_ok sid" and n: "unat n = length ids"
  obtains sub1 sub2 where "assert_ok (buf_write sub [n] 1) = Some sub1"
    "reliable_ack_write_ids ids sub1 = Some sub2"
    "ids = [] \<longrightarrow> b_data sub2 = Some (wire_ack ids sid)"
    "ids \<noteq> [] \<longrightarrow> (\<exists>sub3. assert_ok (session_id_write sid sub2) = Some sub3 \<and> b_data sub3 = Some (wire_ack ids sid))"
proof -
  have c: "buf_content sub = []" using sub(4) by (rule buf_content_empty)
  have n': "n = of_nat (length ids)" unfolding n [symmetric] by simp
  have le: "ACK_SIZE (int (length ids)) = 1 + 4 * int (length ids) + (if ids = [] then 0 else 8)"
    by (simp add: ACK_SIZE_def SID_SIZE_def)
  obtain s1 where s1: "assert_ok (buf_write sub [n] 1) = Some s1" "buf_ok s1" "buf_defined s1"
    "buf_content s1 = [n]" "b_len s1 = 1" "b_offset s1 = 0" "b_capacity s1 = ACK_SIZE (int (length ids))"
    by (rule assert_write_fits [OF sub(1,2), of "[n]" 1]) (use sub c le in auto)
  have "b_offset s1 + b_len s1 + 4 * int (length ids) \<le> b_capacity s1" using s1(5-7) le by simp
  from reliable_ack_write_ids_law [OF s1(2,3) this] obtain s2 where
    s2: "reliable_ack_write_ids ids s1 = Some s2" "buf_ok s2" "buf_defined s2"
    "buf_content s2 = [n] @ concat (map u32_bytes ids)" "b_len s2 = 1 + 4 * int (length ids)"
    "b_offset s2 = 0" "b_capacity s2 = ACK_SIZE (int (length ids))" using s1 by auto
  have "\<exists>s3. assert_ok (session_id_write sid s2) = Some s3 \<and> b_data s3 = Some (wire_ack ids sid)" if ne: "ids \<noteq> []"
  proof -
    obtain s3 where "assert_ok (buf_write s2 (sid_id sid) 8) = Some s3" "buf_ok s3" "buf_defined s3"
      "buf_content s3 = buf_content s2 @ sid_id sid" "b_len s3 = b_len s2 + 8" "b_offset s3 = b_offset s2"
      "b_capacity s3 = b_capacity s2"
      by (rule assert_write_fits [OF s2(2,3), of "sid_id sid" 8])
        (use s2 le sid ne in \<open>auto simp: sid_ok_def\<close>)
    with buf_full_data [of s3] s2 le ne show ?thesis
      by (auto simp: session_id_write_def SID_SIZE_def wire_ack_def n')
  qed
  moreover have "ids = [] \<longrightarrow> b_data s2 = Some (wire_ack ids sid)"
    using buf_full_data [OF s2(2,3)] s2 le by (auto simp: wire_ack_def n')
  ultimately show ?thesis using that s1(1) s2(1) by blast
qed

lemma buf_sub_defined_iff:
  assumes "buf_ok buf" and "buf_sub buf (int sz) pre = (sub, buf1, p)"
  shows "buf_defined sub \<longleftrightarrow> buf_defined buf \<and> int sz \<le> (if pre then b_offset buf else buf_forward_capacity buf)"
  using assms
  by (cases rule: buf_ok_cases)
    (auto simp: buf_sub_def buf_defs clear_buf_def buf_forward_capacity_def BUF_SIZE_MAX_def Let_def
      split: if_splits)

lemma buf_sub_wrote:
  assumes "buf_ok buf" and "buf_sub buf (int sz) pre = (sub, buf1, p)" and "buf_defined sub"
    and "b_data sub' = Some bs" and "length bs = sz"
  shows "buf_ok (buf_sub_commit sub' buf1 p)"
    "buf_content (buf_sub_commit sub' buf1 p) = (if pre then bs @ buf_content buf else buf_content buf @ bs)"
    "b_capacity (buf_sub_commit sub' buf1 p) = b_capacity buf"
    "b_offset (buf_sub_commit sub' buf1 p) = (if pre then b_offset buf - int sz else b_offset buf)"
proof -
  let ?b = "buf_sub_commit sub' buf1 p"
  have n: "int sz = int (length bs)" using assms(5) by simp
  have "buf_ok ?b \<and> buf_content ?b = (if pre then bs @ buf_content buf else buf_content buf @ bs)
    \<and> b_capacity ?b = b_capacity buf \<and> b_offset ?b = (if pre then b_offset buf - int sz else b_offset buf)"
  proof (cases pre)
    case True
    have "buf_write_prepend buf bs (int sz) = (True, ?b)"
      using buf_sub_commit_prepend assms True by simp
    from buf_write_prepend_True [OF assms(1) this n] True show ?thesis by simp
  next
    case False
    have "buf_write buf bs (int sz) = (True, ?b)" using buf_sub_commit_write assms False by simp
    from buf_write_True [OF assms(1) this n] False show ?thesis by simp
  qed
  then show "buf_ok ?b" "buf_content ?b = (if pre then bs @ buf_content buf else buf_content buf @ bs)"
    "b_capacity ?b = b_capacity buf" "b_offset ?b = (if pre then b_offset buf - int sz else b_offset buf)"
    by auto
qed

lemma reliable_ack_write_law:
  assumes ack: "ack_ok ack" and buf: "buf_ok buf" and sid: "sid_ok sid" "session_id_defined sid"
    and m: "0 \<le> max_ack" "max_ack < 256"
  defines "n \<equiv> min (nat (ak_len ack)) (nat max_ack)"
  defines "wire \<equiv> wire_ack (take n (ack_ids ack)) sid"
  obtains ok ack' buf' where "reliable_ack_write ack buf sid max_ack pre = Some (ok, ack', buf')"
    "ok \<longleftrightarrow> buf_defined buf \<and> int (length wire) \<le> (if pre then b_offset buf else buf_forward_capacity buf)"
    "ok \<longrightarrow> buf_ok buf' \<and> buf_content buf' = (if pre then wire @ buf_content buf else buf_content buf @ wire)
      \<and> b_capacity buf' = b_capacity buf"
    "ok \<longrightarrow> b_offset buf' = (if pre then b_offset buf - int (length wire) else b_offset buf)"
    "ack_ok ack'" "ack_ids ack' = (if ok then drop n (ack_ids ack) else ack_ids ack)"
proof -
  define w where "w = (if uint (word_of_int (ak_len ack) :: byte) > max_ack then word_of_int max_ack
    else (word_of_int (ak_len ack) :: byte))"
  have ul: "uint (word_of_int (ak_len ack) :: byte) = ak_len ack" "uint (word_of_int max_ack :: byte) = max_ack"
    using ack m by (auto simp: ack_ok_def uint_word_of_int)
  then have uw: "uint w = int n" using ack m by (auto simp: w_def n_def ack_ok_def)
  then have nw: "unat w = n" by (simp add: unat_eq_nat_uint)
  have len: "length (take n (ack_ids ack)) = n" using ack by (simp add: n_def)
  have ids: "take (unat w) (ak_packet_id ack) = take n (ack_ids ack)" by (simp add: nw n_def ack_ids_def min_absorb2)
  have sz: "ACK_SIZE (uint w) = int (length wire)" using length_wire_ack [OF sid(1)] len uw by (simp add: wire_def)
  have w0: "w \<noteq> 0 \<longleftrightarrow> take n (ack_ids ack) \<noteq> []" using nw len by (metis list.size(3) length_0_conv unat_eq_zero)
  obtain sub buf1 p where s: "buf_sub buf (ACK_SIZE (uint w)) pre = (sub, buf1, p)" by (metis prod_cases3)
  have fits: "buf_defined sub \<longleftrightarrow>
      buf_defined buf \<and> int (length wire) \<le> (if pre then b_offset buf else buf_forward_capacity buf)"
    by (rule buf_sub_defined_iff [OF buf s [unfolded sz]])
  show ?thesis
  proof (cases "buf_defined sub")
    case False
    with s show ?thesis
      by (intro that [of False ack buf1])
        (use fits ack in \<open>simp_all add: reliable_ack_write_def Let_def w_def [symmetric]\<close>)
  next
    case True
    have sub: "buf_ok sub" "b_capacity sub = ACK_SIZE (int n)" "b_len sub = 0" "b_offset sub = 0"
      using buf_sub_Some [OF buf s True] sz uw by auto
    obtain s1 s2 where w: "assert_ok (buf_write sub [w] 1) = Some s1"
      "reliable_ack_write_ids (take n (ack_ids ack)) s1 = Some s2"
      "take n (ack_ids ack) = [] \<longrightarrow> b_data s2 = Some wire"
      "take n (ack_ids ack) \<noteq> [] \<longrightarrow> (\<exists>s3. assert_ok (session_id_write sid s2) = Some s3 \<and> b_data s3 = Some wire)"
      unfolding wire_def
      by (rule wire_ack_written [of sub "take n (ack_ids ack)" sid w]) (use sub True sid len nw in auto)
    let ?ack' = "ack\<lparr>ak_packet_id := ack_shift_loop (nat (ak_len ack - uint w)) 0 (unat w) (ak_packet_id ack),
        ak_len := int (nat (ak_len ack - uint w))\<rparr>"
    have n8: "n \<le> nat (ak_len ack)" "nat (ak_len ack - int n) = nat (ak_len ack) - n" by (auto simp: n_def)
    have "ack_ok ?ack' \<and> ack_ids ?ack' = drop n (ack_ids ack)"
      using ack_shift_loop_law [of 0 n "nat (ak_len ack) - n" "ak_packet_id ack"] ack n8
      by (auto simp: ack_ok_def ack_ids_def uw nw drop_take)
    moreover have "\<exists>s3. reliable_ack_write ack buf sid max_ack pre =
        Some (True, if w \<noteq> 0 then ?ack' else ack, buf_sub_commit s3 buf1 p) \<and> b_data s3 = Some wire"
    proof (cases "w = 0")
      case True
      with w0 have e: "take n (ack_ids ack) = []" by blast
      from w(2,3) have "s2 = s1" "b_data s2 = Some wire" unfolding e by simp_all
      with True s \<open>buf_defined sub\<close> w(1) show ?thesis
        by (intro exI [of _ s2]) (simp add: reliable_ack_write_def Let_def w_def [symmetric])
    next
      case False
      with w(4) w0 obtain s3 where "assert_ok (session_id_write sid s2) = Some s3" "b_data s3 = Some wire" by blast
      with s \<open>buf_defined sub\<close> w(1,2) sid False ids show ?thesis
        by (intro exI [of _ s3]) (simp add: reliable_ack_write_def Let_def w_def [symmetric])
    qed
    then obtain ack' s3 where r: "reliable_ack_write ack buf sid max_ack pre = Some (True, ack', buf_sub_commit s3 buf1 p)"
      "b_data s3 = Some wire" "ack' = (if w \<noteq> 0 then ?ack' else ack)" by blast
    ultimately have a: "ack_ok ack' \<and> ack_ids ack' = drop n (ack_ids ack)"
      using ack nw by (cases "w = 0") auto
    show ?thesis
      using r a fits True buf_sub_wrote [OF buf s [unfolded sz] True r(2) refl]
      by (intro that [of True ack' "buf_sub_commit s3 buf1 p"]) (auto split: if_splits)
  qed
qed

subsection \<open>Reading\<close>

lemma reliable_ack_read_ids_law:
  assumes "buf_ok buf" and "ack_ok ack" and "ak_len ack + int (length ids) \<le> 8"
    and "buf_content buf = concat (map u32_bytes ids) @ rest"
  shows "\<exists>ack' buf'. reliable_ack_read_ids (length ids) ack buf = (True, ack', buf') \<and> ack_ok ack'
     \<and> ack_ids ack' = ack_ids ack @ ids \<and> buf_ok buf' \<and> buf_content buf' = rest
     \<and> b_capacity buf' = b_capacity buf"
  using assms
proof (induction ids arbitrary: ack buf)
  case (Cons pid ids)
  have c: "buf_content buf = u32_bytes pid @ concat (map u32_bytes ids) @ rest" using Cons.prems(4) by simp
  obtain b1 where b1: "buf_read buf 4 = (Some (u32_bytes pid), b1)" "buf_ok b1"
    "buf_content b1 = concat (map u32_bytes ids) @ rest" "b_capacity b1 = b_capacity buf"
    by (rule buf_read_prefix [OF Cons.prems(1) c, of 4]) auto
  have l: "ak_len ack < 8" using Cons.prems(3) by simp
  note a = ack_append_ids [OF Cons.prems(2) l, of pid]
  have "ak_len (ack_append ack pid) + int (length ids) \<le> 8" using a(3) Cons.prems(3) by simp
  from Cons.IH [OF b1(2) a(1) this b1(3)] a(2) b1(1,4) l show ?case
    by (auto simp: RELIABLE_ACK_SIZE_def u32_codec.dec_enc)
qed simp

lemma reliable_ack_read_law:
  assumes buf: "buf_ok buf" and ack: "ack_ok ack" and l: "ak_len ack + int (length ids) \<le> 8"
    and sid: "sid_ok sid" "session_id_defined sid" and c: "buf_content buf = wire_ack ids sid @ rest"
  obtains ack' buf' where "reliable_ack_read ack buf sid = (True, ack', buf')" "ack_ok ack'"
    "ack_ids ack' = ack_ids ack @ ids" "buf_ok buf'" "buf_content buf' = rest" "b_capacity buf' = b_capacity buf"
proof -
  have n: "length ids < 256" using l ack by (simp add: ack_ok_def)
  let ?n = "of_nat (length ids) :: byte"
  have u: "unat ?n = length ids" using n by (simp add: unat_of_nat)
  then have z: "?n = 0 \<longleftrightarrow> ids = []" by (metis length_0_conv unat_eq_zero)
  have c1: "buf_content buf = [?n] @ concat (map u32_bytes ids) @ (if ids = [] then [] else sid_id sid) @ rest"
    using c by (simp add: wire_ack_def)
  obtain b1 where b1: "buf_read buf 1 = (Some [?n], b1)" "buf_ok b1"
    "buf_content b1 = concat (map u32_bytes ids) @ (if ids = [] then [] else sid_id sid) @ rest"
    "b_capacity b1 = b_capacity buf"
    by (rule buf_read_prefix [OF buf c1, of 1]) auto
  from reliable_ack_read_ids_law [OF b1(2) ack l b1(3)] obtain a2 b2 where
    r: "reliable_ack_read_ids (length ids) ack b1 = (True, a2, b2)" "ack_ok a2" "ack_ids a2 = ack_ids ack @ ids"
    "buf_ok b2" "buf_content b2 = (if ids = [] then [] else sid_id sid) @ rest" "b_capacity b2 = b_capacity buf"
    using b1(4) by auto
  show ?thesis
  proof (cases "ids = []")
    case True
    then show ?thesis using b1(1) r u z by (intro that [of a2 b2]) (auto simp: reliable_ack_read_def)
  next
    case False
    with r(5) have c2: "buf_content b2 = sid_id sid @ rest" by simp
    obtain b3 where b3: "session_id_read b2 = (Some sid, b3)" "buf_ok b3" "buf_content b3 = rest"
      "b_capacity b3 = b_capacity b2"
      by (rule session_id_read_enc [OF r(4) sid(1) c2])
    show ?thesis using b1(1) r b3 u z False sid
      by (intro that [of a2 b3]) (auto simp: reliable_ack_read_def session_id_equal_iff)
  qed
qed

text \<open>
  C28: acknowledgements survive the wire. What \<^const>\<open>reliable_ack_write\<close> prepends to a packet for the peer
  \<open>sid\<close> is read back by that peer: the identifiers read, followed by those still pending, are the
  identifiers that were pending before, and the packet behind the record is unchanged.
\<close>

theorem ack_record_roundtrip:
  assumes "ack_ok ack" and "buf_ok buf" and "sid_ok sid" and "session_id_defined sid"
    and "0 \<le> max_ack" and "max_ack < 256"
    and w: "reliable_ack_write ack buf sid max_ack True = Some (True, ack', buf')"
    and "ack_ok rd" and "ak_len rd = 0"
  shows "\<exists>rd' buf''. reliable_ack_read rd buf' sid = (True, rd', buf'')
     \<and> ack_ids rd' @ ack_ids ack' = ack_ids ack \<and> buf_ok buf'' \<and> buf_content buf'' = buf_content buf"
proof -
  let ?n = "min (nat (ak_len ack)) (nat max_ack)"
  have b: "buf_ok buf'" "buf_content buf' = wire_ack (take ?n (ack_ids ack)) sid @ buf_content buf"
    "ack_ids ack' = drop ?n (ack_ids ack)"
    by (rule reliable_ack_write_law [OF assms(1-6), of True]; use w in simp)+
  have l: "ak_len rd + int (length (take ?n (ack_ids ack))) \<le> 8"
    using assms(1,9) unfolding ack_ok_def by auto
  have "ack_ids rd = []" using assms(8,9) by (simp add: ack_ids_def)
  then show ?thesis
    using reliable_ack_read_law [OF b(1) assms(8) l assms(3,4) b(2)] b(3) by (metis append_Nil append_take_drop_id)
qed

theorem ack_record_roundtrip_witness:
  "\<exists>ack' buf' rd' buf''. reliable_ack_write \<lparr>ak_len = 2, ak_packet_id = [7, 9, 0, 0, 0, 0, 0, 0]\<rparr>
       \<lparr>b_capacity = 20, b_offset = 20, b_len = 0, b_data = Some (replicate 20 0)\<rparr>
       \<lparr>sid_id = replicate 8 1\<rparr> 1 True = Some (True, ack', buf')
     \<and> reliable_ack_read \<lparr>ak_len = 0, ak_packet_id = replicate 8 0\<rparr> buf' \<lparr>sid_id = replicate 8 1\<rparr> = (True, rd', buf'')
     \<and> ack_ids rd' @ ack_ids ack' = [7, 9]"
proof -
  let ?a = "\<lparr>ak_len = 2, ak_packet_id = [7, 9, 0, 0, 0, 0, 0, 0]\<rparr>"
  let ?b = "\<lparr>b_capacity = 20, b_offset = 20, b_len = 0, b_data = Some (replicate 20 0)\<rparr>"
  let ?s = "\<lparr>sid_id = replicate 8 1\<rparr>" and ?r = "\<lparr>ak_len = 0, ak_packet_id = replicate 8 (0 :: u32)\<rparr>"
  have ok: "ack_ok ?a" "buf_ok ?b" "sid_ok ?s" "session_id_defined ?s" "ack_ok ?r" "ack_ids ?a = [7, 9]"
    by (simp_all add: ack_ok_def buf_ok_def BUF_SIZE_MAX_def sid_ok_def session_id_defined_def SID_SIZE_def
        x_session_id_zero_def ack_ids_def numeral_eq_Suc)
  have "reliable_ack_write ?a ?b ?s 1 True \<noteq> None \<and> fst (the (reliable_ack_write ?a ?b ?s 1 True))" by code_simp
  then obtain ack' buf' where w: "reliable_ack_write ?a ?b ?s 1 True = Some (True, ack', buf')" by auto
  show ?thesis using ack_record_roundtrip [OF ok(1-4) _ _ w ok(5)] w ok(6) by auto
qed

end
