(* ===== verification/Reliable_Window.thy ===== *)
theory Reliable_Window
  imports Reliable_Ack
begin

section \<open>The windows of the reliability layer\<close>

text \<open>
  Comparing identifiers modulo \<open>2 ^ 32\<close>, the invariant of the array of entries, and the receive window:
  the identifiers of the active entries are distinct and lie within \<^verbatim>\<open>size\<close> of the next one to deliver,
  so a full receive array always holds the packet that is due.
\<close>

subsection \<open>Comparing identifiers\<close>

lemma reliable_pid_in_range1_iff: "reliable_pid_in_range1 test base extent \<longleftrightarrow> test - base < extent"
  by (simp add: reliable_pid_in_range1_def)

lemma reliable_pid_min_iff: "reliable_pid_min p1 p2 \<longleftrightarrow> \<not> p1 - p2 < 0x80000000"
  by (simp add: reliable_pid_min_def reliable_pid_in_range1_iff)

lemma unat_word_diff:
  "unat (a - b) = (if b \<le> a then unat a - unat b else 2 ^ LENGTH('a) + unat a - unat b)" for a b :: "'a::len word"
  by (simp add: unat_sub_if' word_le_nat_alt add.commute)

lemma receive_window_iff:
  fixes t b e :: u32
  assumes "b \<le> 0x80000000" and "e \<le> 8"
  shows "reliable_pid_in_range2 t b e \<and> \<not> reliable_pid_min t b \<longleftrightarrow> t - b < e"
proof -
  have b: "unat b \<le> 2147483648" "unat e \<le> 8" using assms by (simp_all add: word_le_nat_alt)
  have be: "unat (b + e) = unat b + unat e" using b by (simp add: unat_word_ariths)
  then have "b + e \<ge> b" by (simp add: word_le_nat_alt)
  moreover have "unat t < 4294967296" using unsigned_less [of t] by simp
  ultimately show ?thesis
    using b be
    by (auto simp: reliable_pid_in_range2_def reliable_pid_min_iff word_less_nat_alt word_le_nat_alt unat_word_diff)
qed

text \<open>
  the comparison that is to keep the receive window sequential is wrong for more than half of the
  identifiers: with base \<open>0x90000000\<close> and 8 buffers, identifier 0 counts as less than base + 8 and as no
  replay, although it is \<open>0x70000000\<close> numbers ahead.
\<close>

theorem in_range2_accepts_far_ahead:
  "reliable_pid_in_range2 0 0x90000000 8 \<and> \<not> reliable_pid_min 0 0x90000000 \<and> (0 :: u32) - 0x90000000 = 0x70000000"
  by code_simp

subsection \<open>Well-formed arrays\<close>

definition rel_ok :: "reliable \<Rightarrow> bool" where
  "rel_ok rel \<longleftrightarrow> 0 < rl_size rel \<and> rl_size rel \<le> 8 \<and> length (rl_array rel) = 8 \<and> 0 \<le> rl_offset rel
     \<and> (\<forall>e \<in> set (rl_entries rel). buf_ok (e_buf e) \<and> buf_defined (e_buf e) \<and> rl_offset rel \<le> b_capacity (e_buf e))"

lemma length_rl_entries: "rel_ok rel \<Longrightarrow> length (rl_entries rel) = nat (rl_size rel)"
  by (auto simp: rel_ok_def rl_entries_def)

lemma nth_rl_entries: "i < length (rl_entries rel) \<Longrightarrow> rl_entries rel ! i = rl_array rel ! i"
  by (simp add: rl_entries_def)

lemma rl_update_simps [simp]:
  "rl_size (rl_update rel i f) = rl_size rel" "rl_packet_id (rl_update rel i f) = rl_packet_id rel"
  "rl_offset (rl_update rel i f) = rl_offset rel" "rl_hold (rl_update rel i f) = rl_hold rel"
  "rl_initial_timeout (rl_update rel i f) = rl_initial_timeout rel"
  by (simp_all add: rl_update_def)

lemma rl_entries_update:
  "i < length (rl_entries rel) \<Longrightarrow> rl_entries (rl_update rel i f) = (rl_entries rel)[i := f (rl_entries rel ! i)]"
  by (simp add: rl_update_def rl_entries_def take_update_swap)

lemma rl_entries_packet_id [simp]: "rl_entries (rel\<lparr>rl_packet_id := x\<rparr>) = rl_entries rel"
  by (simp add: rl_entries_def)

lemma rel_ok_packet_id [simp]: "rel_ok (rel\<lparr>rl_packet_id := x\<rparr>) = rel_ok rel"
  by (simp add: rel_ok_def)

lemma rel_ok_entry:
  "rel_ok rel \<Longrightarrow> i < length (rl_entries rel) \<Longrightarrow> buf_ok (e_buf (rl_entries rel ! i))
     \<and> buf_defined (e_buf (rl_entries rel ! i)) \<and> rl_offset rel \<le> b_capacity (e_buf (rl_entries rel ! i))"
  by (simp add: rel_ok_def)

lemma rel_ok_update [inv_intros]:
  assumes "rel_ok rel" and "i < length (rl_entries rel)" and "buf_ok (e_buf (f (rl_entries rel ! i)))"
    and "buf_defined (e_buf (f (rl_entries rel ! i)))"
    and "b_capacity (e_buf (f (rl_entries rel ! i))) = b_capacity (e_buf (rl_entries rel ! i))"
  shows "rel_ok (rl_update rel i f)"
proof -
  have "length (rl_array (rl_update rel i f)) = 8" using assms(1) by (simp add: rl_update_def rel_ok_def)
  moreover have "buf_ok (e_buf e) \<and> buf_defined (e_buf e) \<and> rl_offset rel \<le> b_capacity (e_buf e)"
    if "e \<in> set (rl_entries (rl_update rel i f))" for e
    using that assms rel_ok_entry [OF assms(1)]
    by (auto simp: rl_entries_update in_set_conv_nth nth_list_update split: if_splits)
  ultimately show ?thesis using assms(1) by (simp add: rel_ok_def)
qed

lemma reliable_get_buf_law:
  assumes "rel_ok rel"
  obtains (full) "reliable_get_buf rel = Some (None, rel)" "\<not> reliable_can_get rel"
  | (free) i b where "reliable_get_buf rel = Some (Some i, rl_update rel i (\<lambda>e. e\<lparr>e_buf := b\<rparr>))"
      "reliable_can_get rel" "i < length (rl_entries rel)" "\<not> e_active (rl_entries rel ! i)" "buf_ok b"
      "buf_defined b" "buf_content b = []" "b_len b = 0" "b_offset b = rl_offset rel"
      "b_capacity b = b_capacity (e_buf (rl_entries rel ! i))"
proof (cases "first_index (\<lambda>e. \<not> e_active e) (rl_entries rel)")
  case None
  then have "\<not> reliable_can_get rel" by (simp add: reliable_can_get_def list_ex_iff first_index_None)
  with None show ?thesis by (intro full) (simp_all add: reliable_get_buf_def)
next
  case (Some i)
  then have i: "i < length (rl_entries rel)" "\<not> e_active (rl_entries rel ! i)" by (simp_all add: first_index_Some)
  let ?e = "rl_entries rel ! i"
  have e: "buf_ok (e_buf ?e)" "buf_defined (e_buf ?e)" "rl_offset rel \<le> b_capacity (e_buf ?e)" "0 \<le> rl_offset rel"
    using rel_ok_entry [OF assms i(1)] assms by (simp_all add: rel_ok_def)
  have "fst (buf_init (e_buf ?e) (rl_offset rel))" using e by (simp add: buf_init_iff)
  then obtain b where b: "buf_init (e_buf ?e) (rl_offset rel) = (True, b)" by (cases "buf_init (e_buf ?e) (rl_offset rel)") simp
  have "reliable_can_get rel" using i by (auto simp: reliable_can_get_def list_ex_iff)
  with Some i b buf_init_True [OF e(1) b] show ?thesis
    by (intro free [of i b]) (simp_all add: reliable_get_buf_def assert_ok_def nth_rl_entries)
qed

subsection \<open>The receive window\<close>

definition rec_window :: "reliable \<Rightarrow> bool" where
  "rec_window rel \<longleftrightarrow>
     inj_on (\<lambda>i. e_packet_id (rl_entries rel ! i)) {i. i < length (rl_entries rel) \<and> e_active (rl_entries rel ! i)}
     \<and> (\<forall>e \<in> set (rl_entries rel). e_active e \<longrightarrow> e_packet_id e - rl_packet_id rel < word_of_int (rl_size rel))"

lemma size_word: "rel_ok rel \<Longrightarrow> unat (word_of_int (rl_size rel) :: u32) = nat (rl_size rel)"
  by (simp add: rel_ok_def unat_eq_nat_uint uint_word_of_int_eq take_bit_int_eq_self)

lemma rec_window_full:
  assumes ok: "rel_ok rel" and w: "rec_window rel" and full: "\<not> reliable_can_get rel"
  shows "\<exists>i. reliable_get_buf_sequenced rel = Some i"
proof -
  let ?es = "rl_entries rel" and ?n = "length (rl_entries rel)"
  define g where "g i = unat (e_packet_id (?es ! i) - rl_packet_id rel)" for i
  have act: "e_active (?es ! i)" if "i < ?n" for i
    using full that by (auto simp: reliable_can_get_def list_ex_iff)
  have "inj_on g {..<?n}"
    using w act by (auto simp: rec_window_def g_def inj_on_def word_unat_eq_iff [symmetric])
  moreover have "g i < ?n" if "i < ?n" for i
    using w act [OF that] that size_word [OF ok] length_rl_entries [OF ok]
    by (auto simp: rec_window_def g_def word_less_nat_alt)
  ultimately have "g ` {..<?n} = {..<?n}" by (intro card_subset_eq) (auto simp: card_image)
  moreover have "0 < ?n" using ok length_rl_entries [OF ok] by (simp add: rel_ok_def)
  ultimately obtain i where "i < ?n" "g i = 0" by (metis (no_types, lifting) imageE lessThan_iff)
  then have "e_packet_id (?es ! i) = rl_packet_id rel" by (simp add: g_def unat_eq_0)
  with act \<open>i < ?n\<close> show ?thesis unfolding reliable_get_buf_sequenced_def
    by (intro first_index_ex [of "?es ! i"]) auto
qed

lemma rec_window_insert:
  assumes ok: "rel_ok rel" and w: "rec_window rel" and i: "i < length (rl_entries rel)"
    and base: "rl_packet_id rel \<le> 0x80000000"
    and seq: "reliable_wont_break_sequentiality rel pid" and new: "reliable_not_replay rel pid"
    and f: "e_packet_id (f (rl_entries rel ! i)) = pid"
  shows "rec_window (rl_update rel i f)"
proof -
  have "(word_of_int (rl_size rel) :: u32) \<le> 8"
    using size_word [OF ok] ok by (simp add: word_le_nat_alt rel_ok_def nat_le_iff)
  then have "pid - rl_packet_id rel < word_of_int (rl_size rel)"
    using seq new receive_window_iff [OF base]
    by (auto simp: reliable_wont_break_sequentiality_def reliable_not_replay_def split: if_splits)
  moreover have "e_packet_id (rl_entries rel ! j) \<noteq> pid" if "j < length (rl_entries rel)" "e_active (rl_entries rel ! j)" for j
    using new that by (auto simp: reliable_not_replay_def list_ex_iff split: if_splits)
  ultimately show ?thesis
    using w f i unfolding rec_window_def rl_entries_update [OF i] rl_update_simps
    by (auto simp: inj_on_def nth_list_update in_set_conv_nth split: if_splits; blast)
qed

lemma entry_deactivated [simp]: "e\<lparr>e_active := False\<rparr> = e \<longleftrightarrow> \<not> e_active e" for e :: reliable_entry
  by (cases e) simp

lemma rec_window_delete:
  assumes ok: "rel_ok rel" and w: "rec_window rel" and i: "reliable_get_buf_sequenced rel = Some i"
  shows "rec_window ((rl_update rel i (\<lambda>e. e\<lparr>e_active := False\<rparr>))\<lparr>rl_packet_id := e_packet_id (rl_array rel ! i) + 1\<rparr>)"
proof -
  from i have i': "i < length (rl_entries rel)" "e_active (rl_entries rel ! i)"
    "e_packet_id (rl_entries rel ! i) = rl_packet_id rel"
    by (auto simp: reliable_get_buf_sequenced_def first_index_Some)
  have "e_packet_id (rl_entries rel ! j) - (rl_packet_id rel + 1) < word_of_int (rl_size rel)"
    if j: "j < length (rl_entries rel)" "e_active (rl_entries rel ! j)" "j \<noteq> i" for j
  proof -
    let ?d = "e_packet_id (rl_entries rel ! j) - rl_packet_id rel"
    have "?d \<noteq> 0" using w i' j by (auto simp: rec_window_def inj_on_def)
    then have "unat (?d - 1) < unat ?d" using unat_minus_one [of ?d] unat_eq_0 [of ?d] by simp
    moreover have "?d < word_of_int (rl_size rel)" using w j by (auto simp: rec_window_def)
    ultimately show ?thesis by (simp add: word_less_nat_alt diff_diff_eq)
  qed
  moreover have "e_packet_id (rl_array rel ! i) = rl_packet_id rel" using i' nth_rl_entries [OF i'(1)] by simp
  moreover have "rl_entries (rl_update rel i (\<lambda>e. e\<lparr>e_active := False\<rparr>))
      = (rl_entries rel)[i := (rl_entries rel ! i)\<lparr>e_active := False\<rparr>]" by (rule rl_entries_update [OF i'(1)])
  ultimately show ?thesis
    using w i'(1) unfolding rec_window_def
    by (auto simp: inj_on_def nth_list_update in_set_conv_nth split: if_splits)
qed

end
