(* ===== verification/Control_Channel.thy ===== *)
theory Control_Channel
  imports Reliable_Window
begin

section \<open>The control channel over the reliability layer (ssl.c)\<close>

text \<open>
  The parts of \<^verbatim>\<open>ssl.c\<close> that drive the reliability layer: the tail of \<^verbatim>\<open>tls_pre_decrypt\<close>, which takes
  a control packet apart, and the steps of \<^verbatim>\<open>tls_process\<close> that queue, send, acknowledge and deliver
  packets. The control channel is the unwrapped one (\<^verbatim>\<open>TLS_WRAP_NONE\<close>). The TLS engine is outside: the
  ciphertext it produces and the status with which it takes ciphertext are arguments.
\<close>

subsection \<open>State and packet header\<close>

definition P_KEY_ID_MASK :: byte where "P_KEY_ID_MASK = 0x07"

definition P_OPCODE_SHIFT :: nat where "P_OPCODE_SHIFT = 3"

definition P_CONTROL_V1 :: int where "P_CONTROL_V1 = 4"

definition P_ACK_V1 :: int where "P_ACK_V1 = 5"

definition CONTROL_SEND_ACK_MAX :: int where "CONTROL_SEND_ACK_MAX = 4"

text \<open>The fields of \<^verbatim>\<open>struct key_state\<close> and \<^verbatim>\<open>struct tls_session\<close> that the reliability layer needs.\<close>

record control =
  c_key_id :: int
  c_session_id :: session_id
  c_session_id_remote :: session_id
  c_send_reliable :: reliable
  c_rec_reliable :: reliable
  c_rec_ack :: reliable_ack
  c_ack_write_buf :: buffer
  c_headroom :: int

definition control_header :: "int \<Rightarrow> int \<Rightarrow> byte" where
  "control_header key_id opcode = word_of_int key_id OR push_bit P_OPCODE_SHIFT (word_of_int opcode)"

definition header_opcode :: "byte \<Rightarrow> int" where
  "header_opcode c = uint (drop_bit P_OPCODE_SHIFT c)"

definition header_key_id :: "byte \<Rightarrow> int" where
  "header_key_id c = uint (c AND P_KEY_ID_MASK)"

subsection \<open>Sending\<close>

definition write_control_auth ::
    "control \<Rightarrow> buffer \<Rightarrow> int \<Rightarrow> int \<Rightarrow> bool \<Rightarrow> (control \<times> buffer) exec" where
  "write_control_auth c buf opcode max_ack prepend_ack = (do {
     let header = control_header (c_key_id c) opcode;
     (ok, ack, buf1) \<leftarrow> reliable_ack_write (c_rec_ack c) buf (c_session_id_remote c) max_ack prepend_ack;
     assert_c ok;
     buf2 \<leftarrow> assert_ok (session_id_write_prepend (c_session_id c) buf1);
     buf3 \<leftarrow> assert_ok (buf_write_prepend buf2 [header] 1);
     Some (c\<lparr>c_rec_ack := ack\<rparr>, buf3) })"

text \<open>
  \<open>ciphertext\<close> is what the TLS engine has to send, if anything; it never exceeds the room in the buffer it
  is given.
\<close>

definition control_queue :: "control \<Rightarrow> int \<Rightarrow> byte list option \<Rightarrow> (bool \<times> control) exec" where
  "control_queue c opcode ciphertext = (do {
     (slot, r1) \<leftarrow> reliable_get_buf_output_sequenced (c_send_reliable c);
     case (slot, ciphertext) of
       (Some i, Some bs) \<Rightarrow>
         (case buf_write (e_buf (rl_array r1 ! i)) bs (int (length bs)) of
            (False, _) \<Rightarrow> Some (False, c\<lparr>c_send_reliable := r1\<rparr>)
          | (True, b) \<Rightarrow> do {
              r2 \<leftarrow> reliable_mark_active_outgoing (rl_update r1 i (\<lambda>e. e\<lparr>e_buf := b\<rparr>)) i opcode;
              Some (True, c\<lparr>c_send_reliable := r2\<rparr>) })
     | _ \<Rightarrow> Some (False, c\<lparr>c_send_reliable := r1\<rparr>) })"

text \<open>The buffer sent is a copy of the one in the entry, which keeps it for the next retransmission.\<close>

definition control_send :: "int \<Rightarrow> control \<Rightarrow> (buffer option \<times> control) exec" where
  "control_send now c =
     (if reliable_can_send now (c_send_reliable c) then do {
        let (best, r1) = reliable_send now (c_send_reliable c);
        (i, opcode) \<leftarrow> best;
        (c2, b) \<leftarrow> write_control_auth (c\<lparr>c_send_reliable := r1\<rparr>) (e_buf (rl_array r1 ! i)) opcode
                    CONTROL_SEND_ACK_MAX True;
        Some (Some b, c2) }
      else Some (None, c))"

definition control_send_ack :: "control \<Rightarrow> (buffer option \<times> control) exec" where
  "control_send_ack c =
     (if \<not> reliable_ack_empty (c_rec_ack c) then do {
        buf \<leftarrow> assert_ok (buf_init (c_ack_write_buf c) (c_headroom c));
        (c2, b) \<leftarrow> write_control_auth c buf P_ACK_V1 RELIABLE_ACK_SIZE False;
        Some (Some b, c2) }
      else Some (None, c))"

subsection \<open>Receiving\<close>

definition read_control_auth :: "buffer \<Rightarrow> buffer" where
  "read_control_auth buf = snd (buf_advance buf (SID_SIZE + 1))"

text \<open>The local \<^verbatim>\<open>send_ack\<close>, of which only \<^verbatim>\<open>len\<close> is initialised; no slot is read before it is written.\<close>

definition send_ack_init :: reliable_ack where
  "send_ack_init = \<lparr>ak_len = 0, ak_packet_id = replicate 8 0\<rparr>"

text \<open>Storing a packet that is no replay; the result says whether it fitted.\<close>

definition control_store :: "reliable \<Rightarrow> u32 \<Rightarrow> int \<Rightarrow> buffer \<Rightarrow> (bool \<times> reliable) exec" where
  "control_store rel pid op buf = (do {
     (slot, r1) \<leftarrow> reliable_get_buf rel;
     i \<leftarrow> slot;
     case buf_copy (e_buf (rl_array r1 ! i)) buf of
       (False, b) \<Rightarrow> Some (False, rl_update r1 i (\<lambda>e. e\<lparr>e_buf := b\<rparr>))
     | (True, b) \<Rightarrow> do {
         r2 \<leftarrow> reliable_mark_active_incoming (rl_update r1 i (\<lambda>e. e\<lparr>e_buf := b\<rparr>)) i pid op;
         Some (True, r2) } })"

definition control_receive_data :: "control \<Rightarrow> int \<Rightarrow> buffer \<Rightarrow> (bool \<times> control) exec" where
  "control_receive_data c op buf =
     (case reliable_ack_read_packet_id buf of
        (None, _) \<Rightarrow> Some (True, c)
      | (Some pid, buf') \<Rightarrow>
          (if reliable_wont_break_sequentiality (c_rec_reliable c) pid then do {
             (fits, r) \<leftarrow> (if reliable_not_replay (c_rec_reliable c) pid
                          then control_store (c_rec_reliable c) pid op buf'
                          else Some (True, c_rec_reliable c));
             Some (if fits
                   then (True, c\<lparr>c_rec_reliable := r,
                                 c_rec_ack := snd (reliable_ack_acknowledge_packet_id (c_rec_ack c) pid)\<rparr>)
                   else (False, c\<lparr>c_rec_reliable := r\<rparr>)) }
           else Some (True, c)))"

text \<open>\<open>buf\<close> is the packet from its opcode on, and not empty. The result is false where the code goes to \<^verbatim>\<open>error\<close>.\<close>

definition control_receive :: "control \<Rightarrow> buffer \<Rightarrow> (bool \<times> control) exec" where
  "control_receive c buf =
     (let pkt = buf_load buf (b_offset buf) 1 ! 0; op = header_opcode pkt; key_id = header_key_id pkt;
          buf1 = read_control_auth buf
      in if c_key_id c \<noteq> key_id then Some (False, c)
         else case reliable_ack_read send_ack_init buf1 (c_session_id c) of
                (False, _, _) \<Rightarrow> Some (False, c)
              | (True, send_ack, buf2) \<Rightarrow>
                  (let c1 = c\<lparr>c_send_reliable := reliable_send_purge (c_send_reliable c) send_ack\<rparr>
                   in if op \<noteq> P_ACK_V1 \<and> reliable_can_get (c_rec_reliable c1)
                      then control_receive_data c1 op buf2 else Some (True, c1)))"

text \<open>\<open>status\<close> is the result of \<^verbatim>\<open>key_state_write_ciphertext\<close>, 1 when the TLS engine took the ciphertext.\<close>

definition control_deliver :: "int \<Rightarrow> control \<Rightarrow> (byte list option \<times> control) exec" where
  "control_deliver status c =
     (case reliable_get_buf_sequenced (c_rec_reliable c) of
        None \<Rightarrow> Some (None, c)
      | Some i \<Rightarrow>
          (let b = e_buf (rl_array (c_rec_reliable c) ! i); st = (if b_len b \<noteq> 0 then status else 1)
           in if st = 1 then do {
                r \<leftarrow> reliable_mark_deleted (c_rec_reliable c) i True;
                Some (Some (buf_content b), c\<lparr>c_rec_reliable := r\<rparr>) }
              else Some (None, c)))"

subsection \<open>No packet aborts the receiver\<close>

definition control_ok :: "control \<Rightarrow> bool" where
  "control_ok c \<longleftrightarrow> rel_ok (c_send_reliable c) \<and> rel_ok (c_rec_reliable c) \<and> ack_ok (c_rec_ack c)
     \<and> buf_ok (c_ack_write_buf c)"

lemma purge_ids_entries:
  "rel_ok rel \<Longrightarrow> rel_ok (reliable_send_purge_ids ids rel)
     \<and> rl_packet_id (reliable_send_purge_ids ids rel) = rl_packet_id rel
     \<and> length (rl_entries (reliable_send_purge_ids ids rel)) = length (rl_entries rel)
     \<and> (\<forall>i < length (rl_entries rel). rl_entries (reliable_send_purge_ids ids rel) ! i = rl_entries rel ! i
          \<or> e_active (rl_entries rel ! i) \<and> e_packet_id (rl_entries rel ! i) \<in> set ids
             \<and> rl_entries (reliable_send_purge_ids ids rel) ! i = (rl_entries rel ! i)\<lparr>e_active := False\<rparr>)"
proof (induction ids arbitrary: rel)
  case (Cons pid ids)
  let ?j = "first_index (\<lambda>e. e_active e \<and> e_packet_id e = pid) (rl_entries rel)"
  show ?case
  proof (cases ?j)
    case None
    then show ?thesis using Cons.IH [OF Cons.prems] by (auto simp: Cons.prems)
  next
    case (Some j)
    then have j: "j < length (rl_entries rel)" "e_active (rl_entries rel ! j)" "e_packet_id (rl_entries rel ! j) = pid"
      by (auto simp: first_index_Some)
    let ?r = "rl_update rel j (\<lambda>e. e\<lparr>e_active := False\<rparr>)"
    have r: "rel_ok ?r" "length (rl_entries ?r) = length (rl_entries rel)"
      using rel_ok_update [OF Cons.prems j(1)] rel_ok_entry [OF Cons.prems j(1)] rl_entries_update [OF j(1)] by auto
    have e: "rl_entries ?r ! i = (if i = j then (rl_entries rel ! j)\<lparr>e_active := False\<rparr> else rl_entries rel ! i)"
      if "i < length (rl_entries rel)" for i
      using that rl_entries_update [OF j(1)] by (simp add: nth_list_update)
    show ?thesis using Cons.IH [OF r(1)] r(2) e j by (simp add: Some split: if_splits) (metis set_ConsD list.set_intros)
  qed
qed simp

lemma rl_update_update: "i < length (rl_array rel) \<Longrightarrow> rl_update (rl_update rel i f) i g = rl_update rel i (\<lambda>e. g (f e))"
  by (simp add: rl_update_def)

lemma rl_update_nth: "i < length (rl_array rel) \<Longrightarrow> rl_array (rl_update rel i f) ! i = f (rl_array rel ! i)"
  by (simp add: rl_update_def)

lemma entries_array: "rel_ok rel \<Longrightarrow> i < length (rl_entries rel) \<Longrightarrow> i < length (rl_array rel)"
  by (simp add: rl_entries_def)

lemma buf_copy_False: "buf_copy dest src = (False, dest') \<Longrightarrow> dest' = dest"
  by (simp add: buf_copy_def buf_write_False)

lemma buf_copy_defined: "buf_copy dest src = (True, dest') \<Longrightarrow> buf_defined dest'"
  by (auto simp: buf_copy_def buf_write_def buf_defs split: if_splits)

lemma control_store_law:
  assumes ok: "rel_ok rel" and get: "reliable_can_get rel" and new: "\<not> reliable_pid_min pid (rl_packet_id rel)"
    and buf: "buf_ok buf"
  obtains (dropped) i f where "control_store rel pid op buf = Some (False, rl_update rel i f)"
      "i < length (rl_entries rel)" "\<not> e_active (rl_entries rel ! i)" "\<not> e_active (f (rl_entries rel ! i))"
      "rel_ok (rl_update rel i f)"
  | (stored) i f where "control_store rel pid op buf = Some (True, rl_update rel i f)"
      "i < length (rl_entries rel)" "\<not> e_active (rl_entries rel ! i)" "e_active (f (rl_entries rel ! i))"
      "e_packet_id (f (rl_entries rel ! i)) = pid" "e_opcode (f (rl_entries rel ! i)) = op"
      "buf_content (e_buf (f (rl_entries rel ! i))) = buf_content buf" "rel_ok (rl_update rel i f)"
  using ok
proof (cases rule: reliable_get_buf_law)
  case full
  then show ?thesis using get by blast
next
  case (free i b)
  have a: "i < length (rl_array rel)" by (rule entries_array [OF ok free(3)])
  let ?r1 = "rl_update rel i (\<lambda>e. e\<lparr>e_buf := b\<rparr>)"
  have ef: "e_buf (rl_array ?r1 ! i) = b" by (simp add: rl_update_nth [OF a])
  obtain fits d where d: "buf_copy b buf = (fits, d)" by fastforce
  show ?thesis
  proof (cases fits)
    case False
    with d have "d = b" using buf_copy_False by simp
    let ?f = "\<lambda>e. e\<lparr>e_buf := d\<rparr>"
    have "control_store rel pid op buf = Some (False, rl_update rel i ?f)"
      using free(1) d False ef by (simp add: control_store_def rl_update_update [OF a])
    then show ?thesis
      by (rule dropped [of i ?f])
        (use free \<open>d = b\<close> in \<open>simp_all add: rel_ok_update [OF ok free(3)]\<close>)
  next
    case True
    let ?f = "\<lambda>e. e\<lparr>e_buf := d, e_active := True, e_packet_id := pid, e_opcode := op, e_next_try := 0, e_timeout := 0\<rparr>"
    have c: "buf_ok d" "buf_content d = buf_content buf" "b_capacity d = b_capacity b" "buf_defined d"
      using buf_copy_True [OF free(5) buf, of d] buf_copy_defined [of b buf d] d True free(7) by auto
    have "i < length (rl_entries (rl_update rel i (\<lambda>e. e\<lparr>e_buf := d\<rparr>)))" using free(3) by (simp add: rl_entries_update)
    then have "control_store rel pid op buf = Some (True, rl_update rel i ?f)"
      using free(1) d True ef new
      by (simp add: control_store_def rl_update_update [OF a] reliable_mark_active_incoming_def)
    then show ?thesis
      by (rule stored [of i ?f]) (use free c in \<open>simp_all add: rel_ok_update [OF ok free(3)]\<close>)
  qed
qed

lemma control_receive_data_law:
  assumes ok: "control_ok c" and get: "reliable_can_get (c_rec_reliable c)" and buf: "buf_ok buf"
  shows "\<exists>r c'. control_receive_data c op buf = Some (r, c') \<and> control_ok c'
    \<and> c_send_reliable c' = c_send_reliable c"
proof (cases "reliable_ack_read_packet_id buf")
  case (Pair p buf')
  show ?thesis
  proof (cases p)
    case None
    then show ?thesis using Pair ok by (auto simp: control_receive_data_def)
  next
    case (Some pid)
    have "buf_ok buf'" using Pair Some buf_read_Some(5) [OF buf]
      by (auto simp: reliable_ack_read_packet_id_def split: prod.splits option.splits)
    note s = control_store_law [OF _ get _ this]
    have o: "rel_ok (c_rec_reliable c)" "rel_ok (c_send_reliable c)" "ack_ok (c_rec_ack c)"
      "buf_ok (c_ack_write_buf c)"
      using ok by (simp_all add: control_ok_def)
    have "\<exists>b r. control_store (c_rec_reliable c) pid op buf' = Some (b, r) \<and> rel_ok r"
      if "reliable_not_replay (c_rec_reliable c) pid"
      using that by (cases rule: s [OF o(1), of pid op]) (auto simp: reliable_not_replay_def split: if_splits)
    then show ?thesis using Pair Some o reliable_ack_acknowledge_law(1) [OF o(3), of pid]
      by (fastforce simp: control_receive_data_def control_ok_def)
  qed
qed

lemma reliable_ack_read_ids_buf_ok:
  "buf_ok buf \<Longrightarrow> buf_ok (snd (snd (reliable_ack_read_ids n ack buf)))"
proof (induction n arbitrary: ack buf)
  case (Suc n)
  obtain r b where "buf_read buf 4 = (r, b)" by fastforce
  with Suc buf_read_Some(5) [OF Suc.prems, of 4 _ b] buf_read_None_same [OF Suc.prems, of 4 b] show ?case
    by (cases r) (auto split: option.split)
qed simp

lemma reliable_ack_read_buf_ok:
  assumes "buf_ok buf" and "reliable_ack_read ack buf sid = (True, ack', buf')"
  shows "buf_ok buf'"
proof -
  from assms(2) obtain cs b1 b2 where b: "buf_read buf 1 = (Some cs, b1)"
    "reliable_ack_read_ids (unat (cs ! 0)) ack b1 = (True, ack', b2)"
    "b2 = buf' \<or> (\<exists>s. session_id_read b2 = (Some s, buf'))"
    by (auto simp: reliable_ack_read_def split: prod.splits option.splits bool.splits if_splits)
  have "buf_ok b2" using reliable_ack_read_ids_buf_ok [OF buf_read_Some(5) [OF assms(1) b(1)]] b(2) by (metis snd_conv)
  then show ?thesis
    using b(3) buf_read_Some(5) by (auto simp: session_id_read_def split: prod.splits option.splits)
qed

lemma read_control_auth_ok: "buf_ok buf \<Longrightarrow> buf_ok (read_control_auth buf)"
  using buf_advance_True(3) [of buf "SID_SIZE + 1"]
  by (cases "buf_advance buf (SID_SIZE + 1)") (auto simp: read_control_auth_def buf_advance_def split: if_splits)

lemma control_purge_ok: "control_ok c \<Longrightarrow> control_ok (c\<lparr>c_send_reliable := reliable_send_purge (c_send_reliable c) ack\<rparr>)"
  using purge_ids_entries by (simp add: control_ok_def reliable_send_purge_def)

lemma control_receive_total:
  assumes ok: "control_ok c" and buf: "buf_ok buf"
  shows "\<exists>r c'. control_receive c buf = Some (r, c') \<and> control_ok c'"
proof (cases "reliable_ack_read send_ack_init (read_control_auth buf) (c_session_id c)")
  case (fields r ack buf2)
  let ?c1 = "c\<lparr>c_send_reliable := reliable_send_purge (c_send_reliable c) ack\<rparr>"
  have c1: "control_ok ?c1" by (rule control_purge_ok [OF ok])
  show ?thesis
  proof (cases "r \<and> reliable_can_get (c_rec_reliable c)")
    case True
    then have "buf_ok buf2" using reliable_ack_read_buf_ok [OF read_control_auth_ok [OF buf]] fields by simp
    then have "\<exists>r c'. control_receive_data ?c1 op buf2 = Some (r, c') \<and> control_ok c'" for op
      using control_receive_data_law [OF c1, of buf2 op] True by auto
    with True c1 fields ok show ?thesis by (auto simp: control_receive_def Let_def)
  next
    case False
    then show ?thesis using c1 ok fields by (cases r) (auto simp: control_receive_def Let_def)
  qed
qed

lemma control_receive_ok: "control_ok c \<Longrightarrow> buf_ok buf \<Longrightarrow> control_receive c buf = Some (r, c') \<Longrightarrow> control_ok c'"
  using control_receive_total [of c buf] by auto

text \<open>
  C6: no control packet can abort the process. Whatever bytes arrive, truncated or forged, the receive
  path reaches none of its assertions and keeps the state well-formed.
\<close>

theorem control_receive_never_aborts:
  assumes ok: "control_ok c" and buf: "buf_ok buf"
  shows "\<exists>r c'. control_receive c buf = Some (r, c') \<and> control_ok c'"
  by (rule control_receive_total [OF assms])

text \<open>A well-formed state to start from: \<^verbatim>\<open>reliable_init\<close> for both directions, nothing to acknowledge.\<close>

definition control_start :: "session_id \<Rightarrow> session_id \<Rightarrow> int \<Rightarrow> int \<Rightarrow> control exec" where
  "control_start sid sid_remote buf_size headroom = (do {
     s \<leftarrow> reliable_init buf_size headroom 4 False;
     r \<leftarrow> reliable_init buf_size headroom 8 False;
     b \<leftarrow> alloc_buf buf_size;
     Some \<lparr>c_key_id = 0, c_session_id = sid, c_session_id_remote = sid_remote, c_send_reliable = s,
           c_rec_reliable = r, c_rec_ack = \<lparr>ak_len = 0, ak_packet_id = replicate 8 0\<rparr>, c_ack_write_buf = b,
           c_headroom = headroom\<rparr> })"

lemma reliable_init_ok:
  assumes "reliable_init n off sz hold = Some rel" and "0 \<le> n" and "n < 2 ^ 64"
  shows "rel_ok rel" "rl_packet_id rel = 0" "\<forall>e \<in> set (rl_entries rel). \<not> e_active e" "rl_size rel = sz"
    "\<forall>e \<in> set (rl_entries rel). b_capacity (e_buf e) = n" "rl_offset rel = off"
proof -
  from assms(1) obtain b0 b where b: "0 < sz" "sz \<le> 8" "alloc_buf n = Some b0" "buf_init b0 off = (True, b)"
    "rel = \<lparr>rl_size = sz, rl_initial_timeout = 0, rl_packet_id = 0, rl_offset = off, rl_hold = hold,
       rl_array = replicate (nat sz) (reliable_entry_clear\<lparr>e_buf := b\<rparr>)
         @ replicate (nat (8 - sz)) reliable_entry_clear\<rparr>"
    by (auto simp: reliable_init_def RELIABLE_CAPACITY_def assert_ok_def split: Option.bind_splits if_splits)
       (metis prod.collapse)
  note a = alloc_buf_ok [OF b(3) assms(2,3)]
  note i = buf_init_True [OF a(1) b(4)]
  have es: "rl_entries rel = replicate (nat sz) (reliable_entry_clear\<lparr>e_buf := b\<rparr>)"
    by (simp add: b(5) rl_entries_def)
  have "length (rl_array rel) = 8" using b(1,2) by (simp add: b(5))
  then show "rel_ok rel" using b(1,2) i es by (simp add: rel_ok_def b(5))
  show "rl_packet_id rel = 0" "rl_size rel = sz" "rl_offset rel = off" by (simp_all add: b(5))
  show "\<forall>e \<in> set (rl_entries rel). \<not> e_active e" by (simp add: es reliable_entry_clear_def)
  show "\<forall>e \<in> set (rl_entries rel). b_capacity (e_buf e) = n" using i(5) a(3) by (simp add: es)
qed

lemma control_start_ok:
  assumes "control_start sid sidr n off = Some c" and "0 \<le> n" and "n < 2 ^ 64"
  shows "control_ok c"
  using assms reliable_init_ok(1) alloc_buf_ok(1)
  by (auto simp: control_start_def control_ok_def ack_ok_def split: Option.bind_splits)

theorem control_receive_never_aborts_witness:
  "\<exists>c r c'. control_start \<lparr>sid_id = replicate 8 1\<rparr> \<lparr>sid_id = replicate 8 2\<rparr> 100 40 = Some c
     \<and> control_receive c \<lparr>b_capacity = 3, b_offset = 0, b_len = 3, b_data = Some [32, 255, 255]\<rparr> = Some (r, c')
     \<and> control_ok c'"
proof -
  let ?b = "\<lparr>b_capacity = 3, b_offset = 0, b_len = 3, b_data = Some [32, 255, 255]\<rparr>"
  have "control_start \<lparr>sid_id = replicate 8 1\<rparr> \<lparr>sid_id = replicate 8 2\<rparr> 100 40 \<noteq> None"
    by (simp add: control_start_def reliable_init_def RELIABLE_CAPACITY_def alloc_buf_def assert_ok_def buf_init_def
        BUF_SIZE_MAX_def)
  then obtain c where c: "control_start \<lparr>sid_id = replicate 8 1\<rparr> \<lparr>sid_id = replicate 8 2\<rparr> 100 40 = Some c" by blast
  have "buf_ok ?b" by (simp add: buf_ok_def BUF_SIZE_MAX_def)
  then show ?thesis using control_receive_never_aborts [OF control_start_ok [OF c]] c by fastforce
qed

subsection \<open>The receive array never locks up\<close>

lemma control_receive_dataE [consumes 1, case_names skip replay store]:
  assumes d: "control_receive_data c op buf = Some (res, c')"
  obtains "c' = c" "res"
  | pid buf' where "reliable_ack_read_packet_id buf = (Some pid, buf')"
      "reliable_wont_break_sequentiality (c_rec_reliable c) pid" "\<not> reliable_not_replay (c_rec_reliable c) pid"
      "c' = c\<lparr>c_rec_ack := snd (reliable_ack_acknowledge_packet_id (c_rec_ack c) pid)\<rparr>" "res"
  | pid buf' r where "reliable_ack_read_packet_id buf = (Some pid, buf')"
      "reliable_wont_break_sequentiality (c_rec_reliable c) pid" "reliable_not_replay (c_rec_reliable c) pid"
      "control_store (c_rec_reliable c) pid op buf' = Some (res, r)"
      "c' = (if res then c\<lparr>c_rec_reliable := r,
              c_rec_ack := snd (reliable_ack_acknowledge_packet_id (c_rec_ack c) pid)\<rparr>
            else c\<lparr>c_rec_reliable := r\<rparr>)"
proof -
  obtain p b3 where p: "reliable_ack_read_packet_id buf = (p, b3)" by fastforce
  show ?thesis
  proof (cases p)
    case None
    with d p show ?thesis by (intro that(1)) (simp_all add: control_receive_data_def)
  next
    case (Some pid)
    consider "\<not> reliable_wont_break_sequentiality (c_rec_reliable c) pid"
      | "reliable_wont_break_sequentiality (c_rec_reliable c) pid" "\<not> reliable_not_replay (c_rec_reliable c) pid"
      | "reliable_wont_break_sequentiality (c_rec_reliable c) pid" "reliable_not_replay (c_rec_reliable c) pid"
      by blast
    then show ?thesis
    proof cases
      case 1
      with d p Some show ?thesis by (intro that(1)) (simp_all add: control_receive_data_def)
    next
      case 2
      with d p Some show ?thesis by (intro that(2) [of pid b3]) (simp_all add: control_receive_data_def)
    next
      case 3
      with d p Some obtain f r where s: "control_store (c_rec_reliable c) pid op b3 = Some (f, r)"
        by (cases "control_store (c_rec_reliable c) pid op b3") (auto simp: control_receive_data_def)
      with 3 d p Some show ?thesis
        by (intro that(3) [of pid b3 r]) (auto simp: control_receive_data_def split: if_splits)
    qed
  qed
qed

lemma control_receiveE [consumes 1, case_names refused acks data]:
  assumes "control_receive c buf = Some (res, c')"
  obtains "c' = c" "\<not> res"
  | ack buf2 where "reliable_ack_read send_ack_init (read_control_auth buf) (c_session_id c) = (True, ack, buf2)"
      "c' = c\<lparr>c_send_reliable := reliable_send_purge (c_send_reliable c) ack\<rparr>" "res"
  | ack buf2 where "reliable_ack_read send_ack_init (read_control_auth buf) (c_session_id c) = (True, ack, buf2)"
      "header_opcode (buf_load buf (b_offset buf) 1 ! 0) \<noteq> P_ACK_V1" "reliable_can_get (c_rec_reliable c)"
      "control_receive_data (c\<lparr>c_send_reliable := reliable_send_purge (c_send_reliable c) ack\<rparr>)
         (header_opcode (buf_load buf (b_offset buf) 1 ! 0)) buf2 = Some (res, c')"
proof -
  obtain ra ack buf2 where a: "reliable_ack_read send_ack_init (read_control_auth buf) (c_session_id c) = (ra, ack, buf2)"
    by (rule prod_cases3)
  show ?thesis
  proof (cases "c_key_id c = header_key_id (buf_load buf (b_offset buf) 1 ! 0) \<and> ra")
    case False
    with assms a show ?thesis by (intro that(1)) (auto simp: control_receive_def Let_def split: if_splits bool.splits)
  next
    case True
    with assms a that(2,3) [of ack buf2] show ?thesis
      by (auto simp: control_receive_def Let_def split: if_splits)
  qed
qed

lemma control_receive_window:
  assumes ok: "control_ok c" and w: "rec_window (c_rec_reliable c)" and buf: "buf_ok buf"
    and base: "rl_packet_id (c_rec_reliable c) \<le> 0x80000000" and r: "control_receive c buf = Some (res, c')"
  shows "rec_window (c_rec_reliable c') \<and> rl_packet_id (c_rec_reliable c') = rl_packet_id (c_rec_reliable c)"
  using r
proof (cases rule: control_receiveE)
  case (data ack buf2)
  let ?rel = "c_rec_reliable c"
  have b2: "buf_ok buf2" using reliable_ack_read_buf_ok [OF read_control_auth_ok [OF buf] data(1)] .
  have rel: "rel_ok ?rel" using ok by (simp add: control_ok_def)
  from data(4) show ?thesis
  proof (cases rule: control_receive_dataE)
    case (store pid b3 r')
    have b3: "buf_ok b3" using store(1) buf_read_Some(5) [OF b2]
      by (auto simp: reliable_ack_read_packet_id_def split: prod.splits option.splits)
    have np: "\<not> reliable_pid_min pid (rl_packet_id ?rel)"
      using store(3) by (simp add: reliable_not_replay_def split: if_splits)
    have "rec_window r' \<and> rl_packet_id r' = rl_packet_id ?rel"
      using rel data(3) np b3
    proof (cases rule: control_store_law [where op = "header_opcode (buf_load buf (b_offset buf) 1 ! 0)"])
      case (dropped i g)
      with w store(4) show ?thesis
        by (auto simp: rec_window_def rl_entries_update inj_on_def nth_list_update in_set_conv_nth split: if_splits)
    next
      case (stored i g)
      with rec_window_insert [OF rel w stored(2) base] store(2-4) show ?thesis by auto
    qed
    then show ?thesis using store(5) by simp
  qed (use w in simp_all)
qed (use w in simp_all)

lemma control_deliver_window:
  assumes ok: "control_ok c" and w: "rec_window (c_rec_reliable c)" and d: "control_deliver st c = Some (r, c')"
  shows "rec_window (c_rec_reliable c')"
proof (cases "reliable_get_buf_sequenced (c_rec_reliable c)")
  case (Some i)
  have rel: "rel_ok (c_rec_reliable c)" using ok by (simp add: control_ok_def)
  from Some have "i < length (rl_entries (c_rec_reliable c))"
    by (simp add: reliable_get_buf_sequenced_def first_index_Some)
  with rec_window_delete [OF rel w Some] d Some w show ?thesis
    by (auto simp: control_deliver_def reliable_mark_deleted_def Let_def split: if_splits)
qed (use d w in \<open>simp add: control_deliver_def\<close>)

lemma control_deliver_ok:
  assumes ok: "control_ok c" and d: "control_deliver st c = Some (r, c')"
  shows "control_ok c'"
proof (cases "reliable_get_buf_sequenced (c_rec_reliable c)")
  case (Some i)
  have rel: "rel_ok (c_rec_reliable c)" using ok by (simp add: control_ok_def)
  from Some have i: "i < length (rl_entries (c_rec_reliable c))"
    by (simp add: reliable_get_buf_sequenced_def first_index_Some)
  have "rel_ok (rl_update (c_rec_reliable c) i (\<lambda>e. e\<lparr>e_active := False\<rparr>))"
    using rel_ok_update [OF rel i] rel_ok_entry [OF rel i] by simp
  with d Some ok show ?thesis
    by (auto simp: control_deliver_def reliable_mark_deleted_def Let_def control_ok_def split: if_splits)
qed (use d ok in \<open>simp add: control_deliver_def\<close>)

text \<open>
  The states a receiver reaches when arbitrary packets arrive, genuine or not, and deliveries are
  interleaved; the guard leaves out sessions that deliver more than \<open>2 ^ 31\<close> packets.
\<close>

inductive recv_reach :: "control \<Rightarrow> bool" where
  start: "control_start sid sidr n off = Some c \<Longrightarrow> 0 \<le> n \<Longrightarrow> n < 2 ^ 64 \<Longrightarrow> recv_reach c"
| receive: "recv_reach c \<Longrightarrow> rl_packet_id (c_rec_reliable c) \<le> 0x80000000 \<Longrightarrow> buf_ok buf \<Longrightarrow>
    control_receive c buf = Some (r, c') \<Longrightarrow> recv_reach c'"
| deliver: "recv_reach c \<Longrightarrow> control_deliver st c = Some (p, c') \<Longrightarrow> recv_reach c'"

lemma recv_reach_inv: "recv_reach c \<Longrightarrow> control_ok c \<and> rec_window (c_rec_reliable c)"
proof (induction rule: recv_reach.induct)
  case (start sid sidr n off c)
  then obtain s where "reliable_init n off 8 False = Some (c_rec_reliable c)"
    by (auto simp: control_start_def split: Option.bind_splits)
  from reliable_init_ok(3) [OF this] start have "\<forall>e \<in> set (rl_entries (c_rec_reliable c)). \<not> e_active e" by blast
  then have "rec_window (c_rec_reliable c)" by (auto simp: rec_window_def inj_on_def)
  with control_start_ok [OF start] show ?case by blast
next
  case (receive c buf r c')
  have "control_ok c'"
    using control_receive_ok [of c buf r c'] receive by blast
  with control_receive_window receive show ?case by blast
next
  case (deliver c st p c')
  with control_deliver_ok control_deliver_window show ?case by blast
qed

text \<open>
  C5: the receive array cannot deadlock. In every state a receiver reaches, whatever packets were thrown at
  it, if no buffer is free then the packet that is due is in the array, and delivering it frees a buffer.
\<close>

theorem reliable_never_deadlocks:
  assumes "recv_reach c" and "\<not> reliable_can_get (c_rec_reliable c)"
  shows "\<exists>payload c'. control_deliver 1 c = Some (Some payload, c') \<and> reliable_can_get (c_rec_reliable c')"
proof -
  let ?rel = "c_rec_reliable c"
  have ok: "rel_ok ?rel" "rec_window ?rel" using recv_reach_inv [OF assms(1)] by (auto simp: control_ok_def)
  obtain i where i: "reliable_get_buf_sequenced ?rel = Some i" using rec_window_full [OF ok assms(2)] by blast
  then have l: "i < length (rl_entries ?rel)" by (simp add: reliable_get_buf_sequenced_def first_index_Some)
  have "reliable_can_get (rl_update ?rel i (\<lambda>e. e\<lparr>e_active := False\<rparr>)\<lparr>rl_packet_id := x\<rparr>)" for x
    using l by (auto simp: reliable_can_get_def rl_entries_update list_ex_iff set_update_memI
        intro!: bexI [of _ "(rl_entries ?rel ! i)\<lparr>e_active := False\<rparr>"])
  with i l show ?thesis by (simp add: control_deliver_def reliable_mark_deleted_def Let_def)
qed

text \<open>A datagram in a buffer of its size, and the reception of several.\<close>

definition wire_buf :: "byte list \<Rightarrow> buffer" where
  "wire_buf bs = \<lparr>b_capacity = int (length bs), b_offset = 0, b_len = int (length bs), b_data = Some bs\<rparr>"

fun receive_all :: "byte list list \<Rightarrow> control \<Rightarrow> control exec" where
  "receive_all [] c = Some c"
| "receive_all (p # ps) c = (do { (r, c') \<leftarrow> control_receive c (wire_buf p); receive_all ps c' })"

lemma wire_buf_ok: "length bs < 1000000 \<Longrightarrow> buf_ok (wire_buf bs)"
  by (simp add: wire_buf_def buf_ok_def BUF_SIZE_MAX_def)

lemma wire_buf_content: "length bs < 1000000 \<Longrightarrow> buf_content (wire_buf bs) = bs"
  by (simp add: wire_buf_def buf_content_def buf_defs mem_load_def)

lemma receive_all_reach:
  "recv_reach c \<Longrightarrow> rl_packet_id (c_rec_reliable c) \<le> 0x80000000 \<Longrightarrow> list_all (\<lambda>p. length p < 1000000) ps \<Longrightarrow>
   receive_all ps c = Some c' \<Longrightarrow> recv_reach c'"
proof (induction ps arbitrary: c)
  case (Cons p ps)
  then obtain r c1 where r: "control_receive c (wire_buf p) = Some (r, c1)" "receive_all ps c1 = Some c'"
    by (auto split: Option.bind_splits)
  have b: "buf_ok (wire_buf p)" using Cons.prems(3) by (simp add: wire_buf_ok)
  have "rl_packet_id (c_rec_reliable c1) = rl_packet_id (c_rec_reliable c)"
    using control_receive_window [OF _ _ b Cons.prems(2) r(1)] recv_reach_inv [OF Cons.prems(1)] by blast
  with Cons.IH [of c1] Cons.prems r recv_reach.receive [OF Cons.prems(1,2) b r(1)] show ?case by simp
qed simp

definition deadlock_scenario :: "control exec" where
  "deadlock_scenario = (do {
     c \<leftarrow> control_start \<lparr>sid_id = replicate 8 1\<rparr> \<lparr>sid_id = replicate 8 2\<rparr> 40 20;
     receive_all (map (\<lambda>k. [32] @ replicate 8 2 @ [0] @ u32_bytes k @ [65]) [7, 6, 5, 4, 3, 2, 1, 0]) c })"

theorem reliable_never_deadlocks_witness:
  "\<exists>c payload c'. deadlock_scenario = Some c \<and> \<not> reliable_can_get (c_rec_reliable c)
     \<and> control_deliver 1 c = Some (Some payload, c') \<and> reliable_can_get (c_rec_reliable c')"
proof -
  have "deadlock_scenario \<noteq> None \<and> \<not> reliable_can_get (c_rec_reliable (the deadlock_scenario))" by code_simp
  then obtain c where c: "deadlock_scenario = Some c" "\<not> reliable_can_get (c_rec_reliable c)"
    by (metis option.exhaust_sel)
  from c(1) obtain c0 where c0: "control_start \<lparr>sid_id = replicate 8 1\<rparr> \<lparr>sid_id = replicate 8 2\<rparr> 40 20 = Some c0"
    "receive_all (map (\<lambda>k. [32] @ replicate 8 2 @ [0] @ u32_bytes k @ [65]) [7, 6, 5, 4, 3, 2, 1, 0]) c0 = Some c"
    by (auto simp: deadlock_scenario_def simp del: receive_all.simps split: Option.bind_splits)
  have r0: "recv_reach c0" using recv_reach.start [OF c0(1)] by simp
  have "rl_packet_id (c_rec_reliable c0) = 0"
    using c0(1) reliable_init_ok(2) by (auto simp: control_start_def split: Option.bind_splits)
  then have "recv_reach c" using receive_all_reach [OF r0 _ _ c0(2)] by simp
  with reliable_never_deadlocks c show ?thesis by blast
qed

end
