(* ===== verification/Control_System.thy ===== *)
theory Control_System
  imports Control_Channel "HOL-Library.Sublist"
begin

section \<open>Two peers and a network that loses, repeats and reorders\<close>

text \<open>
  Two peers run the control channel against each other. The network keeps every packet ever sent and may
  hand over any of them at any time, any number of times. The invariant relates the entries of the two
  arrays, the packets in the network and the acknowledgements to the sequence of payloads queued; it gives
  that delivery is in order and loses nothing.
\<close>

subsection \<open>What an array holds\<close>

text \<open>Identifier, opcode and contents of the active entries.\<close>

definition live :: "reliable \<Rightarrow> (u32 \<times> int \<times> byte list) set" where
  "live rel = {(e_packet_id e, e_opcode e, buf_content (e_buf e)) | e. e \<in> set (rl_entries rel) \<and> e_active e}"

lemma live_packet_id [simp]: "live (rel\<lparr>rl_packet_id := x\<rparr>) = live rel"
  by (simp add: live_def)

lemma live_nth:
  "x \<in> live rel \<longleftrightarrow> (\<exists>j < length (rl_entries rel). e_active (rl_entries rel ! j)
     \<and> x = (e_packet_id (rl_entries rel ! j), e_opcode (rl_entries rel ! j), buf_content (e_buf (rl_entries rel ! j))))"
  by (auto simp: live_def in_set_conv_nth)

lemma live_update_free:
  assumes "i < length (rl_entries rel)" and "\<not> e_active (rl_entries rel ! i)"
  shows "live (rl_update rel i f) = (let e = f (rl_entries rel ! i) in
     if e_active e then insert (e_packet_id e, e_opcode e, buf_content (e_buf e)) (live rel) else live rel)"
  using assms
  by (auto simp: set_eq_iff live_nth rl_entries_update nth_list_update Let_def split: if_splits)

lemma live_update_same:
  assumes "i < length (rl_entries rel)" and "e_active (f (rl_entries rel ! i)) = e_active (rl_entries rel ! i)"
    and "e_packet_id (f (rl_entries rel ! i)) = e_packet_id (rl_entries rel ! i)"
    and "e_opcode (f (rl_entries rel ! i)) = e_opcode (rl_entries rel ! i)"
    and "e_buf (f (rl_entries rel ! i)) = e_buf (rl_entries rel ! i)"
  shows "live (rl_update rel i f) = live rel"
proof -
  let ?es = "rl_entries rel" and ?es' = "rl_entries (rl_update rel i f)"
  have "e_active (?es' ! j) = e_active (?es ! j) \<and> e_packet_id (?es' ! j) = e_packet_id (?es ! j)
     \<and> e_opcode (?es' ! j) = e_opcode (?es ! j) \<and> e_buf (?es' ! j) = e_buf (?es ! j)" if "j < length ?es" for j
    using assms that by (auto simp: rl_entries_update nth_list_update)
  moreover have "length ?es' = length ?es" using assms(1) by (simp add: rl_entries_update)
  ultimately show ?thesis by (auto simp: set_eq_iff live_nth)
qed

lemma live_deactivate:
  assumes "i < length (rl_entries rel)"
  shows "live (rl_update rel i (\<lambda>e. e\<lparr>e_active := False\<rparr>)) \<subseteq> live rel"
    "{x \<in> live rel. fst x \<noteq> e_packet_id (rl_entries rel ! i)} \<subseteq> live (rl_update rel i (\<lambda>e. e\<lparr>e_active := False\<rparr>))"
  using assms by (auto simp: live_nth rl_entries_update nth_list_update split: if_splits)

lemma live_purge:
  assumes "rel_ok rel"
  shows "live (reliable_send_purge_ids ids rel) \<subseteq> live rel"
    "{x \<in> live rel. fst x \<notin> set ids} \<subseteq> live (reliable_send_purge_ids ids rel)"
proof -
  note p = purge_ids_entries [OF assms, of ids]
  show "live (reliable_send_purge_ids ids rel) \<subseteq> live rel" using p by (fastforce simp: live_nth)
  show "{x \<in> live rel. fst x \<notin> set ids} \<subseteq> live (reliable_send_purge_ids ids rel)" using p by (fastforce simp: live_nth)
qed

subsection \<open>What the handlers do\<close>

lemma get_buf_output_cases:
  assumes ok: "rel_ok rel" and g: "reliable_get_buf_output_sequenced rel = Some (slot, r)"
  obtains "slot = None" "r = rel"
  | i b where "slot = Some i" "r = rl_update rel i (\<lambda>e. e\<lparr>e_buf := b\<rparr>)" "i < length (rl_entries rel)"
      "\<not> e_active (rl_entries rel ! i)" "buf_ok b" "buf_defined b" "buf_content b = []"
      "b_capacity b = b_capacity (e_buf (rl_entries rel ! i))"
proof -
  have "slot = None \<and> r = rel \<or> reliable_get_buf rel = Some (slot, r)"
    using g by (auto simp: reliable_get_buf_output_sequenced_def split: option.splits if_splits)
  then show ?thesis
  proof
    assume get: "reliable_get_buf rel = Some (slot, r)"
    from ok show ?thesis
    proof (cases rule: reliable_get_buf_law)
      case full
      with get that(1) show ?thesis by simp
    next
      case (free i b)
      with get that(2) [of i b] show ?thesis by simp
    qed
  qed (use that(1) in blast)
qed

lemma control_queue_law:
  assumes ok: "rel_ok (c_send_reliable c)" and q: "control_queue c op ct = Some (res, c')"
  obtains r where "c' = c\<lparr>c_send_reliable := r\<rparr>" "rel_ok r"
    "\<not> res \<longrightarrow> rl_packet_id r = rl_packet_id (c_send_reliable c) \<and> live r = live (c_send_reliable c)"
    "res \<longrightarrow> rl_packet_id r = rl_packet_id (c_send_reliable c) + 1 \<and> (\<exists>bs. ct = Some bs \<and>
       live r = insert (rl_packet_id (c_send_reliable c), op, u32_bytes (rl_packet_id (c_send_reliable c)) @ bs)
                  (live (c_send_reliable c)))"
proof -
  let ?s = "c_send_reliable c"
  from q obtain slot r1 where g: "reliable_get_buf_output_sequenced ?s = Some (slot, r1)"
    by (auto simp: control_queue_def split: Option.bind_splits)
  show ?thesis
    using ok g
  proof (cases rule: get_buf_output_cases)
    case 1
    then show ?thesis using q g ok by (intro that [of ?s]) (auto simp: control_queue_def split: option.splits)
  next
    case (2 i b)
    have a: "i < length (rl_array ?s)" by (rule entries_array [OF ok 2(3)])
    have r1: "rel_ok r1" unfolding 2(2) by (rule rel_ok_update [OF ok 2(3)]) (use 2 in simp_all)
    have lr1: "live r1 = live ?s" unfolding 2(2) by (simp add: live_update_free [OF 2(3,4)] 2(4))
    have eb: "e_buf (rl_array r1 ! i) = b" by (simp add: 2(2) rl_update_nth [OF a])
    show ?thesis
    proof (cases "\<exists>bs d. ct = Some bs \<and> buf_write b bs (int (length bs)) = (True, d)")
      case False
      then show ?thesis using q g 2(1) r1 lr1 eb
        by (intro that [of r1]) (auto simp: control_queue_def 2(2) split: option.splits prod.splits bool.splits)
    next
      case True
      then obtain bs d where w: "ct = Some bs" "buf_write b bs (int (length bs)) = (True, d)" by blast
      note d = buf_write_True [OF 2(5) w(2) refl]
      let ?pid = "rl_packet_id ?s"
      from q g 2(1) w eb obtain r2 where
        m: "reliable_mark_active_outgoing (rl_update r1 i (\<lambda>e. e\<lparr>e_buf := d\<rparr>)) i op = Some r2"
        and c': "res" "c' = c\<lparr>c_send_reliable := r2\<rparr>"
        by (auto simp: control_queue_def split: Option.bind_splits)
      have r1': "rl_update r1 i (\<lambda>e. e\<lparr>e_buf := d\<rparr>) = rl_update ?s i (\<lambda>e. e\<lparr>e_buf := d\<rparr>)"
        using a by (simp add: 2(2) rl_update_update)
      obtain w4 d' where bw: "buf_write_prepend d (u32_bytes ?pid) 4 = (w4, d')" by fastforce
      have d': "buf_write_prepend d (u32_bytes ?pid) 4 = (True, d')" and r2: "r2 = rl_update (?s\<lparr>rl_packet_id := ?pid + 1\<rparr>) i (\<lambda>e. e\<lparr>e_packet_id := ?pid, e_buf := d',
           e_active := True, e_opcode := op, e_next_try := 0, e_timeout := rl_initial_timeout ?s\<rparr>)"
        using m a bw unfolding r1'
        by (auto simp: reliable_mark_active_outgoing_def assert_ok_def Let_def rl_update_def split: if_splits)
      have p: "buf_ok d'" "buf_content d' = u32_bytes ?pid @ buf_content d" "b_capacity d' = b_capacity d" "buf_defined d'"
        using buf_write_prepend_True [OF d(1) d'] by simp_all
      have i: "i < length (rl_entries (?s\<lparr>rl_packet_id := ?pid + 1\<rparr>))" using 2(3) by simp
      have "rel_ok r2" unfolding r2 by (rule rel_ok_update) (use ok i p d 2 in simp_all)
      moreover have "live r2 = insert (?pid, op, u32_bytes ?pid @ bs) (live ?s)"
        unfolding r2 using live_update_free [OF i] 2(4,7) p d by (simp add: Let_def)
      ultimately show ?thesis using c' w(1) by (intro that [of r2]) (simp_all add: r2)
    qed
  qed
qed

lemma write_control_auth_law:
  assumes ok: "ack_ok (c_rec_ack c)" "buf_ok buf" and sid: "sid_ok (c_session_id c)"
    "sid_ok (c_session_id_remote c)" "session_id_defined (c_session_id_remote c)"
    and m: "0 \<le> max_ack" "max_ack < 256" and w: "write_control_auth c buf op max_ack pre = Some (c', b)"
  obtains a acks where "c' = c\<lparr>c_rec_ack := a\<rparr>" "ack_ok a" "set (ack_ids a) \<subseteq> set (ack_ids (c_rec_ack c))"
    "set acks \<subseteq> set (ack_ids (c_rec_ack c))" "length acks \<le> 8"
    "buf_content b = [control_header (c_key_id c) op] @ sid_id (c_session_id c) @
       (if pre then wire_ack acks (c_session_id_remote c) @ buf_content buf
        else buf_content buf @ wire_ack acks (c_session_id_remote c))"
proof -
  let ?n = "min (nat (ak_len (c_rec_ack c))) (nat max_ack)" and ?ids = "ack_ids (c_rec_ack c)"
  obtain a b1 where a: "reliable_ack_write (c_rec_ack c) buf (c_session_id_remote c) max_ack pre = Some (True, a, b1)"
    "buf_ok b1" "buf_content b1 = (if pre then wire_ack (take ?n ?ids) (c_session_id_remote c) @ buf_content buf
       else buf_content buf @ wire_ack (take ?n ?ids) (c_session_id_remote c))"
    "ack_ok a" "ack_ids a = drop ?n ?ids"
    by (rule reliable_ack_write_law [OF ok sid(2,3) m, of pre])
      (use w in \<open>auto simp: write_control_auth_def Let_def split: Option.bind_splits\<close>)
  from w a(1) obtain b2 where b2: "session_id_write_prepend (c_session_id c) b1 = (True, b2)"
    "buf_write_prepend b2 [control_header (c_key_id c) op] 1 = (True, b)" and c': "c' = c\<lparr>c_rec_ack := a\<rparr>"
    by (cases "session_id_write_prepend (c_session_id c) b1"; cases "buf_write_prepend (snd (session_id_write_prepend (c_session_id c) b1)) [control_header (c_key_id c) op] 1")
      (auto simp: write_control_auth_def Let_def assert_ok_def split: if_splits)
  have "buf_ok b2 \<and> buf_content b2 = sid_id (c_session_id c) @ buf_content b1"
    using buf_write_prepend_True(1,2) [OF a(2) b2(1) [unfolded session_id_write_prepend_def]] sid(1)
    by (simp add: SID_SIZE_def sid_ok_def)
  moreover from this have "buf_content b = [control_header (c_key_id c) op] @ buf_content b2"
    using buf_write_prepend_True(2) [OF _ b2(2)] by simp
  moreover have "length (take ?n ?ids) \<le> 8" using ok(1) length_ack_ids [OF ok(1)] by (auto simp: ack_ok_def)
  ultimately show ?thesis
    using a c' by (intro that [of a "take ?n ?ids"]) (auto dest: in_set_takeD in_set_dropD)
qed

lemma reliable_send_best_law:
  "reliable_send_best now es k best = Some (j, m) \<Longrightarrow>
   best = Some (j, m) \<or> k \<le> j \<and> j - k < length es \<and> e_active (es ! (j - k)) \<and> m = e_packet_id (es ! (j - k))"
proof (induction es arbitrary: k best)
  case (Cons e es)
  from Cons.IH [OF Cons.prems [unfolded reliable_send_best.simps]] show ?case
    by (auto simp: nth_Cons' Suc_diff_le split: if_splits option.splits)
qed simp

lemma control_send_law:
  assumes ok: "control_ok c" and sid: "sid_ok (c_session_id c)"
    "sid_ok (c_session_id_remote c)" "session_id_defined (c_session_id_remote c)"
    and s: "control_send now c = Some (res, c')"
  obtains r a where "c' = c\<lparr>c_send_reliable := r, c_rec_ack := a\<rparr>" "rel_ok r" "ack_ok a"
    "live r = live (c_send_reliable c)" "rl_packet_id r = rl_packet_id (c_send_reliable c)"
    "set (ack_ids a) \<subseteq> set (ack_ids (c_rec_ack c))"
    "\<forall>b. res = Some b \<longrightarrow> (\<exists>pid op body acks. (pid, op, body) \<in> live (c_send_reliable c)
        \<and> set acks \<subseteq> set (ack_ids (c_rec_ack c)) \<and> length acks \<le> 8
        \<and> buf_content b = [control_header (c_key_id c) op] @ sid_id (c_session_id c)
            @ wire_ack acks (c_session_id_remote c) @ body)"
proof (cases "reliable_can_send now (c_send_reliable c)")
  case False
  with s ok show ?thesis
    by (intro that [where r = "c_send_reliable c" and a = "c_rec_ack c"]) (auto simp: control_send_def control_ok_def)
next
  case True
  let ?s = "c_send_reliable c"
  obtain best r1 where bs: "reliable_send now ?s = (best, r1)" by fastforce
  with s True obtain i op b where i: "best = Some (i, op)" "res = Some b"
    and w: "write_control_auth (c\<lparr>c_send_reliable := r1\<rparr>) (e_buf (rl_array r1 ! i)) op 4 True = Some (c', b)"
    by (auto simp: control_send_def CONTROL_SEND_ACK_MAX_def split: Option.bind_splits)
  from bs i obtain m where bl: "reliable_send_best now (rl_entries ?s) 0 None = Some (i, m)"
    and op: "op = e_opcode (rl_array ?s ! i)"
    and r1: "r1 = rl_update ?s i (\<lambda>e. e\<lparr>e_next_try := now + e_timeout e, e_timeout := e_timeout e * 2\<rparr>)"
    by (auto simp: reliable_send_def split: option.splits prod.splits)
  from reliable_send_best_law [OF bl] have l: "i < length (rl_entries ?s)" "e_active (rl_entries ?s ! i)" by auto
  have rel: "rel_ok ?s" "ack_ok (c_rec_ack c)" using ok by (simp_all add: control_ok_def)
  note en = rel_ok_entry [OF rel(1) l(1)] and nth = nth_rl_entries [OF l(1)]
  have eb: "e_buf (rl_array r1 ! i) = e_buf (rl_entries ?s ! i)"
    using entries_array [OF rel(1) l(1)] nth by (simp add: r1 rl_update_nth)
  have mem: "(e_packet_id (rl_entries ?s ! i), op, buf_content (e_buf (rl_entries ?s ! i))) \<in> live ?s"
    using l nth by (auto simp: live_nth op)
  have "rel_ok r1" "live r1 = live ?s" "rl_packet_id r1 = rl_packet_id ?s"
    using rel_ok_update [OF rel(1) l(1)] live_update_same [OF l(1)] en by (simp_all add: r1)
  moreover have "buf_ok (e_buf (rl_array r1 ! i))" using en eb by simp
  note wl = write_control_auth_law [OF _ this _ _ _ _ _ w, simplified]
  obtain a acks where "c' = c\<lparr>c_send_reliable := r1, c_rec_ack := a\<rparr>" "ack_ok a"
    "set (ack_ids a) \<subseteq> set (ack_ids (c_rec_ack c))" "set acks \<subseteq> set (ack_ids (c_rec_ack c))" "length acks \<le> 8"
    "buf_content b = control_header (c_key_id c) op # sid_id (c_session_id c) @
       wire_ack acks (c_session_id_remote c) @ buf_content (e_buf (rl_array r1 ! i))"
    by (rule wl [OF rel(2) sid])
  ultimately show ?thesis
    using mem i(2) unfolding eb by (intro that [where r = r1 and a = a]) (simp_all, blast)
qed

lemma control_send_ack_law:
  assumes ok: "control_ok c" and sid: "sid_ok (c_session_id c)"
    "sid_ok (c_session_id_remote c)" "session_id_defined (c_session_id_remote c)"
    and s: "control_send_ack c = Some (res, c')"
  obtains a where "c' = c\<lparr>c_rec_ack := a\<rparr>" "ack_ok a" "set (ack_ids a) \<subseteq> set (ack_ids (c_rec_ack c))"
    "\<forall>b. res = Some b \<longrightarrow> (\<exists>acks. set acks \<subseteq> set (ack_ids (c_rec_ack c)) \<and> length acks \<le> 8
        \<and> buf_content b = [control_header (c_key_id c) P_ACK_V1] @ sid_id (c_session_id c)
            @ wire_ack acks (c_session_id_remote c))"
proof (cases "reliable_ack_empty (c_rec_ack c)")
  case True
  with s ok show ?thesis by (intro that [of "c_rec_ack c"]) (auto simp: control_send_ack_def control_ok_def)
next
  case False
  obtain i buf where i: "buf_init (c_ack_write_buf c) (c_headroom c) = (i, buf)" by fastforce
  with s False obtain b where b: "i" "res = Some b" "write_control_auth c buf P_ACK_V1 8 False = Some (c', b)"
    by (auto simp: control_send_ack_def RELIABLE_ACK_SIZE_def assert_ok_def split: Option.bind_splits if_splits)
  have o: "ack_ok (c_rec_ack c)" "buf_ok (c_ack_write_buf c)" using ok by (simp_all add: control_ok_def)
  have bi: "buf_ok buf" "buf_content buf = []" using buf_init_True(1,2) [OF o(2)] i b(1) by auto
  obtain a acks where "c' = c\<lparr>c_rec_ack := a\<rparr>" "ack_ok a" "set (ack_ids a) \<subseteq> set (ack_ids (c_rec_ack c))"
    "set acks \<subseteq> set (ack_ids (c_rec_ack c))" "length acks \<le> 8"
    "buf_content b = [control_header (c_key_id c) P_ACK_V1] @ sid_id (c_session_id c) @
       wire_ack acks (c_session_id_remote c)"
    by (rule write_control_auth_law [OF o(1) bi(1) sid _ _ b(3)]) (use bi(2) in auto)
  with b(2) show ?thesis by (intro that [of a]) auto
qed

subsection \<open>Receiving a genuine packet\<close>

lemma header_opcode_control_header:
  assumes "0 \<le> k" "k < 8" "0 \<le> op" "op < 32"
  shows "header_opcode (control_header k op) = op"
proof -
  have k: "\<not> bit k (n + 3)" for n
  proof -
    have "take_bit 3 k = k" using assms by (simp add: take_bit_int_eq_self)
    then show ?thesis by (metis bit_take_bit_iff not_add_less2)
  qed
  have o: "\<not> bit op n" if "5 \<le> n" for n
  proof -
    have "take_bit 5 op = op" using assms by (simp add: take_bit_int_eq_self)
    then show ?thesis using that by (metis bit_take_bit_iff not_less)
  qed
  have "drop_bit 3 (control_header k op) = (word_of_int op :: byte)"
  proof (rule bit_word_eqI)
    fix n assume "n < LENGTH(8)"
    then show "bit (drop_bit 3 (control_header k op)) n = bit (word_of_int op :: byte) n"
      using k [of n] o [of n] by (cases "n < 5") (auto simp: control_header_def P_OPCODE_SHIFT_def bit_simps add.commute)
  qed
  then show ?thesis using assms by (simp add: header_opcode_def P_OPCODE_SHIFT_def uint_word_of_int)
qed

lemma buf_first_byte:
  assumes "buf_ok buf" and "buf_content buf = x # xs"
  shows "buf_load buf (b_offset buf) 1 ! 0 = x"
  using assms(1)
proof (cases rule: buf_ok_cases)
  case null
  then show ?thesis using assms(2) by (simp add: buf_content_null)
next
  case (block d)
  have "Suc 0 \<le> nat (b_len buf)" using length_buf_content [OF assms(1)] assms(2) by simp
  then have "take (Suc 0) (buf_content buf) = mem_load (nat (b_offset buf)) (Suc 0) d"
    unfolding buf_content_block [OF assms(1) block(1)] by (rule take_mem_load)
  then have "mem_load (nat (b_offset buf)) (Suc 0) d = [x]" using assms(2) by simp
  then show ?thesis using assms(2) block(1) by (simp add: buf_load_def)
qed

lemma read_control_auth_content:
  assumes "buf_ok buf" and "buf_content buf = bs @ rest" and "length bs = 9"
  shows "buf_content (read_control_auth buf) = rest"
proof -
  have "nat (b_len buf) = 9 + length rest" using length_buf_content [OF assms(1)] assms(2,3) by simp
  then have l: "9 \<le> b_len buf" by linarith
  have "buf_defined buf" using assms(2,3) buf_content_null [of buf] by (cases "b_data buf") (auto simp: buf_defined_def)
  with l have "fst (buf_advance buf 9)" using buf_advance_iff [OF assms(1)] by simp
  then obtain b where b: "buf_advance buf 9 = (True, b)" by (cases "buf_advance buf 9") simp
  show ?thesis using buf_advance_True(4) [OF assms(1) b] b assms(2,3) by (simp add: read_control_auth_def SID_SIZE_def)
qed

lemma read_packet_id_content:
  assumes "buf_ok buf" and "buf_content buf = u32_bytes pid @ rest"
  obtains buf' where "reliable_ack_read_packet_id buf = (Some pid, buf')" "buf_ok buf'" "buf_content buf' = rest"
proof -
  obtain b where "buf_read buf 4 = (Some (u32_bytes pid), b)" "buf_ok b" "buf_content b = rest"
    by (rule buf_read_prefix [OF assms, of 4]) auto
  then show ?thesis by (intro that [of b]) (simp_all add: reliable_ack_read_packet_id_def u32_codec.dec_enc)
qed

lemma control_receive_genuine:
  assumes ok: "control_ok c" and sid: "sid_ok (c_session_id c)" "session_id_defined (c_session_id c)"
    and buf: "buf_ok buf" "buf_content buf = ([hdr] @ sidq) @ wire_ack acks (c_session_id c) @ body"
    and l: "length sidq = 8" "length acks \<le> 8"
    and body: "header_opcode hdr \<noteq> P_ACK_V1 \<Longrightarrow> body = u32_bytes pid @ payload"
    and r: "control_receive c buf = Some (res, c')"
  obtains s r a where "c' = c\<lparr>c_send_reliable := s, c_rec_reliable := r, c_rec_ack := a\<rparr>" "control_ok c'"
    "rl_packet_id s = rl_packet_id (c_send_reliable c)" "live s \<subseteq> live (c_send_reliable c)"
    "{x \<in> live (c_send_reliable c). fst x \<notin> set acks} \<subseteq> live s"
    "rl_packet_id r = rl_packet_id (c_rec_reliable c)"
    "live r = live (c_rec_reliable c) \<and> set (ack_ids a) \<subseteq> set (ack_ids (c_rec_ack c))
     \<or> header_opcode hdr \<noteq> P_ACK_V1 \<and> set (ack_ids a) \<subseteq> insert pid (set (ack_ids (c_rec_ack c)))
        \<and> (live r = live (c_rec_reliable c) \<and> \<not> reliable_not_replay (c_rec_reliable c) pid
           \<or> live r = insert (pid, header_opcode hdr, payload) (live (c_rec_reliable c)))"
proof -
  have rel: "rel_ok (c_send_reliable c)" "rel_ok (c_rec_reliable c)" "ack_ok (c_rec_ack c)"
    using ok by (simp_all add: control_ok_def)
  have ok': "control_ok c'" by (rule control_receive_ok [OF ok buf(1) r])
  have l9: "length ([hdr] @ sidq) = 9" using l by simp
  have c1: "buf_content (read_control_auth buf) = wire_ack acks (c_session_id c) @ body"
    by (rule read_control_auth_content [OF buf l9])
  have hd: "buf_load buf (b_offset buf) 1 ! 0 = hdr"
    by (rule buf_first_byte [OF buf(1)]) (use buf(2) in simp)
  have ia: "ack_ok send_ack_init" "ack_ids send_ack_init = []" "ak_len send_ack_init + int (length acks) \<le> 8"
    using l by (simp_all add: send_ack_init_def ack_ok_def ack_ids_def)
  obtain ack0 buf2 where a0: "reliable_ack_read send_ack_init (read_control_auth buf) (c_session_id c) = (True, ack0, buf2)"
    "ack_ids ack0 = acks" "buf_ok buf2" "buf_content buf2 = body"
    by (rule reliable_ack_read_law [OF read_control_auth_ok [OF buf(1)] ia(1,3) sid c1]) (use ia(2) in simp)
  let ?s = "reliable_send_purge (c_send_reliable c) ack0"
  have s: "rl_packet_id ?s = rl_packet_id (c_send_reliable c)" "live ?s \<subseteq> live (c_send_reliable c)"
    "{x \<in> live (c_send_reliable c). fst x \<notin> set acks} \<subseteq> live ?s"
    using purge_ids_entries [OF rel(1)] live_purge [OF rel(1)] a0(2) by (auto simp: reliable_send_purge_def)
  from r show ?thesis
  proof (cases rule: control_receiveE)
    case refused
    then show ?thesis
      by (intro that [where s = "c_send_reliable c" and r = "c_rec_reliable c" and a = "c_rec_ack c"]) (use ok' in simp_all)
  next
    case (acks ack1 b1)
    then show ?thesis
      by (intro that [where s = ?s and r = "c_rec_reliable c" and a = "c_rec_ack c"]) (use s ok' a0 in simp_all)
  next
    case (data ack1 b1)
    have e: "ack1 = ack0" "b1 = buf2" using data(1) a0(1) by simp_all
    have na: "header_opcode hdr \<noteq> P_ACK_V1" using data(2) hd by simp
    obtain b3 where b3: "reliable_ack_read_packet_id buf2 = (Some pid, b3)" "buf_ok b3" "buf_content b3 = payload"
      using a0(3,4) body [OF na] read_packet_id_content by blast
    from data(4) show ?thesis
    proof (cases rule: control_receive_dataE)
      case skip
      then show ?thesis
        by (intro that [where s = ?s and r = "c_rec_reliable c" and a = "c_rec_ack c"]) (use s ok' e in simp_all)
    next
      case (replay pid' b4)
      let ?a = "snd (reliable_ack_acknowledge_packet_id (c_rec_ack c) pid)"
      have "pid' = pid" using replay(1) b3(1) e by simp
      with replay reliable_ack_acknowledge_law(2) [OF rel(3), of pid] show ?thesis
        by (intro that [where s = ?s and r = "c_rec_reliable c" and a = ?a]) (use s ok' e na in simp_all)
    next
      case (store pid' b4 rr)
      let ?a = "snd (reliable_ack_acknowledge_packet_id (c_rec_ack c) pid)"
      have p: "pid' = pid" "b4 = b3" using store(1) b3(1) e by simp_all
      have st: "control_store (c_rec_reliable c) pid (header_opcode hdr) b3 = Some (res, rr)"
        using store(4) p hd by simp
      have np: "\<not> reliable_pid_min pid (rl_packet_id (c_rec_reliable c))"
        using store(3) p by (simp add: reliable_not_replay_def split: if_splits)
      have rr: "rl_packet_id rr = rl_packet_id (c_rec_reliable c) \<and>
         live rr = (if res then insert (pid, header_opcode hdr, payload) (live (c_rec_reliable c)) else live (c_rec_reliable c))"
        using rel(2) data(3) np b3(2)
      proof (cases rule: control_store_law [where op = "header_opcode hdr"])
        case (dropped i f)
        then show ?thesis using st live_update_free [OF dropped(2,3), of f] by simp
      next
        case (stored i f)
        then show ?thesis using st live_update_free [OF stored(2,3), of f] b3(3) by (simp add: Let_def)
      qed
      show ?thesis
        by (rule that [where s = ?s and r = rr and a = "if res then ?a else c_rec_ack c"])
          (use s ok' e na p rr store(5) reliable_ack_acknowledge_law(2) [OF rel(3), of pid] in \<open>auto split: if_splits\<close>)
    qed
  qed
qed

end
