(* ===== verification/Control_Invariant.thy ===== *)
theory Control_Invariant
  imports Control_System
begin

section \<open>Two peers: the invariant\<close>

text \<open>
  The world of two peers, its steps, the invariant that relates arrays, acknowledgements and packets on the
  network to the payloads queued, and its preservation by the sending steps.
\<close>

subsection \<open>The world\<close>

text \<open>
  For each peer its state, every packet it ever put on the network, the payloads it queued and the payloads
  delivered to it.
\<close>

record world =
  w_peer :: "bool \<Rightarrow> control"
  w_net :: "bool \<Rightarrow> byte list set"
  w_sent :: "bool \<Rightarrow> byte list list"
  w_dlvd :: "bool \<Rightarrow> byte list list"

definition emit :: "buffer option \<Rightarrow> byte list set \<Rightarrow> byte list set" where
  "emit b net = (case b of None \<Rightarrow> net | Some buf \<Rightarrow> insert (buf_content buf) net)"

text \<open>
  The steps. A peer queues a payload, sends or resends, acknowledges, receives any packet of the other peer
  (a packet stays in the network, so it can be received again or never), delivers. At most \<open>2 ^ 31\<close> payloads
  are queued.
\<close>

inductive net_step :: "world \<Rightarrow> world \<Rightarrow> bool" where
  queue: "control_queue (w_peer w p) op ct = Some (ok, c') \<Longrightarrow> op \<noteq> P_ACK_V1 \<Longrightarrow> 0 \<le> op \<Longrightarrow> op < 32 \<Longrightarrow>
    length (w_sent w p) < 2 ^ 31 \<Longrightarrow>
    net_step w (w\<lparr>w_peer := (w_peer w)(p := c'),
                  w_sent := (w_sent w)(p := w_sent w p @ (if ok then [the ct] else []))\<rparr>)"
| send: "control_send now (w_peer w p) = Some (b, c') \<Longrightarrow>
    net_step w (w\<lparr>w_peer := (w_peer w)(p := c'), w_net := (w_net w)(p := emit b (w_net w p))\<rparr>)"
| send_ack: "control_send_ack (w_peer w p) = Some (b, c') \<Longrightarrow>
    net_step w (w\<lparr>w_peer := (w_peer w)(p := c'), w_net := (w_net w)(p := emit b (w_net w p))\<rparr>)"
| receive: "buf_content buf \<in> w_net w (\<not> p) \<Longrightarrow> buf_ok buf \<Longrightarrow>
    control_receive (w_peer w p) buf = Some (ok, c') \<Longrightarrow>
    net_step w (w\<lparr>w_peer := (w_peer w)(p := c')\<rparr>)"
| deliver: "control_deliver st (w_peer w p) = Some (r, c') \<Longrightarrow>
    net_step w (w\<lparr>w_peer := (w_peer w)(p := c'),
                  w_dlvd := (w_dlvd w)(p := w_dlvd w p @ (case r of None \<Rightarrow> [] | Some bs \<Rightarrow> [bs]))\<rparr>)"

definition net_start :: "(bool \<Rightarrow> session_id) \<Rightarrow> int \<Rightarrow> int \<Rightarrow> world \<Rightarrow> bool" where
  "net_start sid n off w \<longleftrightarrow>
     (\<forall>p. control_start (sid p) (sid (\<not> p)) n off = Some (w_peer w p)
        \<and> w_net w p = {} \<and> w_sent w p = [] \<and> w_dlvd w p = [])"

definition net_reach :: "(bool \<Rightarrow> session_id) \<Rightarrow> int \<Rightarrow> int \<Rightarrow> world \<Rightarrow> bool" where
  "net_reach sid n off w \<longleftrightarrow> (\<exists>w0. net_start sid n off w0 \<and> net_step\<^sup>*\<^sup>* w0 w)"

subsection \<open>The invariant\<close>

definition sender_inv :: "byte list list \<Rightarrow> reliable \<Rightarrow> bool" where
  "sender_inv S s \<longleftrightarrow> length S \<le> 2 ^ 31 \<and> rl_packet_id s = of_nat (length S)
     \<and> (\<forall>(pid, op, b) \<in> live s. unat pid < length S \<and> b = u32_bytes pid @ S ! unat pid
          \<and> op \<noteq> P_ACK_V1 \<and> 0 \<le> op \<and> op < 32)"

definition receiver_inv :: "byte list list \<Rightarrow> byte list list \<Rightarrow> reliable \<Rightarrow> bool" where
  "receiver_inv S D r \<longleftrightarrow> prefix D S \<and> rl_packet_id r = of_nat (length D)
     \<and> (\<forall>(pid, op, b) \<in> live r. unat pid < length S \<and> b = S ! unat pid)"

text \<open>The numbers a receiver has accepted: delivered, or waiting in its array.\<close>

definition accepted :: "byte list list \<Rightarrow> reliable \<Rightarrow> nat set" where
  "accepted D r = {..<length D} \<union> (\<lambda>x. unat (fst x)) ` live r"

definition no_loss :: "byte list list \<Rightarrow> reliable \<Rightarrow> byte list list \<Rightarrow> reliable \<Rightarrow> bool" where
  "no_loss S s D r \<longleftrightarrow> {..<length S} \<subseteq> accepted D r \<union> (\<lambda>x. unat (fst x)) ` live s"

definition packet_inv :: "session_id \<Rightarrow> session_id \<Rightarrow> byte list list \<Rightarrow> nat set \<Rightarrow> byte list \<Rightarrow> bool" where
  "packet_inv from dest S A pkt \<longleftrightarrow> (\<exists>hdr acks body.
     pkt = [hdr] @ sid_id from @ wire_ack acks dest @ body \<and> length acks \<le> 8 \<and> unat ` set acks \<subseteq> A
     \<and> (header_opcode hdr \<noteq> P_ACK_V1 \<longrightarrow> (\<exists>k < length S. body = u32_bytes (of_nat k) @ S ! k)))"

definition peer_inv :: "(bool \<Rightarrow> session_id) \<Rightarrow> world \<Rightarrow> bool \<Rightarrow> bool" where
  "peer_inv sid w p \<longleftrightarrow> (let c = w_peer w p; d = w_peer w (\<not> p); A = accepted (w_dlvd w p) (c_rec_reliable c) in
     control_ok c \<and> c_session_id c = sid p \<and> c_session_id_remote c = sid (\<not> p)
     \<and> 0 \<le> c_key_id c \<and> c_key_id c < 8
     \<and> sender_inv (w_sent w p) (c_send_reliable c)
     \<and> receiver_inv (w_sent w (\<not> p)) (w_dlvd w p) (c_rec_reliable c)
     \<and> unat ` set (ack_ids (c_rec_ack c)) \<subseteq> A
     \<and> no_loss (w_sent w p) (c_send_reliable c) (w_dlvd w (\<not> p)) (c_rec_reliable d)
     \<and> (\<forall>pkt \<in> w_net w p. packet_inv (sid p) (sid (\<not> p)) (w_sent w p) A pkt))"

definition net_inv :: "(bool \<Rightarrow> session_id) \<Rightarrow> world \<Rightarrow> bool" where
  "net_inv sid w \<longleftrightarrow> (\<forall>p. sid_ok (sid p) \<and> session_id_defined (sid p) \<and> peer_inv sid w p)"

lemma packet_inv_mono:
  "packet_inv from dest S A pkt \<Longrightarrow> prefix S S' \<Longrightarrow> A \<subseteq> A' \<Longrightarrow> packet_inv from dest S' A' pkt"
  unfolding packet_inv_def prefix_def
  by (elim exE conjE, intro exI conjI, assumption+) (auto simp: nth_append)

lemma receiver_inv_mono: "receiver_inv S D r \<Longrightarrow> prefix S S' \<Longrightarrow> receiver_inv S' D r"
  by (fastforce simp: receiver_inv_def prefix_def nth_append)

text \<open>A step of one peer keeps the invariant if the peer's own part is kept and what it had accepted stays accepted.\<close>

lemma net_inv_step:
  assumes inv: "net_inv sid w"
    and w': "w' = w\<lparr>w_peer := (w_peer w)(p := c'), w_net := (w_net w)(p := N), w_sent := (w_sent w)(p := S),
               w_dlvd := (w_dlvd w)(p := D)\<rparr>"
    and c': "control_ok c'" "c_session_id c' = sid p" "c_session_id_remote c' = sid (\<not> p)"
      "0 \<le> c_key_id c'" "c_key_id c' < 8"
    and S: "sender_inv S (c_send_reliable c')" "prefix (w_sent w p) S"
    and R: "receiver_inv (w_sent w (\<not> p)) D (c_rec_reliable c')"
    and A: "accepted (w_dlvd w p) (c_rec_reliable (w_peer w p)) \<subseteq> accepted D (c_rec_reliable c')"
      "unat ` set (ack_ids (c_rec_ack c')) \<subseteq> accepted D (c_rec_reliable c')"
    and L: "no_loss S (c_send_reliable c') (w_dlvd w (\<not> p)) (c_rec_reliable (w_peer w (\<not> p)))"
    and N: "\<forall>pkt \<in> N. packet_inv (sid p) (sid (\<not> p)) S (accepted D (c_rec_reliable c')) pkt"
  shows "net_inv sid w'"
proof -
  have q: "peer_inv sid w (\<not> p)" "\<forall>p. sid_ok (sid p) \<and> session_id_defined (sid p)"
    using inv by (simp_all add: net_inv_def)
  have "peer_inv sid w' p" using c' S R A L N by (simp add: peer_inv_def w' Let_def)
  moreover have "peer_inv sid w' (\<not> p)"
    using q(1) S(2) A(1) receiver_inv_mono unfolding peer_inv_def w' Let_def no_loss_def by fastforce
  ultimately have "peer_inv sid w' pa" for pa by (cases pa; cases p) simp_all
  then show ?thesis using q(2) by (simp add: net_inv_def)
qed

subsection \<open>Every step keeps the invariant\<close>

lemma net_invD:
  assumes "net_inv sid w"
  shows "control_ok (w_peer w p)" "c_session_id (w_peer w p) = sid p" "c_session_id_remote (w_peer w p) = sid (\<not> p)"
    "0 \<le> c_key_id (w_peer w p)" "c_key_id (w_peer w p) < 8" "sender_inv (w_sent w p) (c_send_reliable (w_peer w p))"
    "receiver_inv (w_sent w (\<not> p)) (w_dlvd w p) (c_rec_reliable (w_peer w p))"
    "unat ` set (ack_ids (c_rec_ack (w_peer w p))) \<subseteq> accepted (w_dlvd w p) (c_rec_reliable (w_peer w p))"
    "no_loss (w_sent w p) (c_send_reliable (w_peer w p)) (w_dlvd w (\<not> p)) (c_rec_reliable (w_peer w (\<not> p)))"
    "\<forall>pkt \<in> w_net w p. packet_inv (sid p) (sid (\<not> p)) (w_sent w p)
       (accepted (w_dlvd w p) (c_rec_reliable (w_peer w p))) pkt"
    "sid_ok (sid p)" "session_id_defined (sid p)"
  using assms by (simp_all add: net_inv_def peer_inv_def Let_def)

lemma world_same: "w\<lparr>w_peer := P\<rparr> = w\<lparr>w_peer := P, w_net := (w_net w)(p := w_net w p),
    w_sent := (w_sent w)(p := w_sent w p), w_dlvd := (w_dlvd w)(p := w_dlvd w p)\<rparr>"
  by simp

lemma unat_of_nat_small: "k \<le> 2 ^ 31 \<Longrightarrow> unat (of_nat k :: u32) = k"
  by (simp add: unat_of_nat)

lemma queue_inv:
  assumes inv: "net_inv sid w" and q: "control_queue (w_peer w p) op ct = Some (ok, c')"
    and op: "op \<noteq> P_ACK_V1" "0 \<le> op" "op < 32" and l: "length (w_sent w p) < 2 ^ 31"
  shows "net_inv sid (w\<lparr>w_peer := (w_peer w)(p := c'),
           w_sent := (w_sent w)(p := w_sent w p @ (if ok then [the ct] else []))\<rparr>)"
proof -
  note I = net_invD [OF inv, of p]
  let ?c = "w_peer w p" and ?S = "w_sent w p"
  have ok: "rel_ok (c_send_reliable ?c)" using I(1) by (simp add: control_ok_def)
  obtain r where r: "c' = ?c\<lparr>c_send_reliable := r\<rparr>" "rel_ok r"
    "\<not> ok \<longrightarrow> rl_packet_id r = rl_packet_id (c_send_reliable ?c) \<and> live r = live (c_send_reliable ?c)"
    "ok \<longrightarrow> rl_packet_id r = rl_packet_id (c_send_reliable ?c) + 1 \<and> (\<exists>bs. ct = Some bs \<and>
       live r = insert (rl_packet_id (c_send_reliable ?c), op, u32_bytes (rl_packet_id (c_send_reliable ?c)) @ bs)
                  (live (c_send_reliable ?c)))"
    by (rule control_queue_law [OF ok q])
  let ?S' = "?S @ (if ok then [the ct] else [])"
  have id: "rl_packet_id (c_send_reliable ?c) = of_nat (length ?S)" using I(6) by (simp add: sender_inv_def)
  have u: "unat (of_nat (length ?S) :: u32) = length ?S" using l by (intro unat_of_nat_small) simp
  have old: "unat pid < length ?S \<and> b = u32_bytes pid @ ?S ! unat pid \<and> op' \<noteq> P_ACK_V1 \<and> 0 \<le> op' \<and> op' < 32"
    if "(pid, op', b) \<in> live (c_send_reliable ?c)" for pid op' b
    using I(6) that by (auto simp: sender_inv_def)
  have "sender_inv ?S' r"
  proof (cases ok)
    case True
    with r(4) l id u op show ?thesis by (auto simp: sender_inv_def nth_append less_Suc_eq dest!: old)
  qed (use I(6) r(3) in \<open>simp add: sender_inv_def\<close>)
  moreover have "no_loss ?S' r (w_dlvd w (\<not> p)) (c_rec_reliable (w_peer w (\<not> p)))"
    using I(9) r(3,4) id u by (cases ok) (auto simp: no_loss_def lessThan_Suc)
  moreover have "control_ok c'" using I(1) r(1,2) by (simp add: control_ok_def)
  ultimately show ?thesis
    using I packet_inv_mono
    by (intro net_inv_step [OF inv, where p = p and c' = c' and N = "w_net w p" and S = ?S' and D = "w_dlvd w p"])
      (auto simp: r(1) intro: packet_inv_mono)
qed

lemma emit_inv:
  assumes inv: "net_inv sid w" and ok: "control_ok c'"
    and c': "c' = (w_peer w p)\<lparr>c_send_reliable := r, c_rec_ack := a\<rparr>"
    and r: "live r = live (c_send_reliable (w_peer w p))" "rl_packet_id r = rl_packet_id (c_send_reliable (w_peer w p))"
    and a: "set (ack_ids a) \<subseteq> set (ack_ids (c_rec_ack (w_peer w p)))"
    and b: "\<forall>buf. b = Some buf \<longrightarrow> packet_inv (sid p) (sid (\<not> p)) (w_sent w p)
       (accepted (w_dlvd w p) (c_rec_reliable (w_peer w p))) (buf_content buf)"
  shows "net_inv sid (w\<lparr>w_peer := (w_peer w)(p := c'), w_net := (w_net w)(p := emit b (w_net w p))\<rparr>)"
proof -
  note I = net_invD [OF inv, of p]
  have "sender_inv (w_sent w p) r" using I(6) r by (simp add: sender_inv_def)
  moreover have "no_loss (w_sent w p) r (w_dlvd w (\<not> p)) (c_rec_reliable (w_peer w (\<not> p)))"
    using I(9) r(1) by (simp add: no_loss_def)
  ultimately show ?thesis
    using I ok a b
    by (intro net_inv_step [OF inv, where p = p and c' = c' and N = "emit b (w_net w p)" and S = "w_sent w p"
          and D = "w_dlvd w p"])
      (auto simp: c' emit_def split: option.splits)
qed

lemma send_inv:
  assumes inv: "net_inv sid w" and s: "control_send now (w_peer w p) = Some (b, c')"
  shows "net_inv sid (w\<lparr>w_peer := (w_peer w)(p := c'), w_net := (w_net w)(p := emit b (w_net w p))\<rparr>)"
proof -
  note I = net_invD [OF inv, of p] and J = net_invD [OF inv, of "\<not> p"]
  let ?c = "w_peer w p"
  obtain r a where l: "c' = ?c\<lparr>c_send_reliable := r, c_rec_ack := a\<rparr>" "rel_ok r" "ack_ok a"
    "live r = live (c_send_reliable ?c)" "rl_packet_id r = rl_packet_id (c_send_reliable ?c)"
    "set (ack_ids a) \<subseteq> set (ack_ids (c_rec_ack ?c))"
    "\<forall>buf. b = Some buf \<longrightarrow> (\<exists>pid op body acks. (pid, op, body) \<in> live (c_send_reliable ?c)
        \<and> set acks \<subseteq> set (ack_ids (c_rec_ack ?c)) \<and> length acks \<le> 8
        \<and> buf_content buf = [control_header (c_key_id ?c) op] @ sid_id (c_session_id ?c)
            @ wire_ack acks (c_session_id_remote ?c) @ body)"
    using control_send_law [OF I(1) _ _ _ s] I J by metis
  have "packet_inv (sid p) (sid (\<not> p)) (w_sent w p) (accepted (w_dlvd w p) (c_rec_reliable ?c)) (buf_content buf)"
    if "b = Some buf" for buf
  proof -
    from l(7) that obtain pid op body acks where m: "(pid, op, body) \<in> live (c_send_reliable ?c)"
      "set acks \<subseteq> set (ack_ids (c_rec_ack ?c))" "length acks \<le> 8"
      "buf_content buf = [control_header (c_key_id ?c) op] @ sid_id (sid p) @ wire_ack acks (sid (\<not> p)) @ body"
      using I(2,3) by metis
    have s: "unat pid < length (w_sent w p)" "body = u32_bytes pid @ w_sent w p ! unat pid" "0 \<le> op" "op < 32"
      using I(6) m(1) by (auto simp: sender_inv_def)
    show ?thesis unfolding packet_inv_def
      by (intro exI [of _ "control_header (c_key_id ?c) op"] exI [of _ acks] exI [of _ body])
        (use m s I(8) in \<open>auto intro!: exI [of _ "unat pid"]\<close>)
  qed
  moreover have "control_ok c'" using I(1) l(1-3) by (simp add: control_ok_def)
  ultimately show ?thesis using emit_inv [OF inv _ l(1,4-6)] by blast
qed

lemma send_ack_inv:
  assumes inv: "net_inv sid w" and s: "control_send_ack (w_peer w p) = Some (b, c')"
  shows "net_inv sid (w\<lparr>w_peer := (w_peer w)(p := c'), w_net := (w_net w)(p := emit b (w_net w p))\<rparr>)"
proof -
  note I = net_invD [OF inv, of p] and J = net_invD [OF inv, of "\<not> p"]
  let ?c = "w_peer w p"
  obtain a where l: "c' = ?c\<lparr>c_rec_ack := a\<rparr>" "ack_ok a" "set (ack_ids a) \<subseteq> set (ack_ids (c_rec_ack ?c))"
    "\<forall>buf. b = Some buf \<longrightarrow> (\<exists>acks. set acks \<subseteq> set (ack_ids (c_rec_ack ?c)) \<and> length acks \<le> 8
        \<and> buf_content buf = [control_header (c_key_id ?c) P_ACK_V1] @ sid_id (sid p) @ wire_ack acks (sid (\<not> p)))"
    using control_send_ack_law [OF I(1) _ _ _ s] I J by metis
  have h: "header_opcode (control_header (c_key_id ?c) P_ACK_V1) = P_ACK_V1"
    by (rule header_opcode_control_header) (use I(4,5) in \<open>simp_all add: P_ACK_V1_def\<close>)
  have "packet_inv (sid p) (sid (\<not> p)) (w_sent w p) (accepted (w_dlvd w p) (c_rec_reliable ?c)) (buf_content buf)"
    if "b = Some buf" for buf
  proof -
    from l(4) that obtain acks where "set acks \<subseteq> set (ack_ids (c_rec_ack ?c))" "length acks \<le> 8"
      "buf_content buf = [control_header (c_key_id ?c) P_ACK_V1] @ sid_id (sid p) @ wire_ack acks (sid (\<not> p)) @ []"
      by auto
    with h I(8) show ?thesis unfolding packet_inv_def by blast
  qed
  moreover have "control_ok c'" using I(1) l(1,2) by (simp add: control_ok_def)
  moreover have "c' = ?c\<lparr>c_send_reliable := c_send_reliable ?c, c_rec_ack := a\<rparr>" by (simp add: l(1))
  ultimately show ?thesis using emit_inv [OF inv _ _ refl refl l(3)] by blast
qed

end
