(* ===== verification/Control_Delivery.thy ===== *)
theory Control_Delivery
  imports Control_Invariant
begin

section \<open>In-order delivery without loss\<close>

text \<open>
  The receiving steps keep the invariant, and the two properties of the control channel that the TLS
  handshake relies on follow: what is delivered is a prefix of what was queued, and nothing that was queued
  is lost.
\<close>

lemma replay_accepted:
  assumes R: "receiver_inv S D r" and l: "length S \<le> 2 ^ 31" and k: "k < length S"
    and rep: "\<not> reliable_not_replay r (of_nat k)"
  shows "k \<in> accepted D r"
proof (cases "reliable_pid_min (of_nat k) (rl_packet_id r)")
  case True
  have D: "length D \<le> length S" "rl_packet_id r = of_nat (length D)"
    using R by (auto simp: receiver_inv_def prefix_length_le)
  have u: "unat (of_nat k :: u32) = k" "unat (of_nat (length D) :: u32) = length D"
    using k l D by (simp_all add: unat_of_nat_small)
  have "k < length D"
  proof (rule ccontr)
    assume "\<not> k < length D"
    then have "unat (of_nat k - of_nat (length D) :: u32) = k - length D"
      using u by (simp add: unat_diff_le word_le_nat_alt)
    with True D k l show False by (simp add: reliable_pid_min_iff word_less_nat_alt)
  qed
  then show ?thesis by (simp add: accepted_def)
next
  case False
  with rep obtain e where "e \<in> set (rl_entries r)" "e_active e" "e_packet_id e = of_nat k"
    by (auto simp: reliable_not_replay_def list_ex_iff split: if_splits)
  then have "(of_nat k, e_opcode e, buf_content (e_buf e)) \<in> live r" unfolding live_def by force
  then show ?thesis using unat_of_nat_small [of k] k l by (force simp: accepted_def)
qed

lemma receive_inv:
  assumes inv: "net_inv sid w" and net: "buf_content buf \<in> w_net w (\<not> p)" and buf: "buf_ok buf"
    and r: "control_receive (w_peer w p) buf = Some (ok, c')"
  shows "net_inv sid (w\<lparr>w_peer := (w_peer w)(p := c')\<rparr>)"
proof -
  note I = net_invD [OF inv, of p] and J = net_invD [OF inv, of "\<not> p", simplified not_not]
  let ?c = "w_peer w p" and ?S = "w_sent w (\<not> p)" and ?D = "w_dlvd w p"
  from J(10) net obtain hdr acks body where
    pkt: "buf_content buf = ([hdr] @ sid_id (sid (\<not> p))) @ wire_ack acks (c_session_id ?c) @ body"
    and acks: "length acks \<le> 8" "unat ` set acks \<subseteq> accepted (w_dlvd w (\<not> p)) (c_rec_reliable (w_peer w (\<not> p)))"
    and body: "header_opcode hdr \<noteq> P_ACK_V1 \<longrightarrow> (\<exists>k < length ?S. body = u32_bytes (of_nat k) @ ?S ! k)"
    using I(2) by (fastforce simp: packet_inv_def)
  obtain k where k: "header_opcode hdr \<noteq> P_ACK_V1 \<Longrightarrow> k < length ?S \<and> body = u32_bytes (of_nat k) @ ?S ! k"
    using body by blast
  have lS: "length ?S \<le> 2 ^ 31" using J(6) by (simp add: sender_inv_def)
  obtain s r a where g: "c' = ?c\<lparr>c_send_reliable := s, c_rec_reliable := r, c_rec_ack := a\<rparr>" "control_ok c'"
    "rl_packet_id s = rl_packet_id (c_send_reliable ?c)" "live s \<subseteq> live (c_send_reliable ?c)"
    "{x \<in> live (c_send_reliable ?c). fst x \<notin> set acks} \<subseteq> live s"
    "rl_packet_id r = rl_packet_id (c_rec_reliable ?c)"
    "live r = live (c_rec_reliable ?c) \<and> set (ack_ids a) \<subseteq> set (ack_ids (c_rec_ack ?c))
     \<or> header_opcode hdr \<noteq> P_ACK_V1 \<and> set (ack_ids a) \<subseteq> insert (of_nat k) (set (ack_ids (c_rec_ack ?c)))
        \<and> (live r = live (c_rec_reliable ?c) \<and> \<not> reliable_not_replay (c_rec_reliable ?c) (of_nat k)
           \<or> live r = insert (of_nat k, header_opcode hdr, ?S ! k) (live (c_rec_reliable ?c)))"
    by (rule control_receive_genuine [OF I(1) _ _ buf pkt _ acks(1) _ r, where pid = "of_nat k" and payload = "?S ! k"])
      (use I(2,11,12) J(11) k in \<open>auto simp: sid_ok_def\<close>)
  have uk: "unat (of_nat k :: u32) = k" if "header_opcode hdr \<noteq> P_ACK_V1"
    using k [OF that] lS by (simp add: unat_of_nat_small)
  have "sender_inv (w_sent w p) s" using I(6) g(3,4) by (auto simp: sender_inv_def)
  moreover have "receiver_inv ?S ?D r"
    using I(7) g(6,7) k uk by (auto simp: receiver_inv_def)
  moreover have A: "accepted ?D (c_rec_reliable ?c) \<subseteq> accepted ?D r" using g(7) by (auto simp: accepted_def)
  moreover have "unat ` set (ack_ids a) \<subseteq> accepted ?D r"
  proof -
    have "k \<in> accepted ?D r" if "header_opcode hdr \<noteq> P_ACK_V1"
      "live r = live (c_rec_reliable ?c) \<and> \<not> reliable_not_replay (c_rec_reliable ?c) (of_nat k)
       \<or> live r = insert (of_nat k, header_opcode hdr, ?S ! k) (live (c_rec_reliable ?c))"
      using that(2) replay_accepted [OF I(7) lS] k [OF that(1)] uk [OF that(1)] A by (auto simp: accepted_def)
    then show ?thesis using g(7) I(8) A uk by (auto simp: subset_iff)
  qed
  moreover have "no_loss (w_sent w p) s (w_dlvd w (\<not> p)) (c_rec_reliable (w_peer w (\<not> p)))"
    unfolding no_loss_def
  proof
    fix n assume "n \<in> {..<length (w_sent w p)}"
    with I(9) consider "n \<in> accepted (w_dlvd w (\<not> p)) (c_rec_reliable (w_peer w (\<not> p)))"
      | x where "x \<in> live (c_send_reliable ?c)" "n = unat (fst x)" by (auto simp: no_loss_def)
    then show "n \<in> accepted (w_dlvd w (\<not> p)) (c_rec_reliable (w_peer w (\<not> p))) \<union> (\<lambda>x. unat (fst x)) ` live s"
    proof cases
      case (2 x)
      then show ?thesis using g(5) acks(2) by (cases "fst x \<in> set acks") auto
    qed simp
  qed
  ultimately show ?thesis
    using I g(2) packet_inv_mono [OF _ _ A]
    by (intro net_inv_step [OF inv world_same [where p = p]]) (auto simp: g(1))
qed

lemma deliver_inv:
  assumes inv: "net_inv sid w" and d: "control_deliver st (w_peer w p) = Some (r, c')"
  shows "net_inv sid (w\<lparr>w_peer := (w_peer w)(p := c'),
           w_dlvd := (w_dlvd w)(p := w_dlvd w p @ (case r of None \<Rightarrow> [] | Some bs \<Rightarrow> [bs]))\<rparr>)"
proof (cases r)
  case None
  then have "c' = w_peer w p"
    using d by (auto simp: control_deliver_def Let_def split: option.splits if_splits Option.bind_splits)
  then show ?thesis using inv None by simp
next
  case (Some bs)
  note I = net_invD [OF inv, of p] and J = net_invD [OF inv, of "\<not> p", simplified not_not]
  let ?c = "w_peer w p" and ?S = "w_sent w (\<not> p)" and ?D = "w_dlvd w p"
  let ?rel = "c_rec_reliable ?c"
  from d Some obtain i where i: "reliable_get_buf_sequenced ?rel = Some i"
    by (auto simp: control_deliver_def split: option.splits)
  then have l: "i < length (rl_entries ?rel)" "e_active (rl_entries ?rel ! i)" "e_packet_id (rl_entries ?rel ! i) = rl_packet_id ?rel"
    by (auto simp: reliable_get_buf_sequenced_def first_index_Some)
  let ?r = "(rl_update ?rel i (\<lambda>e. e\<lparr>e_active := False\<rparr>))\<lparr>rl_packet_id := rl_packet_id ?rel + 1\<rparr>"
  have c': "c' = ?c\<lparr>c_rec_reliable := ?r\<rparr>" and bs: "bs = buf_content (e_buf (rl_entries ?rel ! i))"
    using d Some i l nth_rl_entries [OF l(1)]
    by (auto simp: control_deliver_def reliable_mark_deleted_def Let_def split: if_splits)
  have id: "rl_packet_id ?rel = of_nat (length ?D)" and pre: "prefix ?D ?S" using I(7) by (simp_all add: receiver_inv_def)
  have "length ?D \<le> length ?S" using pre by (rule prefix_length_le)
  then have u: "unat (of_nat (length ?D) :: u32) = length ?D"
    using J(6) by (intro unat_of_nat_small) (simp add: sender_inv_def)
  have "(rl_packet_id ?rel, e_opcode (rl_entries ?rel ! i), bs) \<in> live ?rel" using l bs by (auto simp: live_nth)
  then have n: "length ?D < length ?S" "bs = ?S ! length ?D" using I(7) id u by (auto simp: receiver_inv_def)
  have D': "prefix (?D @ [bs]) ?S" using pre n by (metis append_one_prefix nth_append_length prefix_def append_take_drop_id append_eq_conv_conj prefix_snocD)
  note lv = live_deactivate [OF l(1), unfolded l(3) id]
  have "receiver_inv ?S (?D @ [bs]) ?r" using I(7) D' lv(1) id by (fastforce simp: receiver_inv_def)
  moreover have A: "accepted ?D ?rel \<subseteq> accepted (?D @ [bs]) ?r"
  proof
    fix k assume "k \<in> accepted ?D ?rel"
    then consider "k < length ?D" | x where "x \<in> live ?rel" "k = unat (fst x)" by (auto simp: accepted_def)
    then show "k \<in> accepted (?D @ [bs]) ?r"
      by cases (use lv(2) u in \<open>auto simp: accepted_def\<close>)
  qed
  moreover have "control_ok c'" by (rule control_deliver_ok [OF I(1) d])
  ultimately show ?thesis
    using I packet_inv_mono [OF _ _ A] Some
    by (intro net_inv_step [OF inv, where p = p and c' = c' and N = "w_net w p" and S = "w_sent w p" and D = "?D @ [bs]"])
      (auto simp: c')
qed

subsection \<open>Reachable worlds\<close>

lemma live_init: "reliable_init n off sz hold = Some rel \<Longrightarrow> 0 \<le> n \<Longrightarrow> n < 2 ^ 64 \<Longrightarrow> live rel = {} \<and> rl_packet_id rel = 0"
  using reliable_init_ok by (fastforce simp: live_def)

lemma control_start_fields:
  assumes "control_start sid sidr n off = Some c" and "0 \<le> n" and "n < 2 ^ 64"
  shows "c_session_id c = sid" "c_session_id_remote c = sidr" "c_key_id c = 0" "ack_ids (c_rec_ack c) = []"
    "live (c_send_reliable c) = {}" "live (c_rec_reliable c) = {}" "rl_packet_id (c_send_reliable c) = 0"
    "rl_packet_id (c_rec_reliable c) = 0"
  using assms(1) live_init [OF _ assms(2,3)]
  by (auto simp: control_start_def ack_ids_def split: Option.bind_splits)

lemma net_start_inv:
  assumes "net_start sid n off w" and "0 \<le> n" and "n < 2 ^ 64" and "\<And>p. sid_ok (sid p) \<and> session_id_defined (sid p)"
  shows "net_inv sid w"
proof -
  have "peer_inv sid w p" for p
  proof -
    have s: "control_start (sid q) (sid (\<not> q)) n off = Some (w_peer w q)" "w_net w q = {}" "w_sent w q = []" "w_dlvd w q = []" for q
      using assms(1) by (auto simp: net_start_def)
    note c = control_start_fields [OF s(1) assms(2,3)]
    have "control_ok (w_peer w p)" using control_start_ok [OF s(1) assms(2,3)] .
    with s c show ?thesis by (simp add: peer_inv_def sender_inv_def receiver_inv_def no_loss_def Let_def)
  qed
  with assms(4) show ?thesis by (simp add: net_inv_def)
qed

lemma net_step_inv: "net_step w w' \<Longrightarrow> net_inv sid w \<Longrightarrow> net_inv sid w'"
  by (induction rule: net_step.induct) (simp_all add: queue_inv send_inv send_ack_inv receive_inv deliver_inv)

lemma net_reach_inv:
  assumes "net_reach sid n off w" and "0 \<le> n" and "n < 2 ^ 64" and "\<And>p. sid_ok (sid p) \<and> session_id_defined (sid p)"
  shows "net_inv sid w"
proof -
  from assms(1) obtain w0 where w0: "net_start sid n off w0" "net_step\<^sup>*\<^sup>* w0 w" by (auto simp: net_reach_def)
  from w0(2) show ?thesis
    by (induction rule: rtranclp_induct) (use net_start_inv [OF w0(1) assms(2-4)] net_step_inv in blast)+
qed

text \<open>An exchange to instantiate the properties: one payload is queued, sent, received and delivered.\<close>

definition demo_sid :: "bool \<Rightarrow> session_id" where
  "demo_sid p = \<lparr>sid_id = replicate 8 (if p then 1 else 2)\<rparr>"

definition demo_exchange ::
    "(control \<times> control \<times> bool \<times> control \<times> buffer \<times> control \<times> bool \<times> control \<times> byte list option \<times> control) exec" where
  "demo_exchange = (do {
     a0 \<leftarrow> control_start (demo_sid True) (demo_sid False) 60 30;
     b0 \<leftarrow> control_start (demo_sid False) (demo_sid True) 60 30;
     (q, a1) \<leftarrow> control_queue a0 P_CONTROL_V1 (Some [65]);
     (m, a2) \<leftarrow> control_send 0 a1;
     pkt \<leftarrow> m;
     (r, b1) \<leftarrow> control_receive b0 (wire_buf (buf_content pkt));
     (d, b2) \<leftarrow> control_deliver 1 b1;
     Some (a0, b0, q, a1, pkt, a2, r, b1, d, b2) })"

lemma demo_exchange_result:
  "map_option (\<lambda>(a0, b0, q, a1, pkt, a2, r, b1, d, b2). (q, length (buf_content pkt), d)) demo_exchange
     = Some (True, 15, Some [65])"
  by code_simp

lemma demo_sid_ok: "sid_ok (demo_sid p) \<and> session_id_defined (demo_sid p)"
  by (simp add: demo_sid_def sid_ok_def session_id_defined_def SID_SIZE_def x_session_id_zero_def)

lemma demo_reach:
  "\<exists>w. net_reach demo_sid 60 30 w \<and> w_sent w True = [[65]] \<and> w_dlvd w False = [[65]]"
proof -
  from demo_exchange_result obtain a0 b0 a1 pkt a2 r b1 b2 where
    e: "demo_exchange = Some (a0, b0, True, a1, pkt, a2, r, b1, Some [65], b2)" and l: "length (buf_content pkt) = 15"
    by (cases demo_exchange) auto
  have s: "control_start (demo_sid True) (demo_sid False) 60 30 = Some a0"
    "control_start (demo_sid False) (demo_sid True) 60 30 = Some b0"
    "control_queue a0 P_CONTROL_V1 (Some [65]) = Some (True, a1)" "control_send 0 a1 = Some (Some pkt, a2)"
    "control_receive b0 (wire_buf (buf_content pkt)) = Some (r, b1)" "control_deliver 1 b1 = Some (Some [65], b2)"
    using e by (auto simp: demo_exchange_def split: Option.bind_splits)
  define w0 where "w0 = \<lparr>w_peer = (\<lambda>p. if p then a0 else b0), w_net = (\<lambda>_. {}), w_sent = (\<lambda>_. []), w_dlvd = (\<lambda>_. [])\<rparr>"
  define w1 where "w1 = w0\<lparr>w_peer := (w_peer w0)(True := a1), w_sent := (w_sent w0)(True := [[65]])\<rparr>"
  define w2 where "w2 = w1\<lparr>w_peer := (w_peer w1)(True := a2), w_net := (w_net w1)(True := {buf_content pkt})\<rparr>"
  define w3 where "w3 = w2\<lparr>w_peer := (w_peer w2)(False := b1)\<rparr>"
  define w4 where "w4 = w3\<lparr>w_peer := (w_peer w3)(False := b2), w_dlvd := (w_dlvd w3)(False := [[65]])\<rparr>"
  have st: "net_start demo_sid 60 30 w0"
    unfolding net_start_def
  proof
    fix p show "control_start (demo_sid p) (demo_sid (\<not> p)) 60 30 = Some (w_peer w0 p)
        \<and> w_net w0 p = {} \<and> w_sent w0 p = [] \<and> w_dlvd w0 p = []"
      using s(1,2) by (cases p) (simp_all add: w0_def)
  qed
  have s1: "net_step w0 w1"
    using net_step.queue [of w0 True P_CONTROL_V1 "Some [65]" True a1] s(3)
    by (simp add: w1_def w0_def P_CONTROL_V1_def P_ACK_V1_def)
  have s2: "net_step w1 w2"
    using net_step.send [of 0 w1 True "Some pkt" a2] s(4) by (simp add: w2_def w1_def w0_def emit_def)
  have s3: "net_step w2 w3"
    using net_step.receive [of "wire_buf (buf_content pkt)" w2 False r b1] s(5) l
    by (simp add: w3_def w2_def w1_def w0_def wire_buf_ok wire_buf_content)
  have s4: "net_step w3 w4"
    using net_step.deliver [of 1 w3 False "Some [65]" b2] s(6) by (simp add: w4_def w3_def w2_def w1_def w0_def)
  note step = converse_rtranclp_into_rtranclp [of net_step]
  have "net_step\<^sup>*\<^sup>* w0 w4"
    by (rule step [OF s1], rule step [OF s2], rule step [OF s3], rule step [OF s4]) simp
  then have "net_reach demo_sid 60 30 w4" using st by (auto simp: net_reach_def)
  then show ?thesis by (intro exI [of _ w4]) (simp add: w4_def w3_def w2_def w1_def w0_def)
qed

text \<open>
  C3: the control channel delivers in order, without gaps, repetitions or alterations. In every reachable
  world, whatever the network lost, repeated or reordered, the payloads delivered to a peer are a prefix of the
  payloads the other peer queued.
\<close>

theorem delivery_in_order:
  assumes "net_reach sid n off w" and "0 \<le> n" and "n < 2 ^ 64" and "\<And>p. sid_ok (sid p) \<and> session_id_defined (sid p)"
  shows "prefix (w_dlvd w p) (w_sent w (\<not> p))"
  using net_invD(7) [OF net_reach_inv [OF assms]] by (simp add: receiver_inv_def)

theorem delivery_in_order_witness:
  "\<exists>w. net_reach demo_sid 60 30 w \<and> w_dlvd w False = [[65]] \<and> prefix (w_dlvd w False) (w_sent w True)"
proof -
  obtain w where w: "net_reach demo_sid 60 30 w" "w_dlvd w False = [[65]]" using demo_reach by blast
  then show ?thesis using delivery_in_order [OF w(1) _ _ demo_sid_ok, of False] by auto
qed

text \<open>
  C4: the control channel loses nothing. Every payload a peer queued has been delivered at the other end, or
  waits there in the receive array, or is still active in the send array with its number and contents, to be
  sent again; so an entry is only given up once the other end has its packet.
\<close>

theorem nothing_is_lost:
  assumes "net_reach sid n off w" and "0 \<le> n" and "n < 2 ^ 64" and "\<And>p. sid_ok (sid p) \<and> session_id_defined (sid p)"
    and "k < length (w_sent w p)"
  shows "k < length (w_dlvd w (\<not> p))
     \<or> list_ex (\<lambda>e. e_active e \<and> unat (e_packet_id e) = k \<and> buf_content (e_buf e) = w_sent w p ! k)
         (rl_entries (c_rec_reliable (w_peer w (\<not> p))))
     \<or> list_ex (\<lambda>e. e_active e \<and> unat (e_packet_id e) = k
            \<and> buf_content (e_buf e) = u32_bytes (of_nat k) @ w_sent w p ! k)
         (rl_entries (c_send_reliable (w_peer w p)))"
proof -
  note I = net_invD [OF net_reach_inv [OF assms(1-4)], of p]
    and J = net_invD [OF net_reach_inv [OF assms(1-4)], of "\<not> p", simplified not_not]
  have "k \<in> accepted (w_dlvd w (\<not> p)) (c_rec_reliable (w_peer w (\<not> p)))
      \<union> (\<lambda>x. unat (fst x)) ` live (c_send_reliable (w_peer w p))"
    by (rule subsetD [OF I(9) [unfolded no_loss_def]]) (use assms(5) in simp)
  then consider "k < length (w_dlvd w (\<not> p))"
    | x where "x \<in> live (c_rec_reliable (w_peer w (\<not> p)))" "k = unat (fst x)"
    | x where "x \<in> live (c_send_reliable (w_peer w p))" "k = unat (fst x)"
    by (auto simp: accepted_def)
  then show ?thesis
  proof cases
    case (2 x)
    then have "snd (snd x) = w_sent w p ! k" using J(7) by (auto simp: receiver_inv_def)
    with 2 show ?thesis by (auto simp: live_def list_ex_iff)
  next
    case (3 x)
    then have "snd (snd x) = u32_bytes (of_nat k) @ w_sent w p ! k" using I(6) by (auto simp: sender_inv_def)
    with 3 show ?thesis by (auto simp: live_def list_ex_iff)
  qed simp
qed

theorem nothing_is_lost_witness:
  "\<exists>w. net_reach demo_sid 60 30 w \<and> 0 < length (w_sent w True) \<and> (0 < length (w_dlvd w False)
     \<or> list_ex (\<lambda>e. e_active e \<and> unat (e_packet_id e) = 0 \<and> buf_content (e_buf e) = w_sent w True ! 0)
         (rl_entries (c_rec_reliable (w_peer w False)))
     \<or> list_ex (\<lambda>e. e_active e \<and> unat (e_packet_id e) = 0
            \<and> buf_content (e_buf e) = u32_bytes (of_nat 0) @ w_sent w True ! 0)
         (rl_entries (c_send_reliable (w_peer w True))))"
proof -
  obtain w where w: "net_reach demo_sid 60 30 w" "w_sent w True = [[65]]" using demo_reach by blast
  then show ?thesis using nothing_is_lost [OF w(1) _ _ demo_sid_ok, of 0 True] by auto
qed

end
