(* ===== verification/Timers.thy ===== *)
theory Timers
  imports Buffer
begin

section \<open>Clock, time values and timers (otime.h, otime.c, interval.h, interval.c)\<close>

text \<open>
  The process-wide clock with its protection against a system clock that jumps, arithmetic on
  \<^verbatim>\<open>struct timeval\<close>, the limiter of event rates, and the two kinds of timer of the event loop. The
  globals \<^verbatim>\<open>now\<close>, \<^verbatim>\<open>now_adj\<close> and \<^verbatim>\<open>now_usec\<close> are a record that \<^verbatim>\<open>update_now\<close> threads; a function
  that only reads \<^verbatim>\<open>now\<close> takes it as an argument. \<^verbatim>\<open>interval_t\<close> is a C \<^verbatim>\<open>int\<close>.
\<close>

subsection \<open>Time values\<close>

datatype timeval = Timeval (tv_sec: int) (tv_usec: int)

definition tv_clear :: timeval where
  "tv_clear = Timeval 0 0"

definition tv_defined :: "timeval \<Rightarrow> bool" where
  "tv_defined tv \<longleftrightarrow> tv_sec tv > 0 \<and> tv_usec tv > 0"

definition tv_subtract :: "timeval \<Rightarrow> timeval \<Rightarrow> int \<Rightarrow> int" where
  "tv_subtract tv1 tv2 max_seconds =
     (let max_usec = c_int (max_seconds * 1000000);
          sec_diff = c_int (tv_sec tv1 - tv_sec tv2)
      in if sec_diff > c_int max_seconds + 10 then max_usec
         else if sec_diff < - (c_int max_seconds + 10) then - max_usec
         else constrain_int (c_int (sec_diff * 1000000 + (tv_usec tv1 - tv_usec tv2)))
                (- max_usec) max_usec)"

definition tv_add :: "timeval \<Rightarrow> timeval \<Rightarrow> timeval" where
  "tv_add dest src =
     (let sec = tv_sec dest + tv_sec src;
          usec = tv_usec dest + tv_usec src;
          sec = sec + drop_bit 20 usec;
          usec = usec AND 0xFFFFF
      in if usec \<ge> 1000000 then Timeval (sec + 1) (usec - 1000000) else Timeval sec usec)"

definition tv_lt :: "timeval \<Rightarrow> timeval \<Rightarrow> bool" where
  "tv_lt t1 t2 =
     (if tv_sec t1 < tv_sec t2 then True
      else if tv_sec t1 > tv_sec t2 then False
      else tv_usec t1 < tv_usec t2)"

definition tv_le :: "timeval \<Rightarrow> timeval \<Rightarrow> bool" where
  "tv_le t1 t2 =
     (if tv_sec t1 < tv_sec t2 then True
      else if tv_sec t1 > tv_sec t2 then False
      else tv_usec t1 \<le> tv_usec t2)"

definition tv_ge :: "timeval \<Rightarrow> timeval \<Rightarrow> bool" where
  "tv_ge t1 t2 =
     (if tv_sec t1 > tv_sec t2 then True
      else if tv_sec t1 < tv_sec t2 then False
      else tv_usec t1 \<ge> tv_usec t2)"

definition tv_gt :: "timeval \<Rightarrow> timeval \<Rightarrow> bool" where
  "tv_gt t1 t2 =
     (if tv_sec t1 > tv_sec t2 then True
      else if tv_sec t1 < tv_sec t2 then False
      else tv_usec t1 > tv_usec t2)"

definition tv_eq :: "timeval \<Rightarrow> timeval \<Rightarrow> bool" where
  "tv_eq t1 t2 \<longleftrightarrow> tv_sec t1 = tv_sec t2 \<and> tv_usec t1 = tv_usec t2"

text \<open>The borrow loop of \<^verbatim>\<open>tv_delta\<close>.\<close>

function tv_borrow :: "int \<Rightarrow> int \<Rightarrow> int \<times> int" where
  "tv_borrow sec usec = (if usec < 0 then tv_borrow (sec - 1) (usec + 1000000) else (sec, usec))"
  by auto
termination by (relation "measure (\<lambda>(sec, usec). nat (- usec))") auto

declare tv_borrow.simps [simp del]

definition tv_delta :: "timeval \<Rightarrow> timeval \<Rightarrow> timeval" where
  "tv_delta t1 t2 =
     (let (sec, usec) = tv_borrow (c_int (tv_sec t2 - tv_sec t1)) (c_int (tv_usec t2 - tv_usec t1))
      in if sec < 0 then Timeval 0 0 else Timeval sec usec)"

definition TV_WITHIN_SIGMA_MAX_SEC :: int where
  "TV_WITHIN_SIGMA_MAX_SEC = 600"

definition tv_within_sigma :: "timeval \<Rightarrow> timeval \<Rightarrow> int \<Rightarrow> bool" where
  "tv_within_sigma t1 t2 sigma =
     (let delta = tv_subtract t1 t2 TV_WITHIN_SIGMA_MAX_SEC
      in - c_int sigma \<le> delta \<and> delta \<le> c_int sigma)"

subsection \<open>The clock\<close>

record clock =
  now :: int
  now_adj :: int
  now_usec :: int

definition update_now :: "int \<Rightarrow> clock \<Rightarrow> clock" where
  "update_now system_time c =
     (let forward_threshold = 86400;
          backward_trigger = 10;
          real_time = system_time + now_adj c
      in if real_time > now c then
           let overshoot = real_time - now c - 1
           in if overshoot > forward_threshold \<and> now_adj c \<ge> overshoot
              then c\<lparr>now_adj := now_adj c - overshoot, now := real_time - overshoot\<rparr>
              else c\<lparr>now := real_time\<rparr>
         else if real_time < now c - backward_trigger
         then c\<lparr>now_adj := now_adj c + (now c - real_time)\<rparr>
         else c)"

definition update_now_usec :: "timeval \<Rightarrow> clock \<Rightarrow> clock" where
  "update_now_usec tv c =
     (let last = now c; c' = update_now (tv_sec tv) c
      in if now c' > last \<or> now c' = last \<and> tv_usec tv > now_usec c'
         then c'\<lparr>now_usec := tv_usec tv\<rparr> else c')"

text \<open>
  \<open>reading\<close> is what the system's \<^verbatim>\<open>gettimeofday\<close> stored, \<^const>\<open>None\<close> when it failed; the result is
  what the caller finds in \<^verbatim>\<open>*tv\<close>.
\<close>

definition openvpn_gettimeofday :: "timeval option \<Rightarrow> clock \<Rightarrow> timeval option \<times> clock" where
  "openvpn_gettimeofday reading c =
     (case reading of
        None \<Rightarrow> (None, c)
      | Some tv \<Rightarrow> let c' = update_now_usec tv c in (Some (Timeval (now c') (now_usec c')), c'))"

definition update_time :: "int \<Rightarrow> clock \<Rightarrow> clock" where
  "update_time system_time c = update_now system_time c"

definition openvpn_time :: "int \<Rightarrow> clock \<Rightarrow> int \<times> clock" where
  "openvpn_time system_time c = (let c' = update_time system_time c in (now c', c'))"

subsection \<open>Limiting the rate of events\<close>

record frequency_limit =
  fl_max :: int
  fl_per :: int
  fl_n :: int
  fl_reset :: int

definition frequency_limit_init :: "int \<Rightarrow> int \<Rightarrow> frequency_limit exec" where
  "frequency_limit_init mx per = (do {
     assert_c (mx \<ge> 0 \<and> per \<ge> 0);
     Some \<lparr>fl_max = mx, fl_per = per, fl_n = 0, fl_reset = 0\<rparr> })"

definition frequency_limit_event_allowed :: "int \<Rightarrow> frequency_limit \<Rightarrow> bool \<times> frequency_limit" where
  "frequency_limit_event_allowed t f =
     (if fl_per f \<noteq> 0 then
        let f1 = (if t \<ge> fl_reset f + fl_per f then f\<lparr>fl_reset := t, fl_n := 0\<rparr> else f);
            f2 = f1\<lparr>fl_n := fl_n f1 + 1\<rparr>
        in (fl_n f2 \<le> fl_max f2, f2)
      else (True, f))"

subsection \<open>Intervals\<close>

record interval =
  iv_refresh :: int
  iv_horizon :: int
  iv_future_trigger :: int
  iv_last_action :: int
  iv_last_test_true :: int

definition interval_init :: "int \<Rightarrow> int \<Rightarrow> interval" where
  "interval_init horizon refresh =
     \<lparr>iv_refresh = refresh, iv_horizon = horizon, iv_future_trigger = 0, iv_last_action = 0,
      iv_last_test_true = 0\<rparr>"

definition interval_test :: "int \<Rightarrow> interval \<Rightarrow> bool \<times> interval" where
  "interval_test local_now iv =
     (let trigger = (iv_future_trigger iv \<noteq> 0 \<and> local_now \<ge> iv_future_trigger iv);
          iv1 = (if trigger then iv\<lparr>iv_future_trigger := 0\<rparr> else iv)
      in if iv_last_action iv1 + iv_horizon iv1 > local_now
            \<or> iv_last_test_true iv1 + iv_refresh iv1 \<le> local_now \<or> trigger
         then (True, iv1\<lparr>iv_last_test_true := local_now\<rparr>)
         else (False, iv1))"

definition interval_earliest_wakeup :: "int \<Rightarrow> int \<Rightarrow> int \<Rightarrow> int" where
  "interval_earliest_wakeup wakeup at current =
     (if at > current then
        let delta = c_int (at - current);
            wakeup1 = (if delta < wakeup then delta else wakeup)
        in if wakeup1 < 0 then 0 else wakeup1
      else wakeup)"

definition interval_schedule_wakeup :: "int \<Rightarrow> interval \<Rightarrow> int \<Rightarrow> int" where
  "interval_schedule_wakeup local_now iv wakeup =
     interval_earliest_wakeup
       (interval_earliest_wakeup wakeup (iv_last_test_true iv + iv_refresh iv) local_now)
       (iv_future_trigger iv) local_now"

definition interval_future_trigger :: "int \<Rightarrow> interval \<Rightarrow> int \<Rightarrow> interval" where
  "interval_future_trigger t iv wakeup =
     (if wakeup \<noteq> 0 then iv\<lparr>iv_future_trigger := t + wakeup\<rparr> else iv)"

definition interval_action :: "int \<Rightarrow> interval \<Rightarrow> interval" where
  "interval_action t iv = iv\<lparr>iv_last_action := t\<rparr>"

subsection \<open>Recurring timeouts\<close>

record event_timeout =
  et_defined :: bool
  et_n :: int
  et_last :: int

definition event_timeout_clear :: event_timeout where
  "event_timeout_clear = \<lparr>et_defined = False, et_n = 0, et_last = 0\<rparr>"

definition event_timeout_init :: "int \<Rightarrow> int \<Rightarrow> event_timeout" where
  "event_timeout_init n local_now =
     \<lparr>et_defined = True, et_n = (if n \<ge> 0 then n else 0), et_last = local_now\<rparr>"

definition event_timeout_reset :: "int \<Rightarrow> event_timeout \<Rightarrow> event_timeout" where
  "event_timeout_reset t et = (if et_defined et then et\<lparr>et_last := t\<rparr> else et)"

definition event_timeout_modify_wakeup :: "event_timeout \<Rightarrow> int \<Rightarrow> event_timeout" where
  "event_timeout_modify_wakeup et n =
     (if et_defined et then et\<lparr>et_n := if n \<ge> 0 then n else 0\<rparr> else et)"

definition event_timeout_remaining :: "int \<Rightarrow> event_timeout \<Rightarrow> int" where
  "event_timeout_remaining t et = c_int (et_last et - t + et_n et)"

definition ETT_DEFAULT :: int where
  "ETT_DEFAULT = -1"

text \<open>\<open>tv\<close> is \<^const>\<open>None\<close> for a \<^verbatim>\<open>NULL\<close> pointer.\<close>

definition event_timeout_trigger ::
  "int \<Rightarrow> event_timeout \<Rightarrow> timeval option \<Rightarrow> int \<Rightarrow> bool \<times> event_timeout \<times> timeval option" where
  "event_timeout_trigger local_now et tv et_const_retry =
     (if et_defined et then
        let wakeup = et_last et - local_now + et_n et;
            (ret, et1, wakeup1) =
              (if wakeup \<le> 0 then
                 if et_const_retry < 0 then (True, et\<lparr>et_last := local_now\<rparr>, et_n et)
                 else (False, et, et_const_retry)
               else (False, et, wakeup))
        in (ret, et1,
            map_option (\<lambda>t. if wakeup1 < tv_sec t then Timeval wakeup1 0 else t) tv)
      else (False, et, tv))"

record usec_timer =
  ut_start :: timeval
  ut_end :: timeval

definition USEC_TIMER_MAX :: int where
  "USEC_TIMER_MAX = 60"

definition usec_timer_interval_defined :: "usec_timer \<Rightarrow> bool" where
  "usec_timer_interval_defined obj \<longleftrightarrow> tv_sec (ut_start obj) \<noteq> 0 \<and> tv_sec (ut_end obj) \<noteq> 0"

definition usec_timer_interval :: "usec_timer \<Rightarrow> int" where
  "usec_timer_interval obj = tv_subtract (ut_end obj) (ut_start obj) USEC_TIMER_MAX"


subsection \<open>Time values are ordered\<close>

text \<open>The comparison functions make \<^typ>\<open>timeval\<close> a linear order, so that lists of readings can be sorted.\<close>

instantiation timeval :: linorder
begin

definition less_eq_timeval :: "timeval \<Rightarrow> timeval \<Rightarrow> bool" where
  "less_eq_timeval = tv_le"

definition less_timeval :: "timeval \<Rightarrow> timeval \<Rightarrow> bool" where
  "less_timeval = tv_lt"

instance
proof
  fix x y z :: timeval
  show "x < y \<longleftrightarrow> x \<le> y \<and> \<not> y \<le> x"
    by (auto simp: less_eq_timeval_def less_timeval_def tv_le_def tv_lt_def)
  show "x \<le> x" by (simp add: less_eq_timeval_def tv_le_def)
  show "x \<le> y \<Longrightarrow> y \<le> z \<Longrightarrow> x \<le> z" by (auto simp: less_eq_timeval_def tv_le_def split: if_splits)
  show "x \<le> y \<Longrightarrow> y \<le> x \<Longrightarrow> x = y"
    by (cases x; cases y) (auto simp: less_eq_timeval_def tv_le_def split: if_splits)
  show "x \<le> y \<or> y \<le> x" by (auto simp: less_eq_timeval_def tv_le_def)
qed

end

lemma tv_order:
  "tv_le t1 t2 \<longleftrightarrow> t1 \<le> t2" "tv_lt t1 t2 \<longleftrightarrow> t1 < t2" "tv_ge t1 t2 \<longleftrightarrow> t2 \<le> t1" "tv_gt t1 t2 \<longleftrightarrow> t2 < t1"
  "tv_eq t1 t2 \<longleftrightarrow> t1 = t2"
  by (cases t1; cases t2; auto simp: less_eq_timeval_def less_timeval_def tv_le_def tv_lt_def tv_ge_def
      tv_gt_def tv_eq_def)+

lemma timeval_le_iff: "Timeval s u \<le> Timeval s' u' \<longleftrightarrow> s < s' \<or> s = s' \<and> u \<le> u'"
  by (auto simp: less_eq_timeval_def tv_le_def)

text \<open>A normalised time value, and the number of microseconds it stands for.\<close>

definition tv_ok :: "timeval \<Rightarrow> bool" where
  "tv_ok tv \<longleftrightarrow> 0 \<le> tv_usec tv \<and> tv_usec tv < 1000000"

definition tv_total :: "timeval \<Rightarrow> int" where
  "tv_total tv = tv_sec tv * 1000000 + tv_usec tv"

lemma tv_total_le: "tv_ok t1 \<Longrightarrow> tv_ok t2 \<Longrightarrow> t1 \<le> t2 \<longleftrightarrow> tv_total t1 \<le> tv_total t2"
  by (cases t1; cases t2) (auto simp: timeval_le_iff tv_total_def tv_ok_def)

lemma drop_bit_20: "drop_bit 20 u = u div (1048576 :: int)"
  by (simp add: drop_bit_eq_div)

lemma mask_20: "u AND 0xFFFFF = u mod (1048576 :: int)"
  using take_bit_eq_mask [of 20 u] by (simp add: take_bit_eq_mod mask_eq_exp_minus_1)

lemma tv_borrow_spec:
  assumes "tv_borrow sec usec = (sec', usec')" and "usec < 1000000"
  shows "0 \<le> usec' \<and> usec' < 1000000 \<and> sec' * 1000000 + usec' = sec * 1000000 + usec"
  using assms
proof (induction sec usec rule: tv_borrow.induct)
  case (1 sec usec)
  then show ?case by (subst (asm) tv_borrow.simps) (cases "usec < 0"; auto)
qed


subsection \<open>The clock never runs backwards\<close>

text \<open>The readings the callers of \<^verbatim>\<open>openvpn_gettimeofday\<close> obtain one after the other.\<close>

fun clock_readings :: "clock \<Rightarrow> timeval list \<Rightarrow> timeval list" where
  "clock_readings c [] = []"
| "clock_readings c (tv # tvs) =
     (case openvpn_gettimeofday (Some tv) c of (r, c') \<Rightarrow> the r # clock_readings c' tvs)"

lemma update_now_cases:
  obtains (forward) "now c < system_time + now_adj c" "now (update_now system_time c) > now c"
      "now (update_now system_time c) = system_time + now_adj (update_now system_time c)"
  | (jump_back) "system_time + now_adj c < now c - 10" "now (update_now system_time c) = now c"
      "system_time + now_adj (update_now system_time c) = now c"
  | (stall) "now c - 10 \<le> system_time + now_adj c" "system_time + now_adj c \<le> now c"
      "update_now system_time c = c"
  by (cases "now c < system_time + now_adj c"; cases "system_time + now_adj c < now c - 10")
    (force simp: update_now_def Let_def)+

lemma update_now_usec_same [simp]: "now_usec (update_now t c) = now_usec c"
  by (simp add: update_now_def Let_def)

lemma update_now_usec_mono:
  "Timeval (now c) (now_usec c) \<le> Timeval (now (update_now_usec tv c)) (now_usec (update_now_usec tv c))"
  by (rule update_now_cases [of c "tv_sec tv"]) (auto simp: update_now_usec_def Let_def timeval_le_iff)

lemma clock_readings_lower: "r \<in> set (clock_readings c tvs) \<Longrightarrow> Timeval (now c) (now_usec c) \<le> r"
proof (induction tvs arbitrary: c)
  case (Cons tv tvs)
  let ?c = "update_now_usec tv c"
  have "Timeval (now ?c) (now_usec ?c) \<le> r"
    using Cons by (auto simp: openvpn_gettimeofday_def Let_def)
  then show ?case using update_now_usec_mono [of c tv] by (rule order_trans [rotated])
qed simp

text \<open>C32: whatever the system clock reports, the time values \<^verbatim>\<open>openvpn_gettimeofday\<close> hands out never
  decrease.\<close>

theorem clock_never_decreases: "sorted (clock_readings c tvs)"
  by (induction tvs arbitrary: c)
    (auto simp: openvpn_gettimeofday_def Let_def dest!: clock_readings_lower)

text \<open>\<^verbatim>\<open>update_now\<close> leaves the clock at most ten seconds ahead of the corrected system time and never
  behind it, and the correction never becomes negative; so the clock is never behind the system clock
  and, once the system clock has advanced by more than ten seconds, moves again.\<close>

theorem clock_tracks_system:
  assumes "now_adj c \<ge> 0"
  shows "let c' = update_now t c in
           now c' - 10 \<le> t + now_adj c' \<and> t + now_adj c' \<le> now c' \<and> now_adj c' \<ge> 0 \<and> t \<le> now c'
           \<and> (\<forall>t' > t + 10. now (update_now t' c') > now c')"
proof -
  let ?c = "update_now t c"
  have adj: "now_adj ?c \<ge> 0" using assms by (auto simp: update_now_def Let_def)
  have near: "now ?c - 10 \<le> t + now_adj ?c \<and> t + now_adj ?c \<le> now ?c"
    by (rule update_now_cases [of c t]) auto
  have "now (update_now t' ?c) > now ?c" if "t' > t + 10" for t'
    by (rule update_now_cases [of ?c t']) (use near that in auto)
  with adj near show ?thesis by (simp add: Let_def)
qed

theorem clock_tracks_system_witness:
  "let c' = update_now 1000 \<lparr>now = 5000, now_adj = 0, now_usec = 0\<rparr> in
     now c' = 5000 \<and> now_adj c' = 4000 \<and> now (update_now 1011 c') > now c'"
proof -
  have "let c' = update_now 1000 \<lparr>now = 5000, now_adj = 0, now_usec = 0\<rparr> in
      \<forall>t' > 1010. now (update_now t' c') > now c'"
    using clock_tracks_system [of "\<lparr>now = 5000, now_adj = 0, now_usec = 0\<rparr>" 1000]
    by (simp add: Let_def)
  then show ?thesis by (simp add: Let_def) (simp add: update_now_def)
qed


subsection \<open>Adding time values\<close>

text \<open>C40: \<^verbatim>\<open>tv_add\<close> keeps time values normalised, but it carries at \<open>2 ^ 20\<close> microseconds: once the
  microseconds add up to \<open>2 ^ 20\<close> or more, the sum it stores is 48576 microseconds short.\<close>

theorem tv_add_loses_carry:
  assumes "tv_ok a" and "tv_ok b"
  shows "tv_ok (tv_add a b)
       \<and> tv_total (tv_add a b) =
           tv_total a + tv_total b - (if tv_usec a + tv_usec b \<ge> 1048576 then 48576 else 0)"
proof -
  define u where "u = tv_usec a + tv_usec b"
  have u: "0 \<le> u" "u < 2000000" using assms by (auto simp: tv_ok_def u_def)
  have carry: "u div 1048576 = (if u \<ge> 1048576 then 1 else 0)" using u by auto
  have rest: "u mod 1048576 = (if u \<ge> 1048576 then u - 1048576 else u)"
    using carry mod_div_mult_eq [of u 1048576] by auto
  have sum: "tv_total a + tv_total b = (tv_sec a + tv_sec b) * 1000000 + u"
    by (simp add: tv_total_def u_def)
  show ?thesis
    unfolding tv_add_def Let_def drop_bit_20 mask_20 u_def [symmetric] carry rest sum
    using u by (auto simp: tv_ok_def tv_total_def)
qed

theorem tv_add_loses_carry_witness:
  "tv_add (Timeval 1 600000) (Timeval 0 600000) = Timeval 2 151424
   \<and> tv_total (tv_add (Timeval 1 600000) (Timeval 0 600000)) = 2200000 - 48576"
  using tv_add_loses_carry [of "Timeval 1 600000" "Timeval 0 600000"]
  by (simp add: tv_ok_def tv_total_def) (simp add: tv_add_def Let_def drop_bit_20 mask_20)

text \<open>\<^verbatim>\<open>tv_delta\<close> is subtraction cut off at zero.\<close>

lemma tv_delta_total:
  assumes "tv_ok t1" "tv_ok t2" "\<bar>tv_sec t2 - tv_sec t1\<bar> < 2 ^ 31"
  shows "tv_ok (tv_delta t1 t2)" "tv_total (tv_delta t1 t2) = max 0 (tv_total t2 - tv_total t1)"
proof -
  have id: "c_int (tv_sec t2 - tv_sec t1) = tv_sec t2 - tv_sec t1"
    "c_int (tv_usec t2 - tv_usec t1) = tv_usec t2 - tv_usec t1"
    using assms by (auto intro!: c_int_id simp: tv_ok_def)
  obtain s u where b: "tv_borrow (tv_sec t2 - tv_sec t1) (tv_usec t2 - tv_usec t1) = (s, u)"
    by fastforce
  have "0 \<le> u \<and> u < 1000000 \<and> s * 1000000 + u = tv_total t2 - tv_total t1"
    using tv_borrow_spec [OF b] assms by (auto simp: tv_ok_def tv_total_def)
  then show "tv_ok (tv_delta t1 t2)" "tv_total (tv_delta t1 t2) = max 0 (tv_total t2 - tv_total t1)"
    by (auto simp: tv_delta_def id b tv_ok_def tv_total_def max_def)
qed

subsection \<open>Recurring timeouts\<close>

text \<open>a timeout fires exactly when it is defined, due, and called with the default retry argument;
  firing re-arms it, not firing leaves it as it is, and the caller's wait never sleeps past the moment it
  is due next.\<close>

theorem event_timeout_trigger_fires:
  assumes "event_timeout_trigger t et (Some tv) retry = (ret, et', tv')"
  shows "(ret \<longleftrightarrow> et_defined et \<and> et_last et + et_n et \<le> t \<and> retry < 0)
       \<and> et' = (if ret then et\<lparr>et_last := t\<rparr> else et)
       \<and> (et_defined et \<and> retry < 0 \<longrightarrow> tv_sec (the tv') \<le> et_last et' + et_n et' - t)"
  using assms by (auto simp: event_timeout_trigger_def Let_def split: if_splits)

theorem event_timeout_trigger_fires_witness:
  "event_timeout_trigger 105 (event_timeout_init 5 100) (Some (Timeval 10 0)) ETT_DEFAULT =
     (True, event_timeout_init 5 105, Some (Timeval 5 0))"
proof -
  obtain r e v where call: "event_timeout_trigger 105 (event_timeout_init 5 100) (Some (Timeval 10 0))
      ETT_DEFAULT = (r, e, v)" by (metis prod_cases3)
  then have "v = Some (Timeval 5 0)"
    by (auto simp: event_timeout_trigger_def event_timeout_init_def ETT_DEFAULT_def)
  with call event_timeout_trigger_fires [OF call] show ?thesis
    by (auto simp: event_timeout_init_def ETT_DEFAULT_def)
qed

text \<open>with a retry argument of zero or more a due timeout returns \<^verbatim>\<open>false\<close> and is left alone, where
  the comment above the declaration promises \<^verbatim>\<open>true\<close>.\<close>

theorem event_timeout_retry_returns_false:
  "retry \<ge> 0 \<Longrightarrow> \<exists>tv'. event_timeout_trigger t et tv retry = (False, et, tv')"
  by (auto simp: event_timeout_trigger_def Let_def)

theorem event_timeout_retry_returns_false_witness:
  "event_timeout_trigger 200 (event_timeout_init 5 100) (Some (Timeval 60 0)) 15 =
     (False, event_timeout_init 5 100, Some (Timeval 15 0))"
  using event_timeout_retry_returns_false [of 15 200 "event_timeout_init 5 100" "Some (Timeval 60 0)"]
  by (auto simp: event_timeout_trigger_def event_timeout_init_def)

text \<open>The times at which a timeout fires when it is polled at the times \<open>ts\<close>.\<close>

fun timeout_firings :: "event_timeout \<Rightarrow> int list \<Rightarrow> int list" where
  "timeout_firings et [] = []"
| "timeout_firings et (t # ts) =
     (case event_timeout_trigger t et None ETT_DEFAULT of
        (ret, et', _) \<Rightarrow> (if ret then [t] else []) @ timeout_firings et' ts)"

lemma timeout_firings_Cons:
  "timeout_firings et (t # ts) =
     (if et_defined et \<and> et_last et + et_n et \<le> t then t # timeout_firings (et\<lparr>et_last := t\<rparr>) ts
      else timeout_firings et ts)"
  by (auto simp: event_timeout_trigger_def ETT_DEFAULT_def Let_def)

lemma timeout_firings_spaced:
  assumes "0 \<le> et_n et"
  shows "(\<forall>t \<in> set (timeout_firings et ts). et_last et + et_n et \<le> t)
       \<and> sorted_wrt (\<lambda>a b. a + et_n et \<le> b) (timeout_firings et ts)"
  using assms
proof (induction ts arbitrary: et)
  case (Cons t ts)
  show ?case
  proof (cases "et_defined et \<and> et_last et + et_n et \<le> t")
    case True
    with Cons.IH [of "et\<lparr>et_last := t\<rparr>"] Cons.prems show ?thesis
      by (fastforce simp: timeout_firings_Cons simp del: timeout_firings.simps)
  next
    case False
    with Cons.IH [of et] Cons.prems show ?thesis
      by (auto simp: timeout_firings_Cons simp del: timeout_firings.simps)
  qed
qed simp

text \<open>however often and at whatever times it is polled, a timeout of \<open>n\<close> seconds fires at moments
  that are at least \<open>n\<close> seconds apart, the first of them \<open>n\<close> seconds after it was armed.\<close>

theorem timeout_firings_period:
  assumes "0 \<le> n"
  shows "sorted_wrt (\<lambda>a b. a + n \<le> b) (t0 # timeout_firings (event_timeout_init n t0) ts)"
  using timeout_firings_spaced [of "event_timeout_init n t0" ts] assms
  by (simp add: event_timeout_init_def)

theorem timeout_firings_period_witness:
  "timeout_firings (event_timeout_init 5 100) [103, 106, 110, 111, 130] = [106, 111, 130]
   \<and> sorted_wrt (\<lambda>a b. a + 5 \<le> b) (100 # timeout_firings (event_timeout_init 5 100) [103, 106, 110, 111, 130])"
  using timeout_firings_period [of 5 100 "[103, 106, 110, 111, 130]"]
  by (simp add: event_timeout_trigger_def event_timeout_init_def ETT_DEFAULT_def)

subsection \<open>The rate limiter\<close>

text \<open>How many of the events at the times \<open>ts\<close> are allowed.\<close>

fun events_allowed :: "frequency_limit \<Rightarrow> int list \<Rightarrow> int" where
  "events_allowed f [] = 0"
| "events_allowed f (t # ts) =
     (case frequency_limit_event_allowed t f of
        (ok, f') \<Rightarrow> (if ok then 1 else 0) + events_allowed f' ts)"

lemma events_allowed_no_reset:
  assumes "fl_per f \<noteq> 0" "0 \<le> fl_n f" "0 \<le> fl_max f" "\<forall>t \<in> set ts. t < fl_reset f + fl_per f"
  shows "events_allowed f ts \<le> max 0 (fl_max f - fl_n f)"
  using assms
proof (induction ts arbitrary: f)
  case (Cons t ts)
  from Cons.IH [of "f\<lparr>fl_n := fl_n f + 1\<rparr>"] Cons.prems show ?case
    by (auto simp: frequency_limit_event_allowed_def Let_def)
qed simp

lemma events_allowed_window:
  assumes "0 < fl_per f" "0 \<le> fl_n f" "0 \<le> fl_max f" "\<forall>t \<in> set ts. a \<le> t \<and> t < a + fl_per f"
  shows "events_allowed f ts \<le> max 0 (fl_max f - fl_n f) + fl_max f"
  using assms
proof (induction ts arbitrary: f)
  case (Cons t ts)
  show ?case
  proof (cases "t \<ge> fl_reset f + fl_per f")
    case True
    have "events_allowed (f\<lparr>fl_reset := t, fl_n := 1\<rparr>) ts \<le> max 0 (fl_max f - 1)"
      using events_allowed_no_reset [of "f\<lparr>fl_reset := t, fl_n := 1\<rparr>" ts] Cons.prems by force
    with True Cons.prems show ?thesis
      by (auto simp: frequency_limit_event_allowed_def Let_def)
  next
    case False
    with Cons.IH [of "f\<lparr>fl_n := fl_n f + 1\<rparr>"] Cons.prems show ?thesis
      by (auto simp: frequency_limit_event_allowed_def Let_def)
  qed
qed simp

text \<open>the limiter allows at most twice its maximum of events in any stretch of \<open>per\<close> seconds,
  whatever happened before and in whatever order the clock presents them.\<close>

theorem frequency_limit_bound:
  assumes "0 < fl_per f" "0 \<le> fl_n f" "0 \<le> fl_max f" "\<forall>t \<in> set ts. a \<le> t \<and> t < a + fl_per f"
  shows "events_allowed f ts \<le> 2 * fl_max f"
  using events_allowed_window [OF assms] assms(2,3) by linarith

theorem frequency_limit_bound_witness:
  "events_allowed \<lparr>fl_max = 2, fl_per = 10, fl_n = 0, fl_reset = 95\<rparr> [101, 102, 103, 105, 106, 107, 108] = 4
   \<and> events_allowed \<lparr>fl_max = 2, fl_per = 10, fl_n = 0, fl_reset = 95\<rparr> [101, 102, 103, 105, 106, 107, 108] \<le> 4"
  using frequency_limit_bound [of "\<lparr>fl_max = 2, fl_per = 10, fl_n = 0, fl_reset = 95\<rparr>"
      "[101, 102, 103, 105, 106, 107, 108]" 101]
  by (simp add: frequency_limit_event_allowed_def Let_def)

end
