(* ===== verification/Frame.thy ===== *)
theory Frame
  imports Buffer
begin

section \<open>Packet geometry (mtu.h, mtu.c)\<close>

text \<open>
  \<^verbatim>\<open>struct frame\<close> records how much each processing step may add to a packet; the macros of
  \<^verbatim>\<open>mtu.h\<close> derive from it the sizes of buffers and the headroom at which packets start. The
  lemmas show that the headroom aligns the payload, that the dynamic MTU stays within its limits and that
  the buffers the socket and the tun device get are large enough.
\<close>

record frame =
  link_mtu :: int
  link_mtu_dynamic :: int
  extra_frame :: int
  extra_buffer :: int
  extra_tun :: int
  extra_link :: int
  align_flags :: u32
  align_adjust :: int

definition TUN_MTU_MIN :: int where
  "TUN_MTU_MIN = 100"

definition PAYLOAD_ALIGN :: int where
  "PAYLOAD_ALIGN = 4"

definition FRAME_HEADROOM_MARKER_DECRYPT :: u32 where
  "FRAME_HEADROOM_MARKER_DECRYPT = 1"

definition FRAME_HEADROOM_MARKER_FRAGMENT :: u32 where
  "FRAME_HEADROOM_MARKER_FRAGMENT = 2"

definition FRAME_HEADROOM_MARKER_READ_LINK :: u32 where
  "FRAME_HEADROOM_MARKER_READ_LINK = 4"

definition FRAME_HEADROOM_MARKER_READ_STREAM :: u32 where
  "FRAME_HEADROOM_MARKER_READ_STREAM = 8"

subsection \<open>Derived sizes\<close>

definition TUN_LINK_DELTA :: "frame \<Rightarrow> int" where
  "TUN_LINK_DELTA f = extra_frame f + extra_tun f"

definition TUN_MTU_SIZE :: "frame \<Rightarrow> int" where
  "TUN_MTU_SIZE f = link_mtu f - TUN_LINK_DELTA f"

definition TUN_MTU_SIZE_DYNAMIC :: "frame \<Rightarrow> int" where
  "TUN_MTU_SIZE_DYNAMIC f = link_mtu_dynamic f - TUN_LINK_DELTA f"

definition PAYLOAD_SIZE :: "frame \<Rightarrow> int" where
  "PAYLOAD_SIZE f = link_mtu f - extra_frame f"

definition PAYLOAD_SIZE_DYNAMIC :: "frame \<Rightarrow> int" where
  "PAYLOAD_SIZE_DYNAMIC f = link_mtu_dynamic f - extra_frame f"

definition EXPANDED_SIZE :: "frame \<Rightarrow> int" where
  "EXPANDED_SIZE f = link_mtu f"

definition EXPANDED_SIZE_DYNAMIC :: "frame \<Rightarrow> int" where
  "EXPANDED_SIZE_DYNAMIC f = link_mtu_dynamic f"

definition EXPANDED_SIZE_MIN :: "frame \<Rightarrow> int" where
  "EXPANDED_SIZE_MIN f = TUN_MTU_MIN + TUN_LINK_DELTA f"

definition MAX_RW_SIZE_TUN :: "frame \<Rightarrow> int" where
  "MAX_RW_SIZE_TUN f = PAYLOAD_SIZE f"

definition MAX_RW_SIZE_LINK :: "frame \<Rightarrow> int" where
  "MAX_RW_SIZE_LINK f = EXPANDED_SIZE f + extra_link f"

definition FRAME_HEADROOM_BASE :: "frame \<Rightarrow> int" where
  "FRAME_HEADROOM_BASE f = TUN_LINK_DELTA f + extra_buffer f + extra_link f"

definition BUF_SIZE :: "frame \<Rightarrow> int" where
  "BUF_SIZE f = TUN_MTU_SIZE f + FRAME_HEADROOM_BASE f * 2"

definition frame_headroom :: "frame \<Rightarrow> u32 \<Rightarrow> int" where
  "frame_headroom f flag_mask =
     (let offset = FRAME_HEADROOM_BASE f;
          adjust = (if flag_mask AND align_flags f \<noteq> 0 then align_adjust f else 0);
          delta = (push_bit 24 PAYLOAD_ALIGN - (offset + adjust)) AND (PAYLOAD_ALIGN - 1)
      in offset + delta)"

definition FRAME_HEADROOM :: "frame \<Rightarrow> int" where
  "FRAME_HEADROOM f = frame_headroom f 0"

definition FRAME_HEADROOM_ADJ :: "frame \<Rightarrow> u32 \<Rightarrow> int" where
  "FRAME_HEADROOM_ADJ f fm = frame_headroom f fm"

subsection \<open>Operations\<close>

definition frame_add_to_link_mtu :: "frame \<Rightarrow> int \<Rightarrow> frame" where
  "frame_add_to_link_mtu f increment = f\<lparr>link_mtu := link_mtu f + increment\<rparr>"

text \<open>The increment of the next two is \<^verbatim>\<open>unsigned\<close>: the sum is formed modulo \<open>2 ^ 32\<close>.\<close>

definition frame_add_to_extra_frame :: "frame \<Rightarrow> u32 \<Rightarrow> frame" where
  "frame_add_to_extra_frame f increment =
     f\<lparr>extra_frame := c_int (extra_frame f + uint increment)\<rparr>"

definition frame_remove_from_extra_frame :: "frame \<Rightarrow> u32 \<Rightarrow> frame" where
  "frame_remove_from_extra_frame f decrement =
     f\<lparr>extra_frame := c_int (extra_frame f - uint decrement)\<rparr>"

definition frame_add_to_extra_tun :: "frame \<Rightarrow> int \<Rightarrow> frame" where
  "frame_add_to_extra_tun f increment = f\<lparr>extra_tun := extra_tun f + increment\<rparr>"

definition frame_add_to_extra_link :: "frame \<Rightarrow> int \<Rightarrow> frame" where
  "frame_add_to_extra_link f increment = f\<lparr>extra_link := extra_link f + increment\<rparr>"

definition frame_add_to_extra_buffer :: "frame \<Rightarrow> int \<Rightarrow> frame" where
  "frame_add_to_extra_buffer f increment = f\<lparr>extra_buffer := extra_buffer f + increment\<rparr>"

definition frame_add_to_align_adjust :: "frame \<Rightarrow> int \<Rightarrow> frame" where
  "frame_add_to_align_adjust f increment = f\<lparr>align_adjust := align_adjust f + increment\<rparr>"

definition frame_align_to_extra_frame :: "frame \<Rightarrow> frame" where
  "frame_align_to_extra_frame f = f\<lparr>align_adjust := extra_frame f + extra_link f\<rparr>"

definition frame_or_align_flags :: "frame \<Rightarrow> u32 \<Rightarrow> frame" where
  "frame_or_align_flags f flag_mask = f\<lparr>align_flags := align_flags f OR flag_mask\<rparr>"

definition frame_defined :: "frame \<Rightarrow> bool" where
  "frame_defined f \<longleftrightarrow> link_mtu f > 0"

definition alloc_buf_sock_tun :: "frame \<Rightarrow> bool \<Rightarrow> u32 \<Rightarrow> buffer exec" where
  "alloc_buf_sock_tun f tuntap_buffer align_mask = (do {
     buf \<leftarrow> alloc_buf (BUF_SIZE f);
     let (ok, buf) = buf_init buf (FRAME_HEADROOM_ADJ f align_mask);
     assert_c ok;
     let buf = buf\<lparr>b_len := if tuntap_buffer then MAX_RW_SIZE_TUN f else MAX_RW_SIZE_LINK f\<rparr>;
     assert_c (buf_safe buf 0);
     Some buf })"

definition frame_finalize :: "frame \<Rightarrow> bool \<Rightarrow> int \<Rightarrow> bool \<Rightarrow> int \<Rightarrow> frame exec" where
  "frame_finalize f link_mtu_defined link_mtu' tun_mtu_defined tun_mtu = (do {
     f \<leftarrow> (if tun_mtu_defined then do {
              assert_c (\<not> link_mtu_defined);
              Some (f\<lparr>link_mtu := tun_mtu + TUN_LINK_DELTA f\<rparr>) }
            else do {
              assert_c link_mtu_defined;
              Some (f\<lparr>link_mtu := link_mtu'\<rparr>) });
     if TUN_MTU_SIZE f < TUN_MTU_MIN then None
     else Some (f\<lparr>link_mtu_dynamic := link_mtu f\<rparr>) })"

definition SET_MTU_TUN :: u32 where
  "SET_MTU_TUN = 1"

definition SET_MTU_UPPER_BOUND :: u32 where
  "SET_MTU_UPPER_BOUND = 2"

definition frame_set_mtu_dynamic :: "frame \<Rightarrow> int \<Rightarrow> u32 \<Rightarrow> frame exec" where
  "frame_set_mtu_dynamic f mtu flags = (do {
     assert_c (mtu \<ge> 0);
     let mtu = (if flags AND SET_MTU_TUN \<noteq> 0 then mtu + TUN_LINK_DELTA f else mtu);
     Some (if flags AND SET_MTU_UPPER_BOUND = 0 \<or> mtu < link_mtu_dynamic f
           then f\<lparr>link_mtu_dynamic := constrain_int mtu (EXPANDED_SIZE_MIN f) (EXPANDED_SIZE f)\<rparr>
           else f) })"

definition frame_subtract_extra :: "frame \<Rightarrow> frame \<Rightarrow> frame" where
  "frame_subtract_extra f src =
     f\<lparr>extra_frame := extra_frame f - extra_frame src, extra_tun := extra_tun f + extra_frame src\<rparr>"

definition frame_init_mssfix :: "frame \<Rightarrow> int \<Rightarrow> frame exec" where
  "frame_init_mssfix f mssfix =
     (if mssfix \<noteq> 0 then frame_set_mtu_dynamic f mssfix SET_MTU_UPPER_BOUND else Some f)"

subsection \<open>Well-formed geometry\<close>

text \<open>
  A frame as \<^verbatim>\<open>frame_finalize\<close> leaves it: no overhead is negative, the tun MTU is at least the minimum
  and the dynamic MTU lies between its bounds. \<^verbatim>\<open>init.c\<close> adds \<^const>\<open>PAYLOAD_ALIGN\<close> to
  \<open>extra_buffer\<close> before it allocates buffers.
\<close>

definition frame_ok :: "frame \<Rightarrow> bool" where
  "frame_ok f \<longleftrightarrow>
     0 \<le> extra_frame f \<and> 0 \<le> extra_tun f \<and> 0 \<le> extra_link f \<and> PAYLOAD_ALIGN \<le> extra_buffer f
     \<and> EXPANDED_SIZE_MIN f \<le> link_mtu_dynamic f \<and> link_mtu_dynamic f \<le> link_mtu f
     \<and> BUF_SIZE f < BUF_SIZE_MAX"

lemmas frame_defs =
  TUN_LINK_DELTA_def TUN_MTU_SIZE_def PAYLOAD_SIZE_def PAYLOAD_SIZE_DYNAMIC_def EXPANDED_SIZE_def
  EXPANDED_SIZE_MIN_def MAX_RW_SIZE_TUN_def MAX_RW_SIZE_LINK_def FRAME_HEADROOM_BASE_def BUF_SIZE_def
  TUN_MTU_MIN_def PAYLOAD_ALIGN_def

lemma mask_2: "u AND 3 = u mod (4 :: int)"
  using take_bit_eq_mask [of 2 u] by (simp add: take_bit_eq_mod mask_eq_exp_minus_1)

lemma frame_headroom_bounds:
  "FRAME_HEADROOM_BASE f \<le> frame_headroom f m" "frame_headroom f m < FRAME_HEADROOM_BASE f + 4"
  by (simp_all add: frame_headroom_def Let_def PAYLOAD_ALIGN_def mask_2)

lemma frame_ok_finalize:
  assumes "frame_finalize f ld l td t = Some f'"
    and "0 \<le> extra_frame f" "0 \<le> extra_tun f" "0 \<le> extra_link f" "PAYLOAD_ALIGN \<le> extra_buffer f"
    and "BUF_SIZE f' < BUF_SIZE_MAX"
  shows "frame_ok f'"
  using assms by (auto simp: frame_finalize_def frame_ok_def frame_defs split: if_splits)

text \<open>A buffer for the fragmenting code, with room for a packet of the largest size behind the headroom.\<close>

lemma frame_ok_room:
  assumes "frame_ok f"
  shows "0 \<le> frame_headroom f m" "frame_headroom f m + link_mtu f + extra_link f \<le> BUF_SIZE f"
    "0 \<le> BUF_SIZE f" "BUF_SIZE f < BUF_SIZE_MAX" "100 \<le> PAYLOAD_SIZE_DYNAMIC f"
    "PAYLOAD_SIZE_DYNAMIC f \<le> PAYLOAD_SIZE f"
    "extra_frame f \<le> frame_headroom f m" "100 \<le> TUN_MTU_SIZE f"
  using assms frame_headroom_bounds [of f m] by (auto simp: frame_ok_def frame_defs)

text \<open>the headroom starts the payload at a multiple of four bytes, counting the adjustment that applies
  to the caller, and exceeds the space the processing steps may prepend by at most three bytes.\<close>

theorem frame_headroom_aligned:
  "(frame_headroom f m + (if m AND align_flags f \<noteq> 0 then align_adjust f else 0)) mod PAYLOAD_ALIGN = 0
   \<and> FRAME_HEADROOM_BASE f \<le> frame_headroom f m \<and> frame_headroom f m \<le> FRAME_HEADROOM_BASE f + 3"
proof -
  define a where "a = FRAME_HEADROOM_BASE f + (if m AND align_flags f \<noteq> 0 then align_adjust f else 0)"
  have "(a + (67108864 - a) mod 4) mod 4 = (67108864 :: int) mod 4"
    by (simp add: mod_add_right_eq)
  then have "(a + (67108864 - a) mod 4) mod 4 = 0" by simp
  moreover have "frame_headroom f m = FRAME_HEADROOM_BASE f + (67108864 - a) mod 4"
    by (simp add: frame_headroom_def Let_def PAYLOAD_ALIGN_def mask_2 a_def)
  ultimately show ?thesis
    using frame_headroom_bounds [of f m] by (simp add: PAYLOAD_ALIGN_def a_def algebra_simps)
qed

text \<open>Neither assertion of \<^verbatim>\<open>alloc_buf_sock_tun\<close> fails on well-formed geometry: the buffer is well
  formed and its window has the full read size, whichever device it is for.\<close>

lemma alloc_sock_tun_law:
  assumes "frame_ok f"
  shows "\<exists>buf. alloc_buf_sock_tun f tuntap m = Some buf \<and> buf_ok buf \<and> b_capacity buf = BUF_SIZE f
           \<and> b_offset buf = frame_headroom f m
           \<and> b_len buf = (if tuntap then MAX_RW_SIZE_TUN f else MAX_RW_SIZE_LINK f)"
proof -
  note room = frame_ok_room(1,2) [OF assms, of m] frame_ok_room(3,4) [OF assms]
  have fits: "0 \<le> l \<and> frame_headroom f m + l \<le> BUF_SIZE f"
    if "l = (if tuntap then MAX_RW_SIZE_TUN f else MAX_RW_SIZE_LINK f)" for l
    using that room assms by (auto simp: frame_ok_def frame_defs)
  from room have alloc: "alloc_buf (BUF_SIZE f) = Some \<lparr>b_capacity = BUF_SIZE f, b_offset = 0, b_len = 0,
      b_data = Some (replicate (nat (BUF_SIZE f)) 0)\<rparr>"
    by (simp add: alloc_buf_def BUF_SIZE_MAX_def)
  have le: "frame_headroom f m \<le> BUF_SIZE f" using fits [OF refl] by linarith
  show ?thesis
    using room fits [OF refl] le
    by (auto simp: alloc_buf_sock_tun_def alloc buf_init_def FRAME_HEADROOM_ADJ_def buf_safe_def
        buf_valid_def BUF_SIZE_MAX_def intro!: buf_okI)
qed

definition demo_frame :: frame where
  "demo_frame = \<lparr>link_mtu = 1544, link_mtu_dynamic = 1400, extra_frame = 44, extra_buffer = 4,
     extra_tun = 0, extra_link = 2, align_flags = 1, align_adjust = 2\<rparr>"

lemma demo_frame_ok: "frame_ok demo_frame"
  by (simp add: frame_ok_def frame_defs demo_frame_def BUF_SIZE_MAX_def)

text \<open>changing the dynamic MTU keeps the geometry well formed, aborts exactly on a negative MTU, and
  with the upper-bound flag never raises the MTU.\<close>

theorem frame_set_mtu_dynamic_bounded:
  assumes "frame_ok f"
  shows "case frame_set_mtu_dynamic f mtu flags of
           None \<Rightarrow> mtu < 0
         | Some f' \<Rightarrow> 0 \<le> mtu \<and> frame_ok f'
             \<and> (flags AND SET_MTU_UPPER_BOUND \<noteq> 0 \<longrightarrow> link_mtu_dynamic f' \<le> link_mtu_dynamic f)"
  using assms
  by (auto simp: frame_set_mtu_dynamic_def Let_def frame_ok_def frame_defs constrain_int_def assert_c_def)

theorem frame_set_mtu_dynamic_bounded_witness:
  "map_option link_mtu_dynamic (frame_set_mtu_dynamic demo_frame 50 SET_MTU_UPPER_BOUND) = Some 144
   \<and> (case frame_set_mtu_dynamic demo_frame 50 SET_MTU_UPPER_BOUND of
        None \<Rightarrow> False | Some f' \<Rightarrow> frame_ok f')"
  using frame_set_mtu_dynamic_bounded [OF demo_frame_ok, of 50 SET_MTU_UPPER_BOUND]
  by (auto simp: frame_set_mtu_dynamic_def Let_def demo_frame_def frame_defs constrain_int_def
      SET_MTU_UPPER_BOUND_def SET_MTU_TUN_def split: option.splits)

end
