(* ===== verification/Fragment.thy ===== *)
theory Fragment
  imports Timers Frame
begin

section \<open>Fragmentation of datagrams (fragment.h, fragment.c)\<close>

text \<open>
  A datagram that exceeds the dynamic MTU is sent as up to 32 fragments, each with a 32-bit header;
  the peer reassembles them in a window of \<^verbatim>\<open>N_FRAG_BUF\<close> reassembly buffers indexed by an 8-bit sequence
  number. The definitions follow \<^verbatim>\<open>fragment.c\<close>; a fragment buffer is returned as its index in
  \<^verbatim>\<open>fragments\<close>. \<^verbatim>\<open>now\<close> and the random number are arguments. \<^verbatim>\<open>FRAG_ERR\<close> logs and drops the packet:
  the message is part of the result.
\<close>

definition N_FRAG_BUF :: int where
  "N_FRAG_BUF = 25"

definition FRAG_TTL_SEC :: int where
  "FRAG_TTL_SEC = 10"

definition FRAG_WAKEUP_INTERVAL :: int where
  "FRAG_WAKEUP_INTERVAL = 5"

definition FRAG_MAP_MASK :: u32 where
  "FRAG_MAP_MASK = 0xFFFFFFFF"

definition MAX_FRAGS :: int where
  "MAX_FRAGS = 32"

definition N_SEQ_ID :: int where
  "N_SEQ_ID = 256"

definition FRAG_TYPE_MASK :: u32 where "FRAG_TYPE_MASK = 0x3"
definition FRAG_TYPE_SHIFT :: nat where "FRAG_TYPE_SHIFT = 0"

definition FRAG_WHOLE :: int where "FRAG_WHOLE = 0"
definition FRAG_YES_NOTLAST :: int where "FRAG_YES_NOTLAST = 1"
definition FRAG_YES_LAST :: int where "FRAG_YES_LAST = 2"
definition FRAG_TEST :: int where "FRAG_TEST = 3"

definition FRAG_SEQ_ID_MASK :: u32 where "FRAG_SEQ_ID_MASK = 0xff"
definition FRAG_SEQ_ID_SHIFT :: nat where "FRAG_SEQ_ID_SHIFT = 2"

definition FRAG_ID_MASK :: u32 where "FRAG_ID_MASK = 0x1f"
definition FRAG_ID_SHIFT :: nat where "FRAG_ID_SHIFT = 10"

definition FRAG_SIZE_MASK :: u32 where "FRAG_SIZE_MASK = 0x3fff"
definition FRAG_SIZE_SHIFT :: nat where "FRAG_SIZE_SHIFT = 15"
definition FRAG_SIZE_ROUND_SHIFT :: nat where "FRAG_SIZE_ROUND_SHIFT = 2"
definition FRAG_SIZE_ROUND_MASK :: int where "FRAG_SIZE_ROUND_MASK = push_bit FRAG_SIZE_ROUND_SHIFT 1 - 1"

record fragment =
  fr_defined :: bool
  max_frag_size :: int
  fr_map :: u32
  fr_timestamp :: int
  fr_buf :: buffer

record fragment_list =
  fl_seq_id :: int
  fl_index :: int
  fl_fragments :: "fragment list"

record fragment_master =
  fm_wakeup :: event_timeout
  received_os_mtu_hint :: bool
  outgoing_seq_id :: int
  outgoing_frag_size :: int
  outgoing_frag_id :: int
  outgoing :: buffer
  outgoing_return :: buffer
  incoming :: fragment_list

datatype frag_error =
    FlagsNotFound
  | SpuriousWhole
  | BadFragmentSize
  | FragmentBufferOverflow
  | FragTestNotImplemented
  | UnknownFragmentType
  | TooManyFragments

subsection \<open>The reassembly window\<close>

fun fragment_list_slide :: "nat \<Rightarrow> fragment_list \<Rightarrow> fragment_list exec" where
  "fragment_list_slide 0 l = Some l"
| "fragment_list_slide (Suc diff) l = (do {
     i \<leftarrow> modulo_add (fl_index l) 1 N_FRAG_BUF;
     s \<leftarrow> modulo_add (fl_seq_id l) 1 N_SEQ_ID;
     fragment_list_slide diff
       (l\<lparr>fl_index := i, fl_seq_id := s,
          fl_fragments := (fl_fragments l)[nat i := (fl_fragments l ! nat i)\<lparr>fr_defined := False\<rparr>]\<rparr>) })"

definition fragment_list_get_buf :: "fragment_list \<Rightarrow> int \<Rightarrow> (int \<times> fragment_list) exec" where
  "fragment_list_get_buf l seq_id = (do {
     diff \<leftarrow> modulo_subtract seq_id (fl_seq_id l) N_SEQ_ID;
     let (diff, l) =
       (if \<bar>diff\<bar> \<ge> N_FRAG_BUF
        then (0, l\<lparr>fl_fragments := map (\<lambda>fr. fr\<lparr>fr_defined := False\<rparr>) (fl_fragments l),
                   fl_index := 0, fl_seq_id := seq_id\<rparr>)
        else (diff, l));
     l \<leftarrow> fragment_list_slide (nat diff) l;
     i \<leftarrow> modulo_add (fl_index l) (if diff > 0 then 0 else diff) N_FRAG_BUF;
     Some (i, l) })"

subsection \<open>Initialisation\<close>

definition clear_fragment :: fragment where
  "clear_fragment =
     \<lparr>fr_defined = False, max_frag_size = 0, fr_map = 0, fr_timestamp = 0, fr_buf = clear_buf\<rparr>"

definition fragment_init :: "int \<Rightarrow> int \<Rightarrow> frame \<Rightarrow> fragment_master \<times> frame" where
  "fragment_init t random f =
     (\<lparr>fm_wakeup = event_timeout_init FRAG_WAKEUP_INTERVAL t, received_os_mtu_hint = False,
       outgoing_seq_id = c_int random AND (N_SEQ_ID - 1), outgoing_frag_size = 0, outgoing_frag_id = 0,
       outgoing = clear_buf, outgoing_return = clear_buf,
       incoming = \<lparr>fl_seq_id = 0, fl_index = 0,
                   fl_fragments = replicate (nat N_FRAG_BUF) clear_fragment\<rparr>\<rparr>,
      frame_add_to_extra_frame f 4)"

fun fragment_bufs_init :: "frame \<Rightarrow> fragment list \<Rightarrow> fragment list exec" where
  "fragment_bufs_init f [] = Some []"
| "fragment_bufs_init f (fr # frs) = (do {
     b \<leftarrow> alloc_buf (BUF_SIZE f);
     frs' \<leftarrow> fragment_bufs_init f frs;
     Some (fr\<lparr>fr_buf := b\<rparr> # frs') })"

definition fragment_list_buf_init :: "fragment_list \<Rightarrow> frame \<Rightarrow> fragment_list exec" where
  "fragment_list_buf_init l f = (do {
     frs \<leftarrow> fragment_bufs_init f (fl_fragments l);
     Some (l\<lparr>fl_fragments := frs\<rparr>) })"

definition fragment_list_buf_free :: "fragment_list \<Rightarrow> fragment_list" where
  "fragment_list_buf_free l =
     l\<lparr>fl_fragments := map (\<lambda>fr. fr\<lparr>fr_buf := free_buf (fr_buf fr)\<rparr>) (fl_fragments l)\<rparr>"

definition fragment_frame_init :: "fragment_master \<Rightarrow> frame \<Rightarrow> fragment_master exec" where
  "fragment_frame_init f fr = (do {
     l \<leftarrow> fragment_list_buf_init (incoming f) fr;
     o1 \<leftarrow> alloc_buf (BUF_SIZE fr);
     o2 \<leftarrow> alloc_buf (BUF_SIZE fr);
     Some (f\<lparr>incoming := l, outgoing := o1, outgoing_return := o2\<rparr>) })"

subsection \<open>Receiving\<close>

text \<open>
  The result is the state, the buffer handed to the caller and the logged error. \<^verbatim>\<open>*buf = frag->buf\<close> makes
  the caller's buffer share the block of the reassembly buffer, which is not used again before
  \<^verbatim>\<open>buf_init\<close> has emptied it.
\<close>

definition fragment_prepare :: "frame \<Rightarrow> fragment \<Rightarrow> int \<Rightarrow> fragment exec" where
  "fragment_prepare fm frag sz =
     (if \<not> fr_defined frag \<or> max_frag_size frag \<noteq> sz then do {
        let (ok, b) = buf_init (fr_buf frag) (FRAME_HEADROOM_ADJ fm FRAME_HEADROOM_MARKER_FRAGMENT);
        assert_c ok;
        Some (frag\<lparr>fr_defined := True, max_frag_size := sz, fr_map := 0, fr_buf := b\<rparr>) }
      else Some frag)"

definition fragment_accept ::
  "int \<Rightarrow> frame \<Rightarrow> fragment \<Rightarrow> buffer \<Rightarrow> int \<Rightarrow> int \<Rightarrow> int
   \<Rightarrow> (fragment \<times> buffer \<times> frag_error option) exec" where
  "fragment_accept t fm frag buf frag_type n sz =
     (if sz AND FRAG_SIZE_ROUND_MASK \<noteq> 0
      then Some (frag, buf\<lparr>b_len := 0\<rparr>, Some BadFragmentSize)
      else do {
        frag \<leftarrow> fragment_prepare fm frag sz;
        let (ok, b) = buf_copy_range (fr_buf frag) (n * sz) buf 0 (b_len buf);
        let frag = frag\<lparr>fr_buf := b\<rparr>;
        if \<not> ok then Some (frag, buf\<lparr>b_len := 0\<rparr>, Some FragmentBufferOverflow)
        else do {
          let frag = frag\<lparr>fr_map := fr_map frag OR
                             push_bit (nat n) (if frag_type = FRAG_YES_LAST then FRAG_MAP_MASK else 1),
                          fr_timestamp := t\<rparr>;
          Some (if fr_map frag AND FRAG_MAP_MASK = FRAG_MAP_MASK
                then (frag\<lparr>fr_defined := False\<rparr>, fr_buf frag, None)
                else (frag, buf\<lparr>b_len := 0\<rparr>, None)) } })"

definition fragment_reassemble ::
  "int \<Rightarrow> frame \<Rightarrow> fragment_master \<Rightarrow> buffer \<Rightarrow> u32 \<Rightarrow> int
   \<Rightarrow> (fragment_master \<times> buffer \<times> frag_error option) exec" where
  "fragment_reassemble t fm f buf flags frag_type = (do {
     let seq_id = uint (drop_bit FRAG_SEQ_ID_SHIFT flags AND FRAG_SEQ_ID_MASK);
     let n = uint (drop_bit FRAG_ID_SHIFT flags AND FRAG_ID_MASK);
     let sz = (if frag_type = FRAG_YES_LAST
               then c_int (uint (push_bit FRAG_SIZE_ROUND_SHIFT
                             (drop_bit FRAG_SIZE_SHIFT flags AND FRAG_SIZE_MASK)))
               else b_len buf);
     (i, l) \<leftarrow> fragment_list_get_buf (incoming f) seq_id;
     (frag, buf, e) \<leftarrow> fragment_accept t fm (fl_fragments l ! nat i) buf frag_type n sz;
     Some (f\<lparr>incoming := l\<lparr>fl_fragments := (fl_fragments l)[nat i := frag]\<rparr>\<rparr>, buf, e) })"

definition fragment_incoming ::
  "int \<Rightarrow> frame \<Rightarrow> fragment_master \<Rightarrow> buffer
   \<Rightarrow> (fragment_master \<times> buffer \<times> frag_error option) exec" where
  "fragment_incoming t fm f buf =
     (if b_len buf > 0 then
        case buf_read buf 4 of
          (None, buf) \<Rightarrow> Some (f, buf\<lparr>b_len := 0\<rparr>, Some FlagsNotFound)
        | (Some bs, buf) \<Rightarrow>
            let flags = bytes_u32 bs;
                frag_type = uint (drop_bit FRAG_TYPE_SHIFT flags AND FRAG_TYPE_MASK)
            in if frag_type = FRAG_WHOLE then
                 (if flags AND (FRAG_SEQ_ID_MASK OR FRAG_ID_MASK) \<noteq> 0
                  then Some (f, buf\<lparr>b_len := 0\<rparr>, Some SpuriousWhole)
                  else Some (f, buf, None))
               else if frag_type = FRAG_YES_NOTLAST \<or> frag_type = FRAG_YES_LAST then
                 fragment_reassemble t fm f buf flags frag_type
               else if frag_type = FRAG_TEST
               then Some (f, buf\<lparr>b_len := 0\<rparr>, Some FragTestNotImplemented)
               else Some (f, buf\<lparr>b_len := 0\<rparr>, Some UnknownFragmentType)
      else Some (f, buf, None))"

subsection \<open>Sending\<close>

definition fragment_flags :: "int \<Rightarrow> int \<Rightarrow> int \<Rightarrow> int \<Rightarrow> u32" where
  "fragment_flags type seq_id frag_id frag_size =
     (let flags = push_bit FRAG_TYPE_SHIFT (word_of_int type AND FRAG_TYPE_MASK)
                  OR push_bit FRAG_SEQ_ID_SHIFT (word_of_int seq_id AND FRAG_SEQ_ID_MASK)
                  OR push_bit FRAG_ID_SHIFT (word_of_int frag_id AND FRAG_ID_MASK)
      in if type = FRAG_WHOLE \<or> type = FRAG_YES_NOTLAST then flags
         else flags OR push_bit FRAG_SIZE_SHIFT
                         (word_of_int (drop_bit FRAG_SIZE_ROUND_SHIFT frag_size) AND FRAG_SIZE_MASK))"

definition fragment_prepend_flags :: "buffer \<Rightarrow> int \<Rightarrow> int \<Rightarrow> int \<Rightarrow> int \<Rightarrow> buffer exec" where
  "fragment_prepend_flags buf type seq_id frag_id frag_size = (do {
     let (ok, buf) = buf_write_prepend buf (u32_bytes (fragment_flags type seq_id frag_id frag_size)) 4;
     assert_c ok;
     Some buf })"

text \<open>A division by zero ends the process.\<close>

definition optimal_fragment_size :: "int \<Rightarrow> int \<Rightarrow> int exec" where
  "optimal_fragment_size len max_size = (do {
     let mfs_aligned = max_size AND NOT FRAG_SIZE_ROUND_MASK;
     assert_c (mfs_aligned \<noteq> 0);
     let d = c_div len mfs_aligned;
     let md = c_mod len mfs_aligned;
     Some (if d > 0 \<and> md > 0 \<and> md < c_div (mfs_aligned * 3) 4
           then min_int mfs_aligned
                  ((max_size - c_div (max_size - md) (d + 1) + FRAG_SIZE_ROUND_MASK)
                   AND NOT FRAG_SIZE_ROUND_MASK)
           else mfs_aligned) })"

definition fragment_outgoing_defined :: "fragment_master \<Rightarrow> bool" where
  "fragment_outgoing_defined f \<longleftrightarrow> b_len (outgoing f) > 0"

text \<open>
  \<^verbatim>\<open>*buf = f->outgoing_return\<close> shares the block of \<^verbatim>\<open>outgoing_return\<close>: after the call that block holds what
  was written through \<^verbatim>\<open>buf\<close>.
\<close>

definition fragment_ready_to_send ::
  "fragment_master \<Rightarrow> buffer \<Rightarrow> frame \<Rightarrow> (bool \<times> fragment_master \<times> buffer) exec" where
  "fragment_ready_to_send f buf fm =
     (if fragment_outgoing_defined f then do {
        let last = (b_len (outgoing f) \<le> outgoing_frag_size f);
        let size = (if last then b_len (outgoing f) else outgoing_frag_size f);
        let (ok, buf) = buf_init (outgoing_return f) (FRAME_HEADROOM fm);
        assert_c ok;
        let (ok, buf, out) = buf_copy_n buf (outgoing f) size;
        assert_c ok;
        buf \<leftarrow> fragment_prepend_flags buf (if last then FRAG_YES_LAST else FRAG_YES_NOTLAST)
                 (outgoing_seq_id f) (outgoing_frag_id f) (outgoing_frag_size f);
        assert_c (\<not> last \<or> b_len out = 0);
        Some (True,
          f\<lparr>outgoing := out, outgoing_frag_id := outgoing_frag_id f + 1,
            outgoing_return := (outgoing_return f)\<lparr>b_data := b_data buf\<rparr>\<rparr>, buf) }
      else Some (False, f, buf))"

definition fragment_outgoing ::
  "fragment_master \<Rightarrow> buffer \<Rightarrow> frame \<Rightarrow> (fragment_master \<times> buffer \<times> frag_error option) exec" where
  "fragment_outgoing f buf fm =
     (if b_len buf > 0 then
        if b_len buf > PAYLOAD_SIZE_DYNAMIC fm then do {
          sz \<leftarrow> optimal_fragment_size (b_len buf) (PAYLOAD_SIZE_DYNAMIC fm);
          let f = f\<lparr>outgoing_frag_size := sz\<rparr>;
          if b_len buf > outgoing_frag_size f * MAX_FRAGS
          then Some (f, buf\<lparr>b_len := 0\<rparr>, Some TooManyFragments)
          else do {
            let (ok, out) = buf_init (outgoing f) (FRAME_HEADROOM fm);
            assert_c ok;
            let (ok, out) = buf_copy out buf;
            assert_c ok;
            s \<leftarrow> modulo_add (outgoing_seq_id f) 1 N_SEQ_ID;
            let f = f\<lparr>outgoing := out, outgoing_seq_id := s, outgoing_frag_id := 0\<rparr>;
            (ready, f, buf) \<leftarrow> fragment_ready_to_send f (buf\<lparr>b_len := 0\<rparr>) fm;
            assert_c ready;
            Some (f, buf, None) } }
        else do {
          buf \<leftarrow> fragment_prepend_flags buf FRAG_WHOLE 0 0 0;
          Some (f, buf, None) }
      else Some (f, buf, None))"

subsection \<open>Housekeeping\<close>

definition fragment_ttl_reap :: "int \<Rightarrow> fragment_master \<Rightarrow> fragment_master" where
  "fragment_ttl_reap t f =
     f\<lparr>incoming := (incoming f)\<lparr>fl_fragments :=
        map (\<lambda>fr. if fr_defined fr \<and> fr_timestamp fr + FRAG_TTL_SEC \<le> t
                  then fr\<lparr>fr_defined := False\<rparr> else fr) (fl_fragments (incoming f))\<rparr>\<rparr>"

definition fragment_wakeup :: "int \<Rightarrow> fragment_master \<Rightarrow> fragment_master" where
  "fragment_wakeup t f = fragment_ttl_reap t f"

definition fragment_housekeeping ::
  "int \<Rightarrow> fragment_master \<Rightarrow> timeval \<Rightarrow> fragment_master \<times> timeval" where
  "fragment_housekeeping t f tv =
     (case event_timeout_trigger t (fm_wakeup f) (Some tv) ETT_DEFAULT of
        (fired, et, tv') \<Rightarrow>
          (let f' = f\<lparr>fm_wakeup := et\<rparr> in (if fired then fragment_wakeup t f' else f', the tv')))"

end
