(* ===== verification/Fragment_Send.thy ===== *)
theory Fragment_Send
  imports Fragment
begin

section \<open>Sending a datagram in fragments\<close>

text \<open>
  What \<^verbatim>\<open>fragment_outgoing\<close> and the following calls of \<^verbatim>\<open>fragment_ready_to_send\<close> put on the wire: the
  datagram cut into chunks of \<^verbatim>\<open>optimal_fragment_size\<close> bytes, each behind a header with the sequence
  number, its position, and, in the last one, the chunk size.
\<close>

subsection \<open>The size of the fragments\<close>

lemma and_not_3: "x AND - 4 = 4 * (x div 4)" for x :: int
proof -
  have "x AND NOT (mask 2) = push_bit 2 (drop_bit 2 x)"
    by (rule bit_eqI) (auto simp: bit_simps le_add_diff_inverse simp del: add_2_eq_Suc)
  then show ?thesis by (simp add: mask_eq_exp_minus_1 push_bit_eq_mult drop_bit_eq_div)
qed

lemma FRAG_SIZE_ROUND_MASK_3: "FRAG_SIZE_ROUND_MASK = 3"
  by (simp add: FRAG_SIZE_ROUND_MASK_def FRAG_SIZE_ROUND_SHIFT_def push_bit_eq_mult)

lemma ceil_div_unique:
  fixes s :: int
  assumes "0 < s" "q * s < len" "len \<le> (q + 1) * s"
  shows "(len + s - 1) div s = q + 1"
proof -
  have "(len + s - 1) div s = (len - 1 - q * s + (q + 1) * s) div s" by (simp add: algebra_simps)
  also have "\<dots> = (q + 1) + (len - 1 - q * s) div s" using assms(1) by simp
  also have "(len - 1 - q * s) div s = 0" using assms by (simp add: algebra_simps)
  finally show ?thesis by simp
qed

text \<open>The rounded fragment size of the balancing branch still covers the datagram with one more fragment
  than full ones.\<close>

lemma balanced_covers:
  fixes d m mx a :: int
  assumes "0 \<le> d" "m \<le> mx" "a \<le> mx" "len = d * a + m"
  shows "len \<le> (d + 1) * (4 * ((mx - (mx - m) div (d + 1) + 3) div 4))"
proof -
  let ?e = "mx - (mx - m) div (d + 1)"
  have "(d + 1) * ((mx - m) div (d + 1)) \<le> mx - m" using assms(1) by (simp add: minus_mod_eq_mult_div [symmetric])
  then have "d * mx + m \<le> (d + 1) * ?e" by (simp add: algebra_simps)
  moreover have "d * a \<le> d * mx" using assms by (simp add: mult_left_mono)
  moreover have "e \<le> 4 * ((e + 3) div 4)" for e :: int by presburger
  then have "(d + 1) * ?e \<le> (d + 1) * (4 * ((?e + 3) div 4))" using assms by (simp add: mult_left_mono)
  ultimately show ?thesis using assms(4) by linarith
qed

lemma optimal_fragment_size_law:
  assumes "4 \<le> mx" "mx < len"
  shows "\<exists>sz. optimal_fragment_size len mx = Some sz \<and> 0 < sz \<and> sz \<le> mx \<and> sz mod 4 = 0
           \<and> (len + sz - 1) div sz = (len + 4 * (mx div 4) - 1) div (4 * (mx div 4))"
proof -
  define a where "a = 4 * (mx div 4)"
  define d where "d = len div a"
  define m where "m = len mod a"
  have a: "0 < a" "a \<le> mx" "a mod 4 = 0" using assms(1) by (auto simp: a_def)
  have len: "len = d * a + m" "0 \<le> m" "m < a" "0 \<le> d"
    using a assms by (simp_all add: d_def m_def pos_imp_zdiv_nonneg_iff)
  define r where "r = 4 * ((mx - (mx - m) div (d + 1) + 3) div 4)"
  have divs: "c_div len a = d" "c_mod len a = m" "c_div (a * 3) 4 = a * 3 div 4"
    "c_div (mx - m) (d + 1) = (mx - m) div (d + 1)"
    using a assms len(2-4) by (simp_all add: c_div_nonneg c_mod_nonneg d_def m_def)
  have opt: "optimal_fragment_size len mx =
      Some (if d > 0 \<and> m > 0 \<and> m < a * 3 div 4 then min a r else a)"
    using a(1)
    by (simp add: optimal_fragment_size_def FRAG_SIZE_ROUND_MASK_3 and_not_3 a_def [symmetric] divs r_def)
  show ?thesis
  proof (cases "d > 0 \<and> m > 0 \<and> m < a * 3 div 4")
    case True
    have "(mx - m) div (d + 1) \<le> (mx - m) div 1"
      using True len a by (intro zdiv_mono2) auto
    then have r: "0 < r" "r mod 4 = 0" using True by (auto simp: r_def)
    have "len \<le> (d + 1) * r" unfolding r_def using len a by (intro balanced_covers) auto
    moreover have "len \<le> (d + 1) * a" using len by (simp add: algebra_simps)
    ultimately have hi: "len \<le> (d + 1) * min a r" by (simp add: min_def)
    have "d * min a r \<le> d * a" using len by (simp add: mult_left_mono)
    then have lo: "d * min a r < len" using len True by linarith
    have "d * a < len" using len True by linarith
    with a hi lo r \<open>len \<le> (d + 1) * a\<close>
    have "(len + min a r - 1) div min a r = (len + a - 1) div a"
      by (subst (1 2) ceil_div_unique [where q = d]) auto
    with a r True opt show ?thesis by (auto simp: a_def [symmetric] min_def split: if_splits)
  next
    case False
    with a opt show ?thesis by (auto simp: a_def [symmetric])
  qed
qed

text \<open>\<^verbatim>\<open>optimal_fragment_size\<close> returns a positive multiple of four that does not exceed the maximum it
  is given, and, as its comment says, the number of fragments stays what it would be with the aligned
  maximum.\<close>

theorem optimal_fragment_size_keeps_count:
  assumes "4 \<le> mx" "mx < len"
  shows "\<exists>sz. optimal_fragment_size len mx = Some sz \<and> 0 < sz \<and> sz \<le> mx \<and> sz mod 4 = 0
           \<and> (len + sz - 1) div sz = (len + 4 * (mx div 4) - 1) div (4 * (mx div 4))"
  using assms by (rule optimal_fragment_size_law)

theorem optimal_fragment_size_keeps_count_witness:
  "optimal_fragment_size 1600 1300 = Some 800"
  using optimal_fragment_size_keeps_count [of 1300 1600]
  by (auto simp: optimal_fragment_size_def FRAG_SIZE_ROUND_MASK_3 and_not_3 c_div_def c_mod_def)


subsection \<open>Chunks of a datagram\<close>

definition chunk :: "nat \<Rightarrow> byte list \<Rightarrow> nat \<Rightarrow> byte list" where
  "chunk sz dat n = take sz (drop (n * sz) dat)"

definition n_chunks :: "nat \<Rightarrow> byte list \<Rightarrow> nat" where
  "n_chunks sz dat = (length dat + sz - 1) div sz"

lemma n_chunks_iff: "0 < sz \<Longrightarrow> n < n_chunks sz dat \<longleftrightarrow> n * sz < length dat"
proof -
  assume "0 < sz"
  then have "n < n_chunks sz dat \<longleftrightarrow> (n + 1) * sz \<le> length dat + sz - 1"
    by (simp add: n_chunks_def Suc_le_eq [symmetric] less_eq_div_iff_mult_less_eq)
  with \<open>0 < sz\<close> show ?thesis by (auto simp: algebra_simps)
qed

lemma length_chunk: "length (chunk sz dat n) = min sz (length dat - n * sz)"
  by (simp add: chunk_def)

lemma last_chunk_iff:
  assumes "0 < sz" "n < n_chunks sz dat"
  shows "Suc n = n_chunks sz dat \<longleftrightarrow> length dat - n * sz \<le> sz"
  using assms n_chunks_iff [of sz "Suc n" dat] n_chunks_iff [of sz n dat] by auto

definition frag_header :: "int \<Rightarrow> nat \<Rightarrow> byte list \<Rightarrow> nat \<Rightarrow> u32" where
  "frag_header seq sz dat n =
     fragment_flags (if Suc n = n_chunks sz dat then FRAG_YES_LAST else FRAG_YES_NOTLAST) seq (int n) (int sz)"

definition frag_wire :: "int \<Rightarrow> nat \<Rightarrow> byte list \<Rightarrow> nat \<Rightarrow> byte list" where
  "frag_wire seq sz dat n = u32_bytes (frag_header seq sz dat n) @ chunk sz dat n"

subsection \<open>Draining the outgoing buffer\<close>

text \<open>
  The main loop calls \<^verbatim>\<open>fragment_ready_to_send\<close> whenever it can send until it returns \<^verbatim>\<open>false\<close>. The fuel
  bounds the number of calls; running out of it is \<^const>\<open>None\<close>.
\<close>

fun fragment_drain :: "nat \<Rightarrow> frame \<Rightarrow> fragment_master \<Rightarrow> (buffer list \<times> fragment_master) exec" where
  "fragment_drain 0 fm f = None"
| "fragment_drain (Suc k) fm f = (do {
     (ready, f, b) \<leftarrow> fragment_ready_to_send f clear_buf fm;
     if ready then do { (bs, f) \<leftarrow> fragment_drain k fm f; Some (b # bs, f) }
     else Some ([], f) })"

definition fragment_send ::
  "frame \<Rightarrow> fragment_master \<Rightarrow> buffer \<Rightarrow> (buffer list \<times> fragment_master \<times> frag_error option) exec" where
  "fragment_send fm f buf = (do {
     (f, b, e) \<leftarrow> fragment_outgoing f buf fm;
     (bs, f) \<leftarrow> fragment_drain (Suc (nat MAX_FRAGS)) fm f;
     Some (b # bs, f, e) })"

definition work_buf_ok :: "frame \<Rightarrow> buffer \<Rightarrow> bool" where
  "work_buf_ok fm b \<longleftrightarrow> buf_ok b \<and> buf_defined b \<and> b_capacity b = BUF_SIZE fm"

definition sender_ok :: "frame \<Rightarrow> fragment_master \<Rightarrow> bool" where
  "sender_ok fm f \<longleftrightarrow> work_buf_ok fm (outgoing f) \<and> work_buf_ok fm (outgoing_return f)
     \<and> 0 \<le> outgoing_seq_id f \<and> outgoing_seq_id f < N_SEQ_ID"

lemma work_buf_init:
  assumes "frame_ok fm" "work_buf_ok fm b"
  obtains b' where "buf_init b (frame_headroom fm m) = (True, b')" "work_buf_ok fm b'"
    "buf_content b' = []" "b_len b' = 0" "b_offset b' = frame_headroom fm m" "b_data b' = b_data b"
proof -
  obtain ok b' where i: "buf_init b (frame_headroom fm m) = (ok, b')" by fastforce
  have "ok" using buf_init_iff [of b "frame_headroom fm m"] i assms frame_ok_room(1,2) [OF assms(1), of m]
    by (auto simp: work_buf_ok_def frame_ok_def frame_defs)
  with i have i': "buf_init b (frame_headroom fm m) = (True, b')" by simp
  show thesis
    using buf_init_True [OF _ i'] assms(2) by (intro that [OF i']) (auto simp: work_buf_ok_def)
qed

lemma buf_forward_capacity_ok:
  "buf_ok b \<Longrightarrow> buf_defined b \<Longrightarrow> buf_forward_capacity b = b_capacity b - b_offset b - b_len b"
  by (cases rule: buf_ok_cases) (auto simp: buf_forward_capacity_def buf_defs)


lemma frame_ok_headroom_4: "frame_ok fm \<Longrightarrow> 4 \<le> frame_headroom fm m"
  using frame_headroom_bounds(1) [of fm m] by (auto simp: frame_ok_def frame_defs)

lemma fragment_prepend_flags_law:
  assumes "buf_ok b" "buf_defined b" "4 \<le> b_offset b"
  obtains b' where "fragment_prepend_flags b ty seq n sz = Some b'" "buf_ok b'"
    "buf_content b' = u32_bytes (fragment_flags ty seq n sz) @ buf_content b"
    "b_capacity b' = b_capacity b" "b_len b' = b_len b + 4" "buf_defined b'"
proof -
  let ?w = "u32_bytes (fragment_flags ty seq n sz)"
  obtain p b' where p: "buf_write_prepend b ?w 4 = (p, b')" by fastforce
  have "p" using buf_write_prepend_iff [OF assms(1), of ?w] p assms by auto
  with p have p: "buf_write_prepend b ?w 4 = (True, b')" by simp
  show thesis
    using buf_write_prepend_True [OF assms(1) p] p
    by (intro that [of b']) (auto simp: fragment_prepend_flags_def)
qed

text \<open>Moving the first \<open>size\<close> bytes of the outgoing buffer to the return buffer.\<close>

lemma fragment_move_chunk:
  assumes fm: "frame_ok fm" and ret: "work_buf_ok fm r0" and out: "work_buf_ok fm out"
    and size: "0 < (k :: int)" "k \<le> b_len out" "k \<le> link_mtu fm"
  obtains r r' out' where "buf_init r0 (frame_headroom fm 0) = (True, r)"
    "buf_copy_n r out k = (True, r', out')" "work_buf_ok fm out'" "buf_ok r'" "buf_defined r'"
    "b_offset r' = frame_headroom fm 0" "buf_content r' = take (nat k) (buf_content out)"
    "buf_content out' = drop (nat k) (buf_content out)" "b_len out' = b_len out - k"
    "b_capacity r' = BUF_SIZE fm"
proof -
  have out': "buf_ok out" "buf_defined out" "b_capacity out = BUF_SIZE fm"
    using out by (auto simp: work_buf_ok_def)
  obtain r where r: "buf_init r0 (frame_headroom fm 0) = (True, r)" "work_buf_ok fm r"
      "buf_content r = []" "b_len r = 0" "b_offset r = frame_headroom fm 0"
    using work_buf_init [OF fm ret, of 0] by blast
  then have rok: "buf_ok r" "buf_defined r" "b_capacity r = BUF_SIZE fm" by (auto simp: work_buf_ok_def)
  have fit: "k \<le> buf_forward_capacity r"
    using r rok fm size frame_ok_room(2) [OF fm, of 0]
    by (auto simp: buf_forward_capacity_ok frame_ok_def)
  obtain c r' out2 where c: "buf_copy_n r out k = (c, r', out2)" by (metis prod_cases3)
  have "c" using buf_copy_n_iff [OF rok(1) out'(1), of k] rok out' size fit c by auto
  with c have c: "buf_copy_n r out k = (True, r', out2)" by simp
  note copied = buf_copy_n_True [OF rok(1) out'(1) c]
  have "buf_defined r'" using copied(3,9)  r size by (intro buf_ok_len_defined) auto
  moreover have "buf_defined out2" using c out'(2)
    by (auto simp: buf_copy_n_def buf_defs split: if_splits prod.splits)
  ultimately show thesis
    using copied r rok out' by (intro that [OF r(1) c]) (auto simp: work_buf_ok_def)
qed

text \<open>Two buffers of the same capacity may share a block.\<close>

lemma work_buf_share:
  assumes "work_buf_ok fm a" "b_capacity r = BUF_SIZE fm" "buf_ok b" "b_capacity b = b_capacity r"
    "buf_defined b"
  shows "work_buf_ok fm (a\<lparr>b_data := b_data b\<rparr>)"
proof -
  have a: "buf_ok a" "buf_defined a" "b_capacity a = BUF_SIZE fm" using assms by (auto simp: work_buf_ok_def)
  from assms(3,5) obtain d where d: "b_data b = Some d" "b_capacity b = int (length d)"
    by (cases rule: buf_ok_cases) (auto simp: buf_defined_def)
  have "buf_ok (a\<lparr>b_data := b_data b\<rparr>)"
    using d assms(2,4) a buf_ok_bounds [OF a(1)] by (intro buf_okI) auto
  then show ?thesis using a d by (simp add: work_buf_ok_def buf_defined_def)
qed

lemma fragment_ready_law:
  assumes fm: "frame_ok fm" and ok: "sender_ok fm f" and len: "0 < b_len (outgoing f)"
    and sz: "0 < outgoing_frag_size f" "outgoing_frag_size f \<le> PAYLOAD_SIZE_DYNAMIC fm"
  obtains f' b where "fragment_ready_to_send f b0 fm = Some (True, f', b)" "sender_ok fm f'" "buf_ok b"
    "buf_content b =
       u32_bytes (fragment_flags (if b_len (outgoing f) \<le> outgoing_frag_size f then FRAG_YES_LAST
                                  else FRAG_YES_NOTLAST)
                    (outgoing_seq_id f) (outgoing_frag_id f) (outgoing_frag_size f))
       @ take (nat (outgoing_frag_size f)) (buf_content (outgoing f))"
    "buf_content (outgoing f') = drop (nat (outgoing_frag_size f)) (buf_content (outgoing f))"
    "outgoing_seq_id f' = outgoing_seq_id f" "outgoing_frag_id f' = outgoing_frag_id f + 1"
    "outgoing_frag_size f' = outgoing_frag_size f" "incoming f' = incoming f"
proof -
  let ?out = "outgoing f" and ?sz = "outgoing_frag_size f"
  define last where "last \<longleftrightarrow> b_len ?out \<le> ?sz"
  define size where "size = (if last then b_len ?out else ?sz)"
  have size: "0 < size" "size \<le> b_len ?out" "size \<le> ?sz" "size \<le> link_mtu fm"
    using len sz fm by (auto simp: size_def last_def frame_ok_def frame_defs)
  have bufs: "work_buf_ok fm (outgoing_return f)" "work_buf_ok fm ?out" using ok by (auto simp: sender_ok_def)
  obtain r r' out' where r: "buf_init (outgoing_return f) (frame_headroom fm 0) = (True, r)"
      "buf_copy_n r ?out size = (True, r', out')" "work_buf_ok fm out'" "buf_ok r'" "buf_defined r'"
      "b_offset r' = frame_headroom fm 0" "buf_content r' = take (nat size) (buf_content ?out)"
      "buf_content out' = drop (nat size) (buf_content ?out)" "b_len out' = b_len ?out - size"
      "b_capacity r' = BUF_SIZE fm"
    using fragment_move_chunk [OF fm bufs size(1,2,4)] by metis
  have room: "4 \<le> b_offset r'" using r(6) frame_ok_headroom_4 [OF fm] by simp
  let ?ty = "if last then FRAG_YES_LAST else FRAG_YES_NOTLAST"
  obtain b where b: "fragment_prepend_flags r' ?ty (outgoing_seq_id f) (outgoing_frag_id f) ?sz = Some b"
      "buf_ok b" "buf_content b = u32_bytes (fragment_flags ?ty (outgoing_seq_id f) (outgoing_frag_id f) ?sz)
         @ buf_content r'" "b_capacity b = b_capacity r'" "b_len b = b_len r' + 4" "buf_defined b"
    by (rule fragment_prepend_flags_law [OF r(4,5) room, of ?ty "outgoing_seq_id f" "outgoing_frag_id f" ?sz])
  let ?f' = "f\<lparr>outgoing := out', outgoing_frag_id := outgoing_frag_id f + 1,
      outgoing_return := (outgoing_return f)\<lparr>b_data := b_data b\<rparr>\<rparr>"
  have call: "fragment_ready_to_send f b0 fm = Some (True, ?f', b)"
    using len r(1,2,9) b(1)
    by (simp add: fragment_ready_to_send_def fragment_outgoing_defined_def FRAME_HEADROOM_def Let_def
        last_def [symmetric] size_def [symmetric])
      (simp add: size_def)
  have all: "take (nat size) (buf_content ?out) = take (nat ?sz) (buf_content ?out)"
    "drop (nat size) (buf_content ?out) = drop (nat ?sz) (buf_content ?out)"
    using bufs(2) by (auto simp: size_def last_def work_buf_ok_def)
  have "work_buf_ok fm ((outgoing_return f)\<lparr>b_data := b_data b\<rparr>)"
    using bufs(1) r(10) b(2,4,6) by (rule work_buf_share)
  then have "sender_ok fm ?f'" using ok r(3) by (simp add: sender_ok_def)
  then show thesis using r b all by (intro that [OF call]) (auto simp: last_def)
qed


lemma frag_wire_step:
  assumes "0 < sz" "n * sz < length dat"
  shows "u32_bytes (fragment_flags (if int (length dat - n * sz) \<le> int sz then FRAG_YES_LAST else FRAG_YES_NOTLAST)
            seq (int n) (int sz)) @ take sz (drop (n * sz) dat) = frag_wire seq sz dat n"
proof -
  have "int (length dat - n * sz) \<le> int sz \<longleftrightarrow> Suc n = n_chunks sz dat"
    unfolding of_nat_le_iff using assms last_chunk_iff [of sz n dat] by (simp add: n_chunks_iff)
  then show ?thesis by (simp only: frag_wire_def frag_header_def chunk_def)
qed

lemma fragment_drain_law:
  assumes "frame_ok fm" "sender_ok fm f" "0 < sz" "int sz \<le> PAYLOAD_SIZE_DYNAMIC fm"
    and "outgoing_frag_size f = int sz" "outgoing_frag_id f = int n" "outgoing_seq_id f = seq"
    and "buf_content (outgoing f) = drop (n * sz) dat" "n_chunks sz dat \<le> n + k"
  shows "\<exists>bs f'. fragment_drain (Suc k) fm f = Some (bs, f') \<and> sender_ok fm f' \<and> list_all buf_ok bs
           \<and> map buf_content bs = map (frag_wire seq sz dat) [n ..< n_chunks sz dat]
           \<and> b_len (outgoing f') = 0 \<and> outgoing_seq_id f' = seq \<and> incoming f' = incoming f"
  using assms
proof (induction k arbitrary: f n)
  case k: (0 f n)
  then have "buf_ok (outgoing f)" by (simp add: sender_ok_def work_buf_ok_def)
  have "length dat \<le> n * sz" using k.prems n_chunks_iff [of sz n dat] by auto
  then have "b_len (outgoing f) = 0"
    using k.prems(8) length_buf_content [OF \<open>buf_ok (outgoing f)\<close>] buf_ok_bounds(2) [OF \<open>buf_ok (outgoing f)\<close>]
    by simp
  with k.prems show ?case using n_chunks_iff [of sz n dat]
    by (auto simp: fragment_ready_to_send_def fragment_outgoing_defined_def)
next
  case (Suc k f n)
  have ok: "buf_ok (outgoing f)" using Suc.prems by (simp add: sender_ok_def work_buf_ok_def)
  have len: "b_len (outgoing f) = int (length dat - n * sz)"
    using Suc.prems(8) length_buf_content [OF ok] buf_ok_bounds(2) [OF ok] by simp
  show ?case
  proof (cases "n * sz < length dat")
    case False
    then show ?thesis using Suc.prems len n_chunks_iff [of sz n dat]
      by (auto simp: fragment_ready_to_send_def fragment_outgoing_defined_def)
  next
    case True
    have pos: "0 < b_len (outgoing f)" unfolding len of_nat_0_less_iff using True by simp
    have sz: "0 < outgoing_frag_size f" "outgoing_frag_size f \<le> PAYLOAD_SIZE_DYNAMIC fm"
      using Suc.prems by auto
    obtain f' b where step: "fragment_ready_to_send f clear_buf fm = Some (True, f', b)" "sender_ok fm f'"
        "buf_ok b" "buf_content b = frag_wire seq sz dat n"
        "buf_content (outgoing f') = drop sz (drop (n * sz) dat)" "outgoing_seq_id f' = seq"
        "outgoing_frag_id f' = int n + 1" "outgoing_frag_size f' = int sz" "incoming f' = incoming f"
      by (rule fragment_ready_law [OF Suc.prems(1,2) pos sz, of clear_buf])
        (use frag_wire_step [OF Suc.prems(3) True, of seq] in
          \<open>simp only: Suc.prems(5-8) len nat_int\<close>)
    have "[n ..< n_chunks sz dat] = n # [Suc n ..< n_chunks sz dat]"
      using True Suc.prems by (simp add: upt_conv_Cons n_chunks_iff)
    moreover obtain bs f2 where rest: "fragment_drain (Suc k) fm f' = Some (bs, f2)" "sender_ok fm f2"
        "list_all buf_ok bs" "map buf_content bs = map (frag_wire seq sz dat) [Suc n ..< n_chunks sz dat]"
        "b_len (outgoing f2) = 0" "outgoing_seq_id f2 = seq" "incoming f2 = incoming f'"
      using Suc.IH [of f' "Suc n"] Suc.prems step by (auto simp: add.commute)
    moreover have "fragment_drain (Suc (Suc k)) fm f = Some (b # bs, f2)"
      using step(1) rest(1) by (subst fragment_drain.simps) (simp del: fragment_drain.simps)
    ultimately show ?thesis using step by (intro exI [of _ "b # bs"] exI [of _ f2]) simp
  qed
qed


subsection \<open>The whole datagram\<close>

lemma fragment_outgoing_law:
  assumes fm: "frame_ok fm" and ok: "sender_ok fm f" and buf: "buf_ok buf" "b_len buf \<le> link_mtu fm"
    and big: "PAYLOAD_SIZE_DYNAMIC fm < b_len buf"
    and sz: "optimal_fragment_size (b_len buf) (PAYLOAD_SIZE_DYNAMIC fm) = Some (int sz)"
    and few: "b_len buf \<le> int sz * 32"
  obtains f1 where "sender_ok fm f1" "outgoing_frag_size f1 = int sz" "outgoing_frag_id f1 = 0"
    "outgoing_seq_id f1 = (outgoing_seq_id f + 1) mod N_SEQ_ID" "incoming f1 = incoming f"
    "buf_content (outgoing f1) = buf_content buf"
    "fragment_outgoing f buf fm = (do {
       (ready, f, b) \<leftarrow> fragment_ready_to_send f1 (buf\<lparr>b_len := 0\<rparr>) fm;
       assert_c ready; Some (f, b, None) })"
proof -
  have "work_buf_ok fm (outgoing f)" using ok by (simp add: sender_ok_def)
  then obtain o1 where o1: "buf_init (outgoing f) (frame_headroom fm 0) = (True, o1)" "work_buf_ok fm o1"
      "buf_content o1 = []" "b_len o1 = 0" "b_offset o1 = frame_headroom fm 0"
    using work_buf_init [OF fm, of "outgoing f" 0] by metis
  then have o1ok: "buf_ok o1" "buf_defined o1" "b_capacity o1 = BUF_SIZE fm" by (auto simp: work_buf_ok_def)
  obtain c o2 where c: "buf_copy o1 buf = (c, o2)" by fastforce
  have fit: "b_len buf \<le> buf_forward_capacity o1"
    using o1 o1ok fm buf(2) frame_ok_room(2) [OF fm, of 0] by (auto simp: buf_forward_capacity_ok frame_ok_def)
  have "c" using buf_write_iff [OF o1ok(1), of "buf_content buf"] o1ok fit buf(1) c
    by (simp add: buf_copy_def)
  with c have c: "buf_copy o1 buf = (True, o2)" by simp
  note copied = buf_copy_True [OF o1ok(1) buf(1) c]
  have "0 < b_len o2" using copied(3) o1(4) big frame_ok_room(5) [OF fm] by simp
  then have o2: "work_buf_ok fm o2" using copied o1ok by (simp add: work_buf_ok_def buf_ok_len_defined)
  have seq: "modulo_add (outgoing_seq_id f) 1 N_SEQ_ID = Some ((outgoing_seq_id f + 1) mod N_SEQ_ID)"
    using ok by (intro modulo_add_mod) (auto simp: sender_ok_def N_SEQ_ID_def)
  let ?f1 = "f\<lparr>outgoing_frag_size := int sz, outgoing := o2,
      outgoing_seq_id := (outgoing_seq_id f + 1) mod N_SEQ_ID, outgoing_frag_id := 0\<rparr>"
  have "sender_ok fm ?f1" using ok o2 by (simp add: sender_ok_def N_SEQ_ID_def)
  moreover have "fragment_outgoing f buf fm = (do {
       (ready, f, b) \<leftarrow> fragment_ready_to_send ?f1 (buf\<lparr>b_len := 0\<rparr>) fm;
       assert_c ready; Some (f, b, None) })"
    using big few frame_ok_room(5) [OF fm] o1(1) c seq sz
    by (simp add: fragment_outgoing_def FRAME_HEADROOM_def MAX_FRAGS_def)
  ultimately show thesis using copied o1 by (intro that [of ?f1]) auto
qed


lemma fragment_ready_any_buf:
  "fragment_outgoing_defined f \<Longrightarrow> fragment_ready_to_send f b fm = fragment_ready_to_send f clear_buf fm"
  by (simp add: fragment_ready_to_send_def)

lemma n_chunks_le: "0 < sz \<Longrightarrow> length dat \<le> sz * k \<Longrightarrow> n_chunks sz dat \<le> k"
  using n_chunks_iff [of sz k dat] by (auto simp: mult.commute not_less [symmetric])

lemma fragment_drain_ConsE:
  assumes "fragment_drain (Suc k) fm f = Some (bs, f')" "bs \<noteq> []"
  obtains f1 b bs' where "fragment_ready_to_send f clear_buf fm = Some (True, f1, b)"
    "fragment_drain k fm f1 = Some (bs', f')" "bs = b # bs'" "fragment_outgoing_defined f"
  using assms by (auto simp: bind_eq_Some_conv fragment_ready_to_send_def split: if_splits)

lemma fragment_send_chunks:
  assumes fm: "frame_ok fm" and ok: "sender_ok fm f" and buf: "buf_ok buf" "b_len buf \<le> link_mtu fm"
    and big: "PAYLOAD_SIZE_DYNAMIC fm < b_len buf"
    and sz: "optimal_fragment_size (b_len buf) (PAYLOAD_SIZE_DYNAMIC fm) = Some (int sz)"
    and few: "b_len buf \<le> int sz * 32"
  obtains bs f' where "fragment_send fm f buf = Some (bs, f', None)" "sender_ok fm f'"
    "list_all buf_ok bs" "incoming f' = incoming f"
    "map buf_content bs = map (frag_wire ((outgoing_seq_id f + 1) mod N_SEQ_ID) sz (buf_content buf))
                            [0 ..< n_chunks sz (buf_content buf)]"
    "b_len (outgoing f') = 0" "outgoing_seq_id f' = (outgoing_seq_id f + 1) mod N_SEQ_ID"
    "n_chunks sz (buf_content buf) \<le> 32" "0 < sz" "sz mod 4 = 0" "int sz \<le> PAYLOAD_SIZE_DYNAMIC fm"
proof -
  let ?seq = "(outgoing_seq_id f + 1) mod N_SEQ_ID" and ?dat = "buf_content buf"
  have pay: "4 \<le> PAYLOAD_SIZE_DYNAMIC fm" using frame_ok_room(5) [OF fm] by linarith
  have szi: "0 < int sz \<and> int sz \<le> PAYLOAD_SIZE_DYNAMIC fm \<and> int sz mod 4 = 0"
    using optimal_fragment_size_law [OF pay big] sz by fastforce
  then have szp: "0 < sz" "sz mod 4 = 0" "int sz \<le> PAYLOAD_SIZE_DYNAMIC fm" by presburger+
  have dat: "int (length ?dat) = b_len buf" using buf(1) by simp
  have k32: "n_chunks sz ?dat \<le> 32" using szp few dat by (intro n_chunks_le) linarith+
  obtain f1 where f1: "sender_ok fm f1" "outgoing_frag_size f1 = int sz" "outgoing_frag_id f1 = int 0"
      "outgoing_seq_id f1 = ?seq" "incoming f1 = incoming f" "buf_content (outgoing f1) = drop (0 * sz) ?dat"
      "fragment_outgoing f buf fm = (do {
         (ready, f, b) \<leftarrow> fragment_ready_to_send f1 (buf\<lparr>b_len := 0\<rparr>) fm;
         assert_c ready; Some (f, b, None) })"
    by (rule fragment_outgoing_law [OF fm ok buf big sz few]) simp
  obtain bs f' where d: "fragment_drain (Suc 33) fm f1 = Some (bs, f')" "sender_ok fm f'" "list_all buf_ok bs"
      "map buf_content bs = map (frag_wire ?seq sz ?dat) [0 ..< n_chunks sz ?dat]"
      "b_len (outgoing f') = 0" "outgoing_seq_id f' = ?seq" "incoming f' = incoming f1"
    using fragment_drain_law [OF fm f1(1) szp(1,3) f1(2,3,4,6), of 33] k32 by auto
  have "0 < n_chunks sz ?dat" using n_chunks_iff [OF szp(1), of 0 ?dat] dat big pay by auto
  then have "bs \<noteq> []" using d(4) by auto
  then obtain f2 b bs' where "fragment_ready_to_send f1 clear_buf fm = Some (True, f2, b)"
      "fragment_drain 33 fm f2 = Some (bs', f')" "bs = b # bs'" "fragment_outgoing_defined f1"
    by (rule fragment_drain_ConsE [OF d(1)])
  then have "fragment_send fm f buf = Some (bs, f', None)"
    by (simp add: fragment_send_def f1(7) fragment_ready_any_buf [of f1 "buf\<lparr>b_len := 0\<rparr>"] MAX_FRAGS_def
        del: fragment_drain.simps)
  then show thesis using d f1(5) k32 szp by (intro that [of bs f']) auto
qed

end
