(* ===== verification/Fragment_Window.thy ===== *)
theory Fragment_Window
  imports Fragment_Send
begin

section \<open>Fragment headers and the window of reassembly buffers\<close>

text \<open>
  Two facts about the receiver: the fields of a fragment header read back as the sender packed them, and
  \<^verbatim>\<open>fragment_list_get_buf\<close> gives each of up to \<^verbatim>\<open>N_FRAG_BUF\<close> consecutive sequence numbers a slot of its own
  and frees a slot exactly when its number leaves the window.
\<close>

subsection \<open>Reading the header back\<close>

lemma frag_masks:
  "FRAG_TYPE_MASK = mask 2" "FRAG_SEQ_ID_MASK = mask 8" "FRAG_ID_MASK = mask 5" "FRAG_SIZE_MASK = mask 14"
  by (simp_all add: FRAG_TYPE_MASK_def FRAG_SEQ_ID_MASK_def FRAG_ID_MASK_def FRAG_SIZE_MASK_def
      mask_eq_exp_minus_1)

lemma FRAG_MAP_MASK_minus_1: "FRAG_MAP_MASK = - 1"
  by (simp add: FRAG_MAP_MASK_def)

lemmas frag_shifts =
  FRAG_TYPE_SHIFT_def FRAG_SEQ_ID_SHIFT_def FRAG_ID_SHIFT_def FRAG_SIZE_SHIFT_def FRAG_SIZE_ROUND_SHIFT_def

lemmas frag_types = FRAG_WHOLE_def FRAG_YES_NOTLAST_def FRAG_YES_LAST_def FRAG_TEST_def

definition pack_fields :: "u32 \<Rightarrow> u32 \<Rightarrow> u32 \<Rightarrow> u32 \<Rightarrow> u32" where
  "pack_fields a b c d =
     (a AND mask 2) OR push_bit 2 (b AND mask 8) OR push_bit 10 (c AND mask 5) OR push_bit 15 (d AND mask 14)"

lemma unpack_fields:
  "pack_fields a b c d AND mask 2 = a AND mask 2"
  "drop_bit 2 (pack_fields a b c d) AND mask 8 = b AND mask 8"
  "drop_bit 10 (pack_fields a b c d) AND mask 5 = c AND mask 5"
  "drop_bit 15 (pack_fields a b c d) AND mask 14 = d AND mask 14"
  by (rule bit_word_eqI; auto simp: pack_fields_def bit_simps)+

lemma fragment_flags_pack:
  "ty \<in> {FRAG_YES_NOTLAST, FRAG_YES_LAST} \<Longrightarrow>
   fragment_flags ty seq n sz =
     pack_fields (word_of_int ty) (word_of_int seq) (word_of_int n)
       (if ty = FRAG_YES_LAST then word_of_int (drop_bit 2 sz) else 0)"
  by (auto simp: fragment_flags_def pack_fields_def frag_masks frag_shifts frag_types or.assoc)

lemma uint_and_mask: "uint (word_of_int i AND mask k :: u32) = i mod 2 ^ min 32 k"
proof -
  have "uint (take_bit k (word_of_int i :: u32)) = take_bit k (take_bit 32 i)"
    by (simp only: unsigned_take_bit_eq unsigned_of_int len_bit0 len_num1) simp
  then show ?thesis
    by (simp only: take_bit_take_bit) (simp only: take_bit_eq_mask [symmetric] take_bit_eq_mod min.commute)
qed

lemma fragment_flags_decode:
  assumes "ty \<in> {FRAG_YES_NOTLAST, FRAG_YES_LAST}" "0 \<le> seq" "seq < 256" "n < 32" "sz mod 4 = 0" "sz < 65536"
  shows "uint (drop_bit FRAG_TYPE_SHIFT (fragment_flags ty seq (int n) (int sz)) AND FRAG_TYPE_MASK) = ty"
    "uint (drop_bit FRAG_SEQ_ID_SHIFT (fragment_flags ty seq (int n) (int sz)) AND FRAG_SEQ_ID_MASK) = seq"
    "uint (drop_bit FRAG_ID_SHIFT (fragment_flags ty seq (int n) (int sz)) AND FRAG_ID_MASK) = int n"
    "ty = FRAG_YES_LAST \<Longrightarrow>
     c_int (uint (push_bit FRAG_SIZE_ROUND_SHIFT
       (drop_bit FRAG_SIZE_SHIFT (fragment_flags ty seq (int n) (int sz)) AND FRAG_SIZE_MASK))) = int sz"
proof -
  note pack = fragment_flags_pack [OF assms(1)]
  show "uint (drop_bit FRAG_TYPE_SHIFT (fragment_flags ty seq (int n) (int sz)) AND FRAG_TYPE_MASK) = ty"
    unfolding pack frag_shifts frag_masks drop_bit_0 id_apply unpack_fields uint_and_mask
    using assms(1) by (auto simp: frag_types)
  show "uint (drop_bit FRAG_SEQ_ID_SHIFT (fragment_flags ty seq (int n) (int sz)) AND FRAG_SEQ_ID_MASK) = seq"
    unfolding pack frag_shifts frag_masks unpack_fields uint_and_mask using assms by simp
  show "uint (drop_bit FRAG_ID_SHIFT (fragment_flags ty seq (int n) (int sz)) AND FRAG_ID_MASK) = int n"
    unfolding pack frag_shifts frag_masks unpack_fields uint_and_mask using assms by simp
  assume last: "ty = FRAG_YES_LAST"
  show "c_int (uint (push_bit FRAG_SIZE_ROUND_SHIFT
       (drop_bit FRAG_SIZE_SHIFT (fragment_flags ty seq (int n) (int sz)) AND FRAG_SIZE_MASK))) = int sz"
  proof -
    let ?w = "word_of_int (int sz div 4) AND mask 14 :: u32"
    have w: "uint ?w = int sz div 4" unfolding uint_and_mask using assms by simp
    have "uint (push_bit 2 ?w) = take_bit 32 (uint ?w * 4)"
      by (simp add: push_bit_eq_mult uint_mult_lem uint_word_ariths take_bit_eq_mod mult.commute)
    also have "\<dots> = int sz" using w assms by (simp add: take_bit_eq_mod) presburger
    finally have "uint (push_bit 2 ?w) = int sz" .
    moreover have "c_int (int sz) = int sz" using assms by (intro c_int_id) auto
    ultimately show ?thesis
      unfolding pack frag_shifts frag_masks unpack_fields using last by (simp add: drop_bit_eq_div)
  qed
qed


subsection \<open>The window of reassembly buffers\<close>

definition list_ok :: "fragment_list \<Rightarrow> bool" where
  "list_ok l \<longleftrightarrow> length (fl_fragments l) = 25 \<and> 0 \<le> fl_index l \<and> fl_index l < 25
     \<and> 0 \<le> fl_seq_id l \<and> fl_seq_id l < 256"

definition undef :: "fragment \<Rightarrow> fragment" where
  "undef fr = fr\<lparr>fr_defined := False\<rparr>"

lemma undef_simps [simp]:
  "fr_defined (undef fr) = False" "fr_buf (undef fr) = fr_buf fr" "undef (undef fr) = undef fr"
  by (simp_all add: undef_def)

lemma slide_range:
  fixes x j :: int
  shows "(\<exists>e \<in> {1..int (Suc k)}. j = (x + e) mod 25) \<longleftrightarrow>
           j = (x + 1) mod 25 \<or> (\<exists>e \<in> {1..int k}. j = ((x + 1) mod 25 + e) mod 25)" (is "?A \<longleftrightarrow> ?B")
proof
  assume ?A
  then obtain e where e: "1 \<le> e" "e \<le> int (Suc k)" "j = (x + e) mod 25" by auto
  have "j = ((x + 1) mod 25 + (e - 1)) mod 25" using e(3) by (simp add: mod_add_left_eq)
  then have "\<exists>e \<in> {1..int k}. j = ((x + 1) mod 25 + e) mod 25" if "e \<noteq> 1"
    using e that by (intro bexI [of _ "e - 1"]) auto
  then show ?B using e by (cases "e = 1") simp_all
next
  assume ?B
  then show ?A
  proof
    assume "\<exists>e \<in> {1..int k}. j = ((x + 1) mod 25 + e) mod 25"
    then obtain e where e: "1 \<le> e" "e \<le> int k" "j = ((x + 1) mod 25 + e) mod 25" by auto
    have "j = (x + (e + 1)) mod 25" unfolding e(3) mod_add_left_eq by (simp add: algebra_simps)
    then show ?A using e by (intro bexI [of _ "e + 1"]) auto
  qed force
qed

text \<open>The list after the window has moved on by \<open>k\<close>.\<close>

definition slid :: "fragment_list \<Rightarrow> int \<Rightarrow> fragment_list \<Rightarrow> bool" where
  "slid l k l' \<longleftrightarrow> list_ok l' \<and> fl_index l' = (fl_index l + k) mod 25 \<and> fl_seq_id l' = (fl_seq_id l + k) mod 256
     \<and> (\<forall>j < 25. fl_fragments l' ! j =
          (if \<exists>e \<in> {1..k}. int j = (fl_index l + e) mod 25 then undef (fl_fragments l ! j)
           else fl_fragments l ! j))"

lemma slid_step:
  assumes ok: "list_ok l" and i: "i = (fl_index l + 1) mod 25"
    and l1: "l1 = l\<lparr>fl_index := i, fl_seq_id := (fl_seq_id l + 1) mod 256,
      fl_fragments := (fl_fragments l)[nat i := undef (fl_fragments l ! nat i)]\<rparr>"
    and s: "slid l1 (int k) l'"
  shows "slid l (int (Suc k)) l'"
proof -
  have "fl_fragments l' ! j =
      (if \<exists>e \<in> {1..int (Suc k)}. int j = (fl_index l + e) mod 25 then undef (fl_fragments l ! j)
       else fl_fragments l ! j)" if j: "j < 25" for j
  proof -
    have l'j: "fl_fragments l' ! j = (if \<exists>e \<in> {1..int k}. int j = (i + e) mod 25
        then undef (fl_fragments l1 ! j) else fl_fragments l1 ! j)"
      using s j by (simp add: slid_def l1)
    have "nat i < length (fl_fragments l)" "int (nat i) = i" using ok by (auto simp: list_ok_def i)
    then show ?thesis unfolding l'j slide_range i [symmetric] by (auto simp: l1 nth_list_update)
  qed
  moreover have "fl_index l' = (fl_index l + int (Suc k)) mod 25"
    "fl_seq_id l' = (fl_seq_id l + int (Suc k)) mod 256"
    using s by (simp_all add: slid_def l1 i mod_add_left_eq add.assoc)
  ultimately show ?thesis using s by (simp add: slid_def)
qed

lemma fragment_list_slide_law:
  "list_ok l \<Longrightarrow> \<exists>l'. fragment_list_slide k l = Some l' \<and> slid l (int k) l'"
proof (induction k arbitrary: l)
  case 0
  then show ?case by (simp add: slid_def list_ok_def)
next
  case (Suc k)
  let ?i = "(fl_index l + 1) mod 25"
  let ?l = "l\<lparr>fl_index := ?i, fl_seq_id := (fl_seq_id l + 1) mod 256,
      fl_fragments := (fl_fragments l)[nat ?i := undef (fl_fragments l ! nat ?i)]\<rparr>"
  have "list_ok ?l" using Suc.prems by (simp add: list_ok_def)
  then obtain l' where l': "fragment_list_slide k ?l = Some l'" "slid ?l (int k) l'"
    using Suc.IH by blast
  have "modulo_add (fl_index l) 1 N_FRAG_BUF = Some ?i"
    "modulo_add (fl_seq_id l) 1 N_SEQ_ID = Some ((fl_seq_id l + 1) mod 256)"
    using Suc.prems by (simp_all add: modulo_add_mod list_ok_def N_FRAG_BUF_def N_SEQ_ID_def)
  then have "fragment_list_slide (Suc k) l = Some l'" using l'(1) by (simp add: undef_def)
  with slid_step [OF Suc.prems refl refl l'(2)] show ?case by blast
qed

lemma window_distance:
  assumes "\<bar>d - c\<bar> < 25"
  shows "modulo_subtract ((a + d) mod 256) ((a + c) mod 256) 256 = Some (d - c)"
proof -
  obtain q where q: "modulo_subtract ((a + d) mod 256) ((a + c) mod 256) 256 = Some q"
      "((a + c) mod 256 + q) mod 256 = (a + d) mod 256" "2 * \<bar>q\<bar> \<le> 256"
    by (rule modulo_subtract_Some [of "(a + d) mod 256" 256 "(a + c) mod 256"]) auto
  have "(a + c + q) mod 256 = (a + d) mod 256" using q(2) by (simp add: mod_add_left_eq)
  then have "256 dvd (a + c + q) - (a + d)" by (simp only: mod_eq_dvd_iff)
  then obtain m where m: "(a + c + q) - (a + d) = 256 * m" by (auto elim: dvdE)
  then have "256 * m \<le> 152" "- 152 \<le> 256 * m" using q(3) assms by linarith+
  then have "m = 0" by linarith
  then have "q = d - c" using m by simp
  with q(1) show ?thesis by simp
qed

text \<open>
  Within a window of 25 sequence numbers from \<open>a\<close> on, every number has its own slot, counted from the slot
  \<open>i0\<close> of \<open>a\<close>; asking for a number beyond the highest one so far frees the slots that lie between.
\<close>

definition window :: "fragment_list \<Rightarrow> int \<Rightarrow> int \<Rightarrow> int \<Rightarrow> bool" where
  "window l a i0 c \<longleftrightarrow> list_ok l \<and> 0 \<le> c \<and> c < 25 \<and> fl_seq_id l = (a + c) mod 256
     \<and> fl_index l = (i0 + c) mod 25"

definition slot :: "int \<Rightarrow> int \<Rightarrow> nat" where
  "slot i0 d = nat ((i0 + d) mod 25)"

lemma slot_less: "slot i0 d < 25"
  by (simp add: slot_def nat_less_iff)

lemma slot_inject:
  assumes "0 \<le> d" "d < 25" "0 \<le> e" "e < 25"
  shows "slot i0 d = slot i0 e \<longleftrightarrow> d = e"
proof
  assume "slot i0 d = slot i0 e"
  then have "(i0 + d) mod 25 = (i0 + e) mod 25" by (simp add: slot_def nat_eq_iff)
  then have "25 dvd d - e" by (simp add: mod_eq_dvd_iff)
  with assms show "d = e" by presburger
qed simp

text \<open>\<open>l'\<close> is \<open>l\<close> after the slot of \<open>d\<close> has been asked for.\<close>

definition window_to :: "fragment_list \<Rightarrow> int \<Rightarrow> int \<Rightarrow> int \<Rightarrow> fragment_list \<Rightarrow> bool" where
  "window_to l i0 c d l' \<longleftrightarrow>
     (\<forall>e. 0 \<le> e \<and> e < 25 \<longrightarrow> fl_fragments l' ! slot i0 e =
        (if c < e \<and> e \<le> d then undef (fl_fragments l ! slot i0 e) else fl_fragments l ! slot i0 e))"

lemma slid_window_to:
  assumes w: "window l a i0 c" and d: "0 \<le> d" "d < 25" and s: "slid l (int (nat (d - c))) l'"
  shows "window_to l i0 c d l'"
  unfolding window_to_def
proof (intro allI impI)
  fix e :: int assume e: "0 \<le> e \<and> e < 25"
  have c: "0 \<le> c" "c < 25" "fl_index l = (i0 + c) mod 25" using w by (auto simp: window_def)
  have "(\<exists>q \<in> {1..int (nat (d - c))}. int (slot i0 e) = (fl_index l + q) mod 25) \<longleftrightarrow> c < e \<and> e \<le> d"
    unfolding c(3) mod_add_left_eq
  proof
    assume "\<exists>q \<in> {1..int (nat (d - c))}. int (slot i0 e) = (i0 + c + q) mod 25"
    then obtain q where q: "1 \<le> q" "q \<le> int (nat (d - c))" "int (slot i0 e) = (i0 + c + q) mod 25" by auto
    have "slot i0 (c + q) = nat (int (slot i0 e))" unfolding q(3) by (simp add: slot_def add.assoc)
    then have "slot i0 e = slot i0 (c + q)" by simp
    moreover have "q \<le> d - c" using q(1,2) by linarith
    ultimately show "c < e \<and> e \<le> d" using q(1) slot_inject [of e "c + q" i0] e d c by linarith
  next
    assume "c < e \<and> e \<le> d"
    then show "\<exists>q \<in> {1..int (nat (d - c))}. int (slot i0 e) = (i0 + c + q) mod 25"
      by (intro bexI [of _ "e - c"]) (auto simp: slot_def)
  qed
  then show "fl_fragments l' ! slot i0 e =
      (if c < e \<and> e \<le> d then undef (fl_fragments l ! slot i0 e) else fl_fragments l ! slot i0 e)"
    using s slot_less [of i0 e] by (simp add: slid_def)
qed

lemma fragment_list_get_buf_window:
  assumes w: "window l a i0 c" and d: "0 \<le> d" "d < 25"
  obtains l' where "fragment_list_get_buf l ((a + d) mod 256) = Some (int (slot i0 d), l')"
    "window l' a i0 (max c d)" "window_to l i0 c d l'"
proof -
  have ok: "list_ok l" and c: "0 \<le> c" "c < 25" "fl_seq_id l = (a + c) mod 256" "fl_index l = (i0 + c) mod 25"
    using w by (auto simp: window_def)
  obtain l' where l': "fragment_list_slide (nat (d - c)) l = Some l'" "slid l (int (nat (d - c))) l'"
    using fragment_list_slide_law [OF ok] by blast
  have "fl_index l' = (i0 + c + int (nat (d - c))) mod 25" "fl_seq_id l' = (a + c + int (nat (d - c))) mod 256"
    using l'(2) c by (simp_all add: slid_def mod_add_left_eq)
  then have pos: "fl_index l' = (i0 + max c d) mod 25" "fl_seq_id l' = (a + max c d) mod 256"
    by (auto simp: max_def)
  define z where "z = (if d - c > 0 then 0 else d - c)"
  have z: "max c d + z = d" "- 25 \<le> z" "z \<le> 25" using c d by (auto simp: z_def)
  have eq: "(fl_index l' + z) mod 25 = (i0 + d) mod 25"
    unfolding pos mod_add_left_eq by (simp add: add.assoc z)
  have bnd: "0 \<le> fl_index l'" "fl_index l' < 25" using pos by simp_all
  have add: "modulo_add (fl_index l') z 25 = Some ((i0 + d) mod 25)"
    unfolding eq [symmetric] using bnd z(2,3) by (rule modulo_add_mod)
  have near: "\<bar>d - c\<bar> < 25" using c d by linarith
  have sub: "modulo_subtract ((a + d) mod 256) (fl_seq_id l) 256 = Some (d - c)"
    unfolding c(3) using near by (rule window_distance)
  have "fragment_list_get_buf l ((a + d) mod 256) = Some ((i0 + d) mod 25, l')"
    unfolding fragment_list_get_buf_def N_SEQ_ID_def N_FRAG_BUF_def sub
    using near l'(1) add by (simp add: z_def)
  moreover have "int (slot i0 d) = (i0 + d) mod 25" by (simp add: slot_def)
  ultimately have "fragment_list_get_buf l ((a + d) mod 256) = Some (int (slot i0 d), l')" by simp
  moreover have "0 \<le> max c d" "max c d < 25" using c d by auto
  then have "window l' a i0 (max c d)" using l'(2) pos by (simp only: window_def slid_def simp_thms)
  ultimately show thesis using slid_window_to [OF w d l'(2)] by (rule that)
qed

end
