(* ===== verification/Fragment_Reassembly.thy ===== *)
theory Fragment_Reassembly
  imports Fragment_Window
begin

section \<open>Reassembling datagrams\<close>

text \<open>
  The receiver refines an abstract reassembly table: a set of received positions per sequence number,
  emptied when it is complete. Fragments of up to \<^verbatim>\<open>N_FRAG_BUF\<close> consecutive datagrams may arrive
  interleaved, out of order and duplicated.
\<close>

subsection \<open>One reassembly buffer\<close>

text \<open>
  \<open>filled fm sz dat G fr\<close>: the buffer \<open>fr\<close> holds the chunks at the positions \<open>G\<close> of the datagram \<open>dat\<close>, cut into
  chunks of \<open>sz\<close> bytes. \<open>slot_rep\<close> adds the unused buffer, which represents the empty set.
\<close>

definition frag_headroom :: "frame \<Rightarrow> int" where
  "frag_headroom fm = frame_headroom fm FRAME_HEADROOM_MARKER_FRAGMENT"

definition filled :: "frame \<Rightarrow> nat \<Rightarrow> byte list \<Rightarrow> nat set \<Rightarrow> fragment \<Rightarrow> bool" where
  "filled fm sz dat G fr \<longleftrightarrow>
     fr_defined fr \<and> max_frag_size fr = int sz \<and> work_buf_ok fm (fr_buf fr)
     \<and> b_offset (fr_buf fr) = frag_headroom fm
     \<and> (\<forall>j < 32. bit (fr_map fr) j \<longleftrightarrow>
          j \<in> G \<and> Suc j < n_chunks sz dat \<or> n_chunks sz dat - 1 \<in> G \<and> n_chunks sz dat - 1 \<le> j)
     \<and> b_len (fr_buf fr) \<le> int (length dat)
     \<and> (n_chunks sz dat - 1 \<in> G \<longrightarrow> b_len (fr_buf fr) = int (length dat))
     \<and> (\<forall>j < length dat. j div sz \<in> G \<longrightarrow>
          the (b_data (fr_buf fr)) ! (nat (frag_headroom fm) + j) = dat ! j)"

definition slot_rep :: "frame \<Rightarrow> nat \<Rightarrow> byte list \<Rightarrow> nat set \<Rightarrow> fragment \<Rightarrow> bool" where
  "slot_rep fm sz dat G fr \<longleftrightarrow>
     work_buf_ok fm (fr_buf fr) \<and> (if G = {} then \<not> fr_defined fr else filled fm sz dat G fr)"

text \<open>A datagram the sender may cut up.\<close>

definition datagram_ok :: "frame \<Rightarrow> nat \<Rightarrow> byte list \<Rightarrow> bool" where
  "datagram_ok fm sz dat \<longleftrightarrow> 0 < sz \<and> sz mod 4 = 0 \<and> sz < 65536 \<and> dat \<noteq> [] \<and> n_chunks sz dat \<le> 32
     \<and> int (length dat) \<le> link_mtu fm"

lemma map_insert:
  fixes m :: u32
  assumes "n < k" and m: "\<forall>j < 32. bit m j \<longleftrightarrow> j \<in> G \<and> Suc j < k \<or> k - 1 \<in> G \<and> k - 1 \<le> j"
  shows "\<forall>j < 32. bit (m OR push_bit n (if Suc n = k then FRAG_MAP_MASK else 1)) j \<longleftrightarrow>
           j \<in> insert n G \<and> Suc j < k \<or> k - 1 \<in> insert n G \<and> k - 1 \<le> j"
proof (intro allI impI)
  fix j :: nat assume j: "j < 32"
  show "bit (m OR push_bit n (if Suc n = k then FRAG_MAP_MASK else 1)) j \<longleftrightarrow>
      j \<in> insert n G \<and> Suc j < k \<or> k - 1 \<in> insert n G \<and> k - 1 \<le> j"
  proof (cases "Suc n = k")
    case True
    then have "bit (m OR push_bit n (if Suc n = k then FRAG_MAP_MASK else 1)) j \<longleftrightarrow> bit m j \<or> n \<le> j"
      using j by (auto simp: FRAG_MAP_MASK_minus_1 bit_simps)
    with True j m show ?thesis by auto
  next
    case False
    then have "bit (m OR push_bit n (if Suc n = k then FRAG_MAP_MASK else 1)) j \<longleftrightarrow> bit m j \<or> j = n"
      using j by (auto simp: bit_simps)
    with False j m \<open>n < k\<close> show ?thesis by auto
  qed
qed

lemma map_full_iff:
  fixes m :: u32
  assumes m: "\<forall>j < 32. bit m j \<longleftrightarrow> j \<in> G \<and> Suc j < k \<or> k - 1 \<in> G \<and> k - 1 \<le> j"
    and "0 < k" "k \<le> 32" "G \<subseteq> {..<k}"
  shows "m AND FRAG_MAP_MASK = FRAG_MAP_MASK \<longleftrightarrow> G = {..<k}"
proof
  assume "m AND FRAG_MAP_MASK = FRAG_MAP_MASK"
  then have all: "bit m j" if "j < 32" for j using that by (simp add: FRAG_MAP_MASK_minus_1)
  have "j \<in> G" if j: "j < k" for j
  proof (cases "Suc j < k")
    case True
    then show ?thesis using all [of j] m assms(3) by auto
  next
    case False
    then have "k - 1 = j" using j by simp
    then show ?thesis using all [of j] m assms(3) j by auto
  qed
  then show "G = {..<k}" using assms(4) by auto
next
  assume G: "G = {..<k}"
  have "m = - 1"
  proof (rule bit_word_eqI)
    fix j :: nat assume "j < LENGTH(32)"
    then show "bit m j = bit (- 1 :: u32) j" using m G assms(2) by (cases "Suc j < k") auto
  qed
  then show "m AND FRAG_MAP_MASK = FRAG_MAP_MASK" by (simp add: FRAG_MAP_MASK_minus_1)
qed

text \<open>Storing chunk \<open>n\<close> writes exactly the bytes whose position divided by the chunk size is \<open>n\<close>.\<close>

lemma mem_store_chunk:
  assumes "0 < sz" "h + length dat \<le> length d" "j < length dat" "n * sz < length dat"
  shows "mem_store (h + n * sz) (chunk sz dat n) d ! (h + j) = (if j div sz = n then dat ! j else d ! (h + j))"
proof -
  have fit: "h + n * sz + length (chunk sz dat n) \<le> length d" using assms by (auto simp: length_chunk)
  have "j div sz = n \<longleftrightarrow> n * sz \<le> j \<and> j < n * sz + sz"
    using assms(1) dividend_less_div_times [of sz j] by (auto intro!: div_nat_eqI simp: algebra_simps)
  then have "j div sz = n \<longleftrightarrow> n * sz \<le> j \<and> j < n * sz + length (chunk sz dat n)"
    using assms(3) by (auto simp: length_chunk)
  moreover have "chunk sz dat n ! (j - n * sz) = dat ! j" if "n * sz \<le> j" "j < n * sz + length (chunk sz dat n)"
    using that assms(4) by (simp add: chunk_def length_chunk)
  ultimately show ?thesis using fit assms by (auto simp: nth_mem_store)
qed

lemma filled_store:
  assumes fm: "frame_ok fm" and dat: "datagram_ok fm sz dat" and fr: "filled fm sz dat G fr"
    and n: "n < n_chunks sz dat" and buf: "buf_ok buf" "buf_content buf = chunk sz dat n"
  obtains b where "buf_copy_range (fr_buf fr) (int n * int sz) buf 0 (b_len buf) = (True, b)"
    "filled fm sz dat (insert n G)
       (fr\<lparr>fr_buf := b, fr_timestamp := t,
           fr_map := fr_map fr OR push_bit n (if Suc n = n_chunks sz dat then FRAG_MAP_MASK else 1)\<rparr>)"
proof -
  let ?b0 = "fr_buf fr" and ?h = "frag_headroom fm" and ?k = "n_chunks sz dat"
  have sz: "0 < sz" "int (length dat) \<le> link_mtu fm" using dat by (auto simp: datagram_ok_def)
  have n': "n * sz < length dat" using n sz by (simp add: n_chunks_iff)
  have b0: "buf_ok ?b0" "buf_defined ?b0" "b_capacity ?b0 = BUF_SIZE fm" "b_offset ?b0 = ?h"
    using fr by (auto simp: filled_def work_buf_ok_def)
  have len: "b_len buf = int (length (chunk sz dat n))"
    using length_buf_content [OF buf(1)] buf_ok_bounds(2) [OF buf(1)] buf(2) by simp
  have chunk_end: "n * sz + length (chunk sz dat n) \<le> length dat"
    "Suc n = ?k \<Longrightarrow> n * sz + length (chunk sz dat n) = length dat"
    using n' last_chunk_iff [OF sz(1) n] by (auto simp: length_chunk)
  have room: "0 \<le> ?h" "?h + link_mtu fm \<le> BUF_SIZE fm"
    using frame_ok_room(1,2) [OF fm, of FRAME_HEADROOM_MARKER_FRAGMENT] fm
    by (auto simp: frag_headroom_def frame_ok_def)
  have fits: "?h + int n * int sz + b_len buf \<le> BUF_SIZE fm"
    using chunk_end(1) len sz(2) room(2) by (simp flip: of_nat_mult of_nat_add)
  from b0(1,2) obtain d where d: "b_data ?b0 = Some d" "length d = nat (BUF_SIZE fm)"
    using b0(3) by (cases rule: buf_ok_cases) (auto simp: buf_defined_def)
  define b where "b = snd (buf_copy_range ?b0 (int n * int sz) buf 0 (b_len buf))"
  have copy: "buf_copy_range ?b0 (int n * int sz) buf 0 (b_len buf) = (True, b)"
    using fits b0 buf_ok_bounds(2) [OF buf(1)] unfolding b_def
    by (simp add: buf_copy_range_def Let_def not_less)
  note copied = buf_copy_range_True [OF b0(1) buf(1) b0(2) copy]
  have pos: "nat (?h + int n * int sz) = nat ?h + n * sz"
    using room(1) by (simp add: nat_add_distrib flip: of_nat_mult)
  have data: "the (b_data b) = mem_store (nat ?h + n * sz) (chunk sz dat n) d"
    using copied(10) b0(4) d(1) buf(2) len by (simp add: pos)
  have blen: "b_len b \<le> int (length dat)" "?k - 1 \<in> insert n G \<Longrightarrow> b_len b = int (length dat)"
    using copied(6) fr chunk_end len n by (auto simp: filled_def simp flip: of_nat_mult of_nat_add)
  have bytes: "the (b_data b) ! (nat ?h + j) = dat ! j" if "j < length dat" "j div sz \<in> insert n G" for j
    unfolding data using that mem_store_chunk [OF sz(1) _ that(1) n'] fr d room sz(2)
    by (auto simp: filled_def nat_le_eq_zle)
  have "work_buf_ok fm b" using copied(4,5,8) b0(3) by (simp add: work_buf_ok_def)
  then show thesis
    using fr copied(7) b0(4) blen bytes map_insert [OF n] by (intro that [OF copy]) (auto simp: filled_def)
qed


text \<open>The first fragment of a datagram empties the buffer, a later one finds it prepared.\<close>

lemma slot_prepare:
  assumes fm: "frame_ok fm" and fr: "slot_rep fm sz dat G fr"
  obtains fr1 where "filled fm sz dat G fr1" "fragment_prepare fm fr (int sz) = Some fr1"
proof (cases "G = {}")
  case False
  with fr have "filled fm sz dat G fr" by (simp add: slot_rep_def)
  then show thesis by (intro that [of fr]) (auto simp: filled_def fragment_prepare_def)
next
  case True
  with fr have undef: "\<not> fr_defined fr" and w: "work_buf_ok fm (fr_buf fr)" by (auto simp: slot_rep_def)
  obtain b where b: "buf_init (fr_buf fr) (frag_headroom fm) = (True, b)" "work_buf_ok fm b" "b_len b = 0"
      "b_offset b = frag_headroom fm"
    unfolding frag_headroom_def using work_buf_init [OF fm w] by metis
  let ?fr1 = "fr\<lparr>fr_defined := True, max_frag_size := int sz, fr_map := 0, fr_buf := b\<rparr>"
  have "filled fm sz dat G ?fr1" using b True by (simp add: filled_def)
  then show thesis using undef b(1) by (intro that [of ?fr1])
    (simp_all add: fragment_prepare_def FRAME_HEADROOM_ADJ_def frag_headroom_def)
qed

lemma filled_content:
  assumes fm: "frame_ok fm" and dat: "datagram_ok fm sz dat" and fr: "filled fm sz dat {..<n_chunks sz dat} fr"
  shows "buf_content (fr_buf fr) = dat"
proof -
  let ?b = "fr_buf fr" and ?h = "nat (frag_headroom fm)"
  have b: "buf_ok ?b" "buf_defined ?b" "b_offset ?b = frag_headroom fm" using fr by (auto simp: filled_def work_buf_ok_def)
  have sz: "0 < sz" "dat \<noteq> []" using dat by (auto simp: datagram_ok_def)
  have "0 < n_chunks sz dat" using sz by (simp add: n_chunks_iff)
  then have len: "b_len ?b = int (length dat)" using fr by (auto simp: filled_def)
  from b(1,2) obtain d where d: "b_data ?b = Some d" "b_offset ?b + b_len ?b \<le> int (length d)" "0 \<le> b_offset ?b"
    by (cases rule: buf_ok_cases) (auto simp: buf_defined_def)
  have content: "buf_content ?b = mem_load ?h (length dat) d"
    using buf_content_block [OF b(1) d(1)] b(3) len by simp
  show ?thesis unfolding content
  proof (rule nth_equalityI)
    show len': "length (mem_load ?h (length dat) d) = length dat" using d b(3) len by simp
    fix i assume "i < length (mem_load ?h (length dat) d)"
    then have i: "i < length dat" using len' by simp
    then have "i div sz < n_chunks sz dat"
      using sz(1) by (simp add: n_chunks_iff) (metis div_times_less_eq_dividend le_less_trans)
    then have "d ! (?h + i) = dat ! i" using fr i d(1) by (auto simp: filled_def)
    then show "mem_load ?h (length dat) d ! i = dat ! i" using d b(3) len i by (simp add: nth_mem_load)
  qed
qed

lemma fragment_accept_law:
  assumes fm: "frame_ok fm" and dat: "datagram_ok fm sz dat" and fr: "slot_rep fm sz dat G fr"
    and G: "G \<subseteq> {..<n_chunks sz dat}" and n: "n < n_chunks sz dat"
    and buf: "buf_ok buf" "buf_content buf = chunk sz dat n"
    and ty: "ty = (if Suc n = n_chunks sz dat then FRAG_YES_LAST else FRAG_YES_NOTLAST)"
  obtains fr' b where "fragment_accept t fm fr buf ty (int n) (int sz) = Some (fr', b, None)"
    "slot_rep fm sz dat (if insert n G = {..<n_chunks sz dat} then {} else insert n G) fr'" "buf_ok b"
    "buf_content b = (if insert n G = {..<n_chunks sz dat} then dat else [])"
proof -
  let ?k = "n_chunks sz dat"
  obtain fr1 where fr1: "filled fm sz dat G fr1" "fragment_prepare fm fr (int sz) = Some fr1"
    by (rule slot_prepare [OF fm fr])
  obtain b where copy: "buf_copy_range (fr_buf fr1) (int n * int sz) buf 0 (b_len buf) = (True, b)"
    and fill: "filled fm sz dat (insert n G) (fr1\<lparr>fr_buf := b, fr_timestamp := t,
       fr_map := fr_map fr1 OR push_bit n (if Suc n = ?k then FRAG_MAP_MASK else 1)\<rparr>)"
    using filled_store [OF fm dat fr1(1) n buf] by blast
  define fr2 where "fr2 = fr1\<lparr>fr_buf := b, fr_timestamp := t,
       fr_map := fr_map fr1 OR push_bit n (if Suc n = ?k then FRAG_MAP_MASK else 1)\<rparr>"
  have "sz mod 4 = 0" using dat by (simp add: datagram_ok_def)
  then have "int sz mod 4 = 0" by presburger
  then have "int sz AND FRAG_SIZE_ROUND_MASK = 0" by (simp only: FRAG_SIZE_ROUND_MASK_3 mask_2)
  moreover have last: "ty = FRAG_YES_LAST \<longleftrightarrow> Suc n = ?k" by (auto simp: ty frag_types)
  ultimately have acc: "fragment_accept t fm fr buf ty (int n) (int sz) =
      Some (if fr_map fr2 AND FRAG_MAP_MASK = FRAG_MAP_MASK then (fr2\<lparr>fr_defined := False\<rparr>, fr_buf fr2, None)
            else (fr2, buf\<lparr>b_len := 0\<rparr>, None))"
    using copy by (simp add: fragment_accept_def fr1(2) fr2_def Let_def)
  have fill: "filled fm sz dat (insert n G) fr2" using fill by (simp add: fr2_def)
  have bits: "\<forall>j < 32. bit (fr_map fr2) j \<longleftrightarrow>
      j \<in> insert n G \<and> Suc j < ?k \<or> ?k - 1 \<in> insert n G \<and> ?k - 1 \<le> j"
    using fill unfolding filled_def by blast
  have k: "0 < ?k" "?k \<le> 32" "insert n G \<subseteq> {..<?k}" using n dat G by (auto simp: datagram_ok_def)
  note full = map_full_iff [OF bits k]
  have empty: "buf_ok (buf\<lparr>b_len := 0\<rparr>)" using buf(1) by simp
  have w: "work_buf_ok fm (fr_buf fr2)" "buf_ok (fr_buf fr2)" using fill by (auto simp: filled_def work_buf_ok_def)
  show thesis
  proof (cases "insert n G = {..<?k}")
    case True
    then have "buf_content (fr_buf fr2) = dat" using filled_content [OF fm dat, of fr2] fill by simp
    with True w acc full show thesis
      by (intro that [of "fr2\<lparr>fr_defined := False\<rparr>" "fr_buf fr2"]) (simp_all add: slot_rep_def)
  next
    case False
    with w acc full empty fill show thesis
      by (intro that [of fr2 "buf\<lparr>b_len := 0\<rparr>"]) (simp_all add: slot_rep_def buf_content_empty)
  qed
qed

subsection \<open>The reassembly table\<close>

text \<open>
  The specification: for each sequence number, the positions received since its last completion. A
  fragment that completes its datagram delivers it and empties the entry. \<open>k\<close> gives the number of
  fragments of each datagram.
\<close>

fun reassembly_run :: "(int \<Rightarrow> nat) \<Rightarrow> (int \<Rightarrow> nat set) \<Rightarrow> (int \<times> nat) list \<Rightarrow> int option list" where
  "reassembly_run k got [] = []"
| "reassembly_run k got ((s, n) # xs) =
     (if insert n (got s) = {..<k s} then Some s # reassembly_run k (got(s := {})) xs
      else None # reassembly_run k (got(s := insert n (got s))) xs)"

text \<open>The program: the contents of the buffers \<^verbatim>\<open>fragment_incoming\<close> returns for a sequence of packets.\<close>

fun incoming_run :: "frame \<Rightarrow> fragment_master \<Rightarrow> (int \<times> buffer) list \<Rightarrow> byte list list exec" where
  "incoming_run fm f [] = Some []"
| "incoming_run fm f ((t, b) # bs) = (do {
     (f, r, _) \<leftarrow> fragment_incoming t fm f b;
     rs \<leftarrow> incoming_run fm f bs;
     Some (buf_content r # rs) })"

text \<open>
  \<open>table_rep\<close>: the slots of the window from \<open>a\<close> on represent the table; numbers beyond the highest one seen
  have nothing received.
\<close>

definition entry_rep ::
  "frame \<Rightarrow> (int \<Rightarrow> nat) \<Rightarrow> (int \<Rightarrow> byte list) \<Rightarrow> int \<Rightarrow> bool \<Rightarrow> nat set \<Rightarrow> fragment \<Rightarrow> bool" where
  "entry_rep fm sz dat s seen G fr \<longleftrightarrow> G \<subseteq> {..<n_chunks (sz s) (dat s)} \<and> work_buf_ok fm (fr_buf fr)
     \<and> (if seen then slot_rep fm (sz s) (dat s) G fr else G = {})"

definition table_rep ::
  "frame \<Rightarrow> (int \<Rightarrow> nat) \<Rightarrow> (int \<Rightarrow> byte list) \<Rightarrow> int \<Rightarrow> int \<Rightarrow> int \<Rightarrow> fragment_list \<Rightarrow> (int \<Rightarrow> nat set) \<Rightarrow> bool" where
  "table_rep fm sz dat a i0 c l got \<longleftrightarrow> window l a i0 c
     \<and> (\<forall>d. 0 \<le> d \<and> d < 25 \<longrightarrow>
          entry_rep fm sz dat ((a + d) mod 256) (d \<le> c) (got ((a + d) mod 256)) (fl_fragments l ! slot i0 d))"

lemma entry_rep_touch:
  fixes e c d :: int
  assumes "entry_rep fm sz dat s (e \<le> c) G fr" "fr' = (if c < e \<and> e \<le> d then undef fr else fr)"
  shows "entry_rep fm sz dat s (e \<le> max c d) G fr'"
  using assms by (cases "e \<le> c"; cases "e \<le> d") (simp_all add: entry_rep_def slot_rep_def le_max_iff_disj)

lemma table_repD:
  "table_rep fm sz dat a i0 c l got \<Longrightarrow> 0 \<le> d \<Longrightarrow> d < 25 \<Longrightarrow>
   entry_rep fm sz dat ((a + d) mod 256) (d \<le> c) (got ((a + d) mod 256)) (fl_fragments l ! slot i0 d)"
  unfolding table_rep_def by blast

lemma table_rep_touch:
  assumes r: "table_rep fm sz dat a i0 c l got" and d: "0 \<le> d" "d < 25"
  obtains l' where "fragment_list_get_buf l ((a + d) mod 256) = Some (int (slot i0 d), l')"
    "table_rep fm sz dat a i0 (max c d) l' got"
proof -
  have w: "window l a i0 c" using r by (simp add: table_rep_def)
  obtain l' where l': "fragment_list_get_buf l ((a + d) mod 256) = Some (int (slot i0 d), l')"
      "window l' a i0 (max c d)" "window_to l i0 c d l'"
    by (rule fragment_list_get_buf_window [OF w d])
  have "table_rep fm sz dat a i0 (max c d) l' got"
    unfolding table_rep_def
  proof (intro conjI allI impI)
    fix e :: int assume e: "0 \<le> e \<and> e < 25"
    then show "entry_rep fm sz dat ((a + e) mod 256) (e \<le> max c d) (got ((a + e) mod 256))
        (fl_fragments l' ! slot i0 e)"
      using l'(3) unfolding window_to_def by (intro entry_rep_touch [OF table_repD [OF r]]) blast+
  qed (rule l'(2))
  with l'(1) show thesis by (rule that)
qed

lemma window_seq_inject:
  fixes a :: int
  assumes "0 \<le> d" "d < 25" "0 \<le> e" "e < 25"
  shows "(a + d) mod 256 = (a + e) mod 256 \<longleftrightarrow> d = e"
proof
  assume "(a + d) mod 256 = (a + e) mod 256"
  then obtain m where "d - e = 256 * m" by (auto simp: mod_eq_dvd_iff elim: dvdE)
  moreover from this have "m = 0" using assms by linarith
  ultimately show "d = e" by simp
qed simp

lemma table_rep_update:
  assumes r: "table_rep fm sz dat a i0 c l got" and d: "0 \<le> d" "d \<le> c" and s: "s = (a + d) mod 256"
    and fr: "slot_rep fm (sz s) (dat s) G fr" "G \<subseteq> {..<n_chunks (sz s) (dat s)}"
  shows "table_rep fm sz dat a i0 c (l\<lparr>fl_fragments := (fl_fragments l)[slot i0 d := fr]\<rparr>) (got(s := G))"
proof -
  have w: "window l a i0 c" using r by (simp add: table_rep_def)
  then have c: "c < 25" "length (fl_fragments l) = 25" by (auto simp: window_def list_ok_def)
  let ?l = "l\<lparr>fl_fragments := (fl_fragments l)[slot i0 d := fr]\<rparr>"
  have w': "window ?l a i0 c"
    using w by (simp add: window_def list_ok_def)
  show ?thesis unfolding table_rep_def
  proof (intro conjI allI impI)
    fix e :: int assume e: "0 \<le> e \<and> e < 25"
    have eq: "(a + e) mod 256 = s \<longleftrightarrow> e = d" unfolding s using e d c by (intro window_seq_inject) auto
    have slot: "slot i0 e = slot i0 d \<longleftrightarrow> e = d" using e d c by (intro slot_inject) auto
    show "entry_rep fm sz dat ((a + e) mod 256) (e \<le> c) ((got(s := G)) ((a + e) mod 256)) (fl_fragments ?l ! slot i0 e)"
    proof (cases "e = d")
      case True
      have "(got(s := G)) ((a + e) mod 256) = G" "fl_fragments ?l ! slot i0 e = fr"
        using True s slot_less [of i0 d] c(2) by auto
      moreover have "entry_rep fm sz dat s (d \<le> c) G fr" using fr d by (simp add: entry_rep_def slot_rep_def)
      ultimately show ?thesis unfolding True s [symmetric] by simp
    next
      case False
      then have "(got(s := G)) ((a + e) mod 256) = got ((a + e) mod 256)"
        "fl_fragments ?l ! slot i0 e = fl_fragments l ! slot i0 e" using eq slot by auto
      then show ?thesis using table_repD [OF r, of e] e by (simp only: simp_thms)
    qed
  qed (rule w')
qed


subsection \<open>One packet\<close>

lemma frag_wire_read:
  assumes "buf_ok buf" "buf_content buf = frag_wire s sz dat n"
  obtains buf' where "buf_read buf 4 = (Some (u32_bytes (frag_header s sz dat n)), buf')" "buf_ok buf'"
    "buf_content buf' = chunk sz dat n" "b_len buf' = int (length (chunk sz dat n))" "0 < b_len buf"
proof -
  have c: "buf_content buf = u32_bytes (frag_header s sz dat n) @ chunk sz dat n"
    using assms(2) by (simp add: frag_wire_def)
  obtain buf' where r: "buf_read buf 4 = (Some (u32_bytes (frag_header s sz dat n)), buf')" "buf_ok buf'"
      "buf_content buf' = chunk sz dat n"
    by (rule buf_read_prefix [OF assms(1) c, of 4]) auto
  have "nat (b_len buf) = 4 + length (chunk sz dat n)" using length_buf_content [OF assms(1)] c by simp
  then have "0 < b_len buf" by linarith
  moreover have "b_len buf' = int (length (chunk sz dat n))"
    using length_buf_content [OF r(2)] buf_ok_bounds(2) [OF r(2)] r(3) by simp
  ultimately show thesis using r by (intro that)
qed

text \<open>A genuine fragment reaches \<^const>\<open>fragment_accept\<close> with the sender's parameters.\<close>

lemma fragment_incoming_genuine:
  assumes dat: "datagram_ok fm sz dat" and s: "0 \<le> s" "s < 256" and n: "n < n_chunks sz dat"
    and buf: "buf_ok buf" "buf_content buf = frag_wire s sz dat n"
  obtains buf' where "buf_ok buf'" "buf_content buf' = chunk sz dat n"
    "\<forall>f. fragment_incoming t fm f buf = (do {
       (i, l) \<leftarrow> fragment_list_get_buf (incoming f) s;
       (frag, b, e) \<leftarrow> fragment_accept t fm (fl_fragments l ! nat i) buf'
          (if Suc n = n_chunks sz dat then FRAG_YES_LAST else FRAG_YES_NOTLAST) (int n) (int sz);
       Some (f\<lparr>incoming := l\<lparr>fl_fragments := (fl_fragments l)[nat i := frag]\<rparr>\<rparr>, b, e) })"
proof -
  let ?ty = "if Suc n = n_chunks sz dat then FRAG_YES_LAST else FRAG_YES_NOTLAST"
  let ?hd = "frag_header s sz dat n"
  have sz: "sz mod 4 = 0" "sz < 65536" "n < 32" "0 < sz" using dat n by (auto simp: datagram_ok_def)
  obtain buf' where r: "buf_read buf 4 = (Some (u32_bytes ?hd), buf')" "buf_ok buf'"
      "buf_content buf' = chunk sz dat n" "b_len buf' = int (length (chunk sz dat n))" "0 < b_len buf"
    by (rule frag_wire_read [OF buf])
  have ty: "?ty \<in> {FRAG_YES_NOTLAST, FRAG_YES_LAST}" by simp
  note dec = fragment_flags_decode [OF ty s sz(3,1,2), folded frag_header_def]
  have size: "(if ?ty = FRAG_YES_LAST
      then c_int (uint (push_bit FRAG_SIZE_ROUND_SHIFT (drop_bit FRAG_SIZE_SHIFT ?hd AND FRAG_SIZE_MASK)))
      else b_len buf') = int sz"
    using dec(4) last_chunk_iff [OF sz(4) n] r(4) by (auto simp: length_chunk frag_types)
  have "fragment_incoming t fm f buf = fragment_reassemble t fm f buf' ?hd ?ty" for f
    using r(1,5) ty by (simp add: fragment_incoming_def bytes_u32_of_u32 Let_def dec(1)) (auto simp: frag_types)
  moreover have "fragment_reassemble t fm f buf' ?hd ?ty = (do {
       (i, l) \<leftarrow> fragment_list_get_buf (incoming f) s;
       (frag, b, e) \<leftarrow> fragment_accept t fm (fl_fragments l ! nat i) buf' ?ty (int n) (int sz);
       Some (f\<lparr>incoming := l\<lparr>fl_fragments := (fl_fragments l)[nat i := frag]\<rparr>\<rparr>, b, e) })" for f
    unfolding fragment_reassemble_def Let_def dec(2,3) size ..
  ultimately show thesis by (intro that [OF r(2,3)]) simp
qed

lemma fragment_incoming_step:
  assumes fm: "frame_ok fm" and r: "table_rep fm sz dat a i0 c (incoming f) got"
    and d: "0 \<le> d" "d < 25" and s: "s = (a + d) mod 256" and dat: "datagram_ok fm (sz s) (dat s)"
    and n: "n < n_chunks (sz s) (dat s)" and buf: "buf_ok buf" "buf_content buf = frag_wire s (sz s) (dat s) n"
  defines "done \<equiv> insert n (got s) = {..<n_chunks (sz s) (dat s)}"
  obtains f' b where "fragment_incoming t fm f buf = Some (f', b, None)"
    "buf_content b = (if done then dat s else [])"
    "table_rep fm sz dat a i0 (max c d) (incoming f') (got(s := if done then {} else insert n (got s)))"
proof -
  have s': "0 \<le> s" "s < 256" unfolding s by simp_all
  obtain buf' where b': "buf_ok buf'" "buf_content buf' = chunk (sz s) (dat s) n"
    "\<forall>f. fragment_incoming t fm f buf = (do {
       (i, l) \<leftarrow> fragment_list_get_buf (incoming f) s;
       (frag, b, e) \<leftarrow> fragment_accept t fm (fl_fragments l ! nat i) buf'
          (if Suc n = n_chunks (sz s) (dat s) then FRAG_YES_LAST else FRAG_YES_NOTLAST) (int n) (int (sz s));
       Some (f\<lparr>incoming := l\<lparr>fl_fragments := (fl_fragments l)[nat i := frag]\<rparr>\<rparr>, b, e) })"
    by (rule fragment_incoming_genuine [OF dat s' n buf])
  obtain l where l: "fragment_list_get_buf (incoming f) s = Some (int (slot i0 d), l)"
      "table_rep fm sz dat a i0 (max c d) l got"
    using table_rep_touch [OF r d] unfolding s by metis
  have dm: "d \<le> max c d" by simp
  have slot: "slot_rep fm (sz s) (dat s) (got s) (fl_fragments l ! slot i0 d)"
    "got s \<subseteq> {..<n_chunks (sz s) (dat s)}"
    using table_repD [OF l(2) d] unfolding s [symmetric] by (simp_all add: entry_rep_def)
  obtain fr b where acc: "fragment_accept t fm (fl_fragments l ! slot i0 d) buf'
        (if Suc n = n_chunks (sz s) (dat s) then FRAG_YES_LAST else FRAG_YES_NOTLAST) (int n) (int (sz s))
        = Some (fr, b, None)"
      "slot_rep fm (sz s) (dat s) (if done then {} else insert n (got s)) fr"
      "buf_content b = (if done then dat s else [])"
    using fragment_accept_law [OF fm dat slot n b'(1,2) refl] unfolding done_def by metis
  have "table_rep fm sz dat a i0 (max c d) (l\<lparr>fl_fragments := (fl_fragments l)[slot i0 d := fr]\<rparr>)
      (got(s := if done then {} else insert n (got s)))"
    using slot(2) n by (intro table_rep_update [OF l(2) d(1) dm s acc(2)]) auto
  moreover have "fragment_incoming t fm f buf =
      Some (f\<lparr>incoming := l\<lparr>fl_fragments := (fl_fragments l)[slot i0 d := fr]\<rparr>\<rparr>, b, None)"
    using b'(3) l(1) acc(1) by simp
  ultimately show thesis using acc(3)
    by (intro that [of "f\<lparr>incoming := l\<lparr>fl_fragments := (fl_fragments l)[slot i0 d := fr]\<rparr>\<rparr>" b]) simp_all
qed


subsection \<open>Any sequence of fragments\<close>

text \<open>The packets \<open>bs\<close> carry the fragments \<open>xs\<close> of datagrams in the window from \<open>a\<close> on.\<close>

definition genuine_trace ::
  "frame \<Rightarrow> (int \<Rightarrow> nat) \<Rightarrow> (int \<Rightarrow> byte list) \<Rightarrow> int \<Rightarrow> (int \<times> nat) list \<Rightarrow> (int \<times> buffer) list \<Rightarrow> bool" where
  "genuine_trace fm sz dat a xs bs \<longleftrightarrow>
     list_all2 (\<lambda>(s, n) (t, b).
       (\<exists>d \<in> {0..<25}. s = (a + d) mod 256) \<and> datagram_ok fm (sz s) (dat s) \<and> n < n_chunks (sz s) (dat s)
       \<and> buf_ok b \<and> buf_content b = frag_wire s (sz s) (dat s) n) xs bs"

lemma incoming_run_refines:
  assumes "frame_ok fm" "table_rep fm sz dat a i0 c (incoming f) got" "genuine_trace fm sz dat a xs bs"
  shows "incoming_run fm f bs =
    Some (map (case_option [] dat) (reassembly_run (\<lambda>s. n_chunks (sz s) (dat s)) got xs))"
  using assms(3,2) unfolding genuine_trace_def
proof (induction xs bs arbitrary: f got c rule: list_all2_induct)
  case Nil
  then show ?case by simp
next
  case (Cons x xs tb bs)
  obtain s n t b where x: "x = (s, n)" "tb = (t, b)" by (metis surj_pair)
  with Cons.hyps obtain d where d: "0 \<le> d" "d < 25" "s = (a + d) mod 256" "datagram_ok fm (sz s) (dat s)"
    "n < n_chunks (sz s) (dat s)" "buf_ok b" "buf_content b = frag_wire s (sz s) (dat s) n" by auto
  obtain f' r where step: "fragment_incoming t fm f b = Some (f', r, None)"
      "buf_content r = (if insert n (got s) = {..<n_chunks (sz s) (dat s)} then dat s else [])"
      "table_rep fm sz dat a i0 (max c d) (incoming f')
         (got(s := if insert n (got s) = {..<n_chunks (sz s) (dat s)} then {} else insert n (got s)))"
    by (rule fragment_incoming_step [OF assms(1) Cons.prems d])
  show ?case using Cons.IH [OF step(3)] step(1,2)
    by (cases "insert n (got s) = {..<n_chunks (sz s) (dat s)}") (simp_all add: x fun_upd_def)
qed

text \<open>A receiver with nothing under reassembly whose highest sequence number lies in the window.\<close>

definition receiver_idle :: "frame \<Rightarrow> fragment_list \<Rightarrow> bool" where
  "receiver_idle fm l \<longleftrightarrow> list_ok l
     \<and> list_all (\<lambda>fr. \<not> fr_defined fr \<and> work_buf_ok fm (fr_buf fr)) (fl_fragments l)"

lemma receiver_idle_rep:
  assumes idle: "receiver_idle fm l" and c: "0 \<le> c" "c < 25" "fl_seq_id l = (a + c) mod 256"
  shows "table_rep fm sz dat a (fl_index l - c) c l (\<lambda>_. {})"
proof -
  have "window l a (fl_index l - c) c"
    using idle c by (simp add: window_def receiver_idle_def list_ok_def)
  moreover have "\<not> fr_defined (fl_fragments l ! slot i0 d) \<and> work_buf_ok fm (fr_buf (fl_fragments l ! slot i0 d))"
    for i0 d using idle slot_less [of i0 d] by (simp add: receiver_idle_def list_ok_def list_all_length)
  ultimately show ?thesis by (simp add: table_rep_def entry_rep_def slot_rep_def)
qed

text \<open>A sequence number 25 or more away from the highest one restarts the window at it.\<close>

definition far_from_window :: "fragment_list \<Rightarrow> int \<Rightarrow> bool" where
  "far_from_window l s \<longleftrightarrow>
     (case modulo_subtract s (fl_seq_id l) N_SEQ_ID of None \<Rightarrow> False | Some q \<Rightarrow> \<bar>q\<bar> \<ge> N_FRAG_BUF)"

definition window_restart :: "fragment_list \<Rightarrow> int \<Rightarrow> fragment_list" where
  "window_restart l s = l\<lparr>fl_fragments := map undef (fl_fragments l), fl_index := 0, fl_seq_id := s\<rparr>"

lemma get_buf_far:
  assumes "far_from_window l s" "0 \<le> s" "s < 256"
  shows "fragment_list_get_buf l s = fragment_list_get_buf (window_restart l s) s"
proof -
  obtain q where q: "modulo_subtract s (fl_seq_id l) 256 = Some q" "\<bar>q\<bar> \<ge> 25"
    using assms(1) by (auto simp: far_from_window_def N_SEQ_ID_def N_FRAG_BUF_def split: option.splits)
  moreover have "modulo_subtract s s 256 = Some 0" using assms by (simp add: modulo_subtract_def)
  moreover have "undef = (\<lambda>fr. fr\<lparr>fr_defined := False\<rparr>)" by (simp add: undef_def fun_eq_iff)
  ultimately show ?thesis
    by (simp add: fragment_list_get_buf_def N_SEQ_ID_def N_FRAG_BUF_def window_restart_def)
qed


lemma fragment_incoming_far:
  assumes "far_from_window (incoming f) s" "0 \<le> s" "s < 256" "datagram_ok fm sz dat" "n < n_chunks sz dat"
    "buf_ok buf" "buf_content buf = frag_wire s sz dat n"
  shows "fragment_incoming t fm f buf =
           fragment_incoming t fm (f\<lparr>incoming := window_restart (incoming f) s\<rparr>) buf"
  by (rule fragment_incoming_genuine [OF assms(4,2,3,5,6,7), of t])
    (simp add: get_buf_far [OF assms(1-3)])

lemma receiver_idle_restart:
  "receiver_idle fm l \<Longrightarrow> 0 \<le> s \<Longrightarrow> s < 256 \<Longrightarrow> receiver_idle fm (window_restart l s)"
  by (auto simp: receiver_idle_def window_restart_def list_ok_def list_all_iff)

lemma incoming_refines:
  assumes fm: "frame_ok fm" and idle: "receiver_idle fm (incoming f)"
    and start: "(\<exists>c \<in> {0..<25}. fl_seq_id (incoming f) = (a + c) mod 256)
                \<or> far_from_window (incoming f) (fst (hd xs))"
    and trace: "genuine_trace fm sz dat a xs bs"
  shows "incoming_run fm f bs =
    Some (map (case_option [] dat) (reassembly_run (\<lambda>s. n_chunks (sz s) (dat s)) (\<lambda>_. {}) xs))"
proof (cases "\<exists>c \<in> {0..<25}. fl_seq_id (incoming f) = (a + c) mod 256")
  case True
  then obtain c where "0 \<le> c" "c < 25" "fl_seq_id (incoming f) = (a + c) mod 256" by auto
  then show ?thesis by (rule incoming_run_refines [OF fm receiver_idle_rep [OF idle] trace])
next
  case False
  show ?thesis
  proof (cases xs)
    case Nil
    then show ?thesis using trace by (auto simp: genuine_trace_def)
  next
    case (Cons x xs')
    then obtain s n t b bs' where x: "x = (s, n)" "bs = (t, b) # bs'"
      using trace by (cases x) (auto simp: genuine_trace_def list_all2_Cons1)
    then obtain d where d: "0 \<le> d" "d < 25" "s = (a + d) mod 256" "datagram_ok fm (sz s) (dat s)"
      "n < n_chunks (sz s) (dat s)" "buf_ok b" "buf_content b = frag_wire s (sz s) (dat s) n"
      using trace Cons by (auto simp: genuine_trace_def)
    have s: "0 \<le> s" "s < 256" unfolding d(3) by simp_all
    have far: "far_from_window (incoming f) s" using start False Cons x by auto
    let ?f = "f\<lparr>incoming := window_restart (incoming f) s\<rparr>"
    have "incoming_run fm f bs = incoming_run fm ?f bs"
      unfolding x(2) incoming_run.simps fragment_incoming_far [OF far s d(4-7)] ..
    moreover have "receiver_idle fm (incoming ?f)" using receiver_idle_restart [OF idle s] by simp
    moreover have "fl_seq_id (incoming ?f) = (a + d) mod 256" by (simp add: window_restart_def d(3))
    ultimately show ?thesis
      using incoming_run_refines [OF fm receiver_idle_rep [OF _ d(1,2)] trace, of ?f] by simp
  qed
qed

end
