(* ===== verification/Fragment_System.thy ===== *)
theory Fragment_System
  imports Fragment_Reassembly
begin

section \<open>Fragmentation end to end\<close>

text \<open>
  Properties that need both sides or the whole receiver: a datagram sent in fragments arrives whatever the
  order of its fragments, no packet makes the receiver abort, and what the check of an unfragmented
  packet's header lets through.
\<close>

subsection \<open>Initialisation\<close>

lemma alloc_work_buf:
  assumes "frame_ok fm"
  obtains b where "alloc_buf (BUF_SIZE fm) = Some b" "work_buf_ok fm b" "b_len b = 0"
proof -
  have bs: "0 \<le> BUF_SIZE fm" "BUF_SIZE fm < BUF_SIZE_MAX" using frame_ok_room(3,4) [OF assms] by auto
  then have lt: "BUF_SIZE fm < 2 ^ 64" by (simp add: BUF_SIZE_MAX_def)
  have "buf_size_valid (BUF_SIZE fm)" using bs lt by simp
  then obtain b where b: "alloc_buf (BUF_SIZE fm) = Some b" by (simp add: alloc_buf_def)
  show thesis using alloc_buf_ok [OF b bs(1) lt] by (intro that [OF b]) (simp_all add: work_buf_ok_def)
qed

lemma fragment_bufs_init_law:
  assumes "frame_ok fm"
  shows "\<exists>frs'. fragment_bufs_init fm frs = Some frs' \<and> length frs' = length frs
           \<and> list_all (\<lambda>fr. work_buf_ok fm (fr_buf fr)) frs'
           \<and> map fr_defined frs' = map fr_defined frs"
proof (induction frs)
  case (Cons fr frs)
  obtain b where "alloc_buf (BUF_SIZE fm) = Some b" "work_buf_ok fm b" by (rule alloc_work_buf [OF assms])
  with Cons show ?case by auto
qed simp

lemma and_255: "x AND 255 = x mod (256 :: int)"
  using take_bit_eq_mask [of 8 x] by (simp add: take_bit_eq_mod mask_eq_exp_minus_1)

lemma fragment_frame_init_law:
  assumes "frame_ok fm"
  obtains f where "fragment_frame_init (fst (fragment_init t random fm0)) fm = Some f" "sender_ok fm f"
    "receiver_idle fm (incoming f)"
proof -
  let ?f0 = "fst (fragment_init t random fm0)"
  obtain b where b: "alloc_buf (BUF_SIZE fm) = Some b" "work_buf_ok fm b" by (rule alloc_work_buf [OF assms])
  obtain frs where frs: "fragment_bufs_init fm (fl_fragments (incoming ?f0)) = Some frs" "length frs = 25"
      "list_all (\<lambda>fr. work_buf_ok fm (fr_buf fr)) frs" "map fr_defined frs = replicate 25 False"
    using fragment_bufs_init_law [OF assms, of "fl_fragments (incoming ?f0)"]
    by (auto simp: fragment_init_def N_FRAG_BUF_def clear_fragment_def)
  have "\<not> fr_defined fr" if "fr \<in> set frs" for fr
  proof -
    have "fr_defined fr \<in> set (map fr_defined frs)" using that by simp
    then show ?thesis unfolding frs(4) by simp
  qed
  then have "receiver_idle fm ((incoming ?f0)\<lparr>fl_fragments := frs\<rparr>)"
    using frs by (auto simp: receiver_idle_def list_ok_def list_all_iff fragment_init_def)
  then show thesis using b frs(1)
    by (intro that [of "?f0\<lparr>incoming := (incoming ?f0)\<lparr>fl_fragments := frs\<rparr>, outgoing := b, outgoing_return := b\<rparr>"])
      (simp_all add: fragment_frame_init_def fragment_list_buf_init_def sender_ok_def fragment_init_def
        N_SEQ_ID_def and_255)
qed

subsection \<open>One datagram\<close>

lemma reassembly_run_single:
  assumes "distinct ns" "ns \<noteq> []" "set ns \<inter> got s = {}" "set ns \<union> got s = {..<k s}"
  shows "reassembly_run k got (map (Pair s) ns) = replicate (length ns - 1) None @ [Some s]"
  using assms
proof (induction ns arbitrary: got)
  case (Cons n ns)
  show ?case
  proof (cases "ns = []")
    case True
    with Cons.prems show ?thesis by simp
  next
    case False
    then obtain m where "m \<in> set ns" by (meson last_in_set)
    then have "m \<noteq> n" "m \<notin> got s" "m \<in> {..<k s}" using Cons.prems by auto
    then have "insert n (got s) \<noteq> {..<k s}" by blast
    moreover have "reassembly_run k (got(s := insert n (got s))) (map (Pair s) ns) =
        replicate (length ns - 1) None @ [Some s]"
      using Cons.prems False by (intro Cons.IH) auto
    ultimately show ?thesis using False by (cases ns) simp_all
  qed
qed simp

text \<open>An idle receiver is ready for any sequence number: either it is near its window or far from it.\<close>

lemma start_cases:
  assumes "list_ok l" "0 \<le> s" "s < 256"
  obtains (near) a c d where "0 \<le> c" "c < 25" "fl_seq_id l = (a + c) mod 256" "0 \<le> d" "d < 25" "s = (a + d) mod 256"
  | (far) "far_from_window l s"
proof -
  have r: "0 \<le> fl_seq_id l" "fl_seq_id l < 256" using assms(1) by (auto simp: list_ok_def)
  obtain q where q: "modulo_subtract s (fl_seq_id l) 256 = Some q" "(fl_seq_id l + q) mod 256 = s"
    by (rule modulo_subtract_Some [OF assms(2,3) r])
  consider "25 \<le> \<bar>q\<bar>" | "0 \<le> q" "q < 25" | "- 25 < q" "q < 0" by linarith
  then show thesis
  proof cases
    case 1
    then show thesis using q(1) by (intro far) (simp add: far_from_window_def N_SEQ_ID_def N_FRAG_BUF_def)
  next
    case 2
    then show thesis using q(2) r by (intro near [of 0 "fl_seq_id l" q]) auto
  next
    case 3
    have "(s + (- q)) mod 256 = (fl_seq_id l + q - q) mod 256"
      unfolding q(2) [symmetric] by (simp add: mod_diff_left_eq)
    then have "fl_seq_id l = (s + (- q)) mod 256" using r by simp
    with 3 assms show thesis by (intro near [of "- q" s 0]) auto
  qed
qed


text \<open>The packets \<open>rs\<close> carry, in the order \<open>ps\<close>, what the buffers \<open>bs\<close> hold.\<close>

definition delivered :: "buffer list \<Rightarrow> nat list \<Rightarrow> (int \<times> buffer) list \<Rightarrow> bool" where
  "delivered bs ps rs \<longleftrightarrow>
     list_all2 (\<lambda>p (t, r). p < length bs \<and> buf_ok r \<and> buf_content r = buf_content (bs ! p)) ps rs"

lemma delivered_genuine:
  assumes "delivered bs ps rs" "map buf_content bs = map (frag_wire s sz dat) [0 ..< n_chunks sz dat]"
    and "datagram_ok fm sz dat" "0 \<le> d" "d < 25" "s = (a + d) mod 256"
  shows "genuine_trace fm (\<lambda>_. sz) (\<lambda>_. dat) a (map (Pair s) ps) rs"
proof -
  have len: "length bs = n_chunks sz dat" using arg_cong [OF assms(2), of length] by simp
  have nth: "buf_content (bs ! p) = frag_wire s sz dat p" if "p < length bs" for p
    using arg_cong [OF assms(2), of "\<lambda>l. l ! p"] that len by simp
  have "\<exists>d \<in> {0..<25}. s = (a + d) mod 256" using assms(4-6) by auto
  with assms(1,3) nth len show ?thesis
    by (auto simp: genuine_trace_def delivered_def list.rel_map elim!: list_all2_mono)
qed

lemma fragment_send_few:
  assumes "frame_ok fm" "PAYLOAD_SIZE_DYNAMIC fm < b_len buf" "fragment_send fm f buf = Some (bs, f', None)"
  obtains k where "optimal_fragment_size (b_len buf) (PAYLOAD_SIZE_DYNAMIC fm) = Some (int k)"
    "b_len buf \<le> int k * 32"
proof -
  have pay: "4 \<le> PAYLOAD_SIZE_DYNAMIC fm" using frame_ok_room(5) [OF assms(1)] by linarith
  obtain z where z: "optimal_fragment_size (b_len buf) (PAYLOAD_SIZE_DYNAMIC fm) = Some z" "0 < z"
    using optimal_fragment_size_law [OF pay assms(2)] by blast
  then have "z = int (nat z)" by simp
  moreover have "b_len buf \<le> z * 32"
    using assms pay z(1)
    by (rule_tac ccontr) (auto simp: fragment_send_def fragment_outgoing_def MAX_FRAGS_def bind_eq_Some_conv)
  ultimately show thesis using z by (intro that [of "nat z"]) simp_all
qed

text \<open>C7: a datagram that \<^verbatim>\<open>fragment_outgoing\<close> and \<^verbatim>\<open>fragment_ready_to_send\<close> send in fragments is
  reassembled by every receiver with nothing under reassembly, whatever the order in which the fragments
  arrive: every packet but the last yields nothing, the last yields the datagram.\<close>

theorem fragment_roundtrip:
  assumes fm: "frame_ok fm" "sender_ok fm f"
    and buf: "buf_ok buf" "b_len buf \<le> link_mtu fm" "PAYLOAD_SIZE_DYNAMIC fm < b_len buf"
    and pay: "PAYLOAD_SIZE_DYNAMIC fm < 65536"
    and send: "fragment_send fm f buf = Some (bs, f', None)"
    and rec: "frame_ok fm'" "b_len buf \<le> link_mtu fm'" "receiver_idle fm' (incoming g)"
    and net: "distinct ps" "set ps = {..<length bs}" "delivered bs ps rs"
  shows "incoming_run fm' g rs = Some (replicate (length bs - 1) [] @ [buf_content buf])"
proof -
  let ?dat = "buf_content buf" and ?s = "(outgoing_seq_id f + 1) mod N_SEQ_ID"
  obtain k where k: "optimal_fragment_size (b_len buf) (PAYLOAD_SIZE_DYNAMIC fm) = Some (int k)"
      "b_len buf \<le> int k * 32" by (rule fragment_send_few [OF fm(1) buf(3) send])
  have wire: "map buf_content bs = map (frag_wire ?s k ?dat) [0 ..< n_chunks k ?dat]"
    and n32: "n_chunks k ?dat \<le> 32" and kp: "0 < k" "k mod 4 = 0" "int k \<le> PAYLOAD_SIZE_DYNAMIC fm"
    by (rule fragment_send_chunks [OF fm buf k]; use send in simp)+
  have len: "length bs = n_chunks k ?dat" using arg_cong [OF wire, of length] by simp
  have dlen: "int (length ?dat) = b_len buf" using buf(1) by simp
  have "0 < length ?dat" using dlen buf(3) kp by linarith
  then have ne: "?dat \<noteq> []" by simp
  have "k < 65536" using kp(3) pay by linarith
  with kp(1,2) ne n32 rec(2) have dat: "datagram_ok fm' k ?dat" by (simp add: datagram_ok_def dlen)
  have "0 < length bs" unfolding len using kp(1) \<open>0 < length ?dat\<close> by (simp add: n_chunks_iff)
  then have "0 \<in> set ps" unfolding net(2) by (rule lessThan_iff [THEN iffD2])
  then have ps: "ps \<noteq> []" by (cases ps) simp_all
  have "length ps = length bs" using net(1,2) distinct_card [of ps] by simp
  then have run: "reassembly_run (\<lambda>_. n_chunks k ?dat) (\<lambda>_. {}) (map (Pair ?s) ps) =
      replicate (length bs - 1) None @ [Some ?s]"
    using reassembly_run_single [OF net(1) ps, of "\<lambda>_. {}" ?s "\<lambda>_. n_chunks k ?dat"] net(2) len by simp
  have s: "0 \<le> ?s" "?s < 256" by (simp_all add: N_SEQ_ID_def)
  have hd: "fst (hd (map (Pair ?s) ps)) = ?s" using ps by (cases ps) simp_all
  have "list_ok (incoming g)" using rec(3) by (simp add: receiver_idle_def)
  then have "\<exists>a d. 0 \<le> d \<and> d < 25 \<and> ?s = (a + d) mod 256 \<and>
      ((\<exists>c \<in> {0..<25}. fl_seq_id (incoming g) = (a + c) mod 256) \<or> far_from_window (incoming g) ?s)"
    by (rule start_cases [OF _ s]) (use s in \<open>fastforce intro: exI [of _ ?s] exI [of _ 0]\<close>)+
  then obtain a d where a: "0 \<le> d" "d < 25" "?s = (a + d) mod 256"
      "(\<exists>c \<in> {0..<25}. fl_seq_id (incoming g) = (a + c) mod 256) \<or> far_from_window (incoming g) ?s" by blast
  note trace = delivered_genuine [OF net(3) wire dat a(1-3)]
  have start: "(\<exists>c \<in> {0..<25}. fl_seq_id (incoming g) = (a + c) mod 256)
      \<or> far_from_window (incoming g) (fst (hd (map (Pair ?s) ps)))" unfolding hd by (rule a(4))
  show ?thesis using incoming_refines [OF rec(1,3) start trace] by (simp add: run)
qed


definition demo_fragment_frame :: frame where
  "demo_fragment_frame = \<lparr>link_mtu = 144, link_mtu_dynamic = 144, extra_frame = 44, extra_buffer = 4,
     extra_tun = 0, extra_link = 2, align_flags = 0, align_adjust = 0\<rparr>"

definition demo_datagram :: buffer where
  "demo_datagram = \<lparr>b_capacity = 120, b_offset = 0, b_len = 120, b_data = Some (replicate 120 7)\<rparr>"

lemma demo_fragment_frame_ok:
  "frame_ok demo_fragment_frame" "PAYLOAD_SIZE_DYNAMIC demo_fragment_frame = 100" "link_mtu demo_fragment_frame = 144"
  by (simp_all add: frame_ok_def frame_defs demo_fragment_frame_def BUF_SIZE_MAX_def)

lemma demo_datagram_ok: "buf_ok demo_datagram" "b_len demo_datagram = 120" "buf_content demo_datagram = replicate 120 7"
  by (simp_all add: buf_ok_def demo_datagram_def BUF_SIZE_MAX_def buf_content_def buf_defs mem_load_def)

theorem fragment_roundtrip_witness:
  "\<exists>f bs f'. fragment_frame_init (fst (fragment_init 0 5 demo_fragment_frame)) demo_fragment_frame = Some f
     \<and> fragment_send demo_fragment_frame f demo_datagram = Some (bs, f', None) \<and> length bs = 2
     \<and> incoming_run demo_fragment_frame f [(7, bs ! 1), (8, bs ! 0)] = Some [[], replicate 120 7]"
proof -
  let ?fm = demo_fragment_frame
  obtain f where f: "fragment_frame_init (fst (fragment_init 0 5 ?fm)) ?fm = Some f" "sender_ok ?fm f"
      "receiver_idle ?fm (incoming f)"
    by (rule fragment_frame_init_law [OF demo_fragment_frame_ok(1)])
  have sz: "optimal_fragment_size (b_len demo_datagram) (PAYLOAD_SIZE_DYNAMIC ?fm) = Some (int 60)"
    by (simp add: demo_datagram_ok demo_fragment_frame_ok optimal_fragment_size_def FRAG_SIZE_ROUND_MASK_3
        and_not_3 c_div_def c_mod_def)
  have cond: "b_len demo_datagram \<le> link_mtu ?fm" "PAYLOAD_SIZE_DYNAMIC ?fm < b_len demo_datagram"
    "b_len demo_datagram \<le> int 60 * 32"
    by (simp_all add: demo_datagram_ok demo_fragment_frame_ok)
  obtain bs f' where bs: "fragment_send ?fm f demo_datagram = Some (bs, f', None)" "list_all buf_ok bs"
      "map buf_content bs = map (frag_wire ((outgoing_seq_id f + 1) mod N_SEQ_ID) 60 (buf_content demo_datagram))
         [0 ..< n_chunks 60 (buf_content demo_datagram)]"
    using fragment_send_chunks [OF demo_fragment_frame_ok(1) f(2) demo_datagram_ok(1) cond(1,2) sz cond(3)]
    by metis
  have len: "length bs = 2"
    using arg_cong [OF bs(3), of length] by (simp add: demo_datagram_ok n_chunks_def)
  then have net: "delivered bs [1, 0] [(7, bs ! 1), (8, bs ! 0)]" "set [1, 0] = {..<length bs}"
    using bs(2) by (auto simp: delivered_def list_all_length)
  have "incoming_run ?fm f [(7, bs ! 1), (8, bs ! 0)] =
      Some (replicate (length bs - 1) [] @ [buf_content demo_datagram])"
    by (rule fragment_roundtrip [OF demo_fragment_frame_ok(1) f(2) demo_datagram_ok(1) cond(1,2) _ bs(1)
          demo_fragment_frame_ok(1) cond(1) f(3) _ net(2,1)]) (simp_all add: demo_fragment_frame_ok)
  then show ?thesis using f(1) bs(1) len by (simp add: demo_datagram_ok)
qed

definition frag_packet :: "int \<Rightarrow> nat \<Rightarrow> byte list \<Rightarrow> nat \<Rightarrow> buffer" where
  "frag_packet s sz dat n =
     \<lparr>b_capacity = int (length (frag_wire s sz dat n)), b_offset = 0, b_len = int (length (frag_wire s sz dat n)),
      b_data = Some (frag_wire s sz dat n)\<rparr>"

lemma frag_packet_ok:
  assumes "length (frag_wire s sz dat n) < 1000000"
  shows "buf_ok (frag_packet s sz dat n)" "buf_content (frag_packet s sz dat n) = frag_wire s sz dat n"
  using assms by (simp_all add: frag_packet_def buf_ok_def BUF_SIZE_MAX_def buf_content_def buf_defs mem_load_def)

text \<open>C8: the receiver implements the reassembly table. From any state with nothing under reassembly, for
  any sequence of genuine fragments of datagrams in a window of 25 sequence numbers, interleaved, reordered
  and duplicated in any way, \<^verbatim>\<open>fragment_incoming\<close> returns at each step exactly what the table returns: the
  complete datagram when the last missing fragment arrives, and nothing otherwise. The highest sequence
  number so far lies in the window, or far from that of the first packet.\<close>

theorem fragment_reassembly_refines:
  assumes fm: "frame_ok fm" and idle: "receiver_idle fm (incoming f)"
    and start: "(\<exists>c \<in> {0..<25}. fl_seq_id (incoming f) = (a + c) mod 256)
                \<or> far_from_window (incoming f) (fst (hd xs))"
    and trace: "genuine_trace fm sz dat a xs bs"
  shows "incoming_run fm f bs =
    Some (map (case_option [] dat) (reassembly_run (\<lambda>s. n_chunks (sz s) (dat s)) (\<lambda>_. {}) xs))"
  using assms by (rule incoming_refines)

theorem fragment_reassembly_refines_witness:
  "\<exists>f. fragment_frame_init (fst (fragment_init 0 5 demo_fragment_frame)) demo_fragment_frame = Some f
     \<and> incoming_run demo_fragment_frame f
         (map (\<lambda>(s, n). (0, frag_packet s 4 (replicate 8 (word_of_int s)) n)) [(3, 1), (4, 0), (4, 0), (3, 0), (4, 1)])
       = Some [[], [], [], replicate 8 3, replicate 8 4]"
proof -
  let ?fm = demo_fragment_frame and ?dat = "\<lambda>s. replicate 8 (word_of_int s)"
  let ?xs = "[(3, 1), (4, 0), (4, 0), (3, 0), (4, 1)] :: (int \<times> nat) list"
  obtain f where f: "fragment_frame_init (fst (fragment_init 0 5 ?fm)) ?fm = Some f" "receiver_idle ?fm (incoming f)"
    by (rule fragment_frame_init_law [OF demo_fragment_frame_ok(1)])
  have seq: "fl_seq_id (incoming f) = 0"
    using f(1) by (auto simp: fragment_frame_init_def fragment_list_buf_init_def fragment_init_def bind_eq_Some_conv)
  have small: "length (frag_wire s 4 (replicate 8 x) n) < 1000000" for s n and x :: byte
    by (simp add: frag_wire_def length_chunk)
  have trace: "genuine_trace ?fm (\<lambda>_. 4) ?dat 0 ?xs (map (\<lambda>(s, n). (0, frag_packet s 4 (?dat s) n)) ?xs)"
    using frag_packet_ok [OF small]
    by (simp add: genuine_trace_def datagram_ok_def n_chunks_def demo_fragment_frame_def)
  have "(\<exists>c \<in> {0..<25}. fl_seq_id (incoming f) = (0 + c) mod 256) \<or> far_from_window (incoming f) (fst (hd ?xs))"
    using seq by (intro disjI1 bexI [of _ 0]) simp_all
  from fragment_reassembly_refines [OF demo_fragment_frame_ok(1) f(2) this trace] f(1) show ?thesis
    by (simp add: n_chunks_def lessThan_nat_numeral lessThan_Suc insert_commute)
qed


subsection \<open>Arbitrary packets\<close>

definition receiver_ok :: "frame \<Rightarrow> fragment_master \<Rightarrow> bool" where
  "receiver_ok fm f \<longleftrightarrow> list_ok (incoming f)
     \<and> (\<forall>j < 25. work_buf_ok fm (fr_buf (fl_fragments (incoming f) ! j)))"

lemma slot_surj: "j < 25 \<Longrightarrow> \<exists>e. 0 \<le> e \<and> e < 25 \<and> j = slot i0 e"
proof (intro exI [of _ "(int j - i0) mod 25"] conjI)
  assume j: "j < 25"
  have "(i0 + (int j - i0) mod 25) mod 25 = (i0 + (int j - i0)) mod 25" by (rule mod_add_right_eq)
  also have "\<dots> = int j" using j by simp
  finally show "j = slot i0 ((int j - i0) mod 25)" by (simp add: slot_def)
qed simp_all

lemma fragment_list_get_buf_near:
  assumes "window l a i0 c" "0 \<le> d" "d < 25"
  shows "\<exists>i l'. fragment_list_get_buf l ((a + d) mod 256) = Some (int i, l') \<and> i < 25 \<and> list_ok l'
           \<and> (\<forall>j < 25. fr_buf (fl_fragments l' ! j) = fr_buf (fl_fragments l ! j))"
proof -
  obtain l' where l': "fragment_list_get_buf l ((a + d) mod 256) = Some (int (slot i0 d), l')"
      "window l' a i0 (max c d)" "window_to l i0 c d l'"
    by (rule fragment_list_get_buf_window [OF assms])
  have "fr_buf (fl_fragments l' ! j) = fr_buf (fl_fragments l ! j)" if j: "j < 25" for j
  proof -
    obtain e where e: "0 \<le> e" "e < 25" "j = slot i0 e" using slot_surj [OF j] by blast
    have "fl_fragments l' ! slot i0 e =
        (if c < e \<and> e \<le> d then undef (fl_fragments l ! slot i0 e) else fl_fragments l ! slot i0 e)"
      using l'(3) e by (simp only: window_to_def)
    then show ?thesis by (simp add: e(3))
  qed
  moreover have "list_ok l'" using l'(2) by (simp add: window_def)
  ultimately show ?thesis using l'(1) slot_less by blast
qed

lemma fragment_list_get_buf_total:
  assumes "list_ok l" "0 \<le> s" "s < 256"
  obtains i l' where "fragment_list_get_buf l s = Some (int i, l')" "i < 25" "list_ok l'"
    "\<forall>j < 25. fr_buf (fl_fragments l' ! j) = fr_buf (fl_fragments l ! j)"
  using assms
proof (cases rule: start_cases)
  case (near a c d)
  have "window l a (fl_index l - c) c" using assms(1) near by (simp add: window_def list_ok_def)
  from fragment_list_get_buf_near [OF this near(4,5)] near(6) show thesis using that by blast
next
  case far
  let ?l = "window_restart l s"
  have "window ?l s 0 0" using assms by (simp add: window_def list_ok_def window_restart_def)
  from fragment_list_get_buf_near [OF this, of 0] obtain i l' where
    "fragment_list_get_buf ?l s = Some (int i, l')" "i < 25" "list_ok l'"
    "\<forall>j < 25. fr_buf (fl_fragments l' ! j) = fr_buf (fl_fragments ?l ! j)" using assms by auto
  moreover have "fr_buf (fl_fragments ?l ! j) = fr_buf (fl_fragments l ! j)" if "j < 25" for j
    using that assms(1) by (simp add: window_restart_def list_ok_def)
  ultimately show thesis using get_buf_far [OF far assms(2,3)] by (intro that) auto
qed

lemma fragment_accept_total:
  assumes fm: "frame_ok fm" and fr: "work_buf_ok fm (fr_buf fr)" and buf: "buf_ok buf"
  shows "\<exists>fr' b e. fragment_accept t fm fr buf ty n sz = Some (fr', b, e) \<and> work_buf_ok fm (fr_buf fr') \<and> buf_ok b"
proof (cases "sz AND FRAG_SIZE_ROUND_MASK = 0")
  case False
  then show ?thesis using fr buf by (simp add: fragment_accept_def)
next
  case True
  obtain b where b: "buf_init (fr_buf fr) (frame_headroom fm FRAME_HEADROOM_MARKER_FRAGMENT) = (True, b)"
      "work_buf_ok fm b" by (rule work_buf_init [OF fm fr])
  obtain fr1 where fr1: "fragment_prepare fm fr sz = Some fr1" "work_buf_ok fm (fr_buf fr1)"
    using b fr by (cases "fr_defined fr \<and> max_frag_size fr = sz")
      (auto simp: fragment_prepare_def FRAME_HEADROOM_ADJ_def)
  obtain ok c where c: "buf_copy_range (fr_buf fr1) (n * sz) buf 0 (b_len buf) = (ok, c)" by fastforce
  have w: "buf_ok (fr_buf fr1)" "buf_defined (fr_buf fr1)" using fr1(2) by (auto simp: work_buf_ok_def)
  have "work_buf_ok fm c"
  proof (cases ok)
    case True
    then show ?thesis using buf_copy_range_True [OF w(1) buf w(2)] c fr1(2) by (simp add: work_buf_ok_def)
  next
    case False
    then have "c = fr_buf fr1" using c by (auto simp: buf_copy_range_def Let_def split: if_splits)
    then show ?thesis using fr1(2) by simp
  qed
  then show ?thesis using True fr1 c buf by (simp add: fragment_accept_def Let_def work_buf_ok_def)
qed

lemma fragment_reassemble_total:
  assumes fm: "frame_ok fm" and f: "receiver_ok fm f" and buf: "buf_ok buf"
  shows "\<exists>f' b e. fragment_reassemble t fm f buf flags ty = Some (f', b, e) \<and> receiver_ok fm f' \<and> buf_ok b"
proof -
  define s where "s = uint (drop_bit FRAG_SEQ_ID_SHIFT flags AND FRAG_SEQ_ID_MASK)"
  have "s = uint (drop_bit FRAG_SEQ_ID_SHIFT flags) mod 256"
    unfolding s_def frag_masks using uint_and_mask [of "uint (drop_bit FRAG_SEQ_ID_SHIFT flags)" 8] by simp
  then have s: "0 \<le> s" "s < 256" by simp_all
  obtain i l where l: "fragment_list_get_buf (incoming f) s = Some (int i, l)" "i < 25" "list_ok l"
      "\<forall>j < 25. fr_buf (fl_fragments l ! j) = fr_buf (fl_fragments (incoming f) ! j)"
    using fragment_list_get_buf_total [OF _ s, of "incoming f"] f by (auto simp: receiver_ok_def)
  have "work_buf_ok fm (fr_buf (fl_fragments l ! i))" using l f by (simp add: receiver_ok_def)
  note acc = fragment_accept_total [OF fm this buf]
  show ?thesis
    unfolding fragment_reassemble_def Let_def s_def [symmetric]
    using l f acc [of t ty "uint (drop_bit FRAG_ID_SHIFT flags AND FRAG_ID_MASK)"
        "if ty = FRAG_YES_LAST then c_int (uint (push_bit FRAG_SIZE_ROUND_SHIFT
           (drop_bit FRAG_SIZE_SHIFT flags AND FRAG_SIZE_MASK))) else b_len buf"]
    by (auto simp: receiver_ok_def list_ok_def nth_list_update)
qed

text \<open>C9: no packet whatsoever makes \<^verbatim>\<open>fragment_incoming\<close> abort: from a well-formed receiver, and whatever
  bytes a well-formed buffer holds, it returns, the receiver is well formed again and so is the buffer it
  hands on.\<close>

theorem fragment_incoming_never_aborts:
  assumes "frame_ok fm" "receiver_ok fm f" "buf_ok buf"
  shows "\<exists>f' b e. fragment_incoming t fm f buf = Some (f', b, e) \<and> receiver_ok fm f' \<and> buf_ok b"
proof (cases "0 < b_len buf")
  case False
  then show ?thesis using assms by (simp add: fragment_incoming_def)
next
  case True
  obtain r buf' where r: "buf_read buf 4 = (r, buf')" by fastforce
  show ?thesis
  proof (cases r)
    case None
    then have "buf' = buf" using buf_read_None_same [OF assms(3), of 4 buf'] r by simp
    then show ?thesis using True None r assms by (simp add: fragment_incoming_def)
  next
    case (Some bs)
    then have "buf_ok buf'" using buf_read_Some(5) [OF assms(3)] r by blast
    then show ?thesis
      using True Some r assms fragment_reassemble_total [OF assms(1,2) \<open>buf_ok buf'\<close>, of t]
      by (simp add: fragment_incoming_def Let_def)
  qed
qed


lemma receiver_idle_ok: "receiver_idle fm (incoming f) \<Longrightarrow> receiver_ok fm f"
  by (simp add: receiver_idle_def receiver_ok_def list_ok_def list_all_length)

theorem fragment_incoming_never_aborts_witness:
  "\<exists>f f' b e. fragment_frame_init (fst (fragment_init 0 5 demo_fragment_frame)) demo_fragment_frame = Some f
     \<and> fragment_incoming 0 demo_fragment_frame f (frag_packet 9 4 (replicate 200 1) 49) = Some (f', b, e)
     \<and> buf_ok b"
proof -
  obtain f where f: "fragment_frame_init (fst (fragment_init 0 5 demo_fragment_frame)) demo_fragment_frame = Some f"
      "receiver_idle demo_fragment_frame (incoming f)"
    by (rule fragment_frame_init_law [OF demo_fragment_frame_ok(1)])
  have "buf_ok (frag_packet 9 4 (replicate 200 1) 49)"
    by (rule frag_packet_ok) (simp add: frag_wire_def length_chunk)
  from fragment_incoming_never_aborts [OF demo_fragment_frame_ok(1) receiver_idle_ok [OF f(2)] this, of 0] f(1)
  show ?thesis by blast
qed

text \<open>the check for spurious flags on an unfragmented packet applies the field masks without their
  shifts. It looks at the low eight bits only: a packet of type \<^verbatim>\<open>FRAG_WHOLE\<close> is passed on whatever its
  fragment number, its size field and the two high bits of its sequence number say.\<close>

theorem spurious_whole_flags_accepted:
  assumes "buf_ok buf" "buf_content buf = u32_bytes flags @ payload" "flags AND 0xff = 0"
  shows "\<exists>b. fragment_incoming t fm f buf = Some (f, b, None) \<and> buf_content b = payload"
proof -
  obtain b where r: "buf_read buf 4 = (Some (u32_bytes flags), b)" "buf_content b = payload"
    by (rule buf_read_prefix [OF assms(1,2), of 4]) auto
  have "nat (b_len buf) = 4 + length payload" using length_buf_content [OF assms(1)] assms(2) by simp
  then have pos: "0 < b_len buf" by linarith
  have "flags AND 3 = (flags AND 0xff) AND 3" by (simp add: and.assoc)
  then have ty: "flags AND 3 = 0" using assms(3) by simp
  have "FRAG_SEQ_ID_MASK OR FRAG_ID_MASK = 0xff" by (simp add: FRAG_SEQ_ID_MASK_def FRAG_ID_MASK_def)
  then show ?thesis using r pos ty assms(3)
    by (simp add: fragment_incoming_def bytes_u32_of_u32 FRAG_TYPE_SHIFT_def FRAG_TYPE_MASK_def FRAG_WHOLE_def)
qed

definition demo_spurious :: buffer where
  "demo_spurious = \<lparr>b_capacity = 6, b_offset = 0, b_len = 6, b_data = Some (u32_bytes 0x7C00 @ [1, 2])\<rparr>"

theorem spurious_whole_flags_accepted_witness:
  "(drop_bit FRAG_ID_SHIFT (0x7C00 :: u32)) AND FRAG_ID_MASK = 31
   \<and> (\<exists>b. fragment_incoming 0 demo_fragment_frame (fst (fragment_init 0 5 demo_fragment_frame)) demo_spurious
            = Some (fst (fragment_init 0 5 demo_fragment_frame), b, None)
          \<and> buf_content b = [1, 2])"
proof -
  have "buf_ok demo_spurious" "buf_content demo_spurious = u32_bytes 0x7C00 @ [1, 2]"
    by (simp_all add: demo_spurious_def buf_ok_def BUF_SIZE_MAX_def buf_content_def buf_defs mem_load_def)
  from spurious_whole_flags_accepted [OF this, of 0 demo_fragment_frame "fst (fragment_init 0 5 demo_fragment_frame)"] show ?thesis
    by (simp add: FRAG_ID_SHIFT_def FRAG_ID_MASK_def)
qed

end
