(* ===== verification/Hash_Table.thy ===== *)
theory Hash_Table
  imports Integers
begin

section \<open>Hash tables (list.h, list.c)\<close>

text \<open>
  Tables with chained buckets, generic in the key and value pointers. A bucket is the list of its elements;
  an element found is moved to the head of its bucket. A key is \<^const>\<open>None\<close> when an iterator has marked
  the element for deletion (\<^verbatim>\<open>key = NULL\<close>); comparing with such a key dereferences a null pointer.
  \<^verbatim>\<open>hash_function\<close> and \<^verbatim>\<open>compare_function\<close> are fields, as in the code.
\<close>

record ('k, 'v) hash_element =
  he_value :: 'v
  he_key :: "'k option"
  he_hash_value :: u32

record ('k, 'v) hash =
  n_buckets :: int
  n_elements :: int
  hmask :: int
  hiv :: u32
  hash_function :: "'k \<Rightarrow> u32 \<Rightarrow> u32"
  compare_function :: "'k \<Rightarrow> 'k \<Rightarrow> bool"
  buckets :: "('k, 'v) hash_element list list"

definition hash_init ::
  "int \<Rightarrow> u32 \<Rightarrow> ('k \<Rightarrow> u32 \<Rightarrow> u32) \<Rightarrow> ('k \<Rightarrow> 'k \<Rightarrow> bool) \<Rightarrow> ('k, 'v) hash exec" where
  "hash_init n iv hf cf = (do {
     assert_c (n > 0);
     p \<leftarrow> adjust_power_of_2 (word_of_int n);
     let nb = c_int (uint p);
     Some \<lparr>n_buckets = nb, n_elements = 0, hmask = nb - 1, hiv = iv, hash_function = hf,
           compare_function = cf, buckets = replicate (nat nb) []\<rparr> })"

definition hash_value :: "('k, 'v) hash \<Rightarrow> 'k \<Rightarrow> u32" where
  "hash_value h k = hash_function h k (hiv h)"

definition hash_n_elements :: "('k, 'v) hash \<Rightarrow> int" where
  "hash_n_elements h = n_elements h"

definition hash_n_buckets :: "('k, 'v) hash \<Rightarrow> int" where
  "hash_n_buckets h = n_buckets h"

text \<open>The bucket pointer \<^verbatim>\<open>&hash->buckets[hv & hash->mask]\<close> as an index.\<close>

definition hash_bucket :: "('k, 'v) hash \<Rightarrow> u32 \<Rightarrow> nat" where
  "hash_bucket h hv = unat (hv AND word_of_int (hmask h))"

definition set_bucket :: "('k, 'v) hash \<Rightarrow> nat \<Rightarrow> ('k, 'v) hash_element list \<Rightarrow> ('k, 'v) hash" where
  "set_bucket h b xs = h\<lparr>buckets := (buckets h)[b := xs]\<rparr>"

text \<open>The search loop of \<^verbatim>\<open>hash_lookup_fast\<close> and \<^verbatim>\<open>hash_remove_fast\<close>: the position of the first match.\<close>

fun bucket_find ::
  "('k \<Rightarrow> 'k \<Rightarrow> bool) \<Rightarrow> 'k \<Rightarrow> u32 \<Rightarrow> ('k, 'v) hash_element list \<Rightarrow> nat option exec" where
  "bucket_find cf k hv [] = Some None"
| "bucket_find cf k hv (he # hes) =
     (if hv = he_hash_value he then
        (case he_key he of
           None \<Rightarrow> None
         | Some k' \<Rightarrow> if cf k k' then Some (Some 0) else map_option (map_option Suc) (bucket_find cf k hv hes))
      else map_option (map_option Suc) (bucket_find cf k hv hes))"

definition remove_at :: "nat \<Rightarrow> 'a list \<Rightarrow> 'a list" where
  "remove_at i xs = take i xs @ drop (Suc i) xs"

definition hash_lookup_fast ::
  "('k, 'v) hash \<Rightarrow> nat \<Rightarrow> 'k \<Rightarrow> u32 \<Rightarrow> (('k, 'v) hash_element option \<times> ('k, 'v) hash) exec" where
  "hash_lookup_fast h b k hv = (do {
     found \<leftarrow> bucket_find (compare_function h) k hv (buckets h ! b);
     Some (case found of
             None \<Rightarrow> (None, h)
           | Some i \<Rightarrow>
               (let xs = buckets h ! b in
                (Some (xs ! i), set_bucket h b (xs ! i # remove_at i xs)))) })"

definition hash_lookup :: "('k, 'v) hash \<Rightarrow> 'k \<Rightarrow> ('v option \<times> ('k, 'v) hash) exec" where
  "hash_lookup h k = (do {
     let hv = hash_value h k;
     (he, h) \<leftarrow> hash_lookup_fast h (hash_bucket h hv) k hv;
     Some (map_option he_value he, h) })"

definition hash_add_fast :: "('k, 'v) hash \<Rightarrow> nat \<Rightarrow> 'k \<Rightarrow> u32 \<Rightarrow> 'v \<Rightarrow> ('k, 'v) hash" where
  "hash_add_fast h b k hv v =
     (set_bucket h b (\<lparr>he_value = v, he_key = Some k, he_hash_value = hv\<rparr> # buckets h ! b))
       \<lparr>n_elements := n_elements h + 1\<rparr>"

definition hash_remove_fast :: "('k, 'v) hash \<Rightarrow> nat \<Rightarrow> 'k \<Rightarrow> u32 \<Rightarrow> (bool \<times> ('k, 'v) hash) exec" where
  "hash_remove_fast h b k hv = (do {
     found \<leftarrow> bucket_find (compare_function h) k hv (buckets h ! b);
     Some (case found of
             None \<Rightarrow> (False, h)
           | Some i \<Rightarrow>
               (True, (set_bucket h b (remove_at i (buckets h ! b)))\<lparr>n_elements := n_elements h - 1\<rparr>)) })"

definition hash_remove :: "('k, 'v) hash \<Rightarrow> 'k \<Rightarrow> (bool \<times> ('k, 'v) hash) exec" where
  "hash_remove h k = (let hv = hash_value h k in hash_remove_fast h (hash_bucket h hv) k hv)"

text \<open>After a successful lookup the element lies at the head of its bucket, where its value is replaced.\<close>

definition hash_add :: "('k, 'v) hash \<Rightarrow> 'k \<Rightarrow> 'v \<Rightarrow> bool \<Rightarrow> (bool \<times> ('k, 'v) hash) exec" where
  "hash_add h k v replace = (do {
     let hv = hash_value h k;
     let b = hash_bucket h hv;
     (he, h) \<leftarrow> hash_lookup_fast h b k hv;
     Some (case he of
             Some he \<Rightarrow>
               if replace then (True, set_bucket h b (he\<lparr>he_value := v\<rparr> # tl (buckets h ! b)))
               else (False, h)
           | None \<Rightarrow> (True, hash_add_fast h b k hv v)) })"

subsection \<open>Well-formed tables\<close>

text \<open>
  \<open>rep\<close> says which keys count as equal: \<^verbatim>\<open>compare_function\<close> compares representatives and the hash value
  depends on the representative only. An element lies in the bucket of its hash value, and no two elements
  have equal keys.
\<close>

definition functions_ok :: "('k \<Rightarrow> 'r) \<Rightarrow> ('k, 'v) hash \<Rightarrow> bool" where
  "functions_ok rep h \<longleftrightarrow>
     (\<forall>k k'. compare_function h k k' \<longleftrightarrow> rep k = rep k')
     \<and> (\<forall>k k'. rep k = rep k' \<longrightarrow> hash_value h k = hash_value h k')"

definition elem_rep :: "('k \<Rightarrow> 'r) \<Rightarrow> ('k, 'v) hash_element \<Rightarrow> 'r" where
  "elem_rep rep he = rep (the (he_key he))"

definition bucket_ok :: "('k \<Rightarrow> 'r) \<Rightarrow> ('k, 'v) hash \<Rightarrow> nat \<Rightarrow> bool" where
  "bucket_ok rep h b \<longleftrightarrow>
     (\<forall>he \<in> set (buckets h ! b). \<exists>k. he_key he = Some k \<and> he_hash_value he = hash_value h k
        \<and> hash_bucket h (hash_value h k) = b)
     \<and> distinct (map (elem_rep rep) (buckets h ! b))"

definition shape_ok :: "('k, 'v) hash \<Rightarrow> bool" where
  "shape_ok h \<longleftrightarrow> (\<exists>j < 31. n_buckets h = 2 ^ j) \<and> hmask h = n_buckets h - 1
     \<and> length (buckets h) = nat (n_buckets h)"

definition hash_ok :: "('k \<Rightarrow> 'r) \<Rightarrow> ('k, 'v) hash \<Rightarrow> bool" where
  "hash_ok rep h \<longleftrightarrow> functions_ok rep h \<and> shape_ok h
     \<and> (\<forall>b < length (buckets h). bucket_ok rep h b)
     \<and> n_elements h = int (sum_list (map length (buckets h)))"

text \<open>The finite map a table stands for.\<close>

definition bucket_map :: "('k \<Rightarrow> 'r) \<Rightarrow> ('k, 'v) hash_element list \<Rightarrow> 'r \<Rightarrow> 'v option" where
  "bucket_map rep xs = map_of (map (\<lambda>he. (elem_rep rep he, he_value he)) xs)"

definition hash_abs :: "('k \<Rightarrow> 'r) \<Rightarrow> ('k, 'v) hash \<Rightarrow> 'r \<Rightarrow> 'v option" where
  "hash_abs rep h = bucket_map rep (concat (buckets h))"

lemma hash_bucket_less:
  assumes "shape_ok h"
  shows "hash_bucket h hv < length (buckets h)"
proof -
  obtain j where j: "j < 31" "n_buckets h = 2 ^ j" "hmask h = 2 ^ j - 1" "length (buckets h) = nat (2 ^ j)"
    using assms by (auto simp: shape_ok_def)
  have "(word_of_int (hmask h) :: u32) = mask j" using j by (simp add: mask_eq_exp_minus_1)
  then have "hash_bucket h hv = unat (take_bit j hv)" by (simp add: hash_bucket_def take_bit_eq_mask)
  also have "\<dots> < 2 ^ j" by (simp add: unsigned_take_bit_eq take_bit_nat_less_exp)
  finally show ?thesis using j by (simp add: nat_power_eq)
qed


subsection \<open>Buckets as association lists\<close>

lemma bucket_map_simps [simp]:
  "bucket_map rep [] = Map.empty"
  "bucket_map rep (he # hes) = (bucket_map rep hes)(elem_rep rep he \<mapsto> he_value he)"
  by (simp_all add: bucket_map_def)

lemma bucket_map_append: "bucket_map rep (xs @ ys) = bucket_map rep ys ++ bucket_map rep xs"
  by (simp add: bucket_map_def)

lemma bucket_map_None: "bucket_map rep xs r = None \<longleftrightarrow> r \<notin> elem_rep rep ` set xs"
  by (simp add: bucket_map_def map_of_eq_None_iff image_image)

lemma bucket_map_first:
  "bucket_map rep xs r = map_option (\<lambda>i. he_value (xs ! i)) (first_index (\<lambda>he. elem_rep rep he = r) xs)"
  by (induction xs) (auto simp: option.map_comp comp_def)

lemma bucket_map_concat:
  assumes "b < length xss" "\<And>i. i < length xss \<Longrightarrow> i \<noteq> b \<Longrightarrow> bucket_map rep (xss ! i) r = None"
  shows "bucket_map rep (concat xss) r = bucket_map rep (xss ! b) r"
  using assms
proof (induction xss arbitrary: b)
  case (Cons xs xss)
  show ?case
  proof (cases b)
    case 0
    have "bucket_map rep ys r = None" if "ys \<in> set xss" for ys
      using that Cons.prems(2) [of "Suc i" for i] 0 by (force simp: in_set_conv_nth)
    then have "bucket_map rep (concat xss) r = None" by (auto simp: bucket_map_None)
    then show ?thesis using 0 by (auto simp: bucket_map_append map_add_def split: option.split)
  next
    case (Suc b')
    have "bucket_map rep (concat xss) r = bucket_map rep (xss ! b') r"
      using Cons.prems(1) Cons.prems(2) [of "Suc i" for i] Suc by (intro Cons.IH) auto
    moreover have "bucket_map rep xs r = None" using Cons.prems(2) [of 0] Suc by simp
    ultimately show ?thesis using Suc by (simp add: bucket_map_append map_add_def split: option.split)
  qed
qed simp

text \<open>Moving an element to the front changes nothing, as long as the keys are distinct.\<close>

lemma remove_at_split: "i < length xs \<Longrightarrow> \<exists>ys zs. xs = ys @ xs ! i # zs \<and> remove_at i xs = ys @ zs \<and> length ys = i"
  by (intro exI [of _ "take i xs"] exI [of _ "drop (Suc i) xs"]) (simp add: remove_at_def id_take_nth_drop)

lemma bucket_map_remove:
  assumes "i < length xs" "distinct (map (elem_rep rep) xs)"
  shows "bucket_map rep (remove_at i xs) = (bucket_map rep xs)(elem_rep rep (xs ! i) := None)"
proof -
  obtain ys zs where s: "xs = ys @ xs ! i # zs" "remove_at i xs = ys @ zs" using remove_at_split [OF assms(1)] by blast
  have "distinct (map (elem_rep rep) (ys @ xs ! i # zs))" using assms(2) s(1) by simp
  then have n: "bucket_map rep ys (elem_rep rep (xs ! i)) = None" "bucket_map rep zs (elem_rep rep (xs ! i)) = None"
    by (auto simp: bucket_map_None)
  have "bucket_map rep (remove_at i xs) = (bucket_map rep (ys @ xs ! i # zs))(elem_rep rep (xs ! i) := None)"
    unfolding s(2) using n by (auto simp: bucket_map_append map_add_def fun_eq_iff split: option.split)
  then show ?thesis using s(1) by simp
qed

lemma set_remove_at: "i < length xs \<Longrightarrow> set (remove_at i xs) \<subseteq> set xs"
  by (auto simp: remove_at_def dest: in_set_takeD in_set_dropD)

lemma remove_at_distinct:
  assumes "i < length xs" "distinct (map f xs)"
  shows "distinct (map f (remove_at i xs))" "f (xs ! i) \<notin> set (map f (remove_at i xs))"
proof -
  obtain ys zs where s: "xs = ys @ xs ! i # zs" "remove_at i xs = ys @ zs" using remove_at_split [OF assms(1)] by blast
  have "distinct (map f (ys @ xs ! i # zs))" using assms(2) s(1) by simp
  then show "distinct (map f (remove_at i xs))" "f (xs ! i) \<notin> set (map f (remove_at i xs))"
    unfolding s(2) by auto
qed

lemma length_remove_at: "i < length xs \<Longrightarrow> length (remove_at i xs) = length xs - 1"
  by (simp add: remove_at_def)


subsection \<open>Tables as finite maps\<close>

lemma bucket_find_law:
  assumes f: "functions_ok rep h"
    and xs: "\<forall>he \<in> set xs. \<exists>k'. he_key he = Some k' \<and> he_hash_value he = hash_value h k'"
  shows "bucket_find (compare_function h) k (hash_value h k) xs =
           Some (first_index (\<lambda>he. elem_rep rep he = rep k) xs)"
  using xs
proof (induction xs)
  case (Cons he xs)
  then obtain k' where k': "he_key he = Some k'" "he_hash_value he = hash_value h k'" by auto
  have "elem_rep rep he = rep k \<longleftrightarrow> compare_function h k k'"
    using f k'(1) by (auto simp: functions_ok_def elem_rep_def)
  moreover have "hash_value h k = hash_value h k'" if "compare_function h k k'"
    using f that unfolding functions_ok_def by blast
  ultimately show ?case using Cons k' by auto
qed simp

lemma hash_okD:
  assumes "hash_ok rep h" "b < length (buckets h)" "he \<in> set (buckets h ! b)"
  obtains k where "he_key he = Some k" "he_hash_value he = hash_value h k"
    "hash_bucket h (hash_value h k) = b" "elem_rep rep he = rep k"
  using assms by (force simp: hash_ok_def bucket_ok_def elem_rep_def)

lemma hash_ok_elem:
  assumes "hash_ok rep h" "b < length (buckets h)" "he \<in> set (buckets h ! b)"
  shows "\<exists>k. he_key he = Some k \<and> he_hash_value he = hash_value h k \<and> hash_bucket h (hash_value h k) = b"
  by (rule hash_okD [OF assms]) blast

lemma hash_ok_distinct: "hash_ok rep h \<Longrightarrow> b < length (buckets h) \<Longrightarrow> distinct (map (elem_rep rep) (buckets h ! b))"
  by (simp add: hash_ok_def bucket_ok_def)

lemma hash_abs_bucket:
  assumes "hash_ok rep h"
  shows "hash_abs rep h (rep k) = bucket_map rep (buckets h ! hash_bucket h (hash_value h k)) (rep k)"
  unfolding hash_abs_def
proof (rule bucket_map_concat)
  show "hash_bucket h (hash_value h k) < length (buckets h)"
    using assms by (simp add: hash_ok_def hash_bucket_less)
  fix i assume i: "i < length (buckets h)" "i \<noteq> hash_bucket h (hash_value h k)"
  show "bucket_map rep (buckets h ! i) (rep k) = None"
    unfolding bucket_map_None
  proof
    assume "rep k \<in> elem_rep rep ` set (buckets h ! i)"
    then obtain he where he: "he \<in> set (buckets h ! i)" "elem_rep rep he = rep k" by auto
    then obtain k' where k': "hash_bucket h (hash_value h k') = i" "rep k' = rep k"
      using hash_okD [OF assms i(1) he(1)] by metis
    then have "hash_value h k' = hash_value h k" using assms unfolding hash_ok_def functions_ok_def by blast
    with k'(1) i(2) show False by simp
  qed
qed

lemma hash_abs_range:
  assumes ok: "hash_ok rep h" and r: "hash_abs rep h r \<noteq> None"
  shows "r \<in> range rep"
proof -
  have "r \<in> elem_rep rep ` set (concat (buckets h))" using r unfolding hash_abs_def bucket_map_None by blast
  then obtain xs he where x: "xs \<in> set (buckets h)" "he \<in> set xs" "r = elem_rep rep he" by auto
  then obtain b where b: "b < length (buckets h)" "he \<in> set (buckets h ! b)" by (auto simp: in_set_conv_nth)
  then obtain k where "elem_rep rep he = rep k" using hash_okD [OF ok b] by metis
  then show ?thesis using x(3) by simp
qed

lemma hash_abs_range_Some: "hash_ok rep h \<Longrightarrow> hash_abs rep h r = Some v \<Longrightarrow> r \<in> range rep"
  by (rule hash_abs_range) auto

lemma hash_abs_eqI:
  assumes "hash_ok rep h" "\<And>k. hash_abs rep h (rep k) = m (rep k)" "\<And>r. m r \<noteq> None \<Longrightarrow> r \<in> range rep"
  shows "hash_abs rep h = m"
proof
  fix r
  show "hash_abs rep h r = m r"
  proof (cases "r \<in> range rep")
    case True
    then show ?thesis using assms(2) by auto
  next
    case False
    then have "hash_abs rep h r = None" "m r = None"
      using hash_abs_range [OF assms(1), of r] assms(3) [of r] by metis+
    then show ?thesis by simp
  qed
qed

text \<open>Replacing one bucket, with the count adjusted.\<close>

definition put_bucket :: "('k, 'v) hash \<Rightarrow> nat \<Rightarrow> ('k, 'v) hash_element list \<Rightarrow> ('k, 'v) hash" where
  "put_bucket h b xs =
     (set_bucket h b xs)\<lparr>n_elements := n_elements h - int (length (buckets h ! b)) + int (length xs)\<rparr>"

lemma put_bucket_simps [simp]:
  "buckets (put_bucket h b xs) = (buckets h)[b := xs]" "hash_value (put_bucket h b xs) = hash_value h"
  "hash_bucket (put_bucket h b xs) = hash_bucket h" "compare_function (put_bucket h b xs) = compare_function h"
  "n_elements (put_bucket h b xs) = n_elements h - int (length (buckets h ! b)) + int (length xs)"
  "n_buckets (put_bucket h b xs) = n_buckets h" "hmask (put_bucket h b xs) = hmask h"
  by (simp_all add: put_bucket_def set_bucket_def hash_value_def hash_bucket_def fun_eq_iff)

lemma put_bucket_frame [simp]:
  "functions_ok rep (put_bucket h b xs) = functions_ok rep h" "shape_ok (put_bucket h b xs) = shape_ok h"
  by (simp_all add: functions_ok_def shape_ok_def)

lemma put_bucket_ok:
  assumes ok: "hash_ok rep h" and b: "b < length (buckets h)"
    and xs: "\<forall>he \<in> set xs. \<exists>k. he_key he = Some k \<and> he_hash_value he = hash_value h k
               \<and> hash_bucket h (hash_value h k) = b" "distinct (map (elem_rep rep) xs)"
  shows "hash_ok rep (put_bucket h b xs)"
proof -
  let ?h = "put_bucket h b xs"
  have "functions_ok rep ?h" "shape_ok ?h"
    using ok by (simp_all add: hash_ok_def)
  moreover have "bucket_ok rep ?h c" if "c < length (buckets ?h)" for c
    using ok xs b that by (cases "c = b") (simp_all add: hash_ok_def bucket_ok_def)
  moreover have "length (buckets h ! b) \<le> sum_list (map length (buckets h))"
    using b by (intro member_le_sum_list) simp_all
  then have "n_elements ?h = int (sum_list (map length (buckets ?h)))"
    using ok b by (simp add: hash_ok_def map_update sum_list_update of_nat_diff)
  ultimately show ?thesis by (simp add: hash_ok_def)
qed

lemma put_bucket_abs:
  assumes ok: "hash_ok rep h" "hash_ok rep (put_bucket h b xs)" and b: "b < length (buckets h)"
  shows "hash_abs rep (put_bucket h b xs) (rep k) =
    (if hash_bucket h (hash_value h k) = b then bucket_map rep xs (rep k) else hash_abs rep h (rep k))"
  using b by (simp add: hash_abs_bucket [OF ok(2)] hash_abs_bucket [OF ok(1)])


subsection \<open>The operations\<close>

text \<open>What a search in the bucket of \<open>k\<close> finds, in terms of the map.\<close>

lemma bucket_find_cases:
  assumes ok: "hash_ok rep h" and b: "b = hash_bucket h (hash_value h k)"
  obtains (missing) "bucket_find (compare_function h) k (hash_value h k) (buckets h ! b) = Some None"
      "hash_abs rep h (rep k) = None"
  | (found) i where "bucket_find (compare_function h) k (hash_value h k) (buckets h ! b) = Some (Some i)"
      "i < length (buckets h ! b)" "elem_rep rep (buckets h ! b ! i) = rep k"
      "hash_abs rep h (rep k) = Some (he_value (buckets h ! b ! i))"
proof -
  have bl: "b < length (buckets h)" unfolding b using ok by (simp add: hash_ok_def hash_bucket_less)
  have f: "functions_ok rep h" using ok by (simp add: hash_ok_def)
  have find: "bucket_find (compare_function h) k (hash_value h k) (buckets h ! b) =
      Some (first_index (\<lambda>he. elem_rep rep he = rep k) (buckets h ! b))"
    using hash_ok_elem [OF ok bl] by (intro bucket_find_law [OF f]) blast
  have abs: "hash_abs rep h (rep k) =
      map_option (\<lambda>i. he_value (buckets h ! b ! i)) (first_index (\<lambda>he. elem_rep rep he = rep k) (buckets h ! b))"
    unfolding hash_abs_bucket [OF ok] b [symmetric] by (rule bucket_map_first)
  show thesis
  proof (cases "first_index (\<lambda>he. elem_rep rep he = rep k) (buckets h ! b)")
    case None
    then show thesis using find abs by (intro missing) simp_all
  next
    case (Some i)
    have "i < length (buckets h ! b)" "elem_rep rep (buckets h ! b ! i) = rep k"
      using Some unfolding first_index_Some by simp_all
    then show thesis using find abs Some by (intro found [of i]) simp_all
  qed
qed

lemma bucket_perm_ok:
  assumes ok: "hash_ok rep h" and bl: "b < length (buckets h)" and xs: "set xs \<subseteq> set (buckets h ! b)"
    "distinct (map (elem_rep rep) xs)"
  shows "hash_ok rep (put_bucket h b xs)"
proof (rule put_bucket_ok [OF ok bl _ xs(2)])
  show "\<forall>he \<in> set xs. \<exists>k. he_key he = Some k \<and> he_hash_value he = hash_value h k
      \<and> hash_bucket h (hash_value h k) = b"
    using xs(1) hash_ok_elem [OF ok bl] by blast
qed

lemma move_to_front_law:
  assumes ok: "hash_ok rep h" and bl: "b < length (buckets h)" and i: "i < length (buckets h ! b)"
  defines "xs \<equiv> buckets h ! b ! i # remove_at i (buckets h ! b)"
  shows "set_bucket h b xs = put_bucket h b xs" "hash_ok rep (put_bucket h b xs)"
    "hash_abs rep (put_bucket h b xs) = hash_abs rep h"
proof -
  let ?ys = "buckets h ! b"
  note d = hash_ok_distinct [OF ok bl]
  show "set_bucket h b xs = put_bucket h b xs"
    using i by (simp add: put_bucket_def xs_def length_remove_at set_bucket_def)
  show ok': "hash_ok rep (put_bucket h b xs)"
    using set_remove_at [OF i] i remove_at_distinct [OF i d] unfolding xs_def
    by (intro bucket_perm_ok [OF ok bl]) auto
  have m: "bucket_map rep xs = bucket_map rep ?ys"
  proof -
    have "bucket_map rep ?ys (elem_rep rep (?ys ! i)) = Some (he_value (?ys ! i))"
      unfolding bucket_map_def using i d by (intro map_of_is_SomeI) (auto simp: comp_def)
    then show ?thesis by (simp add: xs_def bucket_map_remove [OF i d] fun_upd_idem)
  qed
  show "hash_abs rep (put_bucket h b xs) = hash_abs rep h"
    by (rule hash_abs_eqI [OF ok'])
      (simp_all add: put_bucket_abs [OF ok ok' bl] m hash_abs_bucket [OF ok] hash_abs_range [OF ok])
qed

lemma hash_lookup_fast_law:
  assumes ok: "hash_ok rep h" and b: "b = hash_bucket h (hash_value h k)"
  obtains (missing) "hash_lookup_fast h b k (hash_value h k) = Some (None, h)" "hash_abs rep h (rep k) = None"
  | (found) he h' where "hash_lookup_fast h b k (hash_value h k) = Some (Some he, h')"
      "hash_abs rep h (rep k) = Some (he_value he)" "hash_ok rep h'" "hash_abs rep h' = hash_abs rep h"
      "buckets h' ! b = he # tl (buckets h' ! b)" "elem_rep rep he = rep k" "b < length (buckets h')"
      "hash_value h' = hash_value h" "hash_bucket h' = hash_bucket h" "n_elements h' = n_elements h"
proof -
  have bl: "b < length (buckets h)" unfolding b using ok by (simp add: hash_ok_def hash_bucket_less)
  show thesis
  proof (cases rule: bucket_find_cases [OF ok b, case_names missing found])
    case missing
    then show thesis by (intro that(1)) (simp_all add: hash_lookup_fast_def)
  next
    case (found i)
    let ?xs = "buckets h ! b ! i # remove_at i (buckets h ! b)"
    note law = move_to_front_law [OF ok bl found(2)]
    have "hash_lookup_fast h b k (hash_value h k) = Some (Some (buckets h ! b ! i), put_bucket h b ?xs)"
      using found(1) law(1) by (simp add: hash_lookup_fast_def Let_def)
    then show thesis using found law(2,3) bl
      by (intro that(2) [of "buckets h ! b ! i" "put_bucket h b ?xs"]) (simp_all add: length_remove_at)
  qed
qed


lemma hash_lookup_law:
  assumes ok: "hash_ok rep h"
  obtains h' where "hash_lookup h k = Some (hash_abs rep h (rep k), h')" "hash_ok rep h'"
    "hash_abs rep h' = hash_abs rep h"
  using ok refl
proof (cases rule: hash_lookup_fast_law [where k = k])
  case missing
  then show thesis using ok by (intro that [of h]) (simp_all add: hash_lookup_def)
next
  case (found he h')
  then show thesis by (intro that [of h']) (simp_all add: hash_lookup_def)
qed

lemma hash_remove_law:
  assumes ok: "hash_ok rep h"
  obtains h' where "hash_remove h k = Some (hash_abs rep h (rep k) \<noteq> None, h')" "hash_ok rep h'"
    "hash_abs rep h' = (hash_abs rep h)(rep k := None)"
proof -
  define b where "b = hash_bucket h (hash_value h k)"
  have bl: "b < length (buckets h)" unfolding b_def using ok by (simp add: hash_ok_def hash_bucket_less)
  have call: "hash_remove h k = hash_remove_fast h b k (hash_value h k)" by (simp add: hash_remove_def b_def Let_def)
  show thesis
    using ok b_def
  proof (cases rule: bucket_find_cases)
    case missing
    then show thesis using ok by (intro that [of h]) (simp_all add: call hash_remove_fast_def fun_upd_idem)
  next
    case (found i)
    let ?xs = "remove_at i (buckets h ! b)"
    note d = hash_ok_distinct [OF ok bl]
    have ok': "hash_ok rep (put_bucket h b ?xs)"
      using set_remove_at [OF found(2)] remove_at_distinct [OF found(2) d]
      by (intro bucket_perm_ok [OF ok bl]) auto
    have "hash_remove h k = Some (True, put_bucket h b ?xs)"
      using found by (simp add: call hash_remove_fast_def put_bucket_def length_remove_at of_nat_diff
          set_bucket_def Suc_le_eq)
    moreover have "hash_abs rep (put_bucket h b ?xs) = (hash_abs rep h)(rep k := None)"
    proof (rule hash_abs_eqI [OF ok'])
      fix k'
      have "hash_bucket h (hash_value h k') = b" if "rep k' = rep k"
        using ok that unfolding hash_ok_def functions_ok_def b_def by metis
      then show "hash_abs rep (put_bucket h b ?xs) (rep k') = ((hash_abs rep h)(rep k := None)) (rep k')"
        using found(3)
        by (auto simp: put_bucket_abs [OF ok ok' bl] bucket_map_remove [OF found(2) d] hash_abs_bucket [OF ok])
    qed (metis fun_upd_apply hash_abs_range [OF ok])
    ultimately show thesis using found ok' by (intro that) simp_all
  qed
qed

text \<open>Putting a new element in front, and replacing the value of the front element.\<close>

lemma insert_front_law:
  fixes rep :: "'k \<Rightarrow> 'r" and h :: "('k, 'v) hash" and v :: 'v
  assumes ok: "hash_ok rep h" and absent: "hash_abs rep h (rep k) = None"
    and b: "b = hash_bucket h (hash_value h k)"
  defines "xs \<equiv> \<lparr>he_value = v, he_key = Some k, he_hash_value = hash_value h k\<rparr> # buckets h ! b"
  shows "hash_ok rep (put_bucket h b xs)" "hash_abs rep (put_bucket h b xs) = (hash_abs rep h)(rep k \<mapsto> v)"
proof -
  have bl: "b < length (buckets h)" unfolding b using ok by (simp add: hash_ok_def hash_bucket_less)
  have same: "hash_bucket h (hash_value h k') = b" if "rep k' = rep k" for k'
    using ok that unfolding hash_ok_def functions_ok_def b by metis
  have "rep k \<notin> elem_rep rep ` set (buckets h ! b)"
    using absent unfolding hash_abs_bucket [OF ok] bucket_map_None b .
  then have "distinct (map (elem_rep rep) xs)"
    using hash_ok_distinct [OF ok bl] by (simp add: elem_rep_def xs_def)
  then show ok': "hash_ok rep (put_bucket h b xs)"
    using hash_ok_elem [OF ok bl] by (intro put_bucket_ok [OF ok bl]) (auto simp: b xs_def)
  have "bucket_map rep xs = (bucket_map rep (buckets h ! b))(rep k \<mapsto> v)" by (simp add: xs_def elem_rep_def)
  then show "hash_abs rep (put_bucket h b xs) = (hash_abs rep h)(rep k \<mapsto> v)"
    using same by (intro hash_abs_eqI [OF ok'])
      (auto simp: put_bucket_abs [OF ok ok' bl] hash_abs_bucket [OF ok]
        dest: hash_abs_range_Some [OF ok] split: if_splits)
qed

lemma replace_front_law:
  fixes rep :: "'k \<Rightarrow> 'r" and h :: "('k, 'v) hash" and v :: 'v
  assumes ok: "hash_ok rep h" and bl: "b < length (buckets h)" and front: "buckets h ! b = he # hes"
  defines "xs \<equiv> he\<lparr>he_value := v\<rparr> # hes"
  shows "set_bucket h b xs = put_bucket h b xs" "hash_ok rep (put_bucket h b xs)"
    "hash_abs rep (put_bucket h b xs) = (hash_abs rep h)(elem_rep rep he \<mapsto> v)"
proof -
  have rep: "elem_rep rep (he\<lparr>he_value := v\<rparr>) = elem_rep rep he" by (simp add: elem_rep_def)
  show "set_bucket h b xs = put_bucket h b xs"
    using front by (simp add: put_bucket_def set_bucket_def xs_def)
  have "distinct (map (elem_rep rep) xs)" using hash_ok_distinct [OF ok bl] rep front by (simp add: xs_def)
  then show ok': "hash_ok rep (put_bucket h b xs)"
    using hash_ok_elem [OF ok bl] front by (intro put_bucket_ok [OF ok bl]) (auto simp: xs_def)
  obtain k where k: "hash_bucket h (hash_value h k) = b" "elem_rep rep he = rep k"
    using hash_okD [OF ok bl, of he] front by (metis list.set_intros(1))
  have same: "hash_bucket h (hash_value h k') = b" if "rep k' = rep k" for k'
    using ok that k(1) unfolding hash_ok_def functions_ok_def by metis
  have "bucket_map rep xs = (bucket_map rep (buckets h ! b))(rep k \<mapsto> v)"
    using rep k(2) front by (simp add: xs_def)
  then show "hash_abs rep (put_bucket h b xs) = (hash_abs rep h)(elem_rep rep he \<mapsto> v)"
    unfolding k(2) using same
    by (intro hash_abs_eqI [OF ok'])
      (auto simp: put_bucket_abs [OF ok ok' bl] hash_abs_bucket [OF ok]
        dest: hash_abs_range_Some [OF ok] split: if_splits)
qed

lemma hash_add_law:
  fixes rep :: "'k \<Rightarrow> 'r" and h :: "('k, 'v) hash" and k :: 'k
  assumes ok: "hash_ok rep h"
  defines "absent \<equiv> hash_abs rep h (rep k) = None"
  obtains h' where "hash_add h k v replace = Some (absent \<or> replace, h')" "hash_ok rep h'"
    "hash_abs rep h' = (if absent \<or> replace then (hash_abs rep h)(rep k \<mapsto> v) else hash_abs rep h)"
proof -
  define b where "b = hash_bucket h (hash_value h k)"
  show thesis
    using ok b_def
  proof (cases rule: hash_lookup_fast_law)
    case missing
    let ?xs = "\<lparr>he_value = v, he_key = Some k, he_hash_value = hash_value h k\<rparr> # buckets h ! b"
    have "hash_add h k v replace = Some (True, put_bucket h b ?xs)"
      using missing(1) by (simp add: hash_add_def b_def hash_add_fast_def put_bucket_def Let_def)
    then show thesis
      using missing insert_front_law [OF ok missing(2) b_def] by (intro that) (simp_all add: absent_def)
  next
    case (found he h')
    let ?xs = "he\<lparr>he_value := v\<rparr> # tl (buckets h' ! b)"
    note law = replace_front_law [OF found(3,7,5), where v = v]
    have "hash_add h k v replace = Some (replace, if replace then put_bucket h' b ?xs else h')"
      using found(1) law(1) by (simp add: hash_add_def b_def Let_def)
    then show thesis
      using found(2,3,4,6) law(2,3) by (cases replace) (auto intro!: that simp: absent_def)
  qed
qed

subsection \<open>Interface: dictionaries\<close>

text \<open>
  What the users of a table rely on: each operation succeeds, returns what the finite map says, and changes
  the map as its name says. A client runs any sequence of operations.
\<close>

datatype ('k, 'v) table_op = Lookup 'k | Add 'k 'v bool | Remove 'k

datatype 'v table_result = Found "'v option" | Done bool

fun table_run ::
  "('t \<Rightarrow> 'k \<Rightarrow> ('v option \<times> 't) exec) \<Rightarrow> ('t \<Rightarrow> 'k \<Rightarrow> 'v \<Rightarrow> bool \<Rightarrow> (bool \<times> 't) exec)
   \<Rightarrow> ('t \<Rightarrow> 'k \<Rightarrow> (bool \<times> 't) exec) \<Rightarrow> 't \<Rightarrow> ('k, 'v) table_op list \<Rightarrow> 'v table_result list exec" where
  "table_run look ad rem t [] = Some []"
| "table_run look ad rem t (Lookup k # ops) =
     (do { (v, t) \<leftarrow> look t k; rs \<leftarrow> table_run look ad rem t ops; Some (Found v # rs) })"
| "table_run look ad rem t (Add k v replace # ops) =
     (do { (r, t) \<leftarrow> ad t k v replace; rs \<leftarrow> table_run look ad rem t ops; Some (Done r # rs) })"
| "table_run look ad rem t (Remove k # ops) =
     (do { (r, t) \<leftarrow> rem t k; rs \<leftarrow> table_run look ad rem t ops; Some (Done r # rs) })"

fun map_run :: "('k \<Rightarrow> 'r) \<Rightarrow> ('r \<Rightarrow> 'v option) \<Rightarrow> ('k, 'v) table_op list \<Rightarrow> 'v table_result list" where
  "map_run rep m [] = []"
| "map_run rep m (Lookup k # ops) = Found (m (rep k)) # map_run rep m ops"
| "map_run rep m (Add k v replace # ops) =
     (if m (rep k) = None \<or> replace then Done True # map_run rep (m(rep k \<mapsto> v)) ops
      else Done False # map_run rep m ops)"
| "map_run rep m (Remove k # ops) = Done (m (rep k) \<noteq> None) # map_run rep (m(rep k := None)) ops"

locale dictionary =
  fixes look :: "'t \<Rightarrow> 'k \<Rightarrow> ('v option \<times> 't) exec"
    and ad :: "'t \<Rightarrow> 'k \<Rightarrow> 'v \<Rightarrow> bool \<Rightarrow> (bool \<times> 't) exec"
    and rem :: "'t \<Rightarrow> 'k \<Rightarrow> (bool \<times> 't) exec"
    and invar :: "'t \<Rightarrow> bool" and abs :: "'t \<Rightarrow> 'r \<Rightarrow> 'v option" and rep :: "'k \<Rightarrow> 'r"
  assumes look_law: "invar t \<Longrightarrow> \<exists>t'. look t k = Some (abs t (rep k), t') \<and> invar t' \<and> abs t' = abs t"
    and ad_law: "invar t \<Longrightarrow> \<exists>t'. ad t k v replace = Some (abs t (rep k) = None \<or> replace, t') \<and> invar t'
      \<and> abs t' = (if abs t (rep k) = None \<or> replace then (abs t)(rep k \<mapsto> v) else abs t)"
    and rem_law: "invar t \<Longrightarrow> \<exists>t'. rem t k = Some (abs t (rep k) \<noteq> None, t') \<and> invar t'
      \<and> abs t' = (abs t)(rep k := None)"
begin

lemma run_refines: "invar t \<Longrightarrow> table_run look ad rem t ops = Some (map_run rep (abs t) ops)"
proof (induction ops arbitrary: t)
  case (Cons op ops)
  show ?case
  proof (cases op)
    case (Lookup k)
    obtain t' where "look t k = Some (abs t (rep k), t')" "invar t'" "abs t' = abs t"
      using look_law [OF Cons.prems] by blast
    then show ?thesis using Cons.IH [of t'] Lookup by simp
  next
    case (Add k v replace)
    obtain t' where "ad t k v replace = Some (abs t (rep k) = None \<or> replace, t')" "invar t'"
      "abs t' = (if abs t (rep k) = None \<or> replace then (abs t)(rep k \<mapsto> v) else abs t)"
      using ad_law [OF Cons.prems] by blast
    then show ?thesis using Cons.IH [of t'] Add by (cases "abs t (rep k) = None \<or> replace") (auto simp: fun_upd_def)
  next
    case (Remove k)
    obtain t' where "rem t k = Some (abs t (rep k) \<noteq> None, t')" "invar t'" "abs t' = (abs t)(rep k := None)"
      using rem_law [OF Cons.prems] by blast
    then show ?thesis using Cons.IH [of t'] Remove by (simp add: fun_upd_def)
  qed
qed simp

end

interpretation hash_dict: dictionary hash_lookup hash_add hash_remove "hash_ok rep" "hash_abs rep" rep
  for rep :: "'k \<Rightarrow> 'r"
proof (unfold_locales, goal_cases)
  case (1 t k)
  then show ?case by (rule hash_lookup_law [of rep t k]) blast
next
  case (2 t k v replace)
  then show ?case by (rule hash_add_law [of rep t k v replace]) blast
next
  case (3 t k)
  then show ?case by (rule hash_remove_law [of rep t k]) blast
qed


lemma hash_init_ok:
  fixes rep :: "'k \<Rightarrow> 'r"
  assumes n: "0 < n" "n \<le> 2 ^ 30" and cf: "\<And>k k'. cf k k' \<longleftrightarrow> rep k = rep k'"
    and hf: "\<And>k k'. rep k = rep k' \<Longrightarrow> hf k iv = hf k' iv"
  obtains h :: "('k, 'v) hash"
    where "hash_init n iv hf cf = Some h" "hash_ok rep h" "hash_abs rep h = Map.empty"
proof -
  have un: "unat (word_of_int n :: u64) = nat n"
    using n by (simp add: unsigned_of_int take_bit_int_eq_self)
  obtain j where j: "adjust_power_of_2 (word_of_int n) = Some (2 ^ j)" "nat n \<le> 2 ^ j" "j = 0 \<or> 2 ^ (j - 1) < nat n"
    using adjust_power_of_2_least [of "word_of_int n"] n unfolding un by (auto simp: nat_le_iff)
  have "j < 31"
  proof (rule ccontr)
    assume "\<not> j < 31"
    then have "(2 :: nat) ^ 30 \<le> 2 ^ (j - 1)" by (intro power_increasing) auto
    moreover have "2 ^ (j - 1) < nat n" using j(3) \<open>\<not> j < 31\<close> by (elim disjE) simp_all
    moreover have "nat n \<le> 2 ^ 30" using n by (simp add: nat_le_iff)
    ultimately show False by linarith
  qed
  then have "uint (2 ^ j :: u64) = 2 ^ j" by (simp add: uint_2p word_neq_0_conv [symmetric])
  moreover have "c_int (2 ^ j) = 2 ^ j"
  proof (rule c_int_id)
    show "(2 :: int) ^ j < 2 ^ 31" using \<open>j < 31\<close> by (intro power_strict_increasing) auto
    show "- (2 ^ 31) \<le> (2 :: int) ^ j" by (rule order_trans [of _ 0]) simp_all
  qed
  ultimately have init: "hash_init n iv hf cf = Some \<lparr>n_buckets = 2 ^ j, n_elements = 0, hmask = 2 ^ j - 1,
      hiv = iv, hash_function = hf, compare_function = cf, buckets = replicate (nat (2 ^ j)) []\<rparr>"
    using n j(1) by (simp add: hash_init_def Let_def)
  have concat: "concat (replicate m []) = []" for m by (induction m) simp_all
  let ?h = "\<lparr>n_buckets = 2 ^ j, n_elements = 0, hmask = 2 ^ j - 1, hiv = iv, hash_function = hf,
      compare_function = cf, buckets = replicate (nat (2 ^ j)) []\<rparr> :: ('k, 'v) hash"
  have "functions_ok rep ?h" unfolding functions_ok_def hash_value_def hash.simps using cf hf by blast
  moreover have "shape_ok ?h" using \<open>j < 31\<close> by (auto simp: shape_ok_def)
  ultimately have "hash_ok rep ?h" by (simp add: hash_ok_def bucket_ok_def sum_list_replicate)
  then show thesis by (intro that [OF init]) (simp_all add: hash_abs_def concat)
qed



end
