(* ===== verification/Hash_Iterator.thy ===== *)
theory Hash_Iterator
  imports Hash_Table
begin

section \<open>Iterating over a hash table (list.c)\<close>

text \<open>
  An iterator visits the buckets in order. Deleting the element it returned last only marks it; the marked
  elements of a bucket are removed when the iterator leaves it. The pointers of \<^verbatim>\<open>struct hash_iterator\<close> into
  the table are a bucket number and positions in that bucket; the table itself is threaded through.
\<close>

record hash_iterator =
  hi_bucket_index :: int
  hi_bucket :: "nat option"
  hi_elem :: "nat option"
  hi_last :: "nat option"
  hi_bucket_marked :: bool
  hi_bucket_index_start :: int
  hi_bucket_index_end :: int

definition hash_remove_marked :: "('k, 'v) hash \<Rightarrow> nat \<Rightarrow> ('k, 'v) hash" where
  "hash_remove_marked h b =
     (let xs = buckets h ! b; kept = filter (\<lambda>he. he_key he \<noteq> None) xs
      in (set_bucket h b kept)\<lparr>n_elements := n_elements h - int (length xs - length kept)\<rparr>)"

definition hash_iterator_init_range :: "('k, 'v) hash \<Rightarrow> int \<Rightarrow> int \<Rightarrow> hash_iterator exec" where
  "hash_iterator_init_range h start_bucket end_bucket = (do {
     let end_bucket = (if end_bucket > n_buckets h then n_buckets h else end_bucket);
     assert_c (start_bucket \<ge> 0 \<and> start_bucket \<le> end_bucket);
     Some \<lparr>hi_bucket_index = start_bucket - 1, hi_bucket = None, hi_elem = None, hi_last = None,
           hi_bucket_marked = False, hi_bucket_index_start = start_bucket,
           hi_bucket_index_end = end_bucket\<rparr> })"

definition hash_iterator_init :: "('k, 'v) hash \<Rightarrow> hash_iterator exec" where
  "hash_iterator_init h = hash_iterator_init_range h 0 (n_buckets h)"

definition hash_iterator_lock :: "hash_iterator \<Rightarrow> nat \<Rightarrow> hash_iterator" where
  "hash_iterator_lock hi b = hi\<lparr>hi_bucket := Some b, hi_last := None, hi_bucket_marked := False\<rparr>"

definition hash_iterator_unlock :: "('k, 'v) hash \<Rightarrow> hash_iterator \<Rightarrow> ('k, 'v) hash \<times> hash_iterator" where
  "hash_iterator_unlock h hi =
     (case hi_bucket hi of
        None \<Rightarrow> (h, hi)
      | Some b \<Rightarrow>
          (if hi_bucket_marked hi then hash_remove_marked h b else h,
           hi\<lparr>hi_bucket_marked := False, hi_bucket := None, hi_last := None\<rparr>))"

definition hash_iterator_advance :: "('k, 'v) hash \<Rightarrow> hash_iterator \<Rightarrow> nat \<Rightarrow> nat \<Rightarrow> hash_iterator" where
  "hash_iterator_advance h hi b i =
     hi\<lparr>hi_last := Some i, hi_elem := if Suc i < length (buckets h ! b) then Some (Suc i) else None\<rparr>"

definition hash_iterator_free :: "('k, 'v) hash \<Rightarrow> hash_iterator \<Rightarrow> ('k, 'v) hash" where
  "hash_iterator_free h hi = fst (hash_iterator_unlock h hi)"

function hash_iterator_scan ::
  "('k, 'v) hash \<Rightarrow> hash_iterator \<Rightarrow> ('k, 'v) hash_element option \<times> ('k, 'v) hash \<times> hash_iterator" where
  "hash_iterator_scan h hi =
     (let idx = hi_bucket_index hi + 1; hi = hi\<lparr>hi_bucket_index := idx\<rparr>
      in if idx < hi_bucket_index_end hi then
           case hash_iterator_unlock h hi of (h, hi) \<Rightarrow>
             (if buckets h ! nat idx \<noteq> []
              then (Some (buckets h ! nat idx ! 0), h,
                    hash_iterator_advance h (hash_iterator_lock hi (nat idx)) (nat idx) 0)
              else hash_iterator_scan h hi)
         else (None, h, hi))"
  by auto
termination
  by (relation "measure (\<lambda>(h, hi). nat (hi_bucket_index_end hi - hi_bucket_index hi))")
    (auto simp: hash_iterator_unlock_def split: option.splits)

declare hash_iterator_scan.simps [simp del]

definition hash_iterator_next ::
  "('k, 'v) hash \<Rightarrow> hash_iterator \<Rightarrow> ('k, 'v) hash_element option \<times> ('k, 'v) hash \<times> hash_iterator" where
  "hash_iterator_next h hi =
     (case (hi_elem hi, hi_bucket hi) of
        (Some i, Some b) \<Rightarrow> (Some (buckets h ! b ! i), h, hash_iterator_advance h hi b i)
      | _ \<Rightarrow> hash_iterator_scan h hi)"

definition hash_iterator_delete_element ::
  "('k, 'v) hash \<Rightarrow> hash_iterator \<Rightarrow> (('k, 'v) hash \<times> hash_iterator) exec" where
  "hash_iterator_delete_element h hi =
     (case (hi_last hi, hi_bucket hi) of
        (Some i, Some b) \<Rightarrow>
          Some (set_bucket h b ((buckets h ! b)[i := (buckets h ! b ! i)\<lparr>he_key := None\<rparr>]),
                hi\<lparr>hi_bucket_marked := True\<rparr>)
      | _ \<Rightarrow> None)"

partial_function (option) hash_remove_by_value_loop ::
  "('k, 'v) hash \<Rightarrow> hash_iterator \<Rightarrow> 'v \<Rightarrow> (('k, 'v) hash \<times> hash_iterator) option" where
  "hash_remove_by_value_loop h hi v =
     (case hash_iterator_next h hi of
        (None, h, hi) \<Rightarrow> Some (h, hi)
      | (Some he, h, hi) \<Rightarrow>
          if he_value he = v
          then Option.bind (hash_iterator_delete_element h hi) (\<lambda>(h, hi). hash_remove_by_value_loop h hi v)
          else hash_remove_by_value_loop h hi v)"

definition hash_remove_by_value :: "('k, 'v) hash \<Rightarrow> 'v \<Rightarrow> ('k, 'v) hash exec" where
  "hash_remove_by_value h v = (do {
     hi \<leftarrow> hash_iterator_init h;
     (h, hi) \<leftarrow> hash_remove_by_value_loop h hi v;
     Some (hash_iterator_free h hi) })"


subsection \<open>Removing by value\<close>

text \<open>
  The states of \<^verbatim>\<open>hash_remove_by_value\<close>: \<open>swept h v b\<close> is the table once the first \<open>b\<close> buckets have been
  dealt with, \<open>sweeping h v b i\<close> the table while bucket \<open>b\<close> is visited and \<open>i\<close> of its elements have been
  dealt with; \<open>it_idle\<close> and \<open>it_at\<close> are the iterators that belong to them.
\<close>

definition mark_value :: "'v \<Rightarrow> ('k, 'v) hash_element \<Rightarrow> ('k, 'v) hash_element" where
  "mark_value v he = (if he_value he = v then he\<lparr>he_key := None\<rparr> else he)"

definition keep_value :: "'v \<Rightarrow> ('k, 'v) hash_element list \<Rightarrow> ('k, 'v) hash_element list" where
  "keep_value v xs = filter (\<lambda>he. he_value he \<noteq> v) xs"

definition swept :: "('k, 'v) hash \<Rightarrow> 'v \<Rightarrow> nat \<Rightarrow> ('k, 'v) hash" where
  "swept h v b =
     h\<lparr>buckets := map (keep_value v) (take b (buckets h)) @ drop b (buckets h),
       n_elements := n_elements h
         - int (sum_list (map (\<lambda>xs. length xs - length (keep_value v xs)) (take b (buckets h))))\<rparr>"

definition sweeping :: "('k, 'v) hash \<Rightarrow> 'v \<Rightarrow> nat \<Rightarrow> nat \<Rightarrow> ('k, 'v) hash" where
  "sweeping h v b i =
     set_bucket (swept h v b) b (map (mark_value v) (take i (buckets h ! b)) @ drop i (buckets h ! b))"

definition it_idle :: "('k, 'v) hash \<Rightarrow> nat \<Rightarrow> hash_iterator" where
  "it_idle h b =
     \<lparr>hi_bucket_index = int b - 1, hi_bucket = None, hi_elem = None, hi_last = None,
      hi_bucket_marked = False, hi_bucket_index_start = 0, hi_bucket_index_end = int (length (buckets h))\<rparr>"

definition it_at :: "('k, 'v) hash \<Rightarrow> 'v \<Rightarrow> nat \<Rightarrow> nat \<Rightarrow> hash_iterator" where
  "it_at h v b i =
     \<lparr>hi_bucket_index = int b, hi_bucket = Some b,
      hi_elem = if i < length (buckets h ! b) then Some i else None, hi_last = Some (i - 1),
      hi_bucket_marked = (\<exists>he \<in> set (take i (buckets h ! b)). he_value he = v),
      hi_bucket_index_start = 0, hi_bucket_index_end = int (length (buckets h))\<rparr>"

lemma swept_bucket: "b < length (buckets h) \<Longrightarrow> buckets (swept h v b) ! b = buckets h ! b"
  by (simp add: swept_def nth_append)

lemma length_swept [simp]: "length (buckets (swept h v b)) = length (buckets h)"
  by (simp add: swept_def)

lemma sweeping_bucket:
  "b < length (buckets h) \<Longrightarrow>
   buckets (sweeping h v b i) ! b = map (mark_value v) (take i (buckets h ! b)) @ drop i (buckets h ! b)"
  by (simp add: sweeping_def set_bucket_def)

lemma mark_step:
  assumes "i < length xs"
  shows "map (mark_value v) (take (Suc i) xs) @ drop (Suc i) xs =
    (map (mark_value v) (take i xs) @ drop i xs)[i := mark_value v (xs ! i)]"
  using assms by (simp add: take_Suc_conv_app_nth list_update_append Cons_nth_drop_Suc [symmetric])

lemma sweeping_step:
  assumes b: "b < length (buckets h)" and i: "i < length (buckets h ! b)"
  shows "sweeping h v b (Suc i) =
    (if he_value (buckets h ! b ! i) = v
     then set_bucket (sweeping h v b i) b ((buckets (sweeping h v b i) ! b)
            [i := (buckets (sweeping h v b i) ! b ! i)\<lparr>he_key := None\<rparr>])
     else sweeping h v b i)"
proof -
  let ?xs = "buckets h ! b"
  have nth: "(map (mark_value v) (take i ?xs) @ drop i ?xs) ! i = ?xs ! i" using i by (simp add: nth_append)
  show ?thesis
  proof (cases "he_value (?xs ! i) = v")
    case True
    then show ?thesis unfolding sweeping_bucket [OF b] nth
      by (simp add: sweeping_def set_bucket_def mark_step [OF i] mark_value_def)
  next
    case False
    then have "mark_value v (?xs ! i) = (map (mark_value v) (take i ?xs) @ drop i ?xs) ! i"
      using nth by (simp add: mark_value_def)
    then show ?thesis using False by (simp add: sweeping_def mark_step [OF i])
  qed
qed

text \<open>One element of the current bucket.\<close>

lemma remove_loop_handle:
  assumes b: "b < length (buckets h)" and i: "i < length (buckets h ! b)"
    and next_is: "hash_iterator_next h1 hi1 =
      (Some (buckets h ! b ! i), sweeping h v b i,
       (it_at h v b (Suc i))\<lparr>hi_bucket_marked := \<exists>he \<in> set (take i (buckets h ! b)). he_value he = v\<rparr>)"
  shows "hash_remove_by_value_loop h1 hi1 v =
           hash_remove_by_value_loop (sweeping h v b (Suc i)) (it_at h v b (Suc i)) v"
proof -
  have marked: "(\<exists>he \<in> set (take (Suc i) (buckets h ! b)). he_value he = v) \<longleftrightarrow>
      (\<exists>he \<in> set (take i (buckets h ! b)). he_value he = v) \<or> he_value (buckets h ! b ! i) = v"
    using i by (auto simp: take_Suc_conv_app_nth)
  show ?thesis
    using sweeping_step [OF b i, of v] marked
    by (subst hash_remove_by_value_loop.simps)
      (auto simp: next_is hash_iterator_delete_element_def it_at_def)
qed

lemma remove_loop_bucket:
  assumes b: "b < length (buckets h)" and i: "0 < i" "i \<le> length (buckets h ! b)"
  shows "hash_remove_by_value_loop (sweeping h v b i) (it_at h v b i) v =
    hash_remove_by_value_loop (sweeping h v b (length (buckets h ! b))) (it_at h v b (length (buckets h ! b))) v"
  using i
proof (induction "length (buckets h ! b) - i" arbitrary: i)
  case (Suc n)
  then have i: "i < length (buckets h ! b)" by linarith
  have "hash_iterator_next (sweeping h v b i) (it_at h v b i) =
      (Some (buckets h ! b ! i), sweeping h v b i,
       (it_at h v b (Suc i))\<lparr>hi_bucket_marked := \<exists>he \<in> set (take i (buckets h ! b)). he_value he = v\<rparr>)"
    using b i by (simp add: hash_iterator_next_def it_at_def hash_iterator_advance_def sweeping_bucket nth_append)
  from remove_loop_handle [OF b i this] Suc show ?case by simp
qed simp


text \<open>Leaving a bucket removes exactly the elements with the value.\<close>

definition keys_present :: "('k, 'v) hash \<Rightarrow> bool" where
  "keys_present h \<longleftrightarrow> (\<forall>xs \<in> set (buckets h). \<forall>he \<in> set xs. he_key he \<noteq> None)"

lemma swept_Suc:
  assumes b: "b < length (buckets h)"
  shows "swept h v (Suc b) =
    (set_bucket (swept h v b) b (keep_value v (buckets h ! b)))
      \<lparr>n_elements := n_elements (swept h v b)
         - int (length (buckets h ! b) - length (keep_value v (buckets h ! b)))\<rparr>"
  using b
  by (simp add: swept_def set_bucket_def take_Suc_conv_app_nth list_update_append Cons_nth_drop_Suc [symmetric])

lemma keep_value_marked:
  assumes "\<forall>he \<in> set xs. he_key he \<noteq> None"
  shows "filter (\<lambda>he. he_key he \<noteq> None) (map (mark_value v) xs) = keep_value v xs"
  using assms by (induction xs) (auto simp: mark_value_def keep_value_def)

lemma keep_value_all: "\<forall>he \<in> set xs. he_value he \<noteq> v \<Longrightarrow> keep_value v xs = xs \<and> map (mark_value v) xs = xs"
  by (induction xs) (auto simp: mark_value_def keep_value_def)

lemma set_bucket_set_bucket [simp]: "set_bucket (set_bucket h b xs) b ys = set_bucket h b ys"
  by (simp add: set_bucket_def)

lemma unlock_swept:
  assumes k: "keys_present h" and b: "b < length (buckets h)"
  shows "hash_iterator_unlock (sweeping h v b (length (buckets h ! b))) (it_at h v b (length (buckets h ! b))) =
    (swept h v (Suc b), (it_idle h (Suc b))\<lparr>hi_elem := None\<rparr>)"
proof -
  let ?xs = "buckets h ! b"
  have keys: "\<forall>he \<in> set ?xs. he_key he \<noteq> None" using k b by (auto simp: keys_present_def)
  have now: "buckets (sweeping h v b (length ?xs)) ! b = map (mark_value v) ?xs" by (simp add: sweeping_bucket [OF b])
  have hi: "snd (hash_iterator_unlock (sweeping h v b (length ?xs)) (it_at h v b (length ?xs))) =
      (it_idle h (Suc b))\<lparr>hi_elem := None\<rparr>"
    by (simp add: hash_iterator_unlock_def it_at_def it_idle_def)
  have "fst (hash_iterator_unlock (sweeping h v b (length ?xs)) (it_at h v b (length ?xs))) = swept h v (Suc b)"
  proof (cases "\<exists>he \<in> set ?xs. he_value he = v")
    case True
    have "hash_remove_marked (sweeping h v b (length ?xs)) b = swept h v (Suc b)"
      unfolding hash_remove_marked_def Let_def now keep_value_marked [OF keys] length_map swept_Suc [OF b]
      by (simp add: sweeping_def) (simp add: set_bucket_def)
    then show ?thesis using True by (simp add: hash_iterator_unlock_def it_at_def)
  next
    case False
    then have "keep_value v ?xs = ?xs" "map (mark_value v) ?xs = ?xs" using keep_value_all [of ?xs v] by blast+
    then show ?thesis using False
      by (simp add: hash_iterator_unlock_def it_at_def sweeping_def swept_Suc [OF b]) (simp add: set_bucket_def)
  qed
  with hi show ?thesis by (metis prod.collapse)
qed

lemma scan_idle_empty:
  assumes "b < length (buckets h)" "buckets h ! b = []"
  shows "hash_iterator_scan (swept h v b) (it_idle h b) = hash_iterator_scan (swept h v (Suc b)) (it_idle h (Suc b))"
proof -
  have "swept h v (Suc b) = swept h v b"
    using assms swept_bucket [OF assms(1), of v]
    by (simp add: swept_Suc keep_value_def set_bucket_def) (metis list_update_id hash.surjective hash.update_convs(2,7))
  then show ?thesis using assms
    by (subst hash_iterator_scan.simps)
      (simp add: it_idle_def hash_iterator_unlock_def swept_bucket Let_def)
qed


lemma remove_loop_scan:
  assumes "hi_elem hi1 = None" "hi_elem hi2 = None" "hash_iterator_scan h1 hi1 = hash_iterator_scan h2 hi2"
  shows "hash_remove_by_value_loop h1 hi1 v = hash_remove_by_value_loop h2 hi2 v"
  using assms
  by (subst (1 2) hash_remove_by_value_loop.simps) (simp add: hash_iterator_next_def split: option.splits)

text \<open>The end of a bucket: either there is a further bucket, or the iterator is done.\<close>

lemma remove_loop_leave:
  assumes k: "keys_present h" and b: "b < length (buckets h)"
  defines "n \<equiv> length (buckets h ! b)"
  shows "Suc b < length (buckets h) \<Longrightarrow>
      hash_remove_by_value_loop (sweeping h v b n) (it_at h v b n) v =
      hash_remove_by_value_loop (swept h v (Suc b)) (it_idle h (Suc b)) v"
    and "Suc b = length (buckets h) \<Longrightarrow>
      \<exists>h' hi'. hash_remove_by_value_loop (sweeping h v b n) (it_at h v b n) v = Some (h', hi')
        \<and> hash_iterator_free h' hi' = swept h v (Suc b)"
proof -
  note unlock = unlock_swept [OF k b, of v, folded n_def]
  have idx: "hash_iterator_unlock H (hi\<lparr>hi_bucket_index := z\<rparr>) =
      (fst (hash_iterator_unlock H hi), (snd (hash_iterator_unlock H hi))\<lparr>hi_bucket_index := z\<rparr>)"
    for H :: "('a, 'b) hash" and hi z by (simp add: hash_iterator_unlock_def split: option.split)
  have none: "hi_elem (it_at h v b n) = None" "hi_bucket_index (it_at h v b n) = int b"
    "hi_bucket_index_end (it_at h v b n) = int (length (buckets h))" by (simp_all add: it_at_def n_def)
  {
    assume more: "Suc b < length (buckets h)"
    have u: "hash_iterator_unlock (sweeping h v b n) ((it_at h v b n)\<lparr>hi_bucket_index := int b + 1\<rparr>) =
        (swept h v (Suc b), (it_idle h (Suc b))\<lparr>hi_bucket_index := int b + 1\<rparr>)"
      "hash_iterator_unlock (swept h v (Suc b)) ((it_idle h (Suc b))\<lparr>hi_bucket_index := int b + 1\<rparr>) =
        (swept h v (Suc b), (it_idle h (Suc b))\<lparr>hi_bucket_index := int b + 1\<rparr>)"
      by (simp add: idx unlock it_idle_def) (simp add: hash_iterator_unlock_def it_idle_def)
    have idle: "hi_bucket_index (it_idle h (Suc b)) = int b"
      "hi_bucket_index_end (it_idle h (Suc b)) = int (length (buckets h))" by (simp_all add: it_idle_def)
    have "hash_iterator_scan (sweeping h v b n) (it_at h v b n) =
        hash_iterator_scan (swept h v (Suc b)) (it_idle h (Suc b))"
      using more none idle by (subst (1 2) hash_iterator_scan.simps) (simp add: u Let_def)
    then show "hash_remove_by_value_loop (sweeping h v b n) (it_at h v b n) v =
        hash_remove_by_value_loop (swept h v (Suc b)) (it_idle h (Suc b)) v"
      by (intro remove_loop_scan) (simp_all add: none it_idle_def)
  next
    assume last: "Suc b = length (buckets h)"
    then have "hash_iterator_scan (sweeping h v b n) (it_at h v b n) =
        (None, sweeping h v b n, (it_at h v b n)\<lparr>hi_bucket_index := int b + 1\<rparr>)"
      using none by (subst hash_iterator_scan.simps) (simp add: Let_def)
    then have "hash_remove_by_value_loop (sweeping h v b n) (it_at h v b n) v =
        Some (sweeping h v b n, (it_at h v b n)\<lparr>hi_bucket_index := int b + 1\<rparr>)"
      using none by (subst hash_remove_by_value_loop.simps) (simp add: hash_iterator_next_def)
    moreover have "hash_iterator_free (sweeping h v b n) ((it_at h v b n)\<lparr>hi_bucket_index := int b + 1\<rparr>) =
        swept h v (Suc b)" by (simp add: hash_iterator_free_def idx unlock)
    ultimately show "\<exists>h' hi'. hash_remove_by_value_loop (sweeping h v b n) (it_at h v b n) v = Some (h', hi')
        \<and> hash_iterator_free h' hi' = swept h v (Suc b)" by blast
  }
qed

lemma remove_loop_enter:
  assumes b: "b < length (buckets h)" and ne: "buckets h ! b \<noteq> []"
  shows "hash_remove_by_value_loop (swept h v b) (it_idle h b) v =
           hash_remove_by_value_loop (sweeping h v b 1) (it_at h v b 1) v"
proof -
  have "sweeping h v b 0 = swept h v b"
    using swept_bucket [OF b, of v] by (simp add: sweeping_def set_bucket_def) (metis list_update_id hash.surjective hash.update_convs(7))
  then have "hash_iterator_next (swept h v b) (it_idle h b) =
      (Some (buckets h ! b ! 0), sweeping h v b 0,
       (it_at h v b (Suc 0))\<lparr>hi_bucket_marked := \<exists>he \<in> set (take 0 (buckets h ! b)). he_value he = v\<rparr>)"
    using b ne
    by (simp add: hash_iterator_next_def it_idle_def, subst hash_iterator_scan.simps)
      (simp add: hash_iterator_unlock_def hash_iterator_lock_def hash_iterator_advance_def swept_bucket
        it_at_def Let_def)
  from remove_loop_handle [OF b _ this] ne show ?thesis by simp
qed

lemma remove_loop_total:
  assumes k: "keys_present h" and b: "b \<le> length (buckets h)"
  shows "\<exists>h' hi'. hash_remove_by_value_loop (swept h v b) (it_idle h b) v = Some (h', hi')
           \<and> hash_iterator_free h' hi' = swept h v (length (buckets h))"
  using b
proof (induction "length (buckets h) - b" arbitrary: b)
  case 0
  then have "hash_iterator_next (swept h v b) (it_idle h b) = (None, swept h v b, (it_idle h b)\<lparr>hi_bucket_index := int b\<rparr>)"
    by (simp add: hash_iterator_next_def it_idle_def, subst hash_iterator_scan.simps) (simp add: Let_def)
  then show ?case using 0
    by (subst hash_remove_by_value_loop.simps) (simp add: hash_iterator_free_def hash_iterator_unlock_def it_idle_def)
next
  case (Suc n)
  then have b: "b < length (buckets h)" by linarith
  show ?case
  proof (cases "buckets h ! b = []")
    case True
    have "hash_remove_by_value_loop (swept h v b) (it_idle h b) v =
        hash_remove_by_value_loop (swept h v (Suc b)) (it_idle h (Suc b)) v"
      using scan_idle_empty [OF b True] by (intro remove_loop_scan) (simp_all add: it_idle_def)
    then show ?thesis using Suc b by simp
  next
    case False
    then have "hash_remove_by_value_loop (swept h v b) (it_idle h b) v =
        hash_remove_by_value_loop (sweeping h v b (length (buckets h ! b))) (it_at h v b (length (buckets h ! b))) v"
      using remove_loop_enter [OF b False] remove_loop_bucket [OF b, of 1] by (simp add: Suc_le_eq)
    then show ?thesis using remove_loop_leave [OF k b, of v] Suc b
      by (cases "Suc b = length (buckets h)") auto
  qed
qed


lemma bucket_map_keep:
  assumes "distinct (map (elem_rep rep) xs)"
  shows "bucket_map rep (keep_value v xs) r = (if bucket_map rep xs r = Some v then None else bucket_map rep xs r)"
  using assms
proof (induction xs)
  case (Cons he xs)
  have "bucket_map rep xs (elem_rep rep he) = None" using Cons.prems by (auto simp: bucket_map_None)
  then show ?case using Cons by (auto simp: keep_value_def)
qed (simp add: keep_value_def)

lemma swept_all:
  "buckets (swept h v (length (buckets h))) = map (keep_value v) (buckets h)"
  "hash_value (swept h v b) = hash_value h" "hash_bucket (swept h v b) = hash_bucket h"
  "functions_ok rep (swept h v b) = functions_ok rep h" "shape_ok (swept h v b) = shape_ok h"
proof -
  have "n_buckets (swept h v b) = n_buckets h" "hmask (swept h v b) = hmask h" by (simp_all add: swept_def)
  then show "shape_ok (swept h v b) = shape_ok h" by (simp add: shape_ok_def)
qed (simp_all add: swept_def hash_value_def hash_bucket_def functions_ok_def fun_eq_iff)

lemma keep_value_count:
  "int (sum_list (map length xss)) - int (sum_list (map (\<lambda>xs. length xs - length (keep_value v xs)) xss)) =
   int (sum_list (map length (map (keep_value v) xss)))"
proof (induction xss)
  case (Cons xs xss)
  have "length (keep_value v xs) \<le> length xs" by (simp add: keep_value_def)
  with Cons show ?case by (simp add: of_nat_diff)
qed simp

lemma swept_ok:
  assumes ok: "hash_ok rep h"
  shows "hash_ok rep (swept h v (length (buckets h)))"
proof -
  let ?h = "swept h v (length (buckets h))"
  have "bucket_ok rep ?h b" if "b < length (buckets ?h)" for b
  proof -
    have b: "b < length (buckets h)" using that by simp
    have "distinct (map (elem_rep rep) (keep_value v (buckets h ! b)))"
      using hash_ok_distinct [OF ok b] by (simp add: keep_value_def distinct_map_filter)
    moreover have "set (keep_value v (buckets h ! b)) \<subseteq> set (buckets h ! b)" by (simp add: keep_value_def)
    ultimately show ?thesis using hash_ok_elem [OF ok b] b
      by (auto simp: bucket_ok_def swept_all)
  qed
  moreover have "n_elements ?h = int (sum_list (map length (buckets ?h)))"
    using ok keep_value_count [of "buckets h" v] unfolding swept_all by (simp add: hash_ok_def swept_def)
  ultimately show ?thesis using ok by (simp add: hash_ok_def swept_all)
qed

lemma hash_remove_by_value_law:
  assumes ok: "hash_ok rep h"
  shows "\<exists>h'. hash_remove_by_value h v = Some h' \<and> hash_ok rep h'
           \<and> hash_abs rep h' = (\<lambda>r. if hash_abs rep h r = Some v then None else hash_abs rep h r)"
proof -
  let ?h = "swept h v (length (buckets h))"
  have "keys_present h" using hash_ok_elem [OF ok] by (fastforce simp: keys_present_def in_set_conv_nth)
  moreover have "swept h v 0 = h" by (simp add: swept_def)
  ultimately obtain h' hi' where loop: "hash_remove_by_value_loop h (it_idle h 0) v = Some (h', hi')"
      "hash_iterator_free h' hi' = ?h" using remove_loop_total [of h 0 v] by auto
  have "n_buckets h = int (length (buckets h))" using ok by (auto simp: hash_ok_def shape_ok_def)
  then have "hash_iterator_init h = Some (it_idle h 0)"
    by (simp add: hash_iterator_init_def hash_iterator_init_range_def it_idle_def)
  then have "hash_remove_by_value h v = Some ?h" using loop by (simp add: hash_remove_by_value_def)
  moreover note ok' = swept_ok [OF ok, of v]
  moreover have "hash_abs rep ?h = (\<lambda>r. if hash_abs rep h r = Some v then None else hash_abs rep h r)"
  proof (rule hash_abs_eqI [OF ok'])
    fix k
    let ?b = "hash_bucket h (hash_value h k)"
    have b: "?b < length (buckets h)" using ok by (simp add: hash_ok_def hash_bucket_less)
    show "hash_abs rep ?h (rep k) = (if hash_abs rep h (rep k) = Some v then None else hash_abs rep h (rep k))"
      unfolding hash_abs_bucket [OF ok'] hash_abs_bucket [OF ok] swept_all nth_map [OF b]
      by (rule bucket_map_keep [OF hash_ok_distinct [OF ok b]])
  qed (auto dest: hash_abs_range_Some [OF ok] split: if_splits)
  ultimately show ?thesis by blast
qed

text \<open>C17: \<^verbatim>\<open>hash_remove_by_value\<close>, with its iterator that marks elements and removes them when it leaves a
  bucket, returns, and what is left is the map without the keys that had the value.\<close>

theorem hash_remove_by_value_exact:
  assumes "hash_ok rep h"
  shows "\<exists>h'. hash_remove_by_value h v = Some h' \<and> hash_ok rep h'
           \<and> hash_abs rep h' = (\<lambda>r. if hash_abs rep h r = Some v then None else hash_abs rep h r)"
  using assms by (rule hash_remove_by_value_law)

theorem hash_remove_by_value_exact_witness:
  "\<exists>h h1 h2 h3. hash_init 2 0 (\<lambda>k iv. word_of_int k) (=) = Some h
     \<and> hash_add h (1 :: int) ''a'' False = Some (True, h1) \<and> hash_add h1 2 ''b'' False = Some (True, h2)
     \<and> hash_remove_by_value h2 ''a'' = Some h3 \<and> hash_abs id h3 = [2 \<mapsto> ''b'']"
proof -
  obtain h :: "(int, string) hash" where h: "hash_init 2 0 (\<lambda>k iv. word_of_int k) (=) = Some h" "hash_ok id h"
      "hash_abs id h = Map.empty"
    by (rule hash_init_ok [of 2 "(=)" id "\<lambda>k iv. word_of_int k" 0]) auto
  obtain h1 where h1: "hash_add h 1 ''a'' False = Some (True, h1)" "hash_ok id h1" "hash_abs id h1 = [1 \<mapsto> ''a'']"
    by (rule hash_add_law [OF h(2), of 1 "''a''" False]) (simp add: h(3))
  obtain h2 where h2: "hash_add h1 2 ''b'' False = Some (True, h2)" "hash_ok id h2"
      "hash_abs id h2 = [1 \<mapsto> ''a'', 2 \<mapsto> ''b'']"
    by (rule hash_add_law [OF h1(2), of 2 "''b''" False]) (simp add: h1(3))
  obtain h3 where h3: "hash_remove_by_value h2 ''a'' = Some h3"
      "hash_abs id h3 = (\<lambda>r. if hash_abs id h2 r = Some ''a'' then None else hash_abs id h2 r)"
    using hash_remove_by_value_exact [OF h2(2), of "''a''"] by blast
  have "hash_abs id h3 = [2 \<mapsto> ''b'']" unfolding h3(2) h2(3) by auto
  with h(1) h1(1) h2(1) h3(1) show ?thesis by blast
qed

end
