(* ===== verification/Hash_Func.thy ===== *)
theory Hash_Func
  imports VPN_Prelude
begin

section \<open>The hash function (list.c)\<close>

text \<open>
  Bob Jenkins' hash of a byte string, used for the tables of client instances and routes. \<open>k\<close> is the memory
  from the key pointer on; reading past its end is \<^const>\<open>None\<close>.
\<close>

subsection \<open>Mixing\<close>

definition mix_step :: "(u32 \<Rightarrow> u32) \<Rightarrow> u32 \<Rightarrow> u32 \<Rightarrow> u32 \<Rightarrow> u32" where
  "mix_step sh x y z = (x - y - z) XOR sh z"

definition mix :: "u32 \<times> u32 \<times> u32 \<Rightarrow> u32 \<times> u32 \<times> u32" where
  "mix s = (case s of (a, b, c) \<Rightarrow>
     let a = mix_step (drop_bit 13) a b c;
         b = mix_step (push_bit 8) b c a;
         c = mix_step (drop_bit 13) c a b;
         a = mix_step (drop_bit 12) a b c;
         b = mix_step (push_bit 16) b c a;
         c = mix_step (drop_bit 5) c a b;
         a = mix_step (drop_bit 3) a b c;
         b = mix_step (push_bit 10) b c a;
         c = mix_step (drop_bit 15) c a b
     in (a, b, c))"

subsection \<open>Hashing\<close>

definition le_word :: "byte \<Rightarrow> byte \<Rightarrow> byte \<Rightarrow> byte \<Rightarrow> u32" where
  "le_word k0 k1 k2 k3 =
     ucast k0 + push_bit 8 (ucast k1) + push_bit 16 (ucast k2) + push_bit 24 (ucast k3)"

function hash_blocks :: "u32 \<times> u32 \<times> u32 \<Rightarrow> byte list \<Rightarrow> u32 \<Rightarrow> (u32 \<times> u32 \<times> u32) \<times> byte list \<times> u32" where
  "hash_blocks s k len =
     (if len \<ge> 12 then
        case s of (a, b, c) \<Rightarrow>
          hash_blocks
            (mix (a + le_word (k ! 0) (k ! 1) (k ! 2) (k ! 3),
                  b + le_word (k ! 4) (k ! 5) (k ! 6) (k ! 7),
                  c + le_word (k ! 8) (k ! 9) (k ! 10) (k ! 11)))
            (drop 12 k) (len - 12)
      else (s, k, len))"
  by auto
termination
  by (relation "measure (\<lambda>(s, k, len). unat len)") (auto simp: word_le_nat_alt unat_sub)

declare hash_blocks.simps [simp del]

text \<open>The \<^verbatim>\<open>switch\<close> falls through: every case adds its byte and those of the smaller ones.\<close>

definition hash_tail :: "u32 \<times> u32 \<times> u32 \<Rightarrow> byte list \<Rightarrow> u32 \<Rightarrow> u32 \<times> u32 \<times> u32" where
  "hash_tail s k len = (case s of (a, b, c) \<Rightarrow>
     let at = (\<lambda>i sh. if len \<ge> of_nat (Suc i) then push_bit sh (ucast (k ! i)) else 0)
     in (a + at 3 24 + at 2 16 + at 1 8 + at 0 0,
         b + at 7 24 + at 6 16 + at 5 8 + at 4 0,
         c + at 10 24 + at 9 16 + at 8 8))"

definition hash_func :: "byte list \<Rightarrow> u32 \<Rightarrow> u32 \<Rightarrow> u32 exec" where
  "hash_func k len initval =
     (if unat len > length k then None
      else case hash_blocks (0x9e3779b9, 0x9e3779b9, initval) k len of
             ((a, b, c), k, rest) \<Rightarrow> Some (snd (snd (mix (hash_tail (a, b, c + len) k rest)))))"

subsection \<open>Mixing loses nothing\<close>

definition unmix_step :: "(u32 \<Rightarrow> u32) \<Rightarrow> u32 \<Rightarrow> u32 \<Rightarrow> u32 \<Rightarrow> u32" where
  "unmix_step sh x y z = (x XOR sh z) + z + y"

definition unmix :: "u32 \<times> u32 \<times> u32 \<Rightarrow> u32 \<times> u32 \<times> u32" where
  "unmix s = (case s of (a, b, c) \<Rightarrow>
     let c = unmix_step (drop_bit 15) c a b;
         b = unmix_step (push_bit 10) b c a;
         a = unmix_step (drop_bit 3) a b c;
         c = unmix_step (drop_bit 5) c a b;
         b = unmix_step (push_bit 16) b c a;
         a = unmix_step (drop_bit 12) a b c;
         c = unmix_step (drop_bit 13) c a b;
         b = unmix_step (push_bit 8) b c a;
         a = unmix_step (drop_bit 13) a b c
     in (a, b, c))"

lemma unmix_mix_step [simp]: "unmix_step sh (mix_step sh x y z) y z = x"
  by (simp add: unmix_step_def mix_step_def xor.assoc)

lemma mix_unmix_step [simp]: "mix_step sh (unmix_step sh x y z) y z = x"
  by (simp add: unmix_step_def mix_step_def xor.assoc)

text \<open>as the comment says, \<^verbatim>\<open>mix\<close> mixes three 32-bit values reversibly: it is a bijection, and running it
  backwards undoes it.\<close>

theorem mix_reversible: "bij mix \<and> inv mix = unmix"
proof -
  have 1: "unmix (mix s) = s" for s by (cases s) (simp add: mix_def unmix_def Let_def)
  have 2: "mix (unmix s) = s" for s by (cases s) (simp add: mix_def unmix_def Let_def)
  have "bij mix" by (rule o_bij [of unmix]) (simp_all add: fun_eq_iff 1 2)
  moreover have "inv mix = unmix" using 1 2 by (intro inv_equality)
  ultimately show ?thesis ..
qed

end
