(* ===== verification/Schedule.thy ===== *)
theory Schedule
  imports Timers "HOL-Library.Tree"
begin

section \<open>The scheduler of client instances (schedule.h, schedule.c)\<close>

text \<open>
  The server keeps the next wakeup of every client in a randomised search tree whose nodes are linked by
  \<^verbatim>\<open>lt\<close>, \<^verbatim>\<open>gt\<close> and \<^verbatim>\<open>parent\<close> pointers. The entries live in storage of the caller, so the model has an
  explicit store: a pointer is a number, \<^const>\<open>None\<close> is \<^verbatim>\<open>NULL\<close>, and every assignment through a pointer
  is an update of the store, in the order of the code. \<^verbatim>\<open>random()\<close> is an argument: \<open>rnd i\<close> is the \<open>i\<close>-th
  value it returns, and the state counts the values drawn.
\<close>

subsection \<open>State\<close>

type_synonym entry_ptr = nat

record schedule_entry =
  se_tv :: timeval
  se_pri :: u32
  se_parent :: "entry_ptr option"
  se_lt :: "entry_ptr option"
  se_gt :: "entry_ptr option"

text \<open>\<open>entries\<close> is the store and \<open>draws\<close> the number of calls of \<^verbatim>\<open>random()\<close>; the rest is \<^verbatim>\<open>struct schedule\<close>.\<close>

record schedule =
  earliest_wakeup :: "entry_ptr option"
  sc_root :: "entry_ptr option"
  entries :: "entry_ptr \<Rightarrow> schedule_entry"
  draws :: nat

definition upd :: "entry_ptr \<Rightarrow> (schedule_entry \<Rightarrow> schedule_entry) \<Rightarrow> schedule \<Rightarrow> schedule" where
  "upd a f s = s\<lparr>entries := (entries s)(a := f (entries s a))\<rparr>"

definition IN_TREE :: "schedule_entry \<Rightarrow> bool" where
  "IN_TREE e \<longleftrightarrow> se_pri e \<noteq> 0"

subsection \<open>Operations\<close>

definition new_pri :: "u32 \<Rightarrow> u32" where
  "new_pri r = (if r < 1 then 1 else r)"

definition schedule_set_pri :: "(nat \<Rightarrow> u32) \<Rightarrow> schedule \<Rightarrow> entry_ptr \<Rightarrow> schedule" where
  "schedule_set_pri rnd s e = (upd e (\<lambda>x. x\<lparr>se_pri := new_pri (rnd (draws s))\<rparr>) s)\<lparr>draws := draws s + 1\<rparr>"

definition schedule_entry_compare :: "schedule_entry \<Rightarrow> schedule_entry \<Rightarrow> int" where
  "schedule_entry_compare e1 e2 =
     (if tv_sec (se_tv e1) < tv_sec (se_tv e2) then -1
      else if tv_sec (se_tv e1) > tv_sec (se_tv e2) then 1
      else if tv_usec (se_tv e1) < tv_usec (se_tv e2) then -1
      else if tv_usec (se_tv e1) > tv_usec (se_tv e2) then 1
      else if se_pri e1 < se_pri e2 then -1
      else if se_pri e1 > se_pri e2 then 1
      else 0)"

definition schedule_detach_parent :: "schedule \<Rightarrow> entry_ptr \<Rightarrow> schedule exec" where
  "schedule_detach_parent s e =
     (case se_parent (entries s e) of
        Some p \<Rightarrow> do {
          s \<leftarrow> (if se_lt (entries s p) = Some e then Some (upd p (\<lambda>x. x\<lparr>se_lt := None\<rparr>) s)
               else if se_gt (entries s p) = Some e then Some (upd p (\<lambda>x. x\<lparr>se_gt := None\<rparr>) s)
               else None);
          Some (upd e (\<lambda>x. x\<lparr>se_parent := None\<rparr>) s) }
      | None \<Rightarrow> Some (if sc_root s = Some e then s\<lparr>sc_root := None\<rparr> else s))"

text \<open>The three parts of \<^verbatim>\<open>schedule_rotate_up\<close>: the link from above, and the two ways to reorient the parent.\<close>

definition relink_above :: "schedule \<Rightarrow> entry_ptr option \<Rightarrow> entry_ptr \<Rightarrow> entry_ptr \<Rightarrow> schedule exec" where
  "relink_above s gp p e =
     (case gp of
        Some g \<Rightarrow> (if se_gt (entries s g) = Some p then Some (upd g (\<lambda>x. x\<lparr>se_gt := Some e\<rparr>) s)
                   else if se_lt (entries s g) = Some p then Some (upd g (\<lambda>x. x\<lparr>se_lt := Some e\<rparr>) s)
                   else None)
      | None \<Rightarrow> Some (s\<lparr>sc_root := Some e\<rparr>))"

definition set_parent :: "entry_ptr option \<Rightarrow> entry_ptr \<Rightarrow> schedule \<Rightarrow> schedule" where
  "set_parent c p s = (case c of None \<Rightarrow> s | Some c \<Rightarrow> upd c (\<lambda>x. x\<lparr>se_parent := Some p\<rparr>) s)"

definition schedule_rotate_up :: "schedule \<Rightarrow> entry_ptr \<Rightarrow> schedule exec" where
  "schedule_rotate_up s e =
     (case se_parent (entries s e) of
        None \<Rightarrow> Some s
      | Some p \<Rightarrow> do {
          let lt = se_lt (entries s e);
          let gt = se_gt (entries s e);
          let gp = se_parent (entries s p);
          s \<leftarrow> relink_above s gp p e;
          let s = upd e (\<lambda>x. x\<lparr>se_parent := gp\<rparr>) s;
          let s = upd p (\<lambda>x. x\<lparr>se_parent := Some e\<rparr>) s;
          if se_gt (entries s p) = Some e then
            Some (set_parent lt p (upd p (\<lambda>x. x\<lparr>se_gt := lt\<rparr>) (upd e (\<lambda>x. x\<lparr>se_lt := Some p\<rparr>) s)))
          else if se_lt (entries s p) = Some e then
            Some (set_parent gt p (upd p (\<lambda>x. x\<lparr>se_lt := gt\<rparr>) (upd e (\<lambda>x. x\<lparr>se_gt := Some p\<rparr>) s)))
          else None })"

partial_function (option) schedule_remove_loop :: "schedule \<Rightarrow> entry_ptr \<Rightarrow> schedule option" where
  "schedule_remove_loop s e =
     (case (se_lt (entries s e), se_gt (entries s e)) of
        (None, None) \<Rightarrow> Some s
      | (Some l, Some g) \<Rightarrow>
          Option.bind (schedule_rotate_up s (if se_pri (entries s l) < se_pri (entries s g) then l else g))
            (\<lambda>s. schedule_remove_loop s e)
      | (Some l, None) \<Rightarrow> Option.bind (schedule_rotate_up s l) (\<lambda>s. schedule_remove_loop s e)
      | (None, Some g) \<Rightarrow> Option.bind (schedule_rotate_up s g) (\<lambda>s. schedule_remove_loop s e))"

definition schedule_remove_node :: "schedule \<Rightarrow> entry_ptr \<Rightarrow> schedule exec" where
  "schedule_remove_node s e = (do {
     s \<leftarrow> schedule_remove_loop s e;
     s \<leftarrow> schedule_detach_parent s e;
     Some (upd e (\<lambda>x. x\<lparr>se_pri := 0\<rparr>) s) })"

text \<open>The loop of \<^verbatim>\<open>schedule_insert\<close> at the node \<open>c\<close>; an empty tree would be dereferenced.\<close>

partial_function (option) schedule_insert_loop ::
  "(nat \<Rightarrow> u32) \<Rightarrow> schedule \<Rightarrow> entry_ptr \<Rightarrow> entry_ptr \<Rightarrow> schedule option" where
  "schedule_insert_loop rnd s e c =
     (if schedule_entry_compare (entries s e) (entries s c) = -1 then
        (case se_lt (entries s c) of
           Some l \<Rightarrow> schedule_insert_loop rnd s e l
         | None \<Rightarrow> Some (upd e (\<lambda>x. x\<lparr>se_parent := Some c\<rparr>) (upd c (\<lambda>x. x\<lparr>se_lt := Some e\<rparr>) s)))
      else if schedule_entry_compare (entries s e) (entries s c) = 1 then
        (case se_gt (entries s c) of
           Some g \<Rightarrow> schedule_insert_loop rnd s e g
         | None \<Rightarrow> Some (upd e (\<lambda>x. x\<lparr>se_parent := Some c\<rparr>) (upd c (\<lambda>x. x\<lparr>se_gt := Some e\<rparr>) s)))
      else Option.bind (sc_root s) (\<lambda>r. schedule_insert_loop rnd (schedule_set_pri rnd s e) e r))"

definition schedule_insert :: "(nat \<Rightarrow> u32) \<Rightarrow> schedule \<Rightarrow> entry_ptr \<Rightarrow> schedule exec" where
  "schedule_insert rnd s e = Option.bind (sc_root s) (schedule_insert_loop rnd s e)"

partial_function (option) schedule_float_up :: "schedule \<Rightarrow> entry_ptr \<Rightarrow> schedule option" where
  "schedule_float_up s e =
     (case se_parent (entries s e) of
        None \<Rightarrow> Some s
      | Some p \<Rightarrow>
          if se_pri (entries s p) > se_pri (entries s e)
          then Option.bind (schedule_rotate_up s e) (\<lambda>s. schedule_float_up s e)
          else Some s)"

definition schedule_add_modify :: "(nat \<Rightarrow> u32) \<Rightarrow> schedule \<Rightarrow> entry_ptr \<Rightarrow> schedule exec" where
  "schedule_add_modify rnd s e = (do {
     s \<leftarrow> (if IN_TREE (entries s e) then schedule_remove_node s e else Some s);
     let s = schedule_set_pri rnd s e;
     s \<leftarrow> (if sc_root s \<noteq> None then schedule_insert rnd s e else Some (s\<lparr>sc_root := Some e\<rparr>));
     schedule_float_up s e })"

partial_function (option) schedule_find_least_loop :: "schedule \<Rightarrow> entry_ptr \<Rightarrow> entry_ptr option" where
  "schedule_find_least_loop s e =
     (case se_lt (entries s e) of None \<Rightarrow> Some e | Some l \<Rightarrow> schedule_find_least_loop s l)"

definition schedule_find_least :: "schedule \<Rightarrow> entry_ptr option \<Rightarrow> entry_ptr option exec" where
  "schedule_find_least s ep =
     (case ep of None \<Rightarrow> Some None | Some e \<Rightarrow> map_option Some (schedule_find_least_loop s e))"

text \<open>\<open>store\<close> is the storage of the entries when the schedule is created.\<close>

definition schedule_init :: "(entry_ptr \<Rightarrow> schedule_entry) \<Rightarrow> schedule" where
  "schedule_init store = \<lparr>earliest_wakeup = None, sc_root = None, entries = store, draws = 0\<rparr>"

definition schedule_remove_entry :: "schedule \<Rightarrow> entry_ptr \<Rightarrow> schedule exec" where
  "schedule_remove_entry s e = schedule_remove_node (s\<lparr>earliest_wakeup := None\<rparr>) e"

definition schedule_add_entry ::
  "(nat \<Rightarrow> u32) \<Rightarrow> schedule \<Rightarrow> entry_ptr \<Rightarrow> timeval \<Rightarrow> u32 \<Rightarrow> schedule exec" where
  "schedule_add_entry rnd s e tv sigma =
     (if \<not> IN_TREE (entries s e) \<or> sigma = 0 \<or> \<not> tv_within_sigma tv (se_tv (entries s e)) (uint sigma) then do {
        s \<leftarrow> schedule_add_modify rnd (upd e (\<lambda>x. x\<lparr>se_tv := tv\<rparr>) s) e;
        Some (s\<lparr>earliest_wakeup := None\<rparr>) }
      else Some s)"

text \<open>The result is the entry and what the caller finds in \<^verbatim>\<open>*wakeup\<close>, written only when there is an entry.\<close>

definition schedule_get_earliest_wakeup :: "schedule \<Rightarrow> ((entry_ptr \<times> timeval) option \<times> schedule) exec" where
  "schedule_get_earliest_wakeup s = (do {
     s \<leftarrow> (if earliest_wakeup s = None
          then map_option (\<lambda>e. s\<lparr>earliest_wakeup := e\<rparr>) (schedule_find_least s (sc_root s))
          else Some s);
     Some (map_option (\<lambda>e. (e, se_tv (entries s e))) (earliest_wakeup s), s) })"

subsection \<open>The consistency check\<close>

text \<open>
  The checks of \<^verbatim>\<open>schedule_debug_entry\<close> at one entry, and its recursion. The code is compiled with
  \<^verbatim>\<open>SCHEDULE_TEST\<close> only; the result is the depth, the count and the least time.
\<close>

definition debug_entry_ok :: "schedule \<Rightarrow> entry_ptr \<Rightarrow> timeval \<Rightarrow> timeval \<Rightarrow> bool" where
  "debug_entry_ok s e mn mx \<longleftrightarrow>
     (let x = entries s e in
      se_lt x \<noteq> Some e \<and> se_gt x \<noteq> Some e \<and> se_parent x \<noteq> Some e
      \<and> (se_parent x = None \<or> se_parent x \<noteq> se_lt x) \<and> (se_parent x = None \<or> se_parent x \<noteq> se_gt x)
      \<and> (se_lt x = None \<or> se_lt x \<noteq> se_gt x)
      \<and> (case se_lt x of None \<Rightarrow> True
         | Some l \<Rightarrow> se_parent (entries s l) = Some e \<and> schedule_entry_compare (entries s l) x = -1
             \<and> se_pri (entries s l) \<ge> se_pri x)
      \<and> (case se_gt x of None \<Rightarrow> True
         | Some g \<Rightarrow> se_parent (entries s g) = Some e \<and> schedule_entry_compare (entries s g) x \<noteq> 0
             \<and> se_pri (entries s g) \<ge> se_pri x)
      \<and> tv_le mn (se_tv x) \<and> tv_le (se_tv x) mx)"

partial_function (option) schedule_debug_entry ::
  "schedule \<Rightarrow> entry_ptr \<Rightarrow> int \<Rightarrow> int \<Rightarrow> timeval \<Rightarrow> timeval \<Rightarrow> timeval \<Rightarrow> (int \<times> int \<times> timeval) option" where
  "schedule_debug_entry s e depth count least mn mx =
     Option.bind (assert_c (debug_entry_ok s e mn mx)) (\<lambda>_.
       Option.bind
         (case se_lt (entries s e) of
            None \<Rightarrow> Some (depth + 1, count + 1, if tv_lt (se_tv (entries s e)) least then se_tv (entries s e) else least)
          | Some l \<Rightarrow> schedule_debug_entry s l (depth + 1) (count + 1)
              (if tv_lt (se_tv (entries s e)) least then se_tv (entries s e) else least) mn (se_tv (entries s e)))
         (\<lambda>(d1, count, least).
            Option.bind
              (case se_gt (entries s e) of
                 None \<Rightarrow> Some (depth + 1, count, least)
               | Some g \<Rightarrow> schedule_debug_entry s g (depth + 1) count least (se_tv (entries s e)) mx)
              (\<lambda>(d2, count, least). Some (max (max depth d1) d2, count, least))))"

definition schedule_debug :: "schedule \<Rightarrow> int \<Rightarrow> timeval \<Rightarrow> (int \<times> int \<times> timeval) exec" where
  "schedule_debug s count least =
     (case sc_root s of
        None \<Rightarrow> Some (0, count, least)
      | Some r \<Rightarrow> do {
          assert_c (se_parent (entries s r) = None);
          schedule_debug_entry s r 0 count least (Timeval 0 0) (Timeval 0x7FFFFFFF 0x7FFFFFFF) })"

subsection \<open>The tree in the store\<close>

text \<open>
  \<open>rep h par t\<close> says that the entries of the store \<open>h\<close> are linked as the tree \<open>t\<close> of pointers, below the
  node \<open>par\<close>. A context is the path from a node to the root, each step with the sibling subtree.
\<close>

fun ptr :: "entry_ptr tree \<Rightarrow> entry_ptr option" where
  "ptr Leaf = None"
| "ptr (Node l a r) = Some a"

fun rep :: "(entry_ptr \<Rightarrow> schedule_entry) \<Rightarrow> entry_ptr option \<Rightarrow> entry_ptr tree \<Rightarrow> bool" where
  "rep h par Leaf \<longleftrightarrow> True"
| "rep h par (Node l a r) \<longleftrightarrow> se_parent (h a) = par \<and> se_lt (h a) = ptr l \<and> se_gt (h a) = ptr r
     \<and> rep h (Some a) l \<and> rep h (Some a) r"

datatype turn = WentLt entry_ptr "entry_ptr tree" | WentGt entry_ptr "entry_ptr tree"

fun above :: "turn list \<Rightarrow> entry_ptr option" where
  "above [] = None"
| "above (WentLt p r # cs) = Some p"
| "above (WentGt p l # cs) = Some p"

fun plug :: "entry_ptr tree \<Rightarrow> turn list \<Rightarrow> entry_ptr tree" where
  "plug t [] = t"
| "plug t (WentLt p r # cs) = plug (Node t p r) cs"
| "plug t (WentGt p l # cs) = plug (Node l p t) cs"

fun rep_ctx :: "(entry_ptr \<Rightarrow> schedule_entry) \<Rightarrow> entry_ptr option \<Rightarrow> entry_ptr option \<Rightarrow> turn list \<Rightarrow> bool" where
  "rep_ctx h root hole [] \<longleftrightarrow> root = hole"
| "rep_ctx h root hole (WentLt p r # cs) \<longleftrightarrow> se_parent (h p) = above cs \<and> se_lt (h p) = hole
     \<and> se_gt (h p) = ptr r \<and> rep h (Some p) r \<and> rep_ctx h root (Some p) cs"
| "rep_ctx h root hole (WentGt p l # cs) \<longleftrightarrow> se_parent (h p) = above cs \<and> se_gt (h p) = hole
     \<and> se_lt (h p) = ptr l \<and> rep h (Some p) l \<and> rep_ctx h root (Some p) cs"

fun before :: "turn list \<Rightarrow> entry_ptr list" where
  "before [] = []"
| "before (WentLt p r # cs) = before cs"
| "before (WentGt p l # cs) = before cs @ inorder l @ [p]"

fun behind :: "turn list \<Rightarrow> entry_ptr list" where
  "behind [] = []"
| "behind (WentLt p r # cs) = p # inorder r @ behind cs"
| "behind (WentGt p l # cs) = behind cs"

definition ctx_set :: "turn list \<Rightarrow> entry_ptr set" where
  "ctx_set cs = set (before cs) \<union> set (behind cs)"

lemma ctx_set_simps [simp]:
  "ctx_set [] = {}"
  "ctx_set (WentLt p r # cs) = insert p (set_tree r \<union> ctx_set cs)"
  "ctx_set (WentGt p l # cs) = insert p (set_tree l \<union> ctx_set cs)"
  by (auto simp: ctx_set_def)

lemma inorder_plug: "inorder (plug t cs) = before cs @ inorder t @ behind cs"
  by (induction t cs rule: plug.induct) auto

lemma set_plug [simp]: "set_tree (plug t cs) = set_tree t \<union> ctx_set cs"
  by (induction t cs rule: plug.induct) auto

lemma rep_plug:
  "rep h None (plug t cs) \<and> root = ptr (plug t cs) \<longleftrightarrow> rep h (above cs) t \<and> rep_ctx h root (ptr t) cs"
  by (induction t cs rule: plug.induct) auto

lemma rep_cong: "(\<And>a. a \<in> set_tree t \<Longrightarrow> h a = h' a) \<Longrightarrow> rep h par t = rep h' par t"
  by (induction t arbitrary: par) auto

lemma rep_upd [simp]: "a \<notin> set_tree t \<Longrightarrow> rep (h(a := x)) par t = rep h par t"
  by (rule rep_cong) auto

lemma rep_ctx_upd [simp]: "a \<notin> ctx_set cs \<Longrightarrow> rep_ctx (h(a := x)) root hole cs = rep_ctx h root hole cs"
  by (induction h root hole cs rule: rep_ctx.induct) auto

lemma ptr_eq_Some: "ptr t = Some a \<longleftrightarrow> (\<exists>l r. t = Node l a r)"
  by (cases t) auto

lemma ptr_in: "ptr t = Some a \<Longrightarrow> a \<in> set_tree t"
  by (auto simp: ptr_eq_Some)

definition tree_ok :: "schedule \<Rightarrow> entry_ptr tree \<Rightarrow> bool" where
  "tree_ok s t \<longleftrightarrow> rep (entries s) None t \<and> sc_root s = ptr t \<and> distinct (inorder t)"

lemma tree_ok_plug:
  "tree_ok s (plug t cs) \<longleftrightarrow> rep (entries s) (above cs) t \<and> rep_ctx (entries s) (sc_root s) (ptr t) cs
     \<and> distinct (before cs @ inorder t @ behind cs)"
  unfolding tree_ok_def inorder_plug using rep_plug [of "entries s" t cs "sc_root s"] by blast

text \<open>\<open>relinked A s s'\<close>: only links of entries in \<open>A\<close> changed, no times, priorities or draws.\<close>

definition relinked :: "entry_ptr set \<Rightarrow> schedule \<Rightarrow> schedule \<Rightarrow> bool" where
  "relinked A s s' \<longleftrightarrow> (\<forall>a. a \<notin> A \<longrightarrow> entries s' a = entries s a)
     \<and> (\<forall>a. se_tv (entries s' a) = se_tv (entries s a) \<and> se_pri (entries s' a) = se_pri (entries s a))
     \<and> draws s' = draws s \<and> earliest_wakeup s' = earliest_wakeup s"

lemma relinked_refl [simp]: "relinked A s s"
  by (simp add: relinked_def)

lemma relinked_trans: "relinked A s s' \<Longrightarrow> relinked A s' s'' \<Longrightarrow> relinked A s s''"
  by (simp add: relinked_def)

subsection \<open>Rotation\<close>

lemma relink_above_law:
  assumes "rep_ctx (entries s) (sc_root s) (Some p) cs" and "p \<notin> ctx_set cs"
    and "distinct (before cs @ behind cs)"
  shows "\<exists>s'. relink_above s (above cs) p e = Some s' \<and> rep_ctx (entries s') (sc_root s') (Some e) cs
    \<and> relinked (ctx_set cs) s s' \<and> (\<forall>a. se_parent (entries s' a) = se_parent (entries s a))"
proof (cases cs rule: above.cases)
  case (2 g r cs')
  then have "se_gt (entries s g) \<noteq> Some p" using assms(1,2) ptr_in [of r p] by auto
  then show ?thesis using 2 assms by (auto simp: relink_above_def upd_def relinked_def ctx_set_def)
next
  case (3 g l cs')
  then show ?thesis using assms by (auto simp: relink_above_def upd_def relinked_def ctx_set_def)
qed (use assms in \<open>auto simp: relink_above_def relinked_def\<close>)

lemma rep_set_parent:
  assumes "rep (entries s) par t" and "distinct (inorder t)"
  shows "rep (entries (set_parent (ptr t) p s)) (Some p) t"
  using assms by (cases t) (auto simp: set_parent_def upd_def)

lemma set_parent_frame:
  "a \<notin> set_tree t \<Longrightarrow> entries (set_parent (ptr t) p s) a = entries s a"
  "sc_root (set_parent c p s) = sc_root s"
  "relinked A s' s \<Longrightarrow> set_tree t \<subseteq> A \<Longrightarrow> relinked A s' (set_parent (ptr t) p s)"
  by (cases t; auto simp: set_parent_def upd_def relinked_def split: option.split)+

lemma rep_beside:
  "set_tree t \<inter> set_tree u = {} \<Longrightarrow> rep (entries (set_parent (ptr u) p s)) par t = rep (entries s) par t"
  "ctx_set cs \<inter> set_tree u = {} \<Longrightarrow>
     rep_ctx (entries (set_parent (ptr u) p s)) root hole cs = rep_ctx (entries s) root hole cs"
  by (cases u; auto simp: set_parent_def upd_def)+

lemma rotate_up_from_lt:
  assumes ok: "tree_ok s (plug (Node l e r) (WentLt p q # cs))"
  shows "\<exists>s'. schedule_rotate_up s e = Some s' \<and> tree_ok s' (plug (Node l e (Node r p q)) cs)
    \<and> relinked (set_tree (plug (Node l e r) (WentLt p q # cs))) s s'"
proof -
  note z = ok [unfolded tree_ok_plug, simplified, folded ctx_set_def]
  have out: "e \<notin> ctx_set cs" "p \<notin> ctx_set cs" "e \<noteq> p" "set_tree l \<inter> ctx_set cs = {}" "set_tree r \<inter> ctx_set cs = {}"
    "set_tree q \<inter> ctx_set cs = {}" "distinct (before cs @ behind cs)" using z by (auto simp: ctx_set_def)
  obtain s1 where s1: "relink_above s (above cs) p e = Some s1" "rep_ctx (entries s1) (sc_root s1) (Some e) cs"
    "relinked (ctx_set cs) s s1" using relink_above_law [of s p cs e] z out by auto
  have at: "entries s1 a = entries s a" if "a \<notin> ctx_set cs" for a using s1(3) that by (simp add: relinked_def)
  have sub: "rep (entries s1) (Some e) l" "rep (entries s1) (Some e) r" "rep (entries s1) (Some p) q"
    using z out at rep_cong [of _ "entries s1" "entries s"] by (metis disjoint_iff)+
  define s3 where "s3 = s1\<lparr>entries := (entries s1)
      (e := (entries s e)\<lparr>se_parent := above cs, se_gt := Some p\<rparr>,
       p := (entries s p)\<lparr>se_parent := Some e, se_lt := ptr r\<rparr>)\<rparr>"
  let ?s = "set_parent (ptr r) p s3"
  have run: "schedule_rotate_up s e = Some ?s"
    using z out s1(1) at ptr_in [of q e] by (auto simp: schedule_rotate_up_def upd_def s3_def fun_upd_twist Let_def)
  have "rep (entries s3) (Some e) r" using sub z by (simp add: s3_def)
  then have "rep (entries ?s) (Some p) r" by (rule rep_set_parent) (use z in simp)
  moreover have "rep (entries ?s) (Some e) l" "rep (entries ?s) (Some p) q" "rep_ctx (entries ?s) (sc_root ?s) (Some e) cs"
    using sub z out s1(2) by (subst rep_beside; auto simp: s3_def set_parent_frame)+
  moreover have "entries ?s e = entries s3 e" "entries ?s p = entries s3 p" using z by (simp_all add: set_parent_frame)
  ultimately have "tree_ok ?s (plug (Node l e (Node r p q)) cs)"
    using z out by (auto simp: tree_ok_plug s3_def)
  moreover have "relinked (set_tree (plug (Node l e r) (WentLt p q # cs))) s s3"
    using s1(3) out by (auto simp: relinked_def s3_def)
  ultimately show ?thesis using run set_parent_frame(3) [of _ s s3 r p] by auto
qed

lemma rotate_up_from_gt:
  assumes ok: "tree_ok s (plug (Node l e r) (WentGt p q # cs))"
  shows "\<exists>s'. schedule_rotate_up s e = Some s' \<and> tree_ok s' (plug (Node (Node q p l) e r) cs)
    \<and> relinked (set_tree (plug (Node l e r) (WentGt p q # cs))) s s'"
proof -
  note z = ok [unfolded tree_ok_plug, simplified, folded ctx_set_def]
  have out: "e \<notin> ctx_set cs" "p \<notin> ctx_set cs" "e \<noteq> p" "set_tree l \<inter> ctx_set cs = {}" "set_tree r \<inter> ctx_set cs = {}"
    "set_tree q \<inter> ctx_set cs = {}" "distinct (before cs @ behind cs)" using z by (auto simp: ctx_set_def)
  obtain s1 where s1: "relink_above s (above cs) p e = Some s1" "rep_ctx (entries s1) (sc_root s1) (Some e) cs"
    "relinked (ctx_set cs) s s1" using relink_above_law [of s p cs e] z out by auto
  have at: "entries s1 a = entries s a" if "a \<notin> ctx_set cs" for a using s1(3) that by (simp add: relinked_def)
  have sub: "rep (entries s1) (Some e) l" "rep (entries s1) (Some e) r" "rep (entries s1) (Some p) q"
    using z out at rep_cong [of _ "entries s1" "entries s"] by (metis disjoint_iff)+
  define s3 where "s3 = s1\<lparr>entries := (entries s1)
      (e := (entries s e)\<lparr>se_parent := above cs, se_lt := Some p\<rparr>,
       p := (entries s p)\<lparr>se_parent := Some e, se_gt := ptr l\<rparr>)\<rparr>"
  let ?s = "set_parent (ptr l) p s3"
  have run: "schedule_rotate_up s e = Some ?s"
    using z out s1(1) at ptr_in [of q e] by (auto simp: schedule_rotate_up_def upd_def s3_def fun_upd_twist Let_def)
  have "rep (entries s3) (Some e) l" using sub z by (simp add: s3_def)
  then have "rep (entries ?s) (Some p) l" by (rule rep_set_parent) (use z in simp)
  moreover have "rep (entries ?s) (Some e) r" "rep (entries ?s) (Some p) q" "rep_ctx (entries ?s) (sc_root ?s) (Some e) cs"
    using sub z out s1(2) by (subst rep_beside; auto simp: s3_def set_parent_frame)+
  moreover have "entries ?s e = entries s3 e" "entries ?s p = entries s3 p" using z by (simp_all add: set_parent_frame)
  ultimately have "tree_ok ?s (plug (Node (Node q p l) e r) cs)"
    using z out by (auto simp: tree_ok_plug s3_def)
  moreover have "relinked (set_tree (plug (Node l e r) (WentGt p q # cs))) s s3"
    using s1(3) out by (auto simp: relinked_def s3_def)
  ultimately show ?thesis using run set_parent_frame(3) [of _ s s3 l p] by auto
qed

end
