(* ===== verification/Schedule_Treap.thy ===== *)
theory Schedule_Treap
  imports Schedule
begin

section \<open>Removal and insertion in the tree of the scheduler\<close>

text \<open>
  Laws of the pointer operations in terms of the tree they work on. The order of the entries is the inorder
  sequence of the tree, which rotations leave alone; the priorities form a heap except at the entry that
  moves. Every loop is shown to end.
\<close>

subsection \<open>Order and heap\<close>

definition klt :: "(entry_ptr \<Rightarrow> schedule_entry) \<Rightarrow> entry_ptr \<Rightarrow> entry_ptr \<Rightarrow> bool" where
  "klt h a b \<longleftrightarrow> se_tv (h a) < se_tv (h b) \<or> se_tv (h a) = se_tv (h b) \<and> se_pri (h a) < se_pri (h b)"

lemma compare_klt:
  "schedule_entry_compare (h a) (h b) = -1 \<longleftrightarrow> klt h a b"
  "schedule_entry_compare (h a) (h b) = 1 \<longleftrightarrow> klt h b a"
  unfolding schedule_entry_compare_def klt_def less_timeval_def tv_lt_def
  by (cases "se_tv (h a)"; cases "se_tv (h b)"; auto)+

lemma klt_trans: "klt h a b \<Longrightarrow> klt h b c \<Longrightarrow> klt h a c"
  by (auto simp: klt_def)

lemma klt_total: "\<not> klt h a b \<Longrightarrow> \<not> klt h b a \<Longrightarrow> se_tv (h a) = se_tv (h b) \<and> se_pri (h a) = se_pri (h b)"
  by (auto simp: klt_def)

lemma klt_relinked: "relinked A s s' \<Longrightarrow> klt (entries s') = klt (entries s)"
  by (simp add: relinked_def klt_def fun_eq_iff)

lemma pri_relinked: "relinked A s s' \<Longrightarrow> se_pri (entries s' a) = se_pri (entries s a)"
  by (simp add: relinked_def)

fun pri_heap :: "(entry_ptr \<Rightarrow> u32) \<Rightarrow> entry_ptr tree \<Rightarrow> bool" where
  "pri_heap pr Leaf \<longleftrightarrow> True"
| "pri_heap pr (Node l a r) \<longleftrightarrow> (\<forall>x \<in> set_tree l \<union> set_tree r. pr a \<le> pr x) \<and> pri_heap pr l \<and> pri_heap pr r"

text \<open>\<open>heap_ctx pr cs X\<close>: the context \<open>cs\<close> is a heap around a subtree with the entries \<open>X\<close>.\<close>

fun heap_ctx :: "(entry_ptr \<Rightarrow> u32) \<Rightarrow> turn list \<Rightarrow> entry_ptr set \<Rightarrow> bool" where
  "heap_ctx pr [] X \<longleftrightarrow> True"
| "heap_ctx pr (WentLt p q # cs) X \<longleftrightarrow> (\<forall>x \<in> X \<union> set_tree q. pr p \<le> pr x) \<and> pri_heap pr q
     \<and> heap_ctx pr cs (insert p (X \<union> set_tree q))"
| "heap_ctx pr (WentGt p q # cs) X \<longleftrightarrow> (\<forall>x \<in> set_tree q \<union> X. pr p \<le> pr x) \<and> pri_heap pr q
     \<and> heap_ctx pr cs (insert p (set_tree q \<union> X))"

lemma heap_plug: "pri_heap pr (plug t cs) \<longleftrightarrow> pri_heap pr t \<and> heap_ctx pr cs (set_tree t)"
  by (induction t cs rule: plug.induct) (simp_all add: conj_ac)

lemma heap_ctx_mono: "heap_ctx pr cs X \<Longrightarrow> Y \<subseteq> X \<Longrightarrow> heap_ctx pr cs Y"
proof (induction cs arbitrary: X Y)
  case (Cons c cs)
  show ?case
  proof (cases c)
    case (WentLt p q)
    have "insert p (Y \<union> set_tree q) \<subseteq> insert p (X \<union> set_tree q)" using Cons.prems(2) by blast
    then have "heap_ctx pr cs (insert p (Y \<union> set_tree q))" by (rule Cons.IH [rotated]) (use Cons.prems(1) WentLt in simp)
    then show ?thesis using Cons.prems WentLt by auto
  next
    case (WentGt p q)
    have "insert p (set_tree q \<union> Y) \<subseteq> insert p (set_tree q \<union> X)" using Cons.prems(2) by blast
    then have "heap_ctx pr cs (insert p (set_tree q \<union> Y))" by (rule Cons.IH [rotated]) (use Cons.prems(1) WentGt in simp)
    then show ?thesis using Cons.prems WentGt by auto
  qed
qed simp

lemma heap_ctx_above: "heap_ctx pr cs X \<Longrightarrow> above cs = Some p \<Longrightarrow> x \<in> X \<Longrightarrow> pr p \<le> pr x"
  by (cases cs rule: above.cases) simp_all

lemma heap_ctx_add:
  assumes "heap_ctx pr cs X" and "\<And>p. above cs = Some p \<Longrightarrow> pr p \<le> pr e"
  shows "heap_ctx pr cs (insert e X)"
  using assms
proof (induction cs arbitrary: X)
  case (Cons c cs)
  have up: "pr p' \<le> pr e" if "above cs = Some p'" "heap_ctx pr cs (insert p Y)" "pr p \<le> pr e" for p p' Y
    using heap_ctx_above [OF that(2,1), of p] that(3) by simp
  show ?case
  proof (cases c)
    case (WentLt p q)
    with Cons.prems have "heap_ctx pr cs (insert p (X \<union> set_tree q))" "pr p \<le> pr e" by simp_all
    then have "heap_ctx pr cs (insert e (insert p (X \<union> set_tree q)))" using up by (intro Cons.IH)
    then show ?thesis using Cons.prems WentLt by (simp add: insert_commute)
  next
    case (WentGt p q)
    with Cons.prems have "heap_ctx pr cs (insert p (set_tree q \<union> X))" "pr p \<le> pr e" by simp_all
    then have "heap_ctx pr cs (insert e (insert p (set_tree q \<union> X)))" using up by (intro Cons.IH)
    then show ?thesis using Cons.prems WentGt by (simp add: insert_commute)
  qed
qed simp

lemma plug_append: "plug t (cs @ ds) = plug (plug t cs) ds"
  by (induction t cs rule: plug.induct) auto

lemma focus: "a \<in> set_tree t \<Longrightarrow> \<exists>l r cs. t = plug (Node l a r) cs"
proof (induction t)
  case (Node l x r)
  consider "a = x" | "a \<in> set_tree l" | "a \<in> set_tree r" using Node.prems by auto
  then show ?case
  proof cases
    case 1
    then show ?thesis by (metis plug.simps(1))
  next
    case 2
    then obtain l' r' cs where "l = plug (Node l' a r') cs" using Node.IH(1) by blast
    then have "Node l x r = plug (Node l' a r') (cs @ [WentLt x r])" by (simp add: plug_append)
    then show ?thesis by blast
  next
    case 3
    then obtain l' r' cs where "r = plug (Node l' a r') cs" using Node.IH(2) by blast
    then have "Node l x r = plug (Node l' a r') (cs @ [WentGt x l])" by (simp add: plug_append)
    then show ?thesis by blast
  qed
qed simp

subsection \<open>Removal\<close>

lemma tree_ok_links:
  assumes "tree_ok s (plug (Node l e r) cs)"
  shows "se_lt (entries s e) = ptr l" "se_gt (entries s e) = ptr r" "se_parent (entries s e) = above cs"
  using assms by (simp_all add: tree_ok_plug)

lemma sink_right:
  assumes "tree_ok s (plug (Node (Node ll c lr) e r) cs)" and "pri_heap pr (Node ll c lr)"
    and "heap_ctx pr cs (set_tree (Node ll c lr) \<union> set_tree r)" and "\<forall>x \<in> set_tree r. pr c \<le> pr x"
  shows "\<exists>s'. schedule_rotate_up s c = Some s' \<and> tree_ok s' (plug (Node lr e r) (WentGt c ll # cs))
    \<and> relinked (set_tree (plug (Node (Node ll c lr) e r) cs)) s s'
    \<and> heap_ctx pr (WentGt c ll # cs) (set_tree lr \<union> set_tree r)"
  using rotate_up_from_lt [of s ll c lr e r cs] assms by (auto simp: Un_ac elim!: heap_ctx_mono)

lemma sink_left:
  assumes "tree_ok s (plug (Node l e (Node rl c rr)) cs)" and "pri_heap pr (Node rl c rr)"
    and "heap_ctx pr cs (set_tree l \<union> set_tree (Node rl c rr))" and "\<forall>x \<in> set_tree l. pr c \<le> pr x"
  shows "\<exists>s'. schedule_rotate_up s c = Some s' \<and> tree_ok s' (plug (Node l e rl) (WentLt c rr # cs))
    \<and> relinked (set_tree (plug (Node l e (Node rl c rr)) cs)) s s'
    \<and> heap_ctx pr (WentLt c rr # cs) (set_tree l \<union> set_tree rl)"
  using rotate_up_from_gt [of s rl c rr e l cs] assms by (auto simp: Un_ac elim!: heap_ctx_mono)

lemma pri_heap_root: "pri_heap pr t \<Longrightarrow> ptr t = Some d \<Longrightarrow> x \<in> set_tree t \<Longrightarrow> pr d \<le> pr x"
  by (cases t) auto

text \<open>One round of the loop rotates up the child with the smaller priority.\<close>

lemma remove_loop_round:
  assumes "tree_ok s (plug (Node l e r) cs)" and "\<And>a. se_pri (entries s a) = pr a"
    and "pri_heap pr l" and "pri_heap pr r" and "heap_ctx pr cs (set_tree l \<union> set_tree r)" and "\<not> (l = Leaf \<and> r = Leaf)"
  obtains s' l' r' cs' where "schedule_remove_loop s e = schedule_remove_loop s' e"
    "tree_ok s' (plug (Node l' e r') cs')" "pri_heap pr l'" "pri_heap pr r'"
    "heap_ctx pr cs' (set_tree l' \<union> set_tree r')" "size l' + size r' < size l + size r"
    "before cs' @ inorder l' = before cs @ inorder l" "inorder r' @ behind cs' = inorder r @ behind cs"
    "relinked (set_tree (plug (Node l e r) cs)) s s'"
proof -
  note result = that
  note links = tree_ok_links [OF assms(1)]
  have unf: "schedule_remove_loop s e = Option.bind (schedule_rotate_up s c) (\<lambda>s. schedule_remove_loop s e)"
    if "ptr l = Some c \<and> (r = Leaf \<or> (\<exists>d. ptr r = Some d \<and> pr c < pr d))
        \<or> ptr r = Some c \<and> (l = Leaf \<or> (\<exists>d. ptr l = Some d \<and> \<not> pr d < pr c))" for c
    by (subst schedule_remove_loop.simps) (use that links assms(2) in auto)
  have lt: thesis if l: "l = Node ll c lr" and d: "r = Leaf \<or> (\<exists>d. ptr r = Some d \<and> pr c < pr d)" for ll c lr
  proof -
    have "\<forall>x \<in> set_tree r. pr c \<le> pr x" using d pri_heap_root [OF assms(4)] by (auto intro: order.trans less_imp_le)
    then obtain s1 where "schedule_rotate_up s c = Some s1" "tree_ok s1 (plug (Node lr e r) (WentGt c ll # cs))"
      "relinked (set_tree (plug (Node l e r) cs)) s s1" "heap_ctx pr (WentGt c ll # cs) (set_tree lr \<union> set_tree r)"
      using sink_right assms(1,3,5) unfolding l by meson
    then show thesis using l d assms(3,4) unf [of c] by (intro result [of s1 lr r "WentGt c ll # cs"]) auto
  qed
  have gt: thesis if r: "r = Node rl c rr" and d: "l = Leaf \<or> (\<exists>d. ptr l = Some d \<and> \<not> pr d < pr c)" for rl c rr
  proof -
    have "\<forall>x \<in> set_tree l. pr c \<le> pr x" using d pri_heap_root [OF assms(3)] by (force simp: not_less)
    then obtain s1 where "schedule_rotate_up s c = Some s1" "tree_ok s1 (plug (Node l e rl) (WentLt c rr # cs))"
      "relinked (set_tree (plug (Node l e r) cs)) s s1" "heap_ctx pr (WentLt c rr # cs) (set_tree l \<union> set_tree rl)"
      using sink_left assms(1,4,5) unfolding r by meson
    then show thesis using r d assms(3,4) unf [of c] by (intro result [of s1 l rl "WentLt c rr # cs"]) auto
  qed
  show thesis using lt gt assms(6) by (cases l; cases r; force)
qed

lemma remove_loop_law:
  assumes "tree_ok s (plug (Node l e r) cs)" and "\<And>a. se_pri (entries s a) = pr a"
    and "pri_heap pr l" and "pri_heap pr r" and "heap_ctx pr cs (set_tree l \<union> set_tree r)"
  shows "\<exists>s' cs'. schedule_remove_loop s e = Some s' \<and> tree_ok s' (plug (Node Leaf e Leaf) cs')
    \<and> before cs' = before cs @ inorder l \<and> behind cs' = inorder r @ behind cs \<and> heap_ctx pr cs' {}
    \<and> relinked (set_tree (plug (Node l e r) cs)) s s'"
  using assms
proof (induction "size l + size r" arbitrary: s l r cs rule: less_induct)
  case less
  show ?case
  proof (cases "l = Leaf \<and> r = Leaf")
    case True
    with tree_ok_links [OF less.prems(1)] less.prems show ?thesis by (subst schedule_remove_loop.simps) auto
  next
    case False
    with less.prems obtain s' l' r' cs' where *: "schedule_remove_loop s e = schedule_remove_loop s' e"
      "tree_ok s' (plug (Node l' e r') cs')" "pri_heap pr l'" "pri_heap pr r'"
      "heap_ctx pr cs' (set_tree l' \<union> set_tree r')" "size l' + size r' < size l + size r"
      "before cs' @ inorder l' = before cs @ inorder l" "inorder r' @ behind cs' = inorder r @ behind cs"
      "relinked (set_tree (plug (Node l e r) cs)) s s'" by (rule remove_loop_round)
    have "set (inorder (plug (Node l' e r') cs')) = set (inorder (plug (Node l e r) cs))"
      unfolding inorder_plug inorder.simps append_assoc *(8) using *(7) by (metis append_assoc)
    then have set: "set_tree (plug (Node l' e r') cs') = set_tree (plug (Node l e r) cs)" unfolding set_inorder .
    have "se_pri (entries s' a) = pr a" for a using *(9) less.prems(2) by (simp add: relinked_def)
    from less.hyps [OF *(6,2) this *(3-5)] show ?thesis
      unfolding *(1,7,8) set using relinked_trans [OF *(9)] by blast
  qed
qed

lemma detach_parent_law:
  assumes "tree_ok s (plug (Node Leaf e Leaf) cs)"
  shows "\<exists>s'. schedule_detach_parent s e = Some s' \<and> tree_ok s' (plug Leaf cs)
    \<and> se_parent (entries s' e) = None \<and> se_lt (entries s' e) = None \<and> se_gt (entries s' e) = None
    \<and> relinked (set_tree (plug (Node Leaf e Leaf) cs)) s s'"
proof -
  note z = assms [unfolded tree_ok_plug, simplified, folded ctx_set_def]
  show ?thesis
  proof (cases cs rule: above.cases)
    case 1
    then show ?thesis using z by (auto simp: schedule_detach_parent_def tree_ok_def relinked_def)
  next
    case (2 p q cs')
    then show ?thesis using z
      by (auto simp: schedule_detach_parent_def upd_def tree_ok_plug relinked_def ctx_set_def)
  next
    case (3 p q cs')
    then have "se_lt (entries s p) \<noteq> Some e" using z ptr_in [of q e] by auto
    then show ?thesis using z 3
      by (auto simp: schedule_detach_parent_def upd_def tree_ok_plug relinked_def ctx_set_def)
  qed
qed

text \<open>
  The invariant of the links: they form a tree of exactly the entries whose priority is not 0, the priorities
  form a heap, and the links of all other entries are \<^verbatim>\<open>NULL\<close>.
\<close>

definition links_ok :: "schedule \<Rightarrow> entry_ptr tree \<Rightarrow> bool" where
  "links_ok s t \<longleftrightarrow> tree_ok s t \<and> pri_heap (\<lambda>a. se_pri (entries s a)) t
     \<and> (\<forall>a. a \<in> set_tree t \<longleftrightarrow> se_pri (entries s a) \<noteq> 0)
     \<and> (\<forall>a. a \<notin> set_tree t \<longrightarrow> se_parent (entries s a) = None \<and> se_lt (entries s a) = None \<and> se_gt (entries s a) = None)"

definition same_but_pri :: "entry_ptr \<Rightarrow> schedule \<Rightarrow> schedule \<Rightarrow> bool" where
  "same_but_pri e s s' \<longleftrightarrow> (\<forall>a. se_tv (entries s' a) = se_tv (entries s a))
     \<and> (\<forall>a. a \<noteq> e \<longrightarrow> se_pri (entries s' a) = se_pri (entries s a)) \<and> earliest_wakeup s' = earliest_wakeup s"

lemma pri_heap_cong: "(\<And>a. a \<in> set_tree t \<Longrightarrow> pr a = pr' a) \<Longrightarrow> pri_heap pr t = pri_heap pr' t"
  by (induction t) auto

lemma sorted_klt_cong:
  assumes "\<And>a. a \<in> set xs \<Longrightarrow> se_tv (h a) = se_tv (h' a) \<and> se_pri (h a) = se_pri (h' a)"
  shows "sorted_wrt (klt h) xs = sorted_wrt (klt h') xs"
  using assms by (induction xs) (auto simp: klt_def)

lemma remove_node_law:
  assumes "links_ok s t"
  shows "\<exists>s' t'. schedule_remove_node s e = Some s' \<and> links_ok s' t' \<and> inorder t' = remove1 e (inorder t)
    \<and> same_but_pri e s s' \<and> draws s' = draws s \<and> se_pri (entries s' e) = 0"
proof (cases "e \<in> set_tree t")
  case True
  then obtain l r cs where t: "t = plug (Node l e r) cs" using focus by blast
  let ?pr = "\<lambda>a. se_pri (entries s a)"
  have ok: "tree_ok s t" "pri_heap ?pr t" using assms by (simp_all add: links_ok_def)
  then have hp: "pri_heap ?pr l" "pri_heap ?pr r" "heap_ctx ?pr cs (set_tree l \<union> set_tree r)"
    unfolding t heap_plug by (auto elim!: heap_ctx_mono)
  obtain s1 cs1 where s1: "schedule_remove_loop s e = Some s1" "tree_ok s1 (plug (Node Leaf e Leaf) cs1)"
      "before cs1 = before cs @ inorder l" "behind cs1 = inorder r @ behind cs" "heap_ctx ?pr cs1 {}"
      "relinked (set_tree t) s s1"
    using remove_loop_law [OF ok(1) [unfolded t] refl hp] unfolding t by blast
  obtain s2 where s2: "schedule_detach_parent s1 e = Some s2" "tree_ok s2 (plug Leaf cs1)"
      "se_parent (entries s2 e) = None" "se_lt (entries s2 e) = None" "se_gt (entries s2 e) = None"
      "relinked (set_tree (plug (Node Leaf e Leaf) cs1)) s1 s2"
    using detach_parent_law [OF s1(2)] by blast
  have in': "inorder (plug Leaf cs1) = remove1 e (inorder t)" and sub: "set_tree t = insert e (ctx_set cs1)"
    and e: "e \<notin> ctx_set cs1"
    using ok(1) [unfolded t tree_ok_plug] s1(2) [unfolded tree_ok_plug]
    by (auto simp: inorder_plug s1(3,4) t remove1_append ctx_set_def)
  have rel: "relinked (set_tree t) s s2" using relinked_trans [OF s1(6)] s2(6) sub by simp
  let ?s = "upd e (\<lambda>x. x\<lparr>se_pri := 0\<rparr>) s2"
  have "pri_heap (\<lambda>a. se_pri (entries ?s a)) (plug Leaf cs1) = pri_heap ?pr (plug Leaf cs1)"
    by (rule pri_heap_cong) (use rel e in \<open>auto simp: relinked_def upd_def\<close>)
  then have "pri_heap (\<lambda>a. se_pri (entries ?s a)) (plug Leaf cs1)" by (simp add: heap_plug s1(5))
  then have "links_ok ?s (plug Leaf cs1)"
    using s2 rel sub e assms by (auto simp: links_ok_def tree_ok_def upd_def relinked_def)
  moreover have "same_but_pri e s ?s" "draws ?s = draws s" using rel by (auto simp: same_but_pri_def relinked_def upd_def)
  ultimately show ?thesis using s1(1) s2(1) in' by (auto simp: schedule_remove_node_def upd_def)
next
  case False
  then have "schedule_remove_loop s e = Some s" "schedule_detach_parent s e = Some s"
    using assms ptr_in [of t e] by (auto simp: links_ok_def tree_ok_def schedule_remove_loop.simps schedule_detach_parent_def)
  moreover have "upd e (\<lambda>x. x\<lparr>se_pri := 0\<rparr>) s = s"
    using assms False by (auto simp: upd_def links_ok_def intro!: schedule.equality schedule_entry.equality)
  ultimately show ?thesis using assms False
    by (intro exI [of _ s] exI [of _ t]) (auto simp: schedule_remove_node_def same_but_pri_def remove1_idem links_ok_def)
qed

end
