(* ===== verification/Schedule_Insert.thy ===== *)
theory Schedule_Insert
  imports Schedule_Treap
begin

section \<open>Insertion in the tree of the scheduler\<close>

text \<open>
  The new entry becomes a leaf and floats up. A descent that meets an entry with the same key draws another
  priority and starts again, so insertion ends as soon as one of the values of \<^verbatim>\<open>random()\<close> gives a key that
  is not in the tree.
\<close>

subsection \<open>Insertion\<close>

definition before_behind :: "schedule \<Rightarrow> entry_ptr \<Rightarrow> turn list \<Rightarrow> bool" where
  "before_behind s e cs \<longleftrightarrow> (\<forall>x \<in> set (before cs). klt (entries s) x e) \<and> (\<forall>x \<in> set (behind cs). klt (entries s) e x)"

text \<open>\<open>found_place s e t s'\<close>: the entry became a leaf of the tree \<open>t\<close>, where its key belongs.\<close>

definition found_place :: "schedule \<Rightarrow> entry_ptr \<Rightarrow> entry_ptr tree \<Rightarrow> schedule \<Rightarrow> bool" where
  "found_place s e t s' \<longleftrightarrow> (\<exists>cs. t = plug Leaf cs \<and> tree_ok s' (plug (Node Leaf e Leaf) cs)
     \<and> relinked (insert e (set_tree t)) s s' \<and> before_behind s e cs)"

definition collides :: "schedule \<Rightarrow> entry_ptr \<Rightarrow> entry_ptr tree \<Rightarrow> bool" where
  "collides s e t \<longleftrightarrow> (\<exists>x \<in> set_tree t. se_tv (entries s x) = se_tv (entries s e) \<and> se_pri (entries s x) = se_pri (entries s e))"

lemma place_lt:
  assumes "tree_ok s (plug (Node Leaf c q) cs)" and "e \<notin> set_tree (plug (Node Leaf c q) cs)"
    and "se_lt (entries s e) = None" "se_gt (entries s e) = None" and "before_behind s e (WentLt c q # cs)"
  shows "found_place s e (plug (Node Leaf c q) cs)
    (upd e (\<lambda>x. x\<lparr>se_parent := Some c\<rparr>) (upd c (\<lambda>x. x\<lparr>se_lt := Some e\<rparr>) s))"
  unfolding found_place_def
proof (intro exI [of _ "WentLt c q # cs"] conjI)
  show "tree_ok (upd e (\<lambda>x. x\<lparr>se_parent := Some c\<rparr>) (upd c (\<lambda>x. x\<lparr>se_lt := Some e\<rparr>) s))
    (plug (Node Leaf e Leaf) (WentLt c q # cs))" using assms(1-4) by (auto simp: tree_ok_plug upd_def ctx_set_def)
qed (use assms(5) in \<open>auto simp: relinked_def upd_def\<close>)

lemma place_gt:
  assumes "tree_ok s (plug (Node q c Leaf) cs)" and "e \<notin> set_tree (plug (Node q c Leaf) cs)"
    and "se_lt (entries s e) = None" "se_gt (entries s e) = None" and "before_behind s e (WentGt c q # cs)"
  shows "found_place s e (plug (Node q c Leaf) cs)
    (upd e (\<lambda>x. x\<lparr>se_parent := Some c\<rparr>) (upd c (\<lambda>x. x\<lparr>se_gt := Some e\<rparr>) s))"
  unfolding found_place_def
proof (intro exI [of _ "WentGt c q # cs"] conjI)
  show "tree_ok (upd e (\<lambda>x. x\<lparr>se_parent := Some c\<rparr>) (upd c (\<lambda>x. x\<lparr>se_gt := Some e\<rparr>) s))
    (plug (Node Leaf e Leaf) (WentGt c q # cs))" using assms(1-4) by (auto simp: tree_ok_plug upd_def ctx_set_def)
qed (use assms(5) in \<open>auto simp: relinked_def upd_def\<close>)

text \<open>One descent from the node \<open>c\<close> finds the place of the new entry, or an entry with the same key.\<close>

lemma insert_loop_pass:
  assumes "tree_ok s (plug (Node l c r) cs)" and "e \<notin> set_tree (plug (Node l c r) cs)"
    and "se_lt (entries s e) = None" "se_gt (entries s e) = None"
    and "sorted_wrt (klt (entries s)) (inorder (plug (Node l c r) cs))" and "before_behind s e cs"
  shows "(\<exists>s'. schedule_insert_loop rnd s e c = Some s' \<and> found_place s e (plug (Node l c r) cs) s')
    \<or> schedule_insert_loop rnd s e c = Option.bind (sc_root s) (schedule_insert_loop rnd (schedule_set_pri rnd s e) e)
      \<and> collides s e (plug (Node l c r) cs)"
  using assms
proof (induction "Node l c r" arbitrary: l c r cs)
  case (Node l c r)
  note links = tree_ok_links [OF Node.prems(1)]
  let ?lt = "klt (entries s)"
  have srt: "\<forall>x \<in> set_tree l. ?lt x c" "\<forall>x \<in> set_tree r. ?lt c x"
    using Node.prems(5) by (auto simp: inorder_plug sorted_wrt_append)
  consider (lt) "?lt e c" | (gt) "?lt c e" "\<not> ?lt e c" | (eq) "\<not> ?lt e c" "\<not> ?lt c e" by blast
  then show ?case
  proof cases
    case lt
    then have bb: "before_behind s e (WentLt c r # cs)"
      using srt Node.prems(6) by (auto simp: before_behind_def intro: klt_trans)
    show ?thesis
    proof (cases l)
      case Leaf
      then have "schedule_insert_loop rnd s e c =
          Some (upd e (\<lambda>x. x\<lparr>se_parent := Some c\<rparr>) (upd c (\<lambda>x. x\<lparr>se_lt := Some e\<rparr>) s))"
        by (subst schedule_insert_loop.simps) (simp add: compare_klt lt links)
      then show ?thesis using place_lt [OF _ _ Node.prems(3,4) bb] Node.prems(1,2) Leaf by auto
    next
      case (Node a d b)
      then have "schedule_insert_loop rnd s e c = schedule_insert_loop rnd s e d"
        by (subst schedule_insert_loop.simps) (simp add: compare_klt lt links)
      with Node.hyps(1) [OF Node, of "WentLt c r # cs"] show ?thesis using Node bb Node.prems by simp
    qed
  next
    case gt
    then have bb: "before_behind s e (WentGt c l # cs)"
      using srt Node.prems(6) by (auto simp: before_behind_def intro: klt_trans)
    show ?thesis
    proof (cases r)
      case Leaf
      then have "schedule_insert_loop rnd s e c =
          Some (upd e (\<lambda>x. x\<lparr>se_parent := Some c\<rparr>) (upd c (\<lambda>x. x\<lparr>se_gt := Some e\<rparr>) s))"
        by (subst schedule_insert_loop.simps) (simp add: compare_klt gt links)
      then show ?thesis using place_gt [OF _ _ Node.prems(3,4) bb] Node.prems(1,2) Leaf by auto
    next
      case (Node a d b)
      then have "schedule_insert_loop rnd s e c = schedule_insert_loop rnd s e d"
        by (subst schedule_insert_loop.simps) (simp add: compare_klt gt links)
      with Node.hyps(2) [OF Node, of "WentGt c l # cs"] show ?thesis using Node bb Node.prems by simp
    qed
  next
    case eq
    then have "schedule_insert_loop rnd s e c = Option.bind (sc_root s) (schedule_insert_loop rnd (schedule_set_pri rnd s e) e)"
      by (subst schedule_insert_loop.simps) (simp add: compare_klt)
    then show ?thesis using klt_total [OF eq] by (auto simp: collides_def)
  qed
qed

definition repri :: "entry_ptr \<Rightarrow> schedule \<Rightarrow> schedule \<Rightarrow> bool" where
  "repri e s s' \<longleftrightarrow> (\<exists>p n. p \<noteq> 0 \<and> s' = (upd e (\<lambda>x. x\<lparr>se_pri := p\<rparr>) s)\<lparr>draws := n\<rparr>)"

lemma new_pri_pos [simp]: "new_pri r \<noteq> 0"
  by (auto simp: new_pri_def word_less_1)

lemma repri_refl: "se_pri (entries s e) \<noteq> 0 \<Longrightarrow> repri e s s"
  unfolding repri_def by (intro exI [of _ "se_pri (entries s e)"] exI [of _ "draws s"]) (simp add: upd_def)

lemma repri_set_pri: "repri e s (schedule_set_pri rnd s e)"
  unfolding repri_def schedule_set_pri_def by (intro exI [of _ "new_pri (rnd (draws s))"]) auto

lemma repri_trans: "repri e s s' \<Longrightarrow> repri e s' s'' \<Longrightarrow> repri e s s''"
  by (simp add: repri_def upd_def) fastforce

lemma repri_frame:
  assumes "repri e s s'" and "e \<notin> set_tree t"
  shows "tree_ok s' t = tree_ok s t" "sorted_wrt (klt (entries s')) (inorder t) = sorted_wrt (klt (entries s)) (inorder t)"
    "se_lt (entries s' a) = se_lt (entries s a)" "se_gt (entries s' a) = se_gt (entries s a)"
    "se_parent (entries s' a) = se_parent (entries s a)"
    "sc_root s' = sc_root s" "earliest_wakeup s' = earliest_wakeup s" "se_tv (entries s' a) = se_tv (entries s a)"
    "a \<noteq> e \<Longrightarrow> se_pri (entries s' a) = se_pri (entries s a)" "se_pri (entries s' e) \<noteq> 0"
proof -
  show "sorted_wrt (klt (entries s')) (inorder t) = sorted_wrt (klt (entries s)) (inorder t)"
    by (rule sorted_klt_cong) (use assms in \<open>auto simp: repri_def upd_def\<close>)
qed (use assms in \<open>auto simp: repri_def upd_def tree_ok_def\<close>)

lemma insert_pass:
  assumes "tree_ok s t" "t \<noteq> Leaf" "e \<notin> set_tree t" "se_lt (entries s e) = None" "se_gt (entries s e) = None"
    and "sorted_wrt (klt (entries s)) (inorder t)"
  shows "(\<exists>s'. schedule_insert rnd s e = Some s' \<and> found_place s e t s')
    \<or> schedule_insert rnd s e = schedule_insert rnd (schedule_set_pri rnd s e) e \<and> collides s e t"
proof (cases t)
  case (Node l c r)
  have "before_behind s e []" by (simp add: before_behind_def)
  from insert_loop_pass [of s l c r "[]", OF _ _ assms(4,5) _ this] assms(1,3,6) Node
  show ?thesis by (auto simp: schedule_insert_def tree_ok_def schedule_set_pri_def upd_def)
qed (use assms in simp)

lemma insert_law:
  assumes "tree_ok s t" "t \<noteq> Leaf" "e \<notin> set_tree t" "se_lt (entries s e) = None" "se_gt (entries s e) = None"
    and "sorted_wrt (klt (entries s)) (inorder t)" and "se_pri (entries s e) \<noteq> 0"
    and "\<forall>x \<in> set_tree t. se_pri (entries s x) \<noteq> new_pri (rnd (draws s + k))"
  shows "\<exists>s0 s'. repri e s s0 \<and> schedule_insert rnd s e = Some s' \<and> found_place s0 e t s'"
  using assms
proof (induction k arbitrary: s)
  case (0 s)
  let ?s = "schedule_set_pri rnd s e"
  note re = repri_set_pri [of e s rnd]
  note frame = repri_frame [OF re 0(3)]
  have no: "\<not> collides ?s e t"
    using 0(3,8) unfolding collides_def by (auto simp: schedule_set_pri_def upd_def)
  have "(\<exists>s'. schedule_insert rnd ?s e = Some s' \<and> found_place ?s e t s')"
    using insert_pass [of ?s t e rnd] no 0 frame by metis
  then show ?case using insert_pass [OF 0(1-6), of rnd] re repri_refl [OF 0(7)] by metis
next
  case (Suc k s)
  let ?s = "schedule_set_pri rnd s e"
  note re = repri_set_pri [of e s rnd]
  note frame = repri_frame [OF re Suc.prems(3)]
  have "\<forall>x \<in> set_tree t. se_pri (entries ?s x) \<noteq> new_pri (rnd (draws ?s + k))"
    using Suc.prems(3,8) frame(9) by (auto simp: schedule_set_pri_def upd_def)
  then have "\<exists>s0 s'. repri e ?s s0 \<and> schedule_insert rnd ?s e = Some s' \<and> found_place s0 e t s'"
    using Suc.prems frame by (intro Suc.IH) auto
  then show ?case using insert_pass [OF Suc.prems(1-6), of rnd] repri_trans [OF re] repri_refl [OF Suc.prems(7)] by metis
qed

subsection \<open>Floating up\<close>

lemma float_heap_lt:
  assumes "pri_heap pr (Node l e r)" and "heap_ctx pr (WentLt p q # cs) (set_tree l \<union> set_tree r)" and "pr e < pr p"
  shows "pri_heap pr (Node l e (Node r p q))" "heap_ctx pr cs (set_tree l \<union> set_tree (Node r p q))"
proof -
  have "\<forall>x \<in> set_tree q. pr e \<le> pr x" using assms(2,3) by (auto intro: order.trans less_imp_le)
  then show "pri_heap pr (Node l e (Node r p q))" using assms by (auto intro: less_imp_le)
  show "heap_ctx pr cs (set_tree l \<union> set_tree (Node r p q))" using assms(2) by (auto elim: heap_ctx_mono)
qed

lemma float_heap_gt:
  assumes "pri_heap pr (Node l e r)" and "heap_ctx pr (WentGt p q # cs) (set_tree l \<union> set_tree r)" and "pr e < pr p"
  shows "pri_heap pr (Node (Node q p l) e r)" "heap_ctx pr cs (set_tree (Node q p l) \<union> set_tree r)"
proof -
  have "\<forall>x \<in> set_tree q. pr e \<le> pr x" using assms(2,3) by (auto intro: order.trans less_imp_le)
  then show "pri_heap pr (Node (Node q p l) e r)" using assms by (auto intro: less_imp_le)
  show "heap_ctx pr cs (set_tree (Node q p l) \<union> set_tree r)" using assms(2) by (auto elim: heap_ctx_mono)
qed

lemma float_round:
  assumes "tree_ok s (plug (Node l e r) (c # cs))" and "pri_heap pr (Node l e r)"
    and "heap_ctx pr (c # cs) (set_tree l \<union> set_tree r)" and "above (c # cs) = Some p" and "pr e < pr p"
  obtains s1 l' r' where "schedule_rotate_up s e = Some s1" "tree_ok s1 (plug (Node l' e r') cs)"
    "inorder (plug (Node l' e r') cs) = inorder (plug (Node l e r) (c # cs))"
    "relinked (set_tree (plug (Node l e r) (c # cs))) s s1"
    "pri_heap pr (Node l' e r')" "heap_ctx pr cs (set_tree l' \<union> set_tree r')"
proof (cases c)
  case (WentLt p' q)
  then have c: "c = WentLt p q" using assms(4) by simp
  show thesis using rotate_up_from_lt [OF assms(1) [unfolded c]] float_heap_lt [OF assms(2) assms(3) [unfolded c] assms(5)]
    by (elim exE conjE) (rule that [of _ l "Node r p q"], simp_all add: c inorder_plug)
next
  case (WentGt p' q)
  then have c: "c = WentGt p q" using assms(4) by simp
  show thesis using rotate_up_from_gt [OF assms(1) [unfolded c]] float_heap_gt [OF assms(2) assms(3) [unfolded c] assms(5)]
    by (elim exE conjE) (rule that [of _ "Node q p l" r], simp_all add: c inorder_plug)
qed

lemma float_up_law:
  assumes "tree_ok s (plug (Node l e r) cs)" and "\<And>a. se_pri (entries s a) = pr a"
    and "pri_heap pr (Node l e r)" and "heap_ctx pr cs (set_tree l \<union> set_tree r)"
  shows "\<exists>s' t. schedule_float_up s e = Some s' \<and> tree_ok s' t \<and> inorder t = inorder (plug (Node l e r) cs)
    \<and> pri_heap pr t \<and> relinked (set_tree (plug (Node l e r) cs)) s s'"
  using assms
proof (induction cs arbitrary: s l r)
  case Nil
  then show ?case by (subst schedule_float_up.simps) (auto simp: tree_ok_def intro!: exI [of _ "Node l e r"])
next
  case (Cons c cs)
  obtain p where p: "above (c # cs) = Some p" by (cases c) auto
  note unf = schedule_float_up.simps [of s e, unfolded tree_ok_links(3) [OF Cons.prems(1)] p, simplified]
  show ?case
  proof (cases "pr p > pr e")
    case True
    from float_round [OF Cons.prems(1,3,4) p True] obtain s1 l' r' where *:
      "schedule_rotate_up s e = Some s1" "tree_ok s1 (plug (Node l' e r') cs)"
      "inorder (plug (Node l' e r') cs) = inorder (plug (Node l e r) (c # cs))"
      "relinked (set_tree (plug (Node l e r) (c # cs))) s s1"
      "pri_heap pr (Node l' e r')" "heap_ctx pr cs (set_tree l' \<union> set_tree r')" .
    have "se_pri (entries s1 a) = pr a" for a using *(4) Cons.prems(2) by (simp add: relinked_def)
    from Cons.IH [OF *(2) this *(5,6)] obtain s' t where s': "schedule_float_up s1 e = Some s'" "tree_ok s' t"
      "inorder t = inorder (plug (Node l' e r') cs)" "pri_heap pr t" "relinked (set_tree (plug (Node l' e r') cs)) s1 s'"
      by blast
    have set: "set_tree (plug (Node l' e r') cs) = set_tree (plug (Node l e r) (c # cs))"
      using arg_cong [OF *(3), of set] unfolding set_inorder .
    show ?thesis using True Cons.prems(2) *(1,3) s' relinked_trans [OF *(4)]
      unfolding set unf by (intro exI [of _ s'] exI [of _ t]) simp
  next
    case False
    then have "heap_ctx pr (c # cs) (insert e (set_tree l \<union> set_tree r))"
      using p by (intro heap_ctx_add [OF Cons.prems(4)]) simp
    then have "pri_heap pr (plug (Node l e r) (c # cs))" using Cons.prems(3) by (simp only: heap_plug) simp
    then show ?thesis using False Cons.prems(1,2) unfolding unf
      by (intro exI [of _ s] exI [of _ "plug (Node l e r) (c # cs)"]) simp
  qed
qed

subsection \<open>Adding an entry\<close>

text \<open>\<open>fair_random rnd n\<close>: from any point on, \<^verbatim>\<open>random()\<close> still yields more than \<open>n\<close> different priorities.\<close>

definition fair_random :: "(nat \<Rightarrow> u32) \<Rightarrow> nat \<Rightarrow> bool" where
  "fair_random rnd n \<longleftrightarrow> (\<forall>c. n < card ((\<lambda>i. new_pri (rnd i)) ` {c..}))"

lemma fair_randomD:
  assumes "fair_random rnd n" and "finite A" and "card A \<le> n"
  shows "\<exists>k. \<forall>x \<in> A. pr x \<noteq> new_pri (rnd (c + k))"
proof (rule ccontr)
  assume "\<not> ?thesis"
  then have "new_pri (rnd (c + k)) \<in> pr ` A" for k by (metis imageI)
  then have "(\<lambda>i. new_pri (rnd i)) ` {c..} \<subseteq> pr ` A" by (auto simp: le_iff_add)
  then have "card ((\<lambda>i. new_pri (rnd i)) ` {c..}) \<le> card (pr ` A)"
    using assms(2) by (intro card_mono) auto
  also have "\<dots> \<le> n" using card_image_le [OF assms(2), of pr] assms(3) by simp
  finally show False using assms(1) by (simp add: fair_random_def not_less [symmetric])
qed

lemma attach_law:
  assumes "links_ok s t" and "e \<notin> set_tree t" and "sorted_wrt (klt (entries s)) (inorder t)"
    and "fair_random rnd (card (set_tree t))"
  defines "s1 \<equiv> schedule_set_pri rnd s e"
  shows "\<exists>s0 s'. repri e s s0 \<and> found_place s0 e t s'
    \<and> (if sc_root s1 \<noteq> None then schedule_insert rnd s1 e else Some (s1\<lparr>sc_root := Some e\<rparr>)) = Some s'"
proof -
  have re: "repri e s s1" unfolding s1_def by (rule repri_set_pri)
  note frame = repri_frame [OF re assms(2)]
  have ok: "tree_ok s1 t" "se_lt (entries s1 e) = None" "se_gt (entries s1 e) = None" "se_parent (entries s1 e) = None"
    "sorted_wrt (klt (entries s1)) (inorder t)" "se_pri (entries s1 e) \<noteq> 0"
    using assms(1-3) frame by (simp_all add: links_ok_def)
  show ?thesis
  proof (cases "t = Leaf")
    case True
    then have "sc_root s1 = None" using ok(1) by (simp add: tree_ok_def)
    moreover have "found_place s1 e t (s1\<lparr>sc_root := Some e\<rparr>)"
      unfolding found_place_def using True ok(2-4)
      by (intro exI [of _ "[]"]) (simp add: tree_ok_def relinked_def before_behind_def)
    ultimately show ?thesis using re by auto
  next
    case False
    obtain k where k: "\<forall>x \<in> set_tree t. se_pri (entries s1 x) \<noteq> new_pri (rnd (draws s1 + k))"
      using fair_randomD [OF assms(4) finite_set_tree order.refl,
          where pr = "\<lambda>x. se_pri (entries s1 x)" and c = "draws s1"] ..
    obtain s0 s' where "repri e s1 s0" "schedule_insert rnd s1 e = Some s'" "found_place s0 e t s'"
      using insert_law [where rnd = rnd and k = k, OF ok(1) False assms(2) ok(2,3,5,6) k] by blast
    moreover have "sc_root s1 \<noteq> None" using ok(1) False by (cases t) (auto simp: tree_ok_def)
    ultimately show ?thesis using repri_trans [OF re] by (intro exI [of _ s0] exI [of _ s']) simp
  qed
qed

lemma place_float_law:
  assumes "links_ok s t" and "e \<notin> set_tree t" and "sorted_wrt (klt (entries s)) (inorder t)"
    and re: "repri e s s0" and place: "found_place s0 e t s1"
  shows "\<exists>s' t'. schedule_float_up s1 e = Some s' \<and> links_ok s' t' \<and> sorted_wrt (klt (entries s')) (inorder t')
    \<and> set_tree t' = insert e (set_tree t) \<and> same_but_pri e s s'"
proof -
  let ?pr = "\<lambda>a. se_pri (entries s0 a)"
  note frame = repri_frame [OF re assms(2)]
  from place obtain cs where cs: "t = plug Leaf cs" "tree_ok s1 (plug (Node Leaf e Leaf) cs)"
    "relinked (insert e (set_tree t)) s0 s1" "before_behind s0 e cs" unfolding found_place_def by blast
  have "pri_heap ?pr t" using assms(1,2) frame(9) pri_heap_cong [of t ?pr "\<lambda>a. se_pri (entries s a)"]
    by (metis links_ok_def)
  then have "heap_ctx ?pr cs {}" unfolding cs(1) heap_plug by simp
  moreover have "se_pri (entries s1 a) = ?pr a" for a using cs(3) by (simp add: relinked_def)
  ultimately obtain s' t' where s': "schedule_float_up s1 e = Some s'" "tree_ok s' t'"
    "inorder t' = inorder (plug (Node Leaf e Leaf) cs)" "pri_heap ?pr t'"
    "relinked (set_tree (plug (Node Leaf e Leaf) cs)) s1 s'"
    using float_up_law [OF cs(2), of ?pr] by auto
  have set: "set_tree t' = insert e (set_tree t)" using arg_cong [OF s'(3), of set] unfolding cs(1) by simp
  have rel: "relinked (insert e (set_tree t)) s0 s'" using relinked_trans [OF cs(3)] s'(5) unfolding cs(1) by simp
  then have pr: "(\<lambda>a. se_pri (entries s' a)) = ?pr" by (simp add: relinked_def)
  have "sorted_wrt (klt (entries s0)) (inorder t')"
    using assms(3) cs(4) frame(2) unfolding s'(3) by (auto simp: cs(1) inorder_plug sorted_wrt_append before_behind_def)
  then have "sorted_wrt (klt (entries s')) (inorder t')" by (simp add: klt_relinked [OF rel])
  moreover have "links_ok s' t'"
    using s'(2,4) rel frame assms(1) set unfolding links_ok_def pr
    by (auto simp: relinked_def) metis+
  moreover have "same_but_pri e s s'" using rel frame by (simp add: same_but_pri_def relinked_def)
  ultimately show ?thesis using s'(1) set by blast
qed

end
