(* ===== verification/Schedule_System.thy ===== *)
theory Schedule_System
  imports Schedule_Insert
begin

section \<open>The scheduler as an agenda\<close>

text \<open>
  The operations of the scheduler implement an agenda, a finite map from entries to wakeup times: they never
  run into an assertion or loop forever, whatever sequence of calls is made, and the entry they report is one
  with the least time.
\<close>

subsection \<open>Invariant and operations\<close>

text \<open>The invariant of the scheduler; a cached entry is the first one of the tree.\<close>

definition sched_tree :: "schedule \<Rightarrow> entry_ptr tree \<Rightarrow> bool" where
  "sched_tree s t \<longleftrightarrow> links_ok s t \<and> sorted_wrt (klt (entries s)) (inorder t)
     \<and> (earliest_wakeup s = None \<or> t \<noteq> Leaf \<and> earliest_wakeup s = Some (hd (inorder t)))"

definition sched_ok :: "schedule \<Rightarrow> bool" where
  "sched_ok s \<longleftrightarrow> (\<exists>t. sched_tree s t)"

text \<open>What the schedule stands for: the wakeup time of each entry it holds.\<close>

definition agenda :: "schedule \<Rightarrow> entry_ptr \<Rightarrow> timeval option" where
  "agenda s a = (if IN_TREE (entries s a) then Some (se_tv (entries s a)) else None)"

lemma agenda_cache [simp]: "agenda (s\<lparr>earliest_wakeup := w\<rparr>) = agenda s"
  by (simp add: agenda_def fun_eq_iff)

lemma links_ok_agenda: "links_ok s t \<Longrightarrow> agenda s a = (if a \<in> set_tree t then Some (se_tv (entries s a)) else None)"
  by (simp add: links_ok_def agenda_def IN_TREE_def)

lemma links_ok_dom: "links_ok s t \<Longrightarrow> dom (agenda s) = set_tree t"
  by (auto simp: links_ok_agenda dom_def split: if_splits)

lemma links_ok_cong: "links_ok (s\<lparr>earliest_wakeup := w\<rparr>) t = links_ok s t"
  by (simp add: links_ok_def tree_ok_def)

lemma set_remove1_inorder: "links_ok s t \<Longrightarrow> set (remove1 e (inorder t)) = set_tree t - {e}"
  by (simp add: links_ok_def tree_ok_def)

lemma sorted_wrt_remove1: "sorted_wrt P xs \<Longrightarrow> sorted_wrt P (remove1 x xs)"
  by (induction xs) (auto dest: notin_set_remove1 intro: ccontr)

lemma remove_entry_law:
  assumes "sched_ok s"
  shows "\<exists>s'. schedule_remove_entry s e = Some s' \<and> sched_ok s' \<and> agenda s' = (agenda s)(e := None)"
proof -
  from assms obtain t where t: "links_ok s t" "sorted_wrt (klt (entries s)) (inorder t)"
    unfolding sched_ok_def sched_tree_def by blast
  let ?s = "s\<lparr>earliest_wakeup := None\<rparr>"
  obtain s' t' where s': "schedule_remove_node ?s e = Some s'" "links_ok s' t'" "inorder t' = remove1 e (inorder t)"
    "same_but_pri e ?s s'" "se_pri (entries s' e) = 0"
    using remove_node_law [of ?s t e] t(1) unfolding links_ok_cong by blast
  have e: "e \<notin> set_tree t'" using s'(2,5) by (simp add: links_ok_def)
  have set: "set_tree t' = set_tree t - {e}" using set_remove1_inorder [OF t(1)] s'(3) by (metis set_inorder)
  have "sorted_wrt (klt (entries s)) (inorder t')" unfolding s'(3) by (rule sorted_wrt_remove1 [OF t(2)])
  then have "sorted_wrt (klt (entries s')) (inorder t')"
    by (rule sorted_klt_cong [THEN iffD1, rotated]) (use s'(4) e in \<open>auto simp: same_but_pri_def\<close>)
  then have "sched_ok s'" using s'(2,4) by (auto simp: sched_ok_def sched_tree_def same_but_pri_def)
  moreover have "agenda s' = (agenda s)(e := None)"
    using s'(4) by (auto simp: fun_eq_iff links_ok_agenda [OF s'(2)] links_ok_agenda [OF t(1)] set same_but_pri_def)
  ultimately show ?thesis using s'(1) by (simp add: schedule_remove_entry_def)
qed

lemma fair_random_mono: "fair_random rnd n \<Longrightarrow> m \<le> n \<Longrightarrow> fair_random rnd m"
  by (auto simp: fair_random_def intro: le_less_trans)

lemma add_modify_law:
  assumes "links_ok s t" and "sorted_wrt (klt (entries s)) (remove1 e (inorder t))"
    and "fair_random rnd n" and "card (set_tree t) \<le> n"
  shows "\<exists>s' t'. schedule_add_modify rnd s e = Some s' \<and> links_ok s' t' \<and> sorted_wrt (klt (entries s')) (inorder t')
    \<and> set_tree t' = insert e (set_tree t) \<and> same_but_pri e s s'"
proof -
  obtain s1 t1 where s1: "(if IN_TREE (entries s e) then schedule_remove_node s e else Some s) = Some s1"
    "links_ok s1 t1" "inorder t1 = remove1 e (inorder t)" "same_but_pri e s s1" "se_pri (entries s1 e) = 0"
  proof (cases "IN_TREE (entries s e)")
    case True
    with remove_node_law [OF assms(1), of e] that show ?thesis by auto
  next
    case False
    then have "e \<notin> set_tree t" using assms(1) by (simp add: links_ok_def IN_TREE_def)
    with False assms(1) show ?thesis by (intro that [of s t]) (auto simp: same_but_pri_def remove1_idem IN_TREE_def)
  qed
  have e: "e \<notin> set_tree t1" using s1(2,5) by (simp add: links_ok_def)
  have set: "set_tree t1 = set_tree t - {e}" using set_remove1_inorder [OF assms(1)] s1(3) by (metis set_inorder)
  have srt: "sorted_wrt (klt (entries s1)) (inorder t1)" using assms(2) unfolding s1(3) [symmetric]
    by (rule sorted_klt_cong [THEN iffD1, rotated]) (use s1(4) e in \<open>auto simp: same_but_pri_def\<close>)
  have "card (set_tree t1) \<le> n" using assms(4) unfolding set by (meson card_Diff1_le finite_set_tree order.trans)
  then have fair: "fair_random rnd (card (set_tree t1))" by (rule fair_random_mono [OF assms(3)])
  from attach_law [OF s1(2) e srt fair] obtain s0 s2 where s2: "repri e s1 s0" "found_place s0 e t1 s2"
    "(if sc_root (schedule_set_pri rnd s1 e) \<noteq> None then schedule_insert rnd (schedule_set_pri rnd s1 e) e
      else Some ((schedule_set_pri rnd s1 e)\<lparr>sc_root := Some e\<rparr>)) = Some s2" by blast
  from place_float_law [OF s1(2) e srt s2(1,2)] obtain s' t' where s': "schedule_float_up s2 e = Some s'" "links_ok s' t'"
    "sorted_wrt (klt (entries s')) (inorder t')" "set_tree t' = insert e (set_tree t1)" "same_but_pri e s1 s'" by blast
  have "same_but_pri e s s'" using s1(4) s'(5) by (simp add: same_but_pri_def)
  moreover have "schedule_add_modify rnd s e = Some s'"
    unfolding schedule_add_modify_def s1(1) by (simp only: bind.bind_lunit Let_def s2(3) s'(1))
  ultimately show ?thesis using s'(2-4) unfolding set by auto
qed

definition agenda_add :: "(entry_ptr \<Rightarrow> timeval option) \<Rightarrow> entry_ptr \<Rightarrow> timeval \<Rightarrow> u32 \<Rightarrow> entry_ptr \<Rightarrow> timeval option" where
  "agenda_add m e tv sigma =
     (case m e of
        Some tv' \<Rightarrow> if sigma \<noteq> 0 \<and> tv_within_sigma tv tv' (uint sigma) then m else m(e \<mapsto> tv)
      | None \<Rightarrow> m(e \<mapsto> tv))"

lemma add_entry_law:
  assumes "sched_ok s" and "fair_random rnd n" and "card (dom (agenda s)) \<le> n"
  shows "\<exists>s'. schedule_add_entry rnd s e tv sigma = Some s' \<and> sched_ok s' \<and> agenda s' = agenda_add (agenda s) e tv sigma"
proof -
  from assms(1) obtain t where t: "links_ok s t" "sorted_wrt (klt (entries s)) (inorder t)"
    unfolding sched_ok_def sched_tree_def by blast
  show ?thesis
  proof (cases "\<not> IN_TREE (entries s e) \<or> sigma = 0 \<or> \<not> tv_within_sigma tv (se_tv (entries s e)) (uint sigma)")
    case True
    let ?s = "upd e (\<lambda>x. x\<lparr>se_tv := tv\<rparr>) s"
    have same: "se_pri (entries ?s a) = se_pri (entries s a)" "se_parent (entries ?s a) = se_parent (entries s a)"
      "se_lt (entries ?s a) = se_lt (entries s a)" "se_gt (entries ?s a) = se_gt (entries s a)" for a by (simp_all add: upd_def)
    have "rep (entries ?s) par u = rep (entries s) par u" for par u by (induction u arbitrary: par) (simp_all add: same)
    then have ok: "links_ok ?s t" using t(1) unfolding links_ok_def tree_ok_def same by (simp add: upd_def)
    have "e \<notin> set (remove1 e (inorder t))" using t(1) by (simp add: links_ok_def tree_ok_def)
    then have "sorted_wrt (klt (entries ?s)) (remove1 e (inorder t))"
      using sorted_wrt_remove1 [OF t(2), of e] by (subst sorted_klt_cong [of _ _ "entries s"]) (auto simp: upd_def)
    from add_modify_law [OF ok this assms(2)] assms(3) links_ok_dom [OF t(1)] obtain s' t' where
      s': "schedule_add_modify rnd ?s e = Some s'" "links_ok s' t'" "sorted_wrt (klt (entries s')) (inorder t')"
      "set_tree t' = insert e (set_tree t)" "same_but_pri e ?s s'" by auto
    let ?s' = "s'\<lparr>earliest_wakeup := None\<rparr>"
    have "sched_ok ?s'" using s'(2,3) by (auto simp: sched_ok_def sched_tree_def links_ok_cong)
    moreover have "agenda ?s' = (agenda s)(e \<mapsto> tv)"
      using s'(4,5) by (auto simp: fun_eq_iff links_ok_agenda [OF t(1)] links_ok_agenda [OF s'(2)]
          same_but_pri_def upd_def)
    moreover have "agenda_add (agenda s) e tv sigma = (agenda s)(e \<mapsto> tv)"
      using True by (auto simp: agenda_add_def agenda_def)
    ultimately show ?thesis using True s'(1) by (simp add: schedule_add_entry_def)
  next
    case False
    then show ?thesis using assms(1) by (auto simp: schedule_add_entry_def agenda_add_def agenda_def)
  qed
qed

lemma find_least_loop_law: "rep (entries s) par (Node l a r) \<Longrightarrow> schedule_find_least_loop s a = Some (hd (inorder (Node l a r)))"
proof (induction l arbitrary: par a r)
  case Leaf
  then show ?case by (subst schedule_find_least_loop.simps) simp
next
  case (Node ll b lr)
  then have "schedule_find_least_loop s a = schedule_find_least_loop s b" by (subst schedule_find_least_loop.simps) simp
  then show ?case using Node.IH(1) [of "Some a" b lr] Node.prems by (simp add: hd_append)
qed

definition is_earliest :: "(entry_ptr \<Rightarrow> timeval option) \<Rightarrow> (entry_ptr \<times> timeval) option \<Rightarrow> bool" where
  "is_earliest m r \<longleftrightarrow>
     (case r of
        None \<Rightarrow> m = Map.empty
      | Some (a, tv) \<Rightarrow> m a = Some tv \<and> (\<forall>b tv'. m b = Some tv' \<longrightarrow> tv \<le> tv'))"

lemma get_earliest_wakeup_law:
  assumes "sched_ok s"
  shows "\<exists>r s'. schedule_get_earliest_wakeup s = Some (r, s') \<and> sched_ok s' \<and> agenda s' = agenda s \<and> is_earliest (agenda s) r"
proof -
  from assms obtain t where t: "sched_tree s t" unfolding sched_ok_def by blast
  then have ok: "links_ok s t" "tree_ok s t" "sorted_wrt (klt (entries s)) (inorder t)"
    by (simp_all add: sched_tree_def links_ok_def)
  note ag = links_ok_agenda [OF ok(1)]
  show ?thesis
  proof (cases t)
    case Leaf
    then have "schedule_get_earliest_wakeup s = Some (None, s)"
      using t ok(2) by (simp add: schedule_get_earliest_wakeup_def sched_tree_def tree_ok_def schedule_find_least_def)
    then show ?thesis using assms by (auto simp: is_earliest_def ag Leaf)
  next
    case (Node l a r)
    let ?e = "hd (inorder t)" and ?s = "s\<lparr>earliest_wakeup := Some (hd (inorder t))\<rparr>"
    have "schedule_find_least s (sc_root s) = Some (Some ?e)"
      using ok(2) find_least_loop_law [of s None l a r] by (simp add: tree_ok_def Node schedule_find_least_def)
    then have "schedule_get_earliest_wakeup s = Some (Some (?e, se_tv (entries s ?e)), ?s)"
      using t by (auto simp: schedule_get_earliest_wakeup_def sched_tree_def Node)
    moreover have "sched_tree ?s t" using t Node by (simp add: sched_tree_def links_ok_cong)
    moreover obtain xs where xs: "inorder t = ?e # xs" using Node by (cases "inorder t") auto
    have "se_tv (entries s ?e) \<le> se_tv (entries s x)" if "x \<in> set_tree t" for x
      using that ok(3) xs by (metis klt_def less_imp_le order.refl set_ConsD set_inorder sorted_wrt.simps(2))
    moreover have "?e \<in> set_tree t" using xs by (metis list.set_intros(1) set_inorder)
    ultimately show ?thesis by (auto simp: is_earliest_def ag sched_ok_def split: if_splits)
  qed
qed

subsection \<open>The interface\<close>

datatype agenda_op = Add entry_ptr timeval u32 | Remove entry_ptr | Earliest

fun agenda_run ::
  "('s \<Rightarrow> entry_ptr \<Rightarrow> timeval \<Rightarrow> u32 \<Rightarrow> 's option) \<Rightarrow> ('s \<Rightarrow> entry_ptr \<Rightarrow> 's option)
   \<Rightarrow> ('s \<Rightarrow> ((entry_ptr \<times> timeval) option \<times> 's) option) \<Rightarrow> 's \<Rightarrow> agenda_op list
   \<Rightarrow> ((entry_ptr \<times> timeval) option list \<times> 's) option" where
  "agenda_run add remove earliest s [] = Some ([], s)"
| "agenda_run add remove earliest s (Add e tv sigma # ops) =
     Option.bind (add s e tv sigma) (\<lambda>s. agenda_run add remove earliest s ops)"
| "agenda_run add remove earliest s (Remove e # ops) =
     Option.bind (remove s e) (\<lambda>s. agenda_run add remove earliest s ops)"
| "agenda_run add remove earliest s (Earliest # ops) =
     Option.bind (earliest s) (\<lambda>(r, s). map_option (apfst ((#) r)) (agenda_run add remove earliest s ops))"

text \<open>The agenda itself: what a sequence of operations leaves, and which answers are right.\<close>

fun agenda_after :: "(entry_ptr \<Rightarrow> timeval option) \<Rightarrow> agenda_op list \<Rightarrow> entry_ptr \<Rightarrow> timeval option" where
  "agenda_after m [] = m"
| "agenda_after m (Add e tv sigma # ops) = agenda_after (agenda_add m e tv sigma) ops"
| "agenda_after m (Remove e # ops) = agenda_after (m(e := None)) ops"
| "agenda_after m (Earliest # ops) = agenda_after m ops"

fun agenda_answers :: "(entry_ptr \<Rightarrow> timeval option) \<Rightarrow> agenda_op list \<Rightarrow> (entry_ptr \<times> timeval) option list \<Rightarrow> bool" where
  "agenda_answers m [] rs \<longleftrightarrow> rs = []"
| "agenda_answers m (Add e tv sigma # ops) rs \<longleftrightarrow> agenda_answers (agenda_add m e tv sigma) ops rs"
| "agenda_answers m (Remove e # ops) rs \<longleftrightarrow> agenda_answers (m(e := None)) ops rs"
| "agenda_answers m (Earliest # ops) rs \<longleftrightarrow>
     (case rs of [] \<Rightarrow> False | r # rs' \<Rightarrow> is_earliest m r \<and> agenda_answers m ops rs')"

fun op_entries :: "agenda_op \<Rightarrow> entry_ptr set" where
  "op_entries (Add e tv sigma) = {e}"
| "op_entries (Remove e) = {}"
| "op_entries Earliest = {}"

lemma dom_agenda_add: "dom (agenda_add m e tv sigma) = insert e (dom m)"
  by (auto simp: agenda_add_def split: option.splits)

locale agenda_impl =
  fixes add :: "'s \<Rightarrow> entry_ptr \<Rightarrow> timeval \<Rightarrow> u32 \<Rightarrow> 's option" and remove :: "'s \<Rightarrow> entry_ptr \<Rightarrow> 's option"
    and earliest :: "'s \<Rightarrow> ((entry_ptr \<times> timeval) option \<times> 's) option"
    and inv :: "'s \<Rightarrow> bool" and view :: "'s \<Rightarrow> entry_ptr \<Rightarrow> timeval option" and room :: "nat \<Rightarrow> bool"
  assumes add: "inv s \<Longrightarrow> room n \<Longrightarrow> card (dom (view s)) \<le> n \<Longrightarrow>
      \<exists>s'. add s e tv sigma = Some s' \<and> inv s' \<and> view s' = agenda_add (view s) e tv sigma"
    and remove: "inv s \<Longrightarrow> \<exists>s'. remove s e = Some s' \<and> inv s' \<and> view s' = (view s)(e := None)"
    and earliest: "inv s \<Longrightarrow> \<exists>r s'. earliest s = Some (r, s') \<and> inv s' \<and> view s' = view s \<and> is_earliest (view s) r"
begin

lemma run_implements:
  assumes "inv s" and "room (card A)" and "finite A" and "dom (view s) \<subseteq> A" and "(\<Union>x \<in> set ops. op_entries x) \<subseteq> A"
  shows "\<exists>rs s'. agenda_run add remove earliest s ops = Some (rs, s') \<and> inv s'
    \<and> view s' = agenda_after (view s) ops \<and> agenda_answers (view s) ops rs"
  using assms(1,4,5)
proof (induction ops arbitrary: s)
  case (Cons x ops)
  show ?case
  proof (cases x)
    case (Add e tv sigma)
    have "card (dom (view s)) \<le> card A" using Cons.prems(2) assms(3) by (rule card_mono [rotated])
    then obtain s' where s': "add s e tv sigma = Some s'" "inv s'" "view s' = agenda_add (view s) e tv sigma"
      using add [OF Cons.prems(1) assms(2)] by blast
    moreover have "dom (view s') \<subseteq> A" using Cons.prems(2,3) Add by (simp add: s'(3) dom_agenda_add)
    ultimately show ?thesis using Cons.IH [of s'] Cons.prems(3) Add by auto
  next
    case (Remove e)
    obtain s' where s': "remove s e = Some s'" "inv s'" "view s' = (view s)(e := None)"
      using remove [OF Cons.prems(1)] by blast
    moreover have "dom (view s') \<subseteq> A" using Cons.prems(2) by (auto simp: s'(3))
    ultimately show ?thesis using Cons.IH [of s'] Cons.prems(3) Remove by (auto simp: fun_upd_def)
  next
    case Earliest
    obtain r s' where s': "earliest s = Some (r, s')" "inv s'" "view s' = view s" "is_earliest (view s) r"
      using earliest [OF Cons.prems(1)] by blast
    then show ?thesis using Cons.IH [of s'] Cons.prems(2,3) Earliest by auto
  qed
qed (use assms in simp)

end

interpretation sched: agenda_impl "schedule_add_entry rnd" schedule_remove_entry schedule_get_earliest_wakeup
    sched_ok agenda "fair_random rnd" for rnd
  by unfold_locales (fact add_entry_law remove_entry_law get_earliest_wakeup_law)+

definition schedule_run ::
  "(nat \<Rightarrow> u32) \<Rightarrow> schedule \<Rightarrow> agenda_op list \<Rightarrow> ((entry_ptr \<times> timeval) option list \<times> schedule) exec" where
  "schedule_run rnd = agenda_run (schedule_add_entry rnd) schedule_remove_entry schedule_get_earliest_wakeup"

text \<open>Storage of entries none of which is scheduled.\<close>

definition cleared :: "(entry_ptr \<Rightarrow> schedule_entry) \<Rightarrow> bool" where
  "cleared store \<longleftrightarrow> (\<forall>a. se_pri (store a) = 0 \<and> se_parent (store a) = None \<and> se_lt (store a) = None \<and> se_gt (store a) = None)"

lemma schedule_init_ok: "cleared store \<Longrightarrow> sched_ok (schedule_init store) \<and> agenda (schedule_init store) = Map.empty"
  by (auto simp: sched_ok_def sched_tree_def links_ok_def tree_ok_def schedule_init_def cleared_def agenda_def IN_TREE_def
      intro!: exI [of _ Leaf])

lemma finite_op_entries: "finite (\<Union>x \<in> set ops. op_entries x)"
proof -
  have "finite (op_entries x)" for x by (cases x) auto
  then show ?thesis by blast
qed

lemma schedule_run_law:
  assumes "cleared store" and "fair_random rnd (card (\<Union>x \<in> set ops. op_entries x))"
  shows "\<exists>rs s. schedule_run rnd (schedule_init store) ops = Some (rs, s) \<and> sched_ok s
    \<and> agenda s = agenda_after Map.empty ops \<and> agenda_answers Map.empty ops rs"
  using sched.run_implements [OF _ assms(2) finite_op_entries, of "schedule_init store" ops] schedule_init_ok [OF assms(1)]
  by (simp add: schedule_run_def)

text \<open>C14: the scheduler implements an agenda. Whatever sequence of calls is made on a new schedule, no call
  aborts or loops, and every answer of \<^verbatim>\<open>schedule_get_earliest_wakeup\<close> is an entry with the least wakeup time
  of those then scheduled, or \<^verbatim>\<open>NULL\<close> when there is none. The one thing asked of \<^verbatim>\<open>random()\<close> is that it keeps
  yielding more different priorities than there are entries.\<close>

theorem schedule_is_agenda:
  assumes "cleared store" and "fair_random rnd (card (\<Union>x \<in> set ops. op_entries x))"
  shows "\<exists>rs s. schedule_run rnd (schedule_init store) ops = Some (rs, s)
    \<and> agenda_answers Map.empty ops rs \<and> agenda s = agenda_after Map.empty ops"
  using schedule_run_law [OF assms] by blast

text \<open>A source of priorities that cycles, and storage of cleared entries.\<close>

definition demo_random :: "nat \<Rightarrow> u32" where
  "demo_random i = word_of_nat (i mod 4)"

definition demo_store :: "entry_ptr \<Rightarrow> schedule_entry" where
  "demo_store a = \<lparr>se_tv = Timeval 0 0, se_pri = 0, se_parent = None, se_lt = None, se_gt = None\<rparr>"

lemma demo_store_cleared: "cleared demo_store"
  by (simp add: cleared_def demo_store_def)

lemma demo_random_fair: "fair_random demo_random 2"
  unfolding fair_random_def
proof
  fix c :: nat
  have "new_pri (demo_random (k + 4 * c)) = new_pri (word_of_nat k)" if "k < 4" for k
    using that by (simp add: demo_random_def)
  then have "new_pri (word_of_nat k) \<in> (\<lambda>i. new_pri (demo_random i)) ` {c..}" if "k < 4" for k
    using that by (intro image_eqI [of _ _ "k + 4 * c"]) auto
  from this [of 1] this [of 2] this [of 3]
  have "{1, 2, 3} \<subseteq> (\<lambda>i. new_pri (demo_random i)) ` {c..}" by (simp add: new_pri_def)
  then have "card {1, 2, 3 :: u32} \<le> card ((\<lambda>i. new_pri (demo_random i)) ` {c..})" by (intro card_mono) auto
  then show "2 < card ((\<lambda>i. new_pri (demo_random i)) ` {c..})" by simp
qed

definition demo_ops :: "agenda_op list" where
  "demo_ops = [Add 0 (Timeval 7 0) 0, Add 1 (Timeval 5 0) 0, Earliest, Remove 1, Earliest]"

lemma demo_ops_fair: "fair_random demo_random (card (\<Union>x \<in> set demo_ops. op_entries x))"
proof -
  have "(\<Union>x \<in> set demo_ops. op_entries x) = {0, 1}" by (auto simp: demo_ops_def)
  then show ?thesis using demo_random_fair by (simp add: numeral_2_eq_2)
qed

lemma is_earliest_unique:
  assumes "is_earliest m r" and "m a = Some tv" and "\<And>b tv'. m b = Some tv' \<Longrightarrow> b = a \<or> tv < tv'"
  shows "r = Some (a, tv)"
  using assms by (cases r) (fastforce simp: is_earliest_def)+

lemma demo_answers:
  assumes "agenda_answers Map.empty demo_ops rs"
  shows "rs = [Some (1, Timeval 5 0), Some (0, Timeval 7 0)]"
proof -
  from assms obtain r1 r2 where rs: "rs = [r1, r2]" "is_earliest [0 \<mapsto> Timeval 7 0, 1 \<mapsto> Timeval 5 0] r1" "is_earliest [0 \<mapsto> Timeval 7 0] r2"
    by (auto simp: demo_ops_def agenda_add_def fun_upd_twist split: list.splits)
  have "r1 = Some (1, Timeval 5 0)" using rs(2) by (rule is_earliest_unique) (auto simp: less_timeval_def tv_lt_def split: if_splits)
  moreover have "r2 = Some (0, Timeval 7 0)" using rs(3) by (rule is_earliest_unique) (auto split: if_splits)
  ultimately show ?thesis using rs(1) by simp
qed

theorem schedule_is_agenda_witness:
  "\<exists>s. schedule_run demo_random (schedule_init demo_store) demo_ops
    = Some ([Some (1, Timeval 5 0), Some (0, Timeval 7 0)], s)"
  using schedule_is_agenda [OF demo_store_cleared demo_ops_fair] demo_answers by blast

subsection \<open>The consistency check\<close>

lemma Min_insert_insert:
  fixes x y :: "'a::linorder"
  shows "finite A \<Longrightarrow> Min (insert x (insert y A)) = Min (insert (min y x) A)"
  by (cases "A = {}") (simp_all add: min.assoc min.commute min.left_commute)

lemma Min_insert_Un:
  fixes x :: "'a::linorder"
  shows "finite A \<Longrightarrow> finite B \<Longrightarrow> Min (insert (Min (insert x A)) B) = Min (insert x (A \<union> B))"
  by (cases "A = {}"; cases "B = {}") (simp_all add: Min_Un min.assoc)

lemma tv_lt_min: "(if tv_lt x y then x else y) = min x y"
  by (auto simp: less_timeval_def [symmetric] min_def)

lemma debug_entry_okI:
  assumes "rep (entries s) par (Node l e r)" and "distinct (inorder (Node l e r))" and "par \<notin> Some ` set_tree (Node l e r)"
    and "sorted_wrt (klt (entries s)) (inorder (Node l e r))" and "pri_heap (\<lambda>a. se_pri (entries s a)) (Node l e r)"
    and "mn \<le> se_tv (entries s e)" and "se_tv (entries s e) \<le> mx"
  shows "debug_entry_ok s e mn mx"
proof -
  have lt: "ptr l = Some a \<Longrightarrow> se_parent (entries s a) = Some e \<and> klt (entries s) a e \<and> se_pri (entries s e) \<le> se_pri (entries s a)" for a
    using assms by (auto simp: ptr_eq_Some sorted_wrt_append)
  have gt: "ptr r = Some a \<Longrightarrow> se_parent (entries s a) = Some e \<and> klt (entries s) e a \<and> se_pri (entries s e) \<le> se_pri (entries s a)" for a
    using assms by (auto simp: ptr_eq_Some sorted_wrt_append)
  have nz: "klt (entries s) e a \<Longrightarrow> schedule_entry_compare (entries s a) (entries s e) \<noteq> 0" for a
    using compare_klt(2) [of "entries s" a e] by auto
  have "ptr l \<noteq> Some e" "ptr r \<noteq> Some e" "par \<noteq> Some e" "ptr l = None \<or> ptr l \<noteq> ptr r" "par = None \<or> par \<noteq> ptr l" "par = None \<or> par \<noteq> ptr r"
    using assms(2,3) ptr_in [of l] ptr_in [of r] by (auto, metis disjoint_iff)
  then show ?thesis
    using assms(1,6,7) lt gt nz unfolding debug_entry_ok_def less_eq_timeval_def Let_def
    by (auto simp: compare_klt split: option.split)
qed

definition least_time :: "schedule \<Rightarrow> timeval \<Rightarrow> entry_ptr set \<Rightarrow> timeval" where
  "least_time s least A = Min (insert least ((\<lambda>a. se_tv (entries s a)) ` A))"

lemma least_time_simps:
  "least_time s least {} = least"
  "finite A \<Longrightarrow> finite B \<Longrightarrow>
     least_time s (least_time s (min (se_tv (entries s e)) least) A) B = least_time s least (insert e (A \<union> B))"
  by (simp_all add: least_time_def Min_insert_Un Min_insert_insert image_Un del: Min_insert)

lemma debug_entry_law:
  assumes "rep (entries s) par (Node l e r)" and "distinct (inorder (Node l e r))" and "par \<notin> Some ` set_tree (Node l e r)"
    and "sorted_wrt (klt (entries s)) (inorder (Node l e r))" and "pri_heap (\<lambda>a. se_pri (entries s a)) (Node l e r)"
    and "\<forall>a \<in> set_tree (Node l e r). mn \<le> se_tv (entries s a) \<and> se_tv (entries s a) \<le> mx"
  shows "\<exists>d. schedule_debug_entry s e depth count least mn mx
    = Some (d, count + int (size (Node l e r)), least_time s least (set_tree (Node l e r)))"
  using assms
proof (induction "Node l e r" arbitrary: l e r par depth count least mn mx)
  case (Node l e r)
  let ?tv = "\<lambda>a. se_tv (entries s a)"
  have ok: "debug_entry_ok s e mn mx" using Node.prems by (intro debug_entry_okI) auto
  have le: "\<forall>a \<in> set_tree l. ?tv a \<le> ?tv e" "\<forall>a \<in> set_tree r. ?tv e \<le> ?tv a"
    using Node.prems(4) by (auto simp: sorted_wrt_append klt_def)
  have links: "se_lt (entries s e) = ptr l" "se_gt (entries s e) = ptr r" using Node.prems(1) by simp_all
  have L: "\<exists>d. (case ptr l of None \<Rightarrow> Some (depth + 1, count + 1, min (?tv e) least)
      | Some a \<Rightarrow> schedule_debug_entry s a (depth + 1) (count + 1) (min (?tv e) least) mn (?tv e))
    = Some (d, count + 1 + int (size l), least_time s (min (?tv e) least) (set_tree l))"
  proof (cases l)
    case l: (Node ll a lr)
    have "\<exists>d. schedule_debug_entry s a (depth + 1) (count + 1) (min (?tv e) least) mn (?tv e)
      = Some (d, count + 1 + int (size (Node ll a lr)), least_time s (min (?tv e) least) (set_tree (Node ll a lr)))"
      by (rule Node.hyps(1) [OF l, of "Some e"]) (use Node.prems le l in \<open>auto simp: sorted_wrt_append\<close>)
    then show ?thesis unfolding l by simp
  qed (simp add: least_time_simps)
  have R: "\<exists>d. (case ptr r of None \<Rightarrow> Some (depth + 1, cnt, lst)
      | Some a \<Rightarrow> schedule_debug_entry s a (depth + 1) cnt lst (?tv e) mx)
    = Some (d, cnt + int (size r), least_time s lst (set_tree r))" for cnt lst
  proof (cases r)
    case r: (Node rl a rr)
    have "\<exists>d. schedule_debug_entry s a (depth + 1) cnt lst (?tv e) mx
      = Some (d, cnt + int (size (Node rl a rr)), least_time s lst (set_tree (Node rl a rr)))"
      by (rule Node.hyps(2) [OF r, of "Some e"]) (use Node.prems le r in \<open>auto simp: sorted_wrt_append\<close>)
    then show ?thesis unfolding r by simp
  qed (simp add: least_time_simps)
  obtain d1 where d1: "(case ptr l of None \<Rightarrow> Some (depth + 1, count + 1, min (?tv e) least)
      | Some a \<Rightarrow> schedule_debug_entry s a (depth + 1) (count + 1) (min (?tv e) least) mn (?tv e))
    = Some (d1, count + 1 + int (size l), least_time s (min (?tv e) least) (set_tree l))" using L ..
  obtain d2 where d2: "(case ptr r of None \<Rightarrow> Some (depth + 1, count + 1 + int (size l), least_time s (min (?tv e) least) (set_tree l))
      | Some a \<Rightarrow> schedule_debug_entry s a (depth + 1) (count + 1 + int (size l)) (least_time s (min (?tv e) least) (set_tree l)) (?tv e) mx)
    = Some (d2, count + 1 + int (size l) + int (size r), least_time s (least_time s (min (?tv e) least) (set_tree l)) (set_tree r))"
    using R ..
  have "schedule_debug_entry s e depth count least mn mx
    = Some (max (max depth d1) d2, count + 1 + int (size l) + int (size r), least_time s (least_time s (min (?tv e) least) (set_tree l)) (set_tree r))"
    by (subst schedule_debug_entry.simps) (simp only: ok tv_lt_min links d1 d2 assert_c_simps bind.bind_lunit prod.case)
  then show ?case by (simp add: least_time_simps)
qed

lemma agenda_after_times:
  assumes "\<forall>e tv sigma. Add e tv sigma \<in> set ops \<longrightarrow> P tv" and "\<forall>tv \<in> ran m. P tv"
  shows "\<forall>tv \<in> ran (agenda_after m ops). P tv"
  using assms
proof (induction m ops rule: agenda_after.induct)
  case (2 m e tv sigma ops)
  have "ran (agenda_add m e tv sigma) \<subseteq> insert tv (ran m)"
    by (auto simp: agenda_add_def ran_def split: option.splits if_splits)
  moreover have "P tv" using 2(2) by auto
  ultimately have "\<forall>tv \<in> ran (agenda_add m e tv sigma). P tv" using 2(3) by blast
  moreover have "\<forall>e tv sigma. Add e tv sigma \<in> set ops \<longrightarrow> P tv" using 2(2) by auto
  ultimately show ?case unfolding agenda_after.simps using "2.IH" by blast
next
  case (3 m e ops)
  have "\<forall>tv \<in> ran (m(e := None)). P tv" using 3(3) by (auto simp: ran_def)
  moreover have "\<forall>e tv sigma. Add e tv sigma \<in> set ops \<longrightarrow> P tv" using 3(2) by auto
  ultimately show ?case unfolding agenda_after.simps using "3.IH" by blast
next
  case (4 m ops)
  have "\<forall>e tv sigma. Add e tv sigma \<in> set ops \<longrightarrow> P tv" using 4(2) by auto
  then show ?case unfolding agenda_after.simps using 4 by blast
qed simp

text \<open>C15: the consistency check that the module carries for testing never fails. After any sequence of calls
  with times it can represent, \<^verbatim>\<open>schedule_debug\<close> passes all its assertions, which say that the links, the order
  of the times and the order of the priorities are those of a treap; it counts the scheduled entries and
  finds the least of their times.\<close>

theorem schedule_selftest_passes:
  assumes "cleared store" and "fair_random rnd (card (\<Union>x \<in> set ops. op_entries x))"
    and "\<forall>e tv sigma. Add e tv sigma \<in> set ops \<longrightarrow> Timeval 0 0 \<le> tv \<and> tv \<le> Timeval 0x7FFFFFFF 0x7FFFFFFF"
    and "schedule_run rnd (schedule_init store) ops = Some (rs, s)"
  shows "\<exists>depth. schedule_debug s 0 (Timeval 0x7FFFFFFF 0x7FFFFFFF)
    = Some (depth, int (card (dom (agenda s))), Min (insert (Timeval 0x7FFFFFFF 0x7FFFFFFF) (ran (agenda s))))"
proof -
  let ?mx = "Timeval 0x7FFFFFFF 0x7FFFFFFF"
  obtain t where t: "links_ok s t" "tree_ok s t" "sorted_wrt (klt (entries s)) (inorder t)" "pri_heap (\<lambda>a. se_pri (entries s a)) t"
    and ag: "agenda s = agenda_after Map.empty ops"
    using schedule_run_law [OF assms(1,2)] assms(4) by (auto simp: sched_ok_def sched_tree_def links_ok_def)
  have ran: "ran (agenda s) = (\<lambda>a. se_tv (entries s a)) ` set_tree t"
    by (auto simp: links_ok_agenda [OF t(1)] ran_def)
  have "\<forall>tv \<in> ran (agenda s). Timeval 0 0 \<le> tv \<and> tv \<le> ?mx"
    unfolding ag by (rule agenda_after_times [OF assms(3)]) simp
  then have times: "\<forall>a \<in> set_tree t. Timeval 0 0 \<le> se_tv (entries s a) \<and> se_tv (entries s a) \<le> ?mx"
    unfolding ran by blast
  have card: "int (card (dom (agenda s))) = int (size t)"
    using t(2) distinct_card [of "inorder t"] by (simp add: links_ok_dom [OF t(1)] tree_ok_def)
  show ?thesis
  proof (cases t)
    case Leaf
    then show ?thesis using t(2) by (simp add: schedule_debug_def tree_ok_def card ran)
  next
    case (Node l e r)
    then show ?thesis using debug_entry_law [of s None l e r "Timeval 0 0" ?mx 0 0 ?mx] t(2-4) times
      unfolding card ran by (simp add: schedule_debug_def tree_ok_def least_time_def)
  qed
qed

theorem schedule_selftest_passes_witness:
  "\<exists>rs s depth. schedule_run demo_random (schedule_init demo_store) demo_ops = Some (rs, s)
    \<and> schedule_debug s 0 (Timeval 0x7FFFFFFF 0x7FFFFFFF) = Some (depth, 1, Timeval 7 0)"
proof -
  obtain rs s where run: "schedule_run demo_random (schedule_init demo_store) demo_ops = Some (rs, s)"
    "agenda s = agenda_after Map.empty demo_ops"
    using schedule_run_law [OF demo_store_cleared demo_ops_fair] by blast
  then have ag: "agenda s = [0 \<mapsto> Timeval 7 0]" by (simp add: demo_ops_def agenda_add_def fun_upd_twist)
  have tv: "\<forall>e tv sigma. Add e tv sigma \<in> set demo_ops \<longrightarrow> Timeval 0 0 \<le> tv \<and> tv \<le> Timeval 0x7FFFFFFF 0x7FFFFFFF"
    by (simp add: demo_ops_def less_eq_timeval_def tv_le_def)
  have "min (Timeval 0x7FFFFFFF 0x7FFFFFFF) (Timeval 7 0) = Timeval 7 0"
    by (simp add: min_def less_eq_timeval_def tv_le_def)
  then show ?thesis
    using schedule_selftest_passes [OF demo_store_cleared demo_ops_fair tv run(1)] run(1) unfolding ag by auto
qed

subsection \<open>Precision\<close>

text \<open>Times as the server has them: normalised, and in the range of a 32-bit \<^verbatim>\<open>int\<close>.\<close>

definition tv_in_range :: "timeval \<Rightarrow> bool" where
  "tv_in_range tv \<longleftrightarrow> 0 \<le> tv_sec tv \<and> tv_sec tv < 2 ^ 31 \<and> tv_ok tv"

lemma tv_within_sigma_iff:
  assumes "tv_in_range t1" and "tv_in_range t2" and "0 \<le> sigma" and "sigma < 600000000"
  shows "tv_within_sigma t1 t2 sigma \<longleftrightarrow> \<bar>tv_total t1 - tv_total t2\<bar> \<le> sigma"
proof -
  let ?d = "tv_sec t1 - tv_sec t2"
  have "c_int 600000000 = 600000000" "c_int 600 = 600" "c_int ?d = ?d" "c_int sigma = sigma"
    using assms by (auto simp: tv_in_range_def intro!: c_int_id)
  moreover have "c_int (?d * 1000000 + (tv_usec t1 - tv_usec t2)) = ?d * 1000000 + (tv_usec t1 - tv_usec t2)" if "\<bar>?d\<bar> \<le> 610"
    using assms(1,2) that by (intro c_int_id) (auto simp: tv_in_range_def tv_ok_def)
  ultimately show ?thesis using assms
    by (auto simp: tv_within_sigma_def tv_subtract_def TV_WITHIN_SIGMA_MAX_SEC_def tv_total_def tv_ok_def tv_in_range_def
        constrain_int_def Let_def)
qed

text \<open>the window of \<^verbatim>\<open>schedule_add_entry\<close> is kept. After an entry is added with a time and a window below
  ten minutes, the wakeup time the schedule has for it differs from the requested one by at most \<^verbatim>\<open>sigma\<close>
  microseconds, and every other entry keeps its time.\<close>

theorem schedule_add_within_sigma:
  assumes "sched_ok s" and "fair_random rnd (card (dom (agenda s)))" and "uint sigma < 600000000" and "tv_in_range tv"
    and "\<forall>tv' \<in> ran (agenda s). tv_in_range tv'"
  shows "\<exists>s' tv'. schedule_add_entry rnd s e tv sigma = Some s' \<and> agenda s' e = Some tv'
    \<and> \<bar>tv_total tv' - tv_total tv\<bar> \<le> uint sigma \<and> (\<forall>a. a \<noteq> e \<longrightarrow> agenda s' a = agenda s a)"
proof -
  obtain s' where s': "schedule_add_entry rnd s e tv sigma = Some s'" "agenda s' = agenda_add (agenda s) e tv sigma"
    using add_entry_law [OF assms(1,2)] by blast
  show ?thesis
  proof (cases "agenda s' e = Some tv")
    case True
    then show ?thesis using s' by (auto simp: agenda_add_def split: option.splits)
  next
    case False
    then obtain tv' where "agenda s e = Some tv'" "tv_within_sigma tv tv' (uint sigma)" "agenda s' = agenda s"
      using s'(2) by (auto simp: agenda_add_def split: option.splits if_splits)
    then show ?thesis using s'(1) tv_within_sigma_iff [OF assms(4) _ _ assms(3), of tv'] assms(5)
      by (auto simp: ranI abs_minus_commute)
  qed
qed

theorem schedule_add_within_sigma_witness:
  "\<exists>s s' tv'. schedule_run demo_random (schedule_init demo_store) demo_ops = Some ([Some (1, Timeval 5 0), Some (0, Timeval 7 0)], s)
    \<and> schedule_add_entry demo_random s 0 (Timeval 7 300) 500 = Some s' \<and> agenda s' 0 = Some tv'
    \<and> \<bar>tv_total tv' - tv_total (Timeval 7 300)\<bar> \<le> 500"
proof -
  obtain rs s where run: "schedule_run demo_random (schedule_init demo_store) demo_ops = Some (rs, s)" "sched_ok s"
    "agenda s = agenda_after Map.empty demo_ops" "agenda_answers Map.empty demo_ops rs"
    using schedule_run_law [OF demo_store_cleared demo_ops_fair] by blast
  have ag: "agenda s = [0 \<mapsto> Timeval 7 0]" using run(3) by (simp add: demo_ops_def agenda_add_def fun_upd_twist)
  have "fair_random demo_random (card (dom (agenda s)))"
    using fair_random_mono [OF demo_random_fair, of 1] by (simp add: ag)
  from schedule_add_within_sigma [OF run(2) this, of 500 "Timeval 7 300" 0] show ?thesis
    using run(1) demo_answers [OF run(4)] by (auto simp: ag tv_in_range_def tv_ok_def)
qed

end
