(* ===== verification/Base64.thy ===== *)
theory Base64
  imports Buffer
begin

section \<open>Base64 (base64.c)\<close>

text \<open>
  The encoder and decoder used for proxy and plugin data. A C string is the list of its characters without the
  terminating zero, so a position at the end of the list is where the code reads \<^verbatim>\<open>'\0'\<close>.
\<close>

subsection \<open>Encoding\<close>

definition base64_chars :: string where
  "base64_chars = ''ABCDEFGHIJKLMNOPQRSTUVWXYZabcdefghijklmnopqrstuvwxyz0123456789+/''"

text \<open>The \<^verbatim>\<open>for\<close> loop of \<^verbatim>\<open>openvpn_base64_encode\<close> from index \<open>i\<close>: what it appends to the output.\<close>

function base64_encode_loop :: "byte list \<Rightarrow> int \<Rightarrow> int \<Rightarrow> string" where
  "base64_encode_loop q sz i =
     (if i < sz then
        let c = uint (q ! nat i) * 256;
            c = (if i + 1 < sz then c + uint (q ! nat (i + 1)) else c) * 256;
            c = (if i + 2 < sz then c + uint (q ! nat (i + 2)) else c);
            i' = i + 3;
            p0 = base64_chars ! nat (drop_bit 18 (c AND 0x00fc0000));
            p1 = base64_chars ! nat (drop_bit 12 (c AND 0x0003f000));
            p2 = base64_chars ! nat (drop_bit 6 (c AND 0x00000fc0));
            p3 = base64_chars ! nat (c AND 0x0000003f)
        in [p0, p1, if i' > sz + 1 then CHR ''='' else p2, if i' > sz then CHR ''='' else p3]
           @ base64_encode_loop q sz i'
      else [])"
  by auto
termination by (relation "measure (\<lambda>(q, sz, i). nat (sz - i))") auto

declare base64_encode_loop.simps [simp del]

text \<open>
  \<open>block\<close> says whether \<^verbatim>\<open>malloc\<close> succeeds. The string and its terminator are written to the block of
  \<^verbatim>\<open>size * 4 / 3 + 4\<close> bytes; writing past its end is undefined, as is the overflow of
  \<^verbatim>\<open>size * 4\<close>, and ends the execution.
\<close>

definition openvpn_base64_encode :: "byte list \<Rightarrow> int \<Rightarrow> bool \<Rightarrow> (int \<times> string option) exec" where
  "openvpn_base64_encode data sz block =
     (if sz < 0 \<or> \<not> block then Some (-1, None)
      else do {
        assert_c (sz * 4 < 2 ^ 31);
        let s = base64_encode_loop data sz 0;
        assert_c (int (length s) + 1 \<le> c_div (sz * 4) 3 + 4);
        Some (int (length s), Some s) })"

subsection \<open>Decoding\<close>

definition b64_pos :: "char \<Rightarrow> int" where
  "b64_pos c = (case first_index (\<lambda>x. x = c) base64_chars of Some i \<Rightarrow> int i | None \<Rightarrow> -1)"

definition DECODE_ERROR :: u32 where
  "DECODE_ERROR = 0xffffffff"

fun token_loop :: "string \<Rightarrow> u32 \<Rightarrow> int \<Rightarrow> (u32 \<times> int) option" where
  "token_loop [] val marker = Some (val, marker)"
| "token_loop (c # cs) val marker =
     (if c = CHR ''='' then token_loop cs (val * 64) (marker + 1)
      else if marker > 0 then None
      else token_loop cs (val * 64 + word_of_int (b64_pos c)) marker)"

definition token_decode :: "string \<Rightarrow> u32" where
  "token_decode token =
     (if length token < 4 then DECODE_ERROR
      else case token_loop (take 4 token) 0 0 of
             None \<Rightarrow> DECODE_ERROR
           | Some (val, marker) \<Rightarrow>
               if marker > 2 then DECODE_ERROR else push_bit 24 (word_of_int marker) OR val)"

text \<open>
  The loop of \<^verbatim>\<open>openvpn_base64_decode\<close>: \<open>p\<close> is the rest of the string and \<open>out\<close> what has been written. A
  negative \<open>sz\<close> switches the bound off.
\<close>

function base64_decode_loop :: "string \<Rightarrow> byte list \<Rightarrow> int \<Rightarrow> int \<times> byte list" where
  "base64_decode_loop p out sz =
     (if p \<noteq> [] \<and> (hd p = CHR ''='' \<or> hd p \<in> set base64_chars) then
        let val = token_decode p; marker = drop_bit 24 val AND 0xff;
            full = (\<lambda>out. sz \<ge> 0 \<and> int (length out) \<ge> sz)
        in if val = DECODE_ERROR then (-1, out)
           else if full out then (-1, out)
           else let out = out @ [ucast (drop_bit 16 val AND 0xff)]
                in if marker < 2 \<and> full out then (-1, out)
                   else let out = (if marker < 2 then out @ [ucast (drop_bit 8 val AND 0xff)] else out)
                        in if marker < 1 \<and> full out then (-1, out)
                           else base64_decode_loop (drop 4 p)
                                  (if marker < 1 then out @ [ucast (val AND 0xff)] else out) sz
      else (int (length out), out))"
  by auto
termination by (relation "measure (\<lambda>(p, out, sz). length p)") auto

declare base64_decode_loop.simps [simp del]

definition openvpn_base64_decode :: "string \<Rightarrow> int \<Rightarrow> int \<times> byte list" where
  "openvpn_base64_decode str sz = base64_decode_loop str [] sz"

subsection \<open>Digits\<close>

lemma base64_chars_props: "length base64_chars = 64" "distinct base64_chars" "CHR ''='' \<notin> set base64_chars"
  by (simp_all add: base64_chars_def)

lemma first_index_nth: "distinct xs \<Longrightarrow> n < length xs \<Longrightarrow> first_index (\<lambda>x. x = xs ! n) xs = Some n"
  by (auto simp: first_index_Some nth_eq_iff_index_eq)

lemma b64_pos_nth: "0 \<le> d \<Longrightarrow> d < 64 \<Longrightarrow> b64_pos (base64_chars ! nat d) = d"
  using first_index_nth [of base64_chars "nat d"] by (simp add: b64_pos_def base64_chars_props)

lemma b64_char: "0 \<le> d \<Longrightarrow> d < 64 \<Longrightarrow> base64_chars ! nat d \<in> set base64_chars \<and> base64_chars ! nat d \<noteq> CHR ''=''"
  using base64_chars_props by (metis nat_less_iff nth_mem of_nat_numeral)

lemma digits:
  fixes c :: int
  shows "drop_bit 18 (c AND 0x00fc0000) = c div 2 ^ 18 mod 64" "drop_bit 12 (c AND 0x0003f000) = c div 2 ^ 12 mod 64"
    "drop_bit 6 (c AND 0x00000fc0) = c div 2 ^ 6 mod 64" "c AND 0x0000003f = c mod 64"
proof -
  have m: "x AND 63 = x mod 64" for x :: int
    using take_bit_eq_mask [of 6 x] by (simp add: take_bit_eq_mod mask_eq_exp_minus_1)
  show "drop_bit 18 (c AND 0x00fc0000) = c div 2 ^ 18 mod 64" "drop_bit 12 (c AND 0x0003f000) = c div 2 ^ 12 mod 64"
    "drop_bit 6 (c AND 0x00000fc0) = c div 2 ^ 6 mod 64" "c AND 0x0000003f = c mod 64"
    by (simp_all add: drop_bit_and m) (simp_all add: drop_bit_eq_div)
qed

lemma uint_drop_bit32: "uint (drop_bit n w) = uint w div 2 ^ n" for w :: u32
  by (simp add: unsigned_drop_bit_eq bintr_uint flip: drop_bit_eq_div)

lemma out_byte: "ucast (drop_bit n w AND 0xff) = (word_of_int (uint w div 2 ^ n) :: byte)" for w :: u32
proof -
  have "drop_bit n w AND 0xff = take_bit 8 (drop_bit n w)" by (simp add: take_bit_eq_mask mask_eq_exp_minus_1)
  then have "ucast (drop_bit n w AND 0xff) = (ucast (drop_bit n w) :: byte)"
    by (simp add: unsigned_take_bit_eq take_bit_word_eq_self)
  also have "\<dots> = word_of_int (uint w div 2 ^ n)" by (simp only: ucast_eq uint_drop_bit32)
  finally show ?thesis .
qed

subsection \<open>One group\<close>

text \<open>A group of four characters for \<open>c\<close>, the last \<open>m\<close> of them replaced by padding, is decoded to the bytes of \<open>c\<close>.\<close>

definition b64_group :: "int \<Rightarrow> string" where
  "b64_group c = map (\<lambda>k. base64_chars ! nat (c div 2 ^ k mod 64)) [18, 12, 6, 0]"

lemma group_val:
  fixes c :: int
  assumes "0 \<le> c" and "c < 2 ^ 24"
  shows "((c div 2 ^ 18 mod 64 * 64 + c div 2 ^ 12 mod 64) * 64 + c div 2 ^ 6 mod 64) * 64 + c mod 64 = c"
proof -
  have "c div 2 ^ 18 mod 64 = c div 2 ^ 18" using assms by simp
  moreover have "c div 2 ^ 18 = c div 2 ^ 12 div 64" "c div 2 ^ 12 = c div 2 ^ 6 div 64" "c div 2 ^ 6 = c div 64"
    by (simp_all add: zdiv_zmult2_eq [symmetric])
  moreover have "x div 64 * 64 + x mod 64 = x" for x :: int by simp
  ultimately show ?thesis by metis
qed

lemma token_loop_digit:
  "0 \<le> d \<Longrightarrow> d < 64 \<Longrightarrow>
     token_loop ((base64_chars ! nat d) # cs) (word_of_int a) 0 = token_loop cs (word_of_int (a * 64 + d)) 0"
  "token_loop (CHR ''='' # cs) (word_of_int a) m = token_loop cs (word_of_int (a * 64)) (m + 1)"
  using b64_char [of d] by (simp_all add: b64_pos_nth)

lemma marker_or:
  assumes "0 \<le> c" and "c < 2 ^ 24"
  shows "push_bit 24 (word_of_int m) OR word_of_int c = (word_of_int (m * 2 ^ 24 + c) :: u32)"
proof -
  have "take_bit 24 c = c" using assms by (simp add: take_bit_int_eq_self_iff)
  then have "bit c n \<Longrightarrow> n < 24" for n by (metis bit_take_bit_iff)
  then have "push_bit 24 (word_of_int m) OR word_of_int c = (push_bit 24 (word_of_int m) + word_of_int c :: u32)"
    by (intro disjunctive_add [symmetric]) (auto simp: bit_simps dest: leD)
  then show ?thesis by (simp add: push_bit_eq_mult)
qed

lemma token_decode_group:
  assumes "0 \<le> c" and "c < 2 ^ 24"
  shows "token_decode (b64_group c @ rest) = word_of_int c"
    and "c mod 64 = 0 \<Longrightarrow> token_decode (take 3 (b64_group c) @ CHR ''='' # rest) = word_of_int (2 ^ 24 + c)"
    and "c mod 2 ^ 12 = 0 \<Longrightarrow> token_decode (take 2 (b64_group c) @ CHR ''='' # CHR ''='' # rest) = word_of_int (2 * 2 ^ 24 + c)"
proof -
  let ?d = "\<lambda>k. c div 2 ^ k mod 64"
  have d: "0 \<le> ?d k" "?d k < 64" for k by simp_all
  note val = group_val [OF assms] and step = token_loop_digit(1) [OF d] token_loop_digit(2)
  have len: "length (b64_group c) = 4" by (simp add: b64_group_def)
  have "token_loop (b64_group c) (word_of_int 0) 0 = Some (word_of_int c, 0)"
    unfolding b64_group_def list.map step unfolding mult_zero_left add_0_left power_0 div_by_1 val token_loop.simps(1) ..
  then show "token_decode (b64_group c @ rest) = word_of_int c"
    using marker_or [OF assms, of 0] by (simp add: token_decode_def len)
  show "token_decode (take 3 (b64_group c) @ CHR ''='' # rest) = word_of_int (2 ^ 24 + c)" if "c mod 64 = 0"
  proof -
    have "((?d 18 * 64 + ?d 12) * 64 + ?d 6) * 64 = c" using val that by linarith
    then have "token_loop (take 3 (b64_group c) @ [CHR ''='']) (word_of_int 0) 0 = Some (word_of_int c, 0 + 1)"
      unfolding b64_group_def list.map
      by (simp only: take_Suc_Cons numeral_3_eq_3 take_0 append.simps step mult_zero_left add_0_left token_loop.simps(1))
    then show ?thesis using marker_or [OF assms, of 1] by (simp add: token_decode_def len)
  qed
  show "token_decode (take 2 (b64_group c) @ CHR ''='' # CHR ''='' # rest) = word_of_int (2 * 2 ^ 24 + c)" if zero: "c mod 2 ^ 12 = 0"
  proof -
    obtain q where "c = 64 * (64 * q)" using zero by (auto simp: mod_eq_0_iff_dvd elim!: dvdE)
    then have "?d 6 = 0" "c mod 64 = 0" by simp_all
    from val [unfolded this add_0_right] have "(?d 18 * 64 + ?d 12) * 64 * 64 = c" .
    then have "token_loop (take 2 (b64_group c) @ [CHR ''='', CHR ''='']) (word_of_int 0) 0 = Some (word_of_int c, 0 + 1 + 1)"
      unfolding b64_group_def list.map
      by (simp only: take_Suc_Cons numeral_2_eq_2 take_0 append.simps step mult_zero_left add_0_left token_loop.simps(1))
    then show ?thesis using marker_or [OF assms, of 2] by (simp add: token_decode_def len)
  qed
qed

lemma decoded_word:
  assumes "0 \<le> c" and "c < 2 ^ 24" and "m = 0 \<or> m = 1 \<or> m = 2"
  defines "w \<equiv> word_of_int (m * 2 ^ 24 + c) :: u32"
  shows "uint w = m * 2 ^ 24 + c" "drop_bit 24 w AND 0xff = word_of_int m" "w \<noteq> DECODE_ERROR"
proof -
  have small: "uint (word_of_int v :: u32) = v" if "0 \<le> v" "v < 2 ^ 32" for v using that by (simp add: uint_word_of_int)
  show u: "uint w = m * 2 ^ 24 + c" unfolding w_def using assms(1-3) by (intro small) auto
  have "uint (drop_bit 24 w) = m" using assms(1-3) unfolding uint_drop_bit32 u by auto
  then have "drop_bit 24 w = word_of_int m" by (metis word_of_int_uint)
  then show "drop_bit 24 w AND 0xff = word_of_int m" using assms(3) by auto
  show "w \<noteq> DECODE_ERROR"
  proof
    assume "w = DECODE_ERROR"
    then have "m * 2 ^ 24 + c = 0xffffffff" using u by (simp add: DECODE_ERROR_def)
    then show False using assms(2,3) by auto
  qed
qed

definition triple :: "byte \<Rightarrow> byte \<Rightarrow> byte \<Rightarrow> int" where
  "triple a b d = (uint a * 256 + uint b) * 256 + uint d"

lemma byte_range: "0 \<le> uint a" "uint a < 256" for a :: byte
  using unsigned_less [of a] by simp_all

lemma triple_range: "0 \<le> triple a b d" "triple a b d < 2 ^ 24"
  using byte_range [of a] byte_range [of b] byte_range [of d] unfolding triple_def by auto

lemma low_byte: "word_of_int (k * 256 + uint a) = a" for a :: byte
  using byte_range [of a] unfolding word_uint_eq_iff uint_word_of_int by simp

lemma triple_bytes:
  "word_of_int ((m * 2 ^ 24 + triple a b d) div 2 ^ 16) = a" "word_of_int ((m * 2 ^ 24 + triple a b d) div 2 ^ 8) = b"
  "word_of_int ((m * 2 ^ 24 + triple a b d) div 2 ^ 0) = d"
proof -
  have "(m * 2 ^ 24 + triple a b d) div 2 ^ 16 = m * 256 + uint a"
    using byte_range [of b] byte_range [of d] unfolding triple_def
    by (intro int_div_pos_eq [where r = "uint b * 256 + uint d"]) auto
  then show "word_of_int ((m * 2 ^ 24 + triple a b d) div 2 ^ 16) = a" by (simp only: low_byte)
  have "(m * 2 ^ 24 + triple a b d) div 2 ^ 8 = (m * 256 + uint a) * 256 + uint b"
    using byte_range [of d] unfolding triple_def by (intro int_div_pos_eq [where r = "uint d"]) auto
  then show "word_of_int ((m * 2 ^ 24 + triple a b d) div 2 ^ 8) = b" by (simp only: low_byte)
  show "word_of_int ((m * 2 ^ 24 + triple a b d) div 2 ^ 0) = d"
    using low_byte [of "(m * 256 + uint a) * 256 + uint b" d] by (simp add: triple_def algebra_simps)
qed

text \<open>\<open>room cap n\<close>: a buffer of the given size takes \<open>n\<close> bytes.\<close>

definition room :: "int \<Rightarrow> nat \<Rightarrow> bool" where
  "room cap n \<longleftrightarrow> cap < 0 \<or> int n \<le> cap"

lemma decode_step:
  assumes "p \<noteq> []" and "hd p \<in> set base64_chars" and tok: "token_decode p = w" and "w \<noteq> DECODE_ERROR"
    and "drop_bit 24 w AND 0xff = word_of_int m" and "m = 0 \<or> m = 1 \<or> m = 2"
    and "ucast (drop_bit 16 w AND 0xff) = a" and "ucast (drop_bit 8 w AND 0xff) = b" and "ucast (w AND 0xff) = d"
    and "room cap (length out + nat (3 - m))"
  shows "base64_decode_loop p out cap = base64_decode_loop (drop 4 p) (out @ take (nat (3 - m)) [a, b, d]) cap"
  using assms(6)
  by (elim disjE; subst base64_decode_loop.simps; use assms in \<open>auto simp: room_def Let_def\<close>)

lemma decode_triple:
  assumes "p \<noteq> []" and "hd p \<in> set base64_chars" and "token_decode p = word_of_int (m * 2 ^ 24 + triple a b d)"
    and m: "m = 0 \<or> m = 1 \<or> m = 2" and "room cap (length out + nat (3 - m))"
  shows "base64_decode_loop p out cap = base64_decode_loop (drop 4 p) (out @ take (nat (3 - m)) [a, b, d]) cap"
proof -
  note f = decoded_word [OF triple_range m, of a b d]
  let ?w = "word_of_int (m * 2 ^ 24 + triple a b d) :: u32"
  have low: "ucast (w AND 0xff) = (word_of_int (uint w div 2 ^ 0) :: byte)" for w :: u32 using out_byte [of 0 w] by simp
  have "ucast (drop_bit 16 ?w AND 0xff) = a" "ucast (drop_bit 8 ?w AND 0xff) = b"
    by (simp_all only: out_byte f(1) triple_bytes)
  moreover have "ucast (?w AND 0xff) = d" by (simp only: low f(1) triple_bytes)
  ultimately show ?thesis by (rule decode_step [OF assms(1-3) f(3,2) m _ _ _ assms(5)])
qed

lemma group_length [simp]: "length (b64_group c) = 4"
  by (simp add: b64_group_def)

lemma group_hd: "0 < n \<Longrightarrow> hd (take n (b64_group c) @ rest) \<in> set base64_chars"
  using b64_char [of "c div 2 ^ 18 mod 64"] by (cases n) (auto simp: b64_group_def)

lemma decode_group:
  "room cap (length out + 3) \<Longrightarrow>
     base64_decode_loop (b64_group (triple a b d) @ rest) out cap = base64_decode_loop rest (out @ [a, b, d]) cap"
  "room cap (length out + 2) \<Longrightarrow>
     base64_decode_loop (take 3 (b64_group (triple a b 0)) @ CHR ''='' # rest) out cap = base64_decode_loop rest (out @ [a, b]) cap"
  "room cap (length out + 1) \<Longrightarrow>
     base64_decode_loop (take 2 (b64_group (triple a 0 0)) @ CHR ''='' # CHR ''='' # rest) out cap = base64_decode_loop rest (out @ [a]) cap"
proof -
  note tok = token_decode_group [OF triple_range]
  have z: "triple a b 0 mod 64 = 0" "triple a 0 0 mod 2 ^ 12 = 0" by (simp_all add: triple_def mod_add_eq [symmetric])
  show "base64_decode_loop (b64_group (triple a b d) @ rest) out cap = base64_decode_loop rest (out @ [a, b, d]) cap"
    if "room cap (length out + 3)"
    using decode_triple [of "b64_group (triple a b d) @ rest" 0 a b d cap out] that tok(1) group_hd [of 4 "triple a b d" rest]
    by (simp add: b64_group_def) 
  show "base64_decode_loop (take 3 (b64_group (triple a b 0)) @ CHR ''='' # rest) out cap = base64_decode_loop rest (out @ [a, b]) cap"
    if "room cap (length out + 2)"
    using decode_triple [of "take 3 (b64_group (triple a b 0)) @ CHR ''='' # rest" 1 a b 0 cap out] that tok(2) [OF z(1)]
      group_hd [of 3 "triple a b 0" "CHR ''='' # rest"] by simp
  show "base64_decode_loop (take 2 (b64_group (triple a 0 0)) @ CHR ''='' # CHR ''='' # rest) out cap = base64_decode_loop rest (out @ [a]) cap"
    if "room cap (length out + 1)"
    using decode_triple [of "take 2 (b64_group (triple a 0 0)) @ CHR ''='' # CHR ''='' # rest" 2 a 0 0 cap out] that tok(3) [OF z(2)]
      group_hd [of 2 "triple a 0 0" "CHR ''='' # CHR ''='' # rest"] by simp
qed

lemma group_bits:
  "b64_group c = [base64_chars ! nat (drop_bit 18 (c AND 0x00fc0000)), base64_chars ! nat (drop_bit 12 (c AND 0x0003f000)),
     base64_chars ! nat (drop_bit 6 (c AND 0x00000fc0)), base64_chars ! nat (c AND 0x0000003f)]"
  unfolding digits by (simp add: b64_group_def)

lemma encode_step:
  "k + 3 \<le> length q \<Longrightarrow> base64_encode_loop q (int (length q)) (int k)
     = b64_group (triple (q ! k) (q ! (k + 1)) (q ! (k + 2))) @ base64_encode_loop q (int (length q)) (int (k + 3))"
  "k + 2 = length q \<Longrightarrow> base64_encode_loop q (int (length q)) (int k) = take 3 (b64_group (triple (q ! k) (q ! (k + 1)) 0)) @ ''=''"
  "k + 1 = length q \<Longrightarrow> base64_encode_loop q (int (length q)) (int k) = take 2 (b64_group (triple (q ! k) 0 0)) @ ''==''"
  "k = length q \<Longrightarrow> base64_encode_loop q (int (length q)) (int k) = []"
proof -
  have e: "base64_encode_loop q sz i = []" if "sz \<le> i" for sz i using that by (subst base64_encode_loop.simps) simp
  have n: "nat (int k + 1) = k + 1" "nat (int k + 2) = k + 2" by simp_all
  show "base64_encode_loop q (int (length q)) (int k)
     = b64_group (triple (q ! k) (q ! (k + 1)) (q ! (k + 2))) @ base64_encode_loop q (int (length q)) (int (k + 3))"
    if "k + 3 \<le> length q"
    using that by (subst base64_encode_loop.simps) (simp add: Let_def n group_bits triple_def)
  show "base64_encode_loop q (int (length q)) (int k) = take 3 (b64_group (triple (q ! k) (q ! (k + 1)) 0)) @ ''=''"
    if "k + 2 = length q"
    using that by (subst base64_encode_loop.simps) (simp add: Let_def n e group_bits triple_def flip: that)
  show "base64_encode_loop q (int (length q)) (int k) = take 2 (b64_group (triple (q ! k) 0 0)) @ ''==''"
    if "k + 1 = length q"
    using that by (subst base64_encode_loop.simps) (simp add: Let_def n e group_bits triple_def flip: that)
qed (simp add: base64_encode_loop.simps)

lemma decode_encode_loop:
  assumes "k \<le> length q" and "room cap (length out + (length q - k))"
  shows "base64_decode_loop (base64_encode_loop q (int (length q)) (int k)) out cap
    = (int (length out + (length q - k)), out @ drop k q)"
  using assms
proof (induction "length q - k" arbitrary: k out rule: less_induct)
  case less
  consider "k + 3 \<le> length q" | "k + 2 = length q" | "k + 1 = length q" | "k = length q"
    using less.prems(1) by linarith
  then show ?case
  proof cases
    case 1
    let ?new = "[q ! k, q ! (k + 1), q ! (k + 2)]"
    have d: "drop k q = ?new @ drop (k + 3) q" using 1
      by (simp add: Cons_nth_drop_Suc [symmetric] numeral_eq_Suc)
    have "room cap (length out + 3)" using less.prems(2) 1 by (auto simp: room_def)
    then have "base64_decode_loop (base64_encode_loop q (int (length q)) (int k)) out cap
        = base64_decode_loop (base64_encode_loop q (int (length q)) (int (k + 3))) (out @ ?new) cap"
      unfolding encode_step(1) [OF 1] by (rule decode_group(1))
    also have "\<dots> = (int (length (out @ ?new) + (length q - (k + 3))), (out @ ?new) @ drop (k + 3) q)"
      using 1 less.prems(2) by (intro less.hyps) (auto simp: room_def)
    finally show ?thesis using 1 by (simp add: d)
  next
    case 2
    then have "drop k q = [q ! k, q ! (k + 1)]"
      by (simp add: Cons_nth_drop_Suc [symmetric] numeral_eq_Suc)
    moreover have "length q - k = 2" using 2 by simp
    ultimately show ?thesis using decode_group(2) [of cap out "q ! k" "q ! (k + 1)" "[]"] less.prems(2)
      unfolding encode_step(2) [OF 2] by (simp add: base64_decode_loop.simps [of "[]"])
  next
    case 3
    then have "drop k q = [q ! k]" by (simp add: Cons_nth_drop_Suc [symmetric])
    moreover have "length q - k = 1" using 3 by simp
    ultimately show ?thesis using decode_group(3) [of cap out "q ! k" "[]"] less.prems(2)
      unfolding encode_step(3) [OF 3] by (simp add: base64_decode_loop.simps [of "[]"])
  next
    case 4
    then show ?thesis by (simp add: encode_step(4) base64_decode_loop.simps [of "[]"])
  qed
qed

lemma encode_length:
  "k \<le> length q \<Longrightarrow> length (base64_encode_loop q (int (length q)) (int k)) = 4 * ((length q - k + 2) div 3)"
proof (induction "length q - k" arbitrary: k rule: less_induct)
  case less
  consider "k + 3 \<le> length q" | "k + 2 = length q" | "k + 1 = length q" | "k = length q"
    using less.prems by linarith
  then show ?case
  proof cases
    case 1
    then obtain j where j: "length q = k + 3 + j" using le_Suc_ex by blast
    have "length (base64_encode_loop q (int (length q)) (int (k + 3))) = 4 * ((length q - (k + 3) + 2) div 3)"
      using 1 by (intro less.hyps) auto
    moreover have "length q - k + 2 = j + 2 + 3" "length q - (k + 3) + 2 = j + 2" using j by simp_all
    moreover have "(j + 2 + 3) div 3 = (j + 2) div 3 + 1" by (rule div_add_self2) simp
    ultimately show ?thesis unfolding encode_step(1) [OF 1] by simp
  next
    case 2
    then have "length q - k = 2" by simp
    then show ?thesis unfolding encode_step(2) [OF 2] by simp
  next
    case 3
    then have "length q - k = 1" by simp
    then show ?thesis unfolding encode_step(3) [OF 3] by simp
  qed (simp add: encode_step(4))
qed

subsection \<open>Properties\<close>

text \<open>C33: data that is encoded and decoded again comes back unchanged. The encoder stays within the block it
  allocates, and the decoder needs no more room than the data has, or no bound at all.\<close>

theorem base64_roundtrip:
  assumes "4 * int (length data) < 2 ^ 31" and "cap < 0 \<or> int (length data) \<le> cap"
  shows "\<exists>s. openvpn_base64_encode data (int (length data)) True = Some (int (length s), Some s)
    \<and> openvpn_base64_decode s cap = (int (length data), data)"
proof -
  let ?n = "length data" and ?s = "base64_encode_loop data (int (length data)) 0"
  have "length ?s = 4 * ((?n + 2) div 3)" using encode_length [of 0 data] by simp
  moreover have "4 * ((?n + 2) div 3) + 1 \<le> ?n * 4 div 3 + 4" by linarith
  moreover have "c_div (int ?n * 4) 3 = int (?n * 4 div 3)" by (simp add: c_div_nonneg zdiv_int)
  ultimately have "int (length ?s) + 1 \<le> c_div (int ?n * 4) 3 + 4" by simp
  moreover have "openvpn_base64_decode ?s cap = (int ?n, data)"
    using decode_encode_loop [of 0 data cap "[]"] assms(2) by (simp add: openvpn_base64_decode_def room_def)
  ultimately show ?thesis using assms(1) by (intro exI [of _ ?s]) (simp add: openvpn_base64_encode_def Let_def)
qed

theorem base64_roundtrip_witness:
  "openvpn_base64_encode [0x66, 0x6f, 0x6f, 0x62] 4 True = Some (8, Some ''Zm9vYg=='')
   \<and> openvpn_base64_decode ''Zm9vYg=='' 4 = (4, [0x66, 0x6f, 0x6f, 0x62])"
proof -
  have e: "openvpn_base64_encode [0x66, 0x6f, 0x6f, 0x62] 4 True = Some (8, Some ''Zm9vYg=='')"
    by (simp add: openvpn_base64_encode_def base64_encode_loop.simps base64_chars_def c_div_def Let_def)
  then show ?thesis using base64_roundtrip [of "[0x66, 0x6f, 0x6f, 0x62]" 4] by simp
qed

lemma decode_loop_bounded:
  assumes "base64_decode_loop p out cap = (r, out')" and "0 \<le> cap" and "int (length out) \<le> cap"
  shows "int (length out') \<le> cap \<and> (r = -1 \<or> r = int (length out'))"
  using assms
proof (induction "length p" arbitrary: p out rule: less_induct)
  case less
  let ?w = "token_decode p"
  let ?m = "drop_bit 24 ?w AND 0xff"
  let ?a = "ucast (drop_bit 16 ?w AND 0xff) :: byte" and ?b = "ucast (drop_bit 8 ?w AND 0xff) :: byte"
  let ?d = "ucast (?w AND 0xff) :: byte"
  let ?o1 = "out @ [?a]"
  let ?o2 = "if ?m < 2 then ?o1 @ [?b] else ?o1"
  show ?case
  proof (cases "(p \<noteq> [] \<and> (hd p = CHR ''='' \<or> hd p \<in> set base64_chars)) \<and> ?w \<noteq> DECODE_ERROR \<and> int (length out) < cap
      \<and> (?m < 2 \<longrightarrow> int (length ?o1) < cap) \<and> (?m < 1 \<longrightarrow> int (length ?o2) < cap)")
    case True
    let ?o = "if ?m < 1 then ?o2 @ [?d] else ?o2"
    have "base64_decode_loop p out cap = base64_decode_loop (drop 4 p) ?o cap"
      using True less.prems(2) by (subst base64_decode_loop.simps) (auto simp: Let_def)
    moreover have "int (length ?o) \<le> cap" using True by auto
    ultimately show ?thesis using True less.prems(1,2) by (intro less.hyps [of "drop 4 p" ?o]) auto
  next
    case False
    then show ?thesis using less.prems by (subst (asm) base64_decode_loop.simps) (auto simp: Let_def split: if_splits)
  qed
qed

text \<open>the decoder never writes more than \<^verbatim>\<open>size\<close> bytes, whatever the string, and what it returns is the number
  of bytes written or -1.\<close>

theorem base64_decode_bounded:
  assumes "0 \<le> sz"
  shows "int (length (snd (openvpn_base64_decode str sz))) \<le> sz
    \<and> fst (openvpn_base64_decode str sz) \<in> {-1, int (length (snd (openvpn_base64_decode str sz)))}"
  using decode_loop_bounded [of str "[]" sz] assms
  by (cases "base64_decode_loop str [] sz") (auto simp: openvpn_base64_decode_def)

theorem base64_decode_bounded_witness:
  "int (length (snd (openvpn_base64_decode ''Zm9vYg=='' 2))) \<le> 2 \<and> fst (openvpn_base64_decode ''Zm9vYg=='' 2) \<noteq> 3"
  using base64_decode_bounded [of 2 "''Zm9vYg==''"] by auto

text \<open>a character that is no base64 digit goes unnoticed inside a group. \<^verbatim>\<open>pos\<close> reports it by -1, which
  \<^verbatim>\<open>token_decode\<close> adds to the value like a digit: the decoder returns 3 bytes and no error.\<close>

theorem base64_decode_accepts_garbage:
  assumes "c \<notin> set base64_chars" and "c \<noteq> CHR ''=''"
  shows "openvpn_base64_decode [CHR ''Q'', CHR ''Q'', c, CHR ''Q''] 3 = (3, [0x40, 0xff, 0xd0])"
proof -
  let ?p = "[CHR ''Q'', CHR ''Q'', c, CHR ''Q'']"
  have "b64_pos c = -1"
    using assms(1) first_index_None [of "\<lambda>x. x = c" base64_chars] by (auto simp: b64_pos_def)
  moreover have "b64_pos (CHR ''Q'') = 16" by (simp add: b64_pos_def base64_chars_def)
  ultimately have "token_decode ?p = 0x40ffd0" using assms(2) by (simp add: token_decode_def)
  moreover have "CHR ''Q'' \<in> set base64_chars" by (simp add: base64_chars_def)
  ultimately show ?thesis
    using decode_step [of ?p "0x40ffd0" 0 "0x40" "0xff" "0xd0" 3 "[]"]
    by (simp add: openvpn_base64_decode_def room_def DECODE_ERROR_def base64_decode_loop.simps [of "[]"])
qed

theorem base64_decode_accepts_garbage_witness:
  "openvpn_base64_decode ''QQ?Q'' 3 = (3, [0x40, 0xff, 0xd0])"
  using base64_decode_accepts_garbage [of "CHR ''?''"] by (simp add: base64_chars_def)

end
