(* ===== verification/Forward_Flags.thy ===== *)
theory Forward_Flags
  imports VPN_Prelude
begin

section \<open>What is done to an IP packet (forward.h)\<close>

text \<open>The flags of \<^verbatim>\<open>process_ip_header\<close>, which the server keeps with the packets it queues.\<close>

definition PIPV4_PASSTOS :: u32 where "PIPV4_PASSTOS = 1"
definition PIP_MSSFIX :: u32 where "PIP_MSSFIX = 2"
definition PIP_OUTGOING :: u32 where "PIP_OUTGOING = 4"
definition PIPV4_EXTRACT_DHCP_ROUTER :: u32 where "PIPV4_EXTRACT_DHCP_ROUTER = 8"
definition PIPV4_CLIENT_NAT :: u32 where "PIPV4_CLIENT_NAT = 16"
definition PIPV6_IMCP_NOHOST_CLIENT :: u32 where "PIPV6_IMCP_NOHOST_CLIENT = 32"
definition PIPV6_IMCP_NOHOST_SERVER :: u32 where "PIPV6_IMCP_NOHOST_SERVER = 64"

end
