(* ===== verification/Mbuf.thy ===== *)
theory Mbuf
  imports Buffer Forward_Flags
begin

section \<open>Queues of shared packets (mbuf.h, mbuf.c)\<close>

text \<open>
  The server queues broadcast, multicast and client-to-client packets in a ring of items. One packet can be
  queued for many clients: the items share a reference-counted buffer. The buffers live in a store whose
  addresses are never reused, so that an access to a buffer that was freed is an access to an unused address,
  and ends the execution. A client instance is a number and \<^const>\<open>None\<close> is \<^verbatim>\<open>NULL\<close>.
\<close>

subsection \<open>State\<close>

type_synonym mbuf_ptr = nat
type_synonym inst = nat

record mbuf_buffer =
  mb_buf :: buffer
  mb_refcount :: int
  mb_flags :: u32

record mbuf_item =
  mi_buffer :: "mbuf_ptr option"
  mi_instance :: "inst option"

record mbuf_set =
  ms_head :: u32
  ms_len :: u32
  ms_capacity :: u32
  ms_max_queued :: u32
  ms_array :: "mbuf_item list"

record mbuf_mem =
  mm_bufs :: "mbuf_ptr \<Rightarrow> mbuf_buffer option"
  mm_next :: mbuf_ptr

definition MF_UNICAST :: u32 where
  "MF_UNICAST = 1"

definition MBUF_INDEX :: "u32 \<Rightarrow> u32 \<Rightarrow> u32 \<Rightarrow> u32" where
  "MBUF_INDEX head offset sz = (head + offset) AND (sz - 1)"

subsection \<open>Buffers\<close>

text \<open>\<open>blk\<close> is the content of the memory that \<^verbatim>\<open>clone_buf\<close> allocates.\<close>

definition mbuf_alloc_buf :: "byte list \<Rightarrow> buffer \<Rightarrow> mbuf_mem \<Rightarrow> mbuf_ptr \<times> mbuf_mem" where
  "mbuf_alloc_buf blk buf m =
     (mm_next m,
      m\<lparr>mm_bufs := (mm_bufs m)(mm_next m \<mapsto> \<lparr>mb_buf = clone_buf blk buf, mb_refcount = 1, mb_flags = 0\<rparr>),
        mm_next := Suc (mm_next m)\<rparr>)"

definition mbuf_free_buf :: "mbuf_ptr option \<Rightarrow> mbuf_mem \<Rightarrow> mbuf_mem exec" where
  "mbuf_free_buf mb m =
     (case mb of
        None \<Rightarrow> Some m
      | Some p \<Rightarrow> do {
          b \<leftarrow> mm_bufs m p;
          let b = b\<lparr>mb_refcount := mb_refcount b - 1\<rparr>;
          Some (m\<lparr>mm_bufs := (mm_bufs m)(p := if mb_refcount b \<le> 0 then None else Some b)\<rparr>) })"

definition mbuf_ref :: "mbuf_ptr option \<Rightarrow> mbuf_mem \<Rightarrow> mbuf_mem exec" where
  "mbuf_ref mb m = (do {
     p \<leftarrow> mb;
     b \<leftarrow> mm_bufs m p;
     Some (m\<lparr>mm_bufs := (mm_bufs m)(p \<mapsto> b\<lparr>mb_refcount := mb_refcount b + 1\<rparr>)\<rparr>) })"

subsection \<open>The queue\<close>

text \<open>\<open>arr\<close> is the memory \<^verbatim>\<open>ALLOC_ARRAY\<close> returns, which is not cleared.\<close>

definition mbuf_init :: "u32 \<Rightarrow> (nat \<Rightarrow> mbuf_item) \<Rightarrow> mbuf_set exec" where
  "mbuf_init sz arr = (do {
     c \<leftarrow> adjust_power_of_2 (ucast sz);
     let c = ucast c;
     Some \<lparr>ms_head = 0, ms_len = 0, ms_capacity = c, ms_max_queued = 0, ms_array = map arr [0 ..< unat c]\<rparr> })"

text \<open>The \<^verbatim>\<open>for\<close> loop of \<^verbatim>\<open>mbuf_free\<close> from index \<open>i\<close>, with \<open>n\<close> iterations left.\<close>

fun mbuf_free_loop :: "nat \<Rightarrow> u32 \<Rightarrow> mbuf_set \<Rightarrow> mbuf_mem \<Rightarrow> mbuf_mem exec" where
  "mbuf_free_loop 0 i ms m = Some m"
| "mbuf_free_loop (Suc n) i ms m = (do {
     m \<leftarrow> mbuf_free_buf (mi_buffer (ms_array ms ! unat (MBUF_INDEX (ms_head ms) i (ms_capacity ms)))) m;
     mbuf_free_loop n (i + 1) ms m })"

definition mbuf_free :: "mbuf_set \<Rightarrow> mbuf_mem \<Rightarrow> mbuf_mem exec" where
  "mbuf_free ms m = mbuf_free_loop (nat (c_int (uint (ms_len ms)))) 0 ms m"

function mbuf_extract_item :: "mbuf_set \<Rightarrow> mbuf_item option \<times> mbuf_set" where
  "mbuf_extract_item ms =
     (if ms_len ms \<noteq> 0 then
        let item = ms_array ms ! unat (ms_head ms);
            ms = ms\<lparr>ms_head := MBUF_INDEX (ms_head ms) 1 (ms_capacity ms), ms_len := ms_len ms - 1\<rparr>
        in if mi_instance item \<noteq> None then (Some item, ms) else mbuf_extract_item ms
      else (None, ms))"
  by auto
termination
  by (relation "measure (\<lambda>ms. unat (ms_len ms))") (auto simp: unat_minus_one unat_gt_0)

declare mbuf_extract_item.simps [simp del]

definition mbuf_add_item :: "mbuf_set \<Rightarrow> mbuf_item \<Rightarrow> mbuf_mem \<Rightarrow> (mbuf_set \<times> mbuf_mem) exec" where
  "mbuf_add_item ms item m = (do {
     (ms, m) \<leftarrow> (if ms_len ms = ms_capacity ms
                then case mbuf_extract_item ms of
                       (None, ms) \<Rightarrow> None
                     | (Some rm, ms) \<Rightarrow> map_option (\<lambda>m. (ms, m)) (mbuf_free_buf (mi_buffer rm) m)
                else Some (ms, m));
     assert_c (ms_len ms < ms_capacity ms);
     let ms = ms\<lparr>ms_array := (ms_array ms)[unat (MBUF_INDEX (ms_head ms) (ms_len ms) (ms_capacity ms)) := item]\<rparr>;
     let ms = ms\<lparr>ms_len := ms_len ms + 1\<rparr>;
     let ms = (if ms_len ms > ms_max_queued ms then ms\<lparr>ms_max_queued := ms_len ms\<rparr> else ms);
     m \<leftarrow> mbuf_ref (mi_buffer item) m;
     Some (ms, m) })"

fun mbuf_peek_loop :: "nat \<Rightarrow> u32 \<Rightarrow> mbuf_set \<Rightarrow> inst option" where
  "mbuf_peek_loop 0 i ms = None"
| "mbuf_peek_loop (Suc n) i ms =
     (let item = ms_array ms ! unat (MBUF_INDEX (ms_head ms) i (ms_capacity ms))
      in if mi_instance item \<noteq> None then mi_instance item else mbuf_peek_loop n (i + 1) ms)"

definition mbuf_peek_dowork :: "mbuf_set \<Rightarrow> inst option" where
  "mbuf_peek_dowork ms = mbuf_peek_loop (nat (c_int (uint (ms_len ms)))) 0 ms"

fun mbuf_dereference_loop :: "nat \<Rightarrow> u32 \<Rightarrow> inst \<Rightarrow> mbuf_set \<Rightarrow> mbuf_mem \<Rightarrow> (mbuf_set \<times> mbuf_mem) exec" where
  "mbuf_dereference_loop 0 i mi ms m = Some (ms, m)"
| "mbuf_dereference_loop (Suc n) i mi ms m = (do {
     let j = unat (MBUF_INDEX (ms_head ms) i (ms_capacity ms));
     let item = ms_array ms ! j;
     (ms, m) \<leftarrow> (if mi_instance item = Some mi
                then map_option (\<lambda>m. (ms\<lparr>ms_array := (ms_array ms)[j := \<lparr>mi_buffer = None, mi_instance = None\<rparr>]\<rparr>, m))
                       (mbuf_free_buf (mi_buffer item) m)
                else Some (ms, m));
     mbuf_dereference_loop n (i + 1) mi ms m })"

definition mbuf_dereference_instance :: "mbuf_set \<Rightarrow> inst \<Rightarrow> mbuf_mem \<Rightarrow> (mbuf_set \<times> mbuf_mem) exec" where
  "mbuf_dereference_instance ms mi m = mbuf_dereference_loop (nat (c_int (uint (ms_len ms)))) 0 mi ms m"

definition mbuf_defined :: "mbuf_set \<Rightarrow> bool" where
  "mbuf_defined ms \<longleftrightarrow> ms_len ms \<noteq> 0"

definition mbuf_len :: "mbuf_set \<Rightarrow> u32" where
  "mbuf_len ms = ms_len ms"

definition mbuf_maximum_queued :: "mbuf_set \<Rightarrow> int" where
  "mbuf_maximum_queued ms = c_int (uint (ms_max_queued ms))"

definition mbuf_peek :: "mbuf_set \<Rightarrow> inst option" where
  "mbuf_peek ms = (if mbuf_defined ms then mbuf_peek_dowork ms else None)"

subsection \<open>The server's use of the queue (multi.c)\<close>

text \<open>
  A peer is what the queueing functions look at of an instance: whether it is halted, the results of the packet
  filters for the packet in question (\<^verbatim>\<open>pf_c2c_test\<close>, \<^verbatim>\<open>pf_addr_test\<close>), and the number of packets in its queue of
  deferred TCP packets, if it has one. A broadcast goes through the peers of the hash table in the order of its
  iterator. The result of \<^verbatim>\<open>multi_get_queue\<close> is the instance, the packet that is processed for it, and the flags
  for \<^verbatim>\<open>process_ip_header\<close>.
\<close>

record bcast_peer =
  bp_instance :: inst
  bp_halt :: bool
  bp_pf_c2c :: bool
  bp_pf_addr :: bool
  bp_deferred :: "u32 option"

definition multi_output_queue_ready :: "int \<Rightarrow> bcast_peer \<Rightarrow> bool" where
  "multi_output_queue_ready tcp_queue_limit mi =
     (case bp_deferred mi of Some n \<Rightarrow> n \<le> word_of_int tcp_queue_limit | None \<Rightarrow> True)"

definition multi_add_mbuf :: "int \<Rightarrow> bcast_peer \<Rightarrow> mbuf_ptr \<Rightarrow> mbuf_set \<Rightarrow> mbuf_mem \<Rightarrow> (mbuf_set \<times> mbuf_mem) exec" where
  "multi_add_mbuf limit mi mb ms m =
     (if multi_output_queue_ready limit mi
      then mbuf_add_item ms \<lparr>mi_buffer = Some mb, mi_instance = Some (bp_instance mi)\<rparr> m
      else Some (ms, m))"

definition multi_unicast :: "byte list \<Rightarrow> int \<Rightarrow> buffer \<Rightarrow> bcast_peer \<Rightarrow> mbuf_set \<Rightarrow> mbuf_mem \<Rightarrow> (mbuf_set \<times> mbuf_mem) exec" where
  "multi_unicast blk limit buf mi ms m =
     (if b_len buf > 0 then do {
        let (mb, m) = mbuf_alloc_buf blk buf m;
        let m = m\<lparr>mm_bufs := (mm_bufs m)(mb := map_option (\<lambda>b. b\<lparr>mb_flags := MF_UNICAST\<rparr>) (mm_bufs m mb))\<rparr>;
        (ms, m) \<leftarrow> multi_add_mbuf limit mi mb ms m;
        m \<leftarrow> mbuf_free_buf (Some mb) m;
        Some (ms, m) }
      else Some (ms, m))"

definition bcast_reaches :: "inst option \<Rightarrow> bool \<Rightarrow> bcast_peer \<Rightarrow> bool" where
  "bcast_reaches sender_instance sender_addr mi \<longleftrightarrow>
     Some (bp_instance mi) \<noteq> sender_instance \<and> \<not> bp_halt mi
     \<and> \<not> (sender_instance \<noteq> None \<and> \<not> bp_pf_c2c mi) \<and> \<not> (sender_addr \<and> \<not> bp_pf_addr mi)"

fun multi_bcast_loop :: "int \<Rightarrow> inst option \<Rightarrow> bool \<Rightarrow> bcast_peer list \<Rightarrow> mbuf_ptr \<Rightarrow> mbuf_set \<Rightarrow> mbuf_mem
    \<Rightarrow> (mbuf_set \<times> mbuf_mem) exec" where
  "multi_bcast_loop limit sender addr [] mb ms m = Some (ms, m)"
| "multi_bcast_loop limit sender addr (mi # peers) mb ms m = (do {
     (ms, m) \<leftarrow> (if bcast_reaches sender addr mi then multi_add_mbuf limit mi mb ms m else Some (ms, m));
     multi_bcast_loop limit sender addr peers mb ms m })"

definition multi_bcast :: "byte list \<Rightarrow> int \<Rightarrow> buffer \<Rightarrow> inst option \<Rightarrow> bool \<Rightarrow> bcast_peer list \<Rightarrow> mbuf_set \<Rightarrow> mbuf_mem
    \<Rightarrow> (mbuf_set \<times> mbuf_mem) exec" where
  "multi_bcast blk limit buf sender addr peers ms m =
     (if b_len buf > 0 then do {
        let (mb, m) = mbuf_alloc_buf blk buf m;
        (ms, m) \<leftarrow> multi_bcast_loop limit sender addr peers mb ms m;
        m \<leftarrow> mbuf_free_buf (Some mb) m;
        Some (ms, m) }
      else Some (ms, m))"

definition multi_get_queue :: "mbuf_set \<Rightarrow> mbuf_mem \<Rightarrow> ((inst \<times> buffer \<times> u32) option \<times> mbuf_set \<times> mbuf_mem) exec" where
  "multi_get_queue ms m =
     (case mbuf_extract_item ms of
        (None, ms) \<Rightarrow> Some (None, ms, m)
      | (Some item, ms) \<Rightarrow> do {
          mi \<leftarrow> mi_instance item;
          p \<leftarrow> mi_buffer item;
          b \<leftarrow> mm_bufs m p;
          let pip_flags = PIPV4_PASSTOS OR PIPV6_IMCP_NOHOST_SERVER;
          let pip_flags = (if mb_flags b AND MF_UNICAST \<noteq> 0 then pip_flags OR PIP_MSSFIX else pip_flags);
          m \<leftarrow> mbuf_free_buf (mi_buffer item) m;
          Some (Some (mi, mb_buf b, pip_flags), ms, m) })"

subsection \<open>The ring\<close>

definition ring_ok :: "mbuf_set \<Rightarrow> bool" where
  "ring_ok ms \<longleftrightarrow> (\<exists>j \<le> 30. unat (ms_capacity ms) = 2 ^ j) \<and> length (ms_array ms) = unat (ms_capacity ms)
     \<and> unat (ms_len ms) \<le> unat (ms_capacity ms) \<and> unat (ms_head ms) < unat (ms_capacity ms)"

definition slot :: "mbuf_set \<Rightarrow> nat \<Rightarrow> nat" where
  "slot ms k = (unat (ms_head ms) + k) mod unat (ms_capacity ms)"

definition queued :: "mbuf_set \<Rightarrow> mbuf_item list" where
  "queued ms = map (\<lambda>k. ms_array ms ! slot ms k) [0 ..< unat (ms_len ms)]"

lemma length_queued [simp]: "length (queued ms) = unat (ms_len ms)"
  by (simp add: queued_def)

lemma nth_queued: "k < unat (ms_len ms) \<Longrightarrow> queued ms ! k = ms_array ms ! slot ms k"
  by (simp add: queued_def)

lemma unat_pow2_u32: "j < 32 \<Longrightarrow> unat (2 ^ j :: u32) = 2 ^ j"
  by (simp add: unat_eq_nat_uint uint_2p nat_power_eq word_neq_0_conv [symmetric])

lemma MBUF_INDEX_slot:
  assumes "ring_ok ms"
  shows "unat (MBUF_INDEX (ms_head ms) i (ms_capacity ms)) = slot ms (unat i)"
proof -
  obtain j where j: "j \<le> 30" "unat (ms_capacity ms) = 2 ^ j" using assms by (auto simp: ring_ok_def)
  then have c: "ms_capacity ms = 2 ^ j" by (simp add: word_unat_eq_iff unat_pow2_u32)
  have "MBUF_INDEX (ms_head ms) i (ms_capacity ms) = take_bit j (ms_head ms + i)"
    by (simp add: MBUF_INDEX_def c take_bit_eq_mask mask_eq_exp_minus_1)
  then have "unat (MBUF_INDEX (ms_head ms) i (ms_capacity ms)) = unat (ms_head ms + i) mod 2 ^ j"
    using j(1) by (simp add: take_bit_eq_mod unat_mod unat_pow2_u32)
  also have "\<dots> = (unat (ms_head ms) + unat i) mod 2 ^ 32 mod 2 ^ j" by (simp only: unat_word_ariths len_of_numeral_defs) simp
  also have "\<dots> = (unat (ms_head ms) + unat i) mod 2 ^ j"
    using j(1) by (intro mod_mod_cancel le_imp_power_dvd) simp
  finally show ?thesis by (simp add: slot_def j(2))
qed

lemma ring_slot_less: "ring_ok ms \<Longrightarrow> slot ms k < length (ms_array ms)"
  by (auto simp: slot_def ring_ok_def)

lemma slot_inj:
  assumes "ring_ok ms" and "k < unat (ms_capacity ms)" and "k' < unat (ms_capacity ms)"
  shows "slot ms k = slot ms k' \<longleftrightarrow> k = k'"
proof -
  have "\<not> slot ms a = slot ms b" if "a < b" "b < unat (ms_capacity ms)" for a b
  proof
    assume "slot ms a = slot ms b"
    then have "slot ms b = slot ms a" ..
    then have "unat (ms_capacity ms) dvd b - a"
      using that(1) mod_eq_dvd_iff_nat [of "unat (ms_head ms) + a" "unat (ms_head ms) + b"] by (simp add: slot_def)
    then have "unat (ms_capacity ms) \<le> b - a" using that(1) by (intro dvd_imp_le) simp_all
    then show False using that by simp
  qed
  from this [of k k'] this [of k' k] show ?thesis using assms(2,3) by (cases k k' rule: linorder_cases) auto
qed

lemma queued_pop:
  assumes "ring_ok ms" and "ms_len ms \<noteq> 0"
  defines "ms' \<equiv> ms\<lparr>ms_head := MBUF_INDEX (ms_head ms) 1 (ms_capacity ms), ms_len := ms_len ms - 1\<rparr>"
  shows "queued ms = ms_array ms ! unat (ms_head ms) # queued ms'" "ring_ok ms'"
proof -
  have n: "unat (ms_len ms - 1) = unat (ms_len ms) - 1" "0 < unat (ms_len ms)"
    using assms(2) by (simp_all add: unat_minus_one unat_gt_0)
  have h: "unat (ms_head ms') = slot ms 1" using MBUF_INDEX_slot [OF assms(1), of 1] by (simp add: ms'_def)
  have "slot ms 0 = unat (ms_head ms)" using assms(1) by (simp add: slot_def ring_ok_def)
  moreover have "slot ms' k = slot ms (Suc k)" for k
    unfolding slot_def [of ms'] h by (simp add: ms'_def slot_def mod_add_left_eq)
  ultimately show "queued ms = ms_array ms ! unat (ms_head ms) # queued ms'"
    using n by (intro nth_equalityI) (auto simp: nth_queued nth_Cons ms'_def split: nat.split)
  show "ring_ok ms'" using assms(1) n ring_slot_less [OF assms(1), of 1] h by (auto simp: ring_ok_def ms'_def)
qed

lemma extract_law:
  assumes "ring_ok ms"
  shows "\<exists>ms'. ring_ok ms' \<and> ms_capacity ms' = ms_capacity ms
    \<and> (case dropWhile (\<lambda>it. mi_instance it = None) (queued ms) of
         [] \<Rightarrow> mbuf_extract_item ms = (None, ms') \<and> queued ms' = []
       | it # its \<Rightarrow> mbuf_extract_item ms = (Some it, ms') \<and> queued ms' = its)"
  using assms
proof (induction ms rule: mbuf_extract_item.induct)
  case (1 ms)
  show ?case
  proof (cases "ms_len ms = 0")
    case True
    then show ?thesis using "1.prems" by (subst mbuf_extract_item.simps) (auto simp: queued_def intro!: exI [of _ ms])
  next
    case False
    let ?it = "ms_array ms ! unat (ms_head ms)"
    let ?ms = "ms\<lparr>ms_head := MBUF_INDEX (ms_head ms) 1 (ms_capacity ms), ms_len := ms_len ms - 1\<rparr>"
    note pop = queued_pop [OF "1.prems" False]
    show ?thesis
    proof (cases "mi_instance ?it = None")
      case True
      then have eq: "mbuf_extract_item ms = mbuf_extract_item ?ms"
        using False by (subst mbuf_extract_item.simps) (simp add: Let_def)
      show ?thesis unfolding eq pop(1) using "1.IH" [OF False refl refl] True pop(2) by simp
    next
      case live: False
      then have "mbuf_extract_item ms = (Some ?it, ?ms)"
        using False by (subst mbuf_extract_item.simps) (simp add: Let_def)
      then show ?thesis using pop live by (intro exI [of _ ?ms]) auto
    qed
  qed
qed

lemma queued_update:
  fixes ms :: mbuf_set and it :: mbuf_item and k :: nat
  assumes "ring_ok ms" and "k < unat (ms_len ms)"
  defines "ms' \<equiv> ms\<lparr>ms_array := (ms_array ms)[slot ms k := it]\<rparr>"
  shows "queued ms' = (queued ms)[k := it]" "ring_ok ms'"
proof -
  have eq: "slot ms' a = slot ms a" for a by (simp add: ms'_def slot_def)
  have inj: "slot ms a = slot ms k \<longleftrightarrow> a = k" if "a < unat (ms_len ms)" for a
    using that assms(1,2) by (intro slot_inj) (auto simp: ring_ok_def)
  show "queued ms' = (queued ms)[k := it]"
  proof (rule nth_equalityI)
    fix i assume "i < length (queued ms')"
    then have i: "i < unat (ms_len ms)" "i < unat (ms_len ms')" by (simp_all add: ms'_def)
    then have "queued ms' ! i = (ms_array ms)[slot ms k := it] ! slot ms i"
      by (simp add: nth_queued eq) (simp add: ms'_def)
    also have "\<dots> = (if i = k then it else queued ms ! i)"
      using inj [OF i(1)] ring_slot_less [OF assms(1)] i(1) by (auto simp: nth_list_update nth_queued)
    finally show "queued ms' ! i = (queued ms)[k := it] ! i" using i(1) assms(2) by (simp add: nth_list_update)
  qed (simp add: ms'_def)
  show "ring_ok ms'" using assms(1) by (simp add: ring_ok_def ms'_def)
qed

lemma queued_push:
  fixes ms :: mbuf_set and it :: mbuf_item
  assumes "ring_ok ms" and "ms_len ms < ms_capacity ms"
  defines "ms' \<equiv> ms\<lparr>ms_array := (ms_array ms)[slot ms (unat (ms_len ms)) := it], ms_len := ms_len ms + 1\<rparr>"
  shows "queued ms' = queued ms @ [it]" "ring_ok ms'"
proof -
  have len: "unat (ms_len ms + 1) = Suc (unat (ms_len ms))" by (rule unat_inc [OF assms(2)])
  have less: "unat (ms_len ms) < unat (ms_capacity ms)" using assms(2) by (simp add: word_less_nat_alt)
  have eq: "slot ms' a = slot ms a" for a by (simp add: ms'_def slot_def)
  have inj: "slot ms a = slot ms (unat (ms_len ms)) \<longleftrightarrow> a = unat (ms_len ms)" if "a \<le> unat (ms_len ms)" for a
    using that less by (intro slot_inj [OF assms(1)]) auto
  show "queued ms' = queued ms @ [it]"
  proof (rule nth_equalityI)
    fix i assume "i < length (queued ms')"
    then have i: "i \<le> unat (ms_len ms)" "i < unat (ms_len ms')" by (simp_all add: ms'_def len)
    then have "queued ms' ! i = (ms_array ms)[slot ms (unat (ms_len ms)) := it] ! slot ms i"
      by (simp add: nth_queued eq) (simp add: ms'_def)
    also have "\<dots> = (if i = unat (ms_len ms) then it else queued ms ! i)"
      using inj [OF i(1)] ring_slot_less [OF assms(1)] i(1) by (auto simp: nth_list_update nth_queued)
    finally show "queued ms' ! i = (queued ms @ [it]) ! i" using i(1) by (simp add: nth_append)
  qed (simp add: ms'_def len)
  show "ring_ok ms'" using assms(1) less len by (auto simp: ring_ok_def ms'_def)
qed

end
