(* ===== verification/Mbuf_Queue.thy ===== *)
theory Mbuf_Queue
  imports Mbuf
begin

section \<open>The packet queue as a list with shared buffers\<close>

text \<open>
  Reference counts are exact, and the queue refines a bounded list in which a full queue loses its oldest
  packet and the packets of a departed instance become empty places.
\<close>

subsection \<open>Reference counts\<close>

definition refs :: "mbuf_item list \<Rightarrow> mbuf_ptr \<Rightarrow> nat" where
  "refs its p = length (filter (\<lambda>it. mi_buffer it = Some p) its)"

lemma refs_simps [simp]:
  "refs [] p = 0" "refs (it # its) p = (if mi_buffer it = Some p then 1 else 0) + refs its p"
  "refs (xs @ ys) p = refs xs p + refs ys p"
  by (simp_all add: refs_def)

fun count_ok :: "mbuf_buffer option \<Rightarrow> nat \<Rightarrow> bool" where
  "count_ok None n \<longleftrightarrow> n = 0"
| "count_ok (Some b) n \<longleftrightarrow> mb_refcount b = int n \<and> n > 0"

text \<open>
  \<open>refs_ok m its ext\<close>: every buffer has as many references as there are items of the queue for it, plus the
  \<open>ext p\<close> that are held outside; a buffer without any is free. An item without instance holds no buffer.
\<close>

definition refs_ok :: "mbuf_mem \<Rightarrow> mbuf_item list \<Rightarrow> (mbuf_ptr \<Rightarrow> nat) \<Rightarrow> bool" where
  "refs_ok m its ext \<longleftrightarrow>
     (\<forall>p. count_ok (mm_bufs m p) (refs its p + ext p))
     \<and> (\<forall>p \<ge> mm_next m. mm_bufs m p = None)
     \<and> (\<forall>it \<in> set its. mi_instance it = None \<longleftrightarrow> mi_buffer it = None)"

text \<open>A packet: its bytes and its flags.\<close>

type_synonym pkt = "byte list \<times> u32"

definition packet :: "mbuf_mem \<Rightarrow> mbuf_ptr \<Rightarrow> pkt" where
  "packet m p = (case mm_bufs m p of None \<Rightarrow> ([], 0) | Some b \<Rightarrow> (buf_content (mb_buf b), mb_flags b))"

text \<open>\<open>keeps m m'\<close>: the buffers that remain have their content.\<close>

definition keeps :: "mbuf_mem \<Rightarrow> mbuf_mem \<Rightarrow> bool" where
  "keeps m m' \<longleftrightarrow> (\<forall>p b'. mm_bufs m' p = Some b' \<longrightarrow> (\<exists>b. mm_bufs m p = Some b \<and> mb_buf b' = mb_buf b \<and> mb_flags b' = mb_flags b))"

lemma keeps_trans: "keeps m m' \<Longrightarrow> keeps m' m'' \<Longrightarrow> keeps m m''"
  unfolding keeps_def by metis

lemma keeps_refl [simp]: "keeps m m"
  by (simp add: keeps_def)

lemma keeps_packet: "keeps m m' \<Longrightarrow> mm_bufs m' p \<noteq> None \<Longrightarrow> packet m' p = packet m p"
  unfolding keeps_def packet_def by fastforce

lemma refs_ok_bound:
  assumes "refs_ok m its ext" and "refs its p + ext p > 0"
  shows "\<exists>b. mm_bufs m p = Some b \<and> mb_refcount b = int (refs its p + ext p)"
proof -
  have "count_ok (mm_bufs m p) (refs its p + ext p)"
    using assms(1) unfolding refs_ok_def by blast
  then show ?thesis using assms(2) by (cases "mm_bufs m p") auto
qed

lemma free_buf_law:
  assumes "refs_ok m its ext" and "ext p > 0"
  shows "\<exists>m'. mbuf_free_buf (Some p) m = Some m' \<and> refs_ok m' its (ext(p := ext p - 1)) \<and> keeps m m' \<and> mm_next m' = mm_next m"
proof -
  obtain b where b: "mm_bufs m p = Some b" "mb_refcount b = int (refs its p + ext p)"
    using refs_ok_bound [OF assms(1), of p] assms(2) by auto
  let ?m = "m\<lparr>mm_bufs := (mm_bufs m)(p := if refs its p + ext p \<le> 1 then None else Some (b\<lparr>mb_refcount := mb_refcount b - 1\<rparr>))\<rparr>"
  have "mbuf_free_buf (Some p) m = Some ?m" by (auto simp: mbuf_free_buf_def b Let_def)
  moreover have "refs_ok ?m its (ext(p := ext p - 1))"
    using assms b unfolding refs_ok_def by auto
  moreover have "keeps m ?m" using b(1) by (auto simp: keeps_def)
  ultimately show ?thesis by auto
qed

lemma ref_law:
  assumes "refs_ok m its ext" and "ext p > 0" and "mi_buffer it = Some p" and "mi_instance it \<noteq> None"
  shows "\<exists>m'. mbuf_ref (mi_buffer it) m = Some m' \<and> refs_ok m' (its @ [it]) ext \<and> keeps m m' \<and> mm_next m' = mm_next m"
proof -
  obtain b where b: "mm_bufs m p = Some b" "mb_refcount b = int (refs its p + ext p)"
    using refs_ok_bound [OF assms(1), of p] assms(2) by auto
  let ?m = "m\<lparr>mm_bufs := (mm_bufs m)(p \<mapsto> b\<lparr>mb_refcount := mb_refcount b + 1\<rparr>)\<rparr>"
  have "mbuf_ref (mi_buffer it) m = Some ?m" by (simp add: mbuf_ref_def b assms(3))
  moreover have "refs_ok ?m (its @ [it]) ext"
    using assms b unfolding refs_ok_def by auto
  moreover have "keeps m ?m" using b(1) by (auto simp: keeps_def)
  ultimately show ?thesis by auto
qed

definition store_new :: "byte list \<Rightarrow> buffer \<Rightarrow> u32 \<Rightarrow> mbuf_mem \<Rightarrow> mbuf_mem" where
  "store_new blk buf f m =
     m\<lparr>mm_bufs := (mm_bufs m)(mm_next m \<mapsto> \<lparr>mb_buf = clone_buf blk buf, mb_refcount = 1, mb_flags = f\<rparr>),
       mm_next := Suc (mm_next m)\<rparr>"

lemma alloc_law:
  assumes "refs_ok m its (\<lambda>_. 0)"
  shows "refs_ok (store_new blk buf f m) its ((\<lambda>_. 0)(mm_next m := 1))"
    "packet (store_new blk buf f m) (mm_next m) = (buf_content (clone_buf blk buf), f)"
    "mm_bufs m p \<noteq> None \<Longrightarrow> packet (store_new blk buf f m) p = packet m p"
proof -
  have free: "mm_bufs m p = None" if "p \<ge> mm_next m" for p using assms(1) that by (simp add: refs_ok_def)
  moreover have "count_ok (mm_bufs m (mm_next m)) (refs its (mm_next m) + 0)" using assms(1) unfolding refs_ok_def by blast
  then have "refs its (mm_next m) = 0" using free [of "mm_next m"] by simp
  ultimately show "refs_ok (store_new blk buf f m) its ((\<lambda>_. 0)(mm_next m := 1))"
    using assms(1) by (auto simp: refs_ok_def store_new_def)
qed (use assms(1) in \<open>auto simp: store_new_def packet_def refs_ok_def\<close>)

subsection \<open>The queue as a list\<close>

text \<open>The abstract queue: a list of packets with their instance, and empty places.\<close>

type_synonym places = "(inst \<times> pkt) option list"

definition q_extract :: "places \<Rightarrow> (inst \<times> pkt) option \<times> places" where
  "q_extract q = (case dropWhile (\<lambda>x. x = None) q of [] \<Rightarrow> (None, []) | x # q \<Rightarrow> (x, q))"

definition q_add :: "nat \<Rightarrow> inst \<times> pkt \<Rightarrow> places \<Rightarrow> places option" where
  "q_add cap x q =
     (if length q = cap
      then (case q_extract q of (None, _) \<Rightarrow> None | (Some _, q) \<Rightarrow> Some (q @ [Some x]))
      else Some (q @ [Some x]))"

definition q_forget :: "inst \<Rightarrow> places \<Rightarrow> places" where
  "q_forget mi = map (\<lambda>x. case x of Some (i, b) \<Rightarrow> if i = mi then None else Some (i, b) | None \<Rightarrow> None)"

definition view :: "mbuf_mem \<Rightarrow> mbuf_item \<Rightarrow> (inst \<times> pkt) option" where
  "view m it = (case (mi_instance it, mi_buffer it) of (Some i, Some p) \<Rightarrow> Some (i, packet m p) | _ \<Rightarrow> None)"

lemma refs_pos: "it \<in> set its \<Longrightarrow> mi_buffer it = Some p \<Longrightarrow> refs its p > 0"
  by (auto simp: refs_def filter_empty_conv)

lemma view_keeps:
  assumes "keeps m m'" and "refs_ok m' its ext"
  shows "map (view m') its = map (view m) its"
proof (rule map_cong [OF refl])
  fix it assume it: "it \<in> set its"
  have "packet m' p = packet m p" if "mi_buffer it = Some p" for p
  proof -
    have "mm_bufs m' p \<noteq> None" using refs_ok_bound [OF assms(2), of p] refs_pos [OF it that] by auto
    then show ?thesis by (rule keeps_packet [OF assms(1)])
  qed
  then show "view m' it = view m it" by (auto simp: view_def split: option.split)
qed

lemma view_None: "refs_ok m its ext \<Longrightarrow> it \<in> set its \<Longrightarrow> view m' it = None \<longleftrightarrow> mi_instance it = None"
  by (auto simp: refs_ok_def view_def split: option.splits)

lemma dropWhile_view:
  assumes "refs_ok m its ext"
  shows "dropWhile (\<lambda>x. x = None) (map (view m') its) = map (view m') (dropWhile (\<lambda>it. mi_instance it = None) its)"
  unfolding dropWhile_map comp_def
  by (rule arg_cong [of _ _ "map (view m')"], rule dropWhile_cong) (use view_None [OF assms] in auto)

lemma refs_ok_dropWhile:
  assumes "refs_ok m its ext" and drop: "dropWhile (\<lambda>it. mi_instance it = None) its = it # rest"
  shows "\<exists>i p. mi_instance it = Some i \<and> mi_buffer it = Some p \<and> refs_ok m rest (ext(p := ext p + 1))"
proof -
  let ?pre = "takeWhile (\<lambda>it. mi_instance it = None) its"
  have its: "its = ?pre @ it # rest" using takeWhile_dropWhile_id [of _ its] drop by metis
  have live: "\<forall>x \<in> set its. mi_instance x = None \<longleftrightarrow> mi_buffer x = None" using assms(1) by (simp add: refs_ok_def)
  have "mi_instance it \<noteq> None" using hd_dropWhile [of "\<lambda>it. mi_instance it = None" its] drop by auto
  moreover have "it \<in> set its" by (subst its) simp
  ultimately obtain i p where ip: "mi_instance it = Some i" "mi_buffer it = Some p" using live by auto
  have "mi_buffer x = None" if "x \<in> set ?pre" for x
    using live set_takeWhileD [OF that] by blast
  then have "refs ?pre q = 0" for q by (force simp: refs_def filter_empty_conv)
  then have "refs its q = (if q = p then 1 else 0) + refs rest q" for q by (subst its) (simp add: ip(2))
  moreover have "set rest \<subseteq> set its" using drop by (metis list.set_intros(2) set_dropWhileD subsetI)
  ultimately have "refs_ok m rest (ext(p := ext p + 1))" using assms(1) unfolding refs_ok_def by (auto split: if_splits)
  then show ?thesis using ip by blast
qed

lemma refs_ok_empty:
  assumes "refs_ok m its ext" and "dropWhile (\<lambda>it. mi_instance it = None) its = []"
  shows "refs_ok m [] ext"
proof -
  have "\<forall>x \<in> set its. mi_buffer x = None" using assms by (auto simp: refs_ok_def dropWhile_eq_Nil_conv)
  then have "refs its q = 0" for q by (auto simp: refs_def filter_empty_conv)
  then show ?thesis using assms(1) by (simp add: refs_ok_def)
qed

text \<open>\<open>queue_ok\<close>: the invariant of a queue while its user holds the references \<open>ext\<close>.\<close>

definition queue_ok :: "mbuf_set \<Rightarrow> mbuf_mem \<Rightarrow> (mbuf_ptr \<Rightarrow> nat) \<Rightarrow> bool" where
  "queue_ok ms m ext \<longleftrightarrow> ring_ok ms \<and> refs_ok m (queued ms) ext"

definition content :: "mbuf_set \<Rightarrow> mbuf_mem \<Rightarrow> places" where
  "content ms m = map (view m) (queued ms)"

lemma length_content [simp]: "length (content ms m) = unat (ms_len ms)"
  by (simp add: content_def)

lemma extract_view:
  assumes "queue_ok ms m ext"
  shows "case q_extract (content ms m) of
      (None, q) \<Rightarrow> \<exists>ms'. mbuf_extract_item ms = (None, ms') \<and> queue_ok ms' m ext \<and> ms_capacity ms' = ms_capacity ms \<and> content ms' m = []
    | (Some (i, b), q) \<Rightarrow> \<exists>it ms' p. mbuf_extract_item ms = (Some it, ms') \<and> mi_instance it = Some i \<and> mi_buffer it = Some p
        \<and> packet m p = b \<and> queue_ok ms' m (ext(p := ext p + 1)) \<and> ms_capacity ms' = ms_capacity ms \<and> content ms' m = q"
proof -
  let ?d = "dropWhile (\<lambda>it. mi_instance it = None) (queued ms)"
  have ok: "ring_ok ms" "refs_ok m (queued ms) ext" using assms by (simp_all add: queue_ok_def)
  have q: "dropWhile (\<lambda>x. x = None) (content ms m) = map (view m) ?d" unfolding content_def by (rule dropWhile_view [OF ok(2)])
  show ?thesis
  proof (cases ?d)
    case Nil
    have "q_extract (content ms m) = (None, [])" unfolding q_extract_def q Nil by simp
    moreover obtain ms' where "ring_ok ms'" "ms_capacity ms' = ms_capacity ms" "mbuf_extract_item ms = (None, ms')" "queued ms' = []"
      using extract_law [OF ok(1)] unfolding Nil by auto
    ultimately show ?thesis using refs_ok_empty [OF ok(2) Nil] by (simp add: queue_ok_def content_def [of ms'])
  next
    case (Cons it its)
    from extract_law [OF ok(1), unfolded Cons] obtain ms' where ms': "ring_ok ms'" "ms_capacity ms' = ms_capacity ms"
      "mbuf_extract_item ms = (Some it, ms')" "queued ms' = its" by auto
    obtain i p where "mi_instance it = Some i" "mi_buffer it = Some p" "refs_ok m its (ext(p := ext p + 1))"
      using refs_ok_dropWhile [OF ok(2) Cons] by blast
    moreover have "q_extract (content ms m) = (view m it, map (view m) its)" unfolding q_extract_def q Cons by simp
    ultimately show ?thesis using ms' by (simp add: queue_ok_def content_def [of ms'] view_def)
  qed
qed

definition note_max :: "mbuf_set \<Rightarrow> mbuf_set" where
  "note_max ms = (if ms_len ms > ms_max_queued ms then ms\<lparr>ms_max_queued := ms_len ms\<rparr> else ms)"

lemma note_max_simps [simp]:
  "queued (note_max ms) = queued ms" "ring_ok (note_max ms) = ring_ok ms" "ms_capacity (note_max ms) = ms_capacity ms"
  by (simp_all add: note_max_def queued_def ring_ok_def slot_def)

lemma push_law:
  fixes p :: mbuf_ptr and mi :: inst
  assumes ok: "queue_ok ms m ext" and less: "ms_len ms < ms_capacity ms" and "ext p > 0"
  defines "it \<equiv> \<lparr>mi_buffer = Some p, mi_instance = Some mi\<rparr>"
  shows "\<exists>ms' m'. mbuf_add_item ms it m = Some (ms', m') \<and> queue_ok ms' m' ext \<and> ms_capacity ms' = ms_capacity ms
    \<and> keeps m m' \<and> content ms' m' = content ms m @ [Some (mi, packet m p)]"
proof -
  have ring: "ring_ok ms" and refs: "refs_ok m (queued ms) ext" using ok by (simp_all add: queue_ok_def)
  let ?ms = "ms\<lparr>ms_array := (ms_array ms)[slot ms (unat (ms_len ms)) := it], ms_len := ms_len ms + 1\<rparr>"
  note push = queued_push [OF ring less, of it]
  obtain m' where m': "mbuf_ref (mi_buffer it) m = Some m'" "refs_ok m' (queued ms @ [it]) ext" "keeps m m'"
    using ref_law [OF refs assms(3), of it] by (auto simp: it_def)
  have ne: "ms_len ms \<noteq> ms_capacity ms" using less by auto
  have "mbuf_add_item ms it m = Some (note_max ?ms, m')"
    by (simp add: mbuf_add_item_def ne less m'(1) Let_def MBUF_INDEX_slot [OF ring] note_max_def)
  moreover have "queue_ok (note_max ?ms) m' ext" using push m'(2) by (simp add: queue_ok_def)
  moreover have "content (note_max ?ms) m' = content ms m @ [Some (mi, packet m p)]"
    using view_keeps [OF m'(3,2)] push(1) by (simp add: content_def view_def it_def)
  ultimately show ?thesis using m'(3) by auto
qed

lemma add_item_law:
  fixes p :: mbuf_ptr and mi :: inst
  assumes ok: "queue_ok ms m ext" and "ext p > 0"
  defines "it \<equiv> \<lparr>mi_buffer = Some p, mi_instance = Some mi\<rparr>"
  shows "case q_add (unat (ms_capacity ms)) (mi, packet m p) (content ms m) of
      None \<Rightarrow> mbuf_add_item ms it m = None
    | Some q \<Rightarrow> \<exists>ms' m'. mbuf_add_item ms it m = Some (ms', m') \<and> queue_ok ms' m' ext \<and> ms_capacity ms' = ms_capacity ms
        \<and> keeps m m' \<and> content ms' m' = q"
proof (cases "ms_len ms = ms_capacity ms")
  case False
  then have "ms_len ms < ms_capacity ms" using ok by (simp add: queue_ok_def ring_ok_def word_less_nat_alt word_unat_eq_iff)
  moreover have "length (content ms m) \<noteq> unat (ms_capacity ms)" using False by (simp add: content_def word_unat_eq_iff)
  ultimately show ?thesis using push_law [OF ok _ assms(2), of mi] by (simp add: q_add_def it_def)
next
  case True
  have full: "length (content ms m) = unat (ms_capacity ms)" using True by (simp add: content_def)
  note ex = extract_view [OF ok]
  obtain r q where rq: "q_extract (content ms m) = (r, q)" by fastforce
  show ?thesis
  proof (cases r)
    case None
    then show ?thesis using ex rq True full by (auto simp: q_add_def mbuf_add_item_def)
  next
    case (Some x)
    then obtain i b it' ms1 p' where e: "mbuf_extract_item ms = (Some it', ms1)" "mi_buffer it' = Some p'"
      "queue_ok ms1 m (ext(p' := ext p' + 1))" "ms_capacity ms1 = ms_capacity ms" "content ms1 m = q"
      using ex rq by (cases x) auto
    obtain m1 where m1: "mbuf_free_buf (Some p') m = Some m1" "refs_ok m1 (queued ms1) ext" "keeps m m1"
      using free_buf_law [of m "queued ms1" "ext(p' := ext p' + 1)" p'] e(3) by (auto simp: queue_ok_def)
    have ok1: "queue_ok ms1 m1 ext" using e(3) m1(2) by (simp add: queue_ok_def)
    have c1: "content ms1 m1 = q" using e(5) unfolding content_def view_keeps [OF m1(3,2)] .
    have "length q < length (content ms m)"
      using rq Some length_dropWhile_le [of "\<lambda>x. x = None" "content ms m"] by (auto simp: q_extract_def split: list.splits)
    then have less: "ms_len ms1 < ms_capacity ms1"
      using full e(4) length_content [of ms1 m] unfolding e(5) word_less_nat_alt by simp
    have "mbuf_add_item ms it m = mbuf_add_item ms1 it m1"
      using less_imp_neq [OF less] by (simp add: mbuf_add_item_def True e(1,2) m1(1))
    moreover have "packet m1 p = packet m p"
      using keeps_packet [OF m1(3)] refs_ok_bound [OF m1(2), of p] assms(2) by auto
    ultimately show ?thesis using push_law [OF ok1 less assms(2), of mi] m1(3) e(4) c1 full rq Some
      by (auto simp: q_add_def it_def intro: keeps_trans)
  qed
qed

subsection \<open>The server's operations\<close>

text \<open>What they do to the abstract queue of capacity \<open>cap\<close>.\<close>

fun q_adds :: "nat \<Rightarrow> pkt \<Rightarrow> inst list \<Rightarrow> places \<Rightarrow> places option" where
  "q_adds cap pkt [] q = Some q"
| "q_adds cap pkt (mi # targets) q = Option.bind (q_add cap (mi, pkt) q) (q_adds cap pkt targets)"

definition recipients :: "int \<Rightarrow> inst option \<Rightarrow> bool \<Rightarrow> bcast_peer list \<Rightarrow> inst list" where
  "recipients limit sender addr peers =
     map bp_instance (filter (\<lambda>mi. bcast_reaches sender addr mi \<and> multi_output_queue_ready limit mi) peers)"

text \<open>
  \<open>implements\<close>: a result of the code (\<^const>\<open>None\<close> when it aborts) is that of the abstract queue, and the
  invariant is kept.
\<close>

definition implements :: "(mbuf_set \<times> mbuf_mem) option \<Rightarrow> places option \<Rightarrow> u32 \<Rightarrow> (mbuf_ptr \<Rightarrow> nat) \<Rightarrow> bool" where
  "implements r q cap ext \<longleftrightarrow>
     map_option (\<lambda>(ms, m). content ms m) r = q
     \<and> (case r of None \<Rightarrow> True | Some (ms, m) \<Rightarrow> queue_ok ms m ext \<and> ms_capacity ms = cap)"

lemma implements_cases:
  assumes "implements r q cap ext"
  obtains (abort) "r = None" "q = None"
    | (ok) ms m where "r = Some (ms, m)" "q = Some (content ms m)" "queue_ok ms m ext" "ms_capacity ms = cap"
  using assms by (auto simp: implements_def split: option.splits)

lemma implements_Some [simp]:
  "implements (Some (ms, m)) q cap ext \<longleftrightarrow> q = Some (content ms m) \<and> queue_ok ms m ext \<and> ms_capacity ms = cap"
  by (auto simp: implements_def)

lemma implements_None [simp]: "implements None q cap ext \<longleftrightarrow> q = None"
  by (auto simp: implements_def)

lemma bcast_loop_law:
  assumes "queue_ok ms m ext" and "ext p > 0"
  shows "implements (multi_bcast_loop limit sender addr peers p ms m)
    (q_adds (unat (ms_capacity ms)) (packet m p) (recipients limit sender addr peers) (content ms m)) (ms_capacity ms) ext"
  using assms(1)
proof (induction peers arbitrary: ms m)
  case (Cons mi peers)
  show ?case
  proof (cases "bcast_reaches sender addr mi \<and> multi_output_queue_ready limit mi")
    case False
    then show ?thesis using Cons.IH [OF Cons.prems] by (auto simp: recipients_def multi_add_mbuf_def)
  next
    case reach: True
    note add = add_item_law [OF Cons.prems assms(2), of "bp_instance mi"]
    show ?thesis
    proof (cases "q_add (unat (ms_capacity ms)) (bp_instance mi, packet m p) (content ms m)")
      case None
      then show ?thesis using add reach by (simp add: recipients_def multi_add_mbuf_def)
    next
      case (Some q)
      then obtain ms1 m1 where 1: "mbuf_add_item ms \<lparr>mi_buffer = Some p, mi_instance = Some (bp_instance mi)\<rparr> m = Some (ms1, m1)"
        "queue_ok ms1 m1 ext" "ms_capacity ms1 = ms_capacity ms" "keeps m m1" "content ms1 m1 = q"
        using add by auto
      have "packet m1 p = packet m p"
        using keeps_packet [OF 1(4)] refs_ok_bound [of m1 "queued ms1" ext p] 1(2) assms(2) by (auto simp: queue_ok_def)
      then show ?thesis using Cons.IH [OF 1(2)] 1 reach Some by (simp add: recipients_def multi_add_mbuf_def)
    qed
  qed
qed (simp add: recipients_def)

text \<open>A sender allocates the packet, queues it, and releases its own reference.\<close>

lemma store_law:
  assumes "queue_ok ms m (\<lambda>_. 0)"
  shows "queue_ok ms (store_new blk buf f m) ((\<lambda>_. 0)(mm_next m := 1))" "content ms (store_new blk buf f m) = content ms m"
proof -
  have refs: "refs_ok m (queued ms) (\<lambda>_. 0)" using assms by (simp add: queue_ok_def)
  show "queue_ok ms (store_new blk buf f m) ((\<lambda>_. 0)(mm_next m := 1))"
    using assms alloc_law(1) [OF refs] by (simp add: queue_ok_def)
  have "packet (store_new blk buf f m) p = packet m p" if "it \<in> set (queued ms)" "mi_buffer it = Some p" for it p
    using refs_ok_bound [OF refs, of p] refs_pos [OF that] by (intro alloc_law(3) [OF refs]) auto
  then show "content ms (store_new blk buf f m) = content ms m"
    by (auto simp: content_def view_def split: option.split)
qed

lemma no_refs [simp]: "(\<lambda>_ :: mbuf_ptr. 0 :: nat)(p := 0) = (\<lambda>_. 0)"
  by auto

lemma release_law:
  assumes "implements r q cap ((\<lambda>_. 0)(p := 1))"
  shows "implements (do { (ms, m) \<leftarrow> r; m \<leftarrow> mbuf_free_buf (Some p) m; Some (ms, m) }) q cap (\<lambda>_. 0)"
  using assms
proof (cases rule: implements_cases)
  case (ok ms m)
  then obtain m' where m': "mbuf_free_buf (Some p) m = Some m'" "refs_ok m' (queued ms) (\<lambda>_. 0)" "keeps m m'"
    using free_buf_law [of m "queued ms" "(\<lambda>_. 0)(p := 1)" p] by (auto simp: queue_ok_def)
  then have "content ms m' = content ms m" unfolding content_def by (intro view_keeps)
  then show ?thesis using ok m' by (simp add: queue_ok_def)
qed simp

definition q_send :: "nat \<Rightarrow> pkt \<Rightarrow> inst list \<Rightarrow> places \<Rightarrow> places option" where
  "q_send cap pkt targets q = (if fst pkt = [] then Some q else q_adds cap pkt targets q)"

lemma buf_content_Nil_iff: "buf_ok buf \<Longrightarrow> buf_content buf = [] \<longleftrightarrow> \<not> b_len buf > 0"
  using length_buf_content [of buf] buf_ok_bounds(2) [of buf] by (cases "buf_content buf") auto

lemma bcast_law:
  assumes ok: "queue_ok ms m (\<lambda>_. 0)" and buf: "buf_ok buf" "length blk = nat (b_capacity buf)"
  shows "implements (multi_bcast blk limit buf sender addr peers ms m)
    (q_send (unat (ms_capacity ms)) (buf_content buf, 0) (recipients limit sender addr peers) (content ms m))
    (ms_capacity ms) (\<lambda>_. 0)"
proof -
  have alloc: "mbuf_alloc_buf blk buf m = (mm_next m, store_new blk buf 0 m)"
    by (simp add: mbuf_alloc_buf_def store_new_def)
  note s = store_law [OF ok, of blk buf 0]
  have pkt: "packet (store_new blk buf 0 m) (mm_next m) = (buf_content buf, 0)"
    using alloc_law(2) [of m "queued ms"] ok by (simp add: queue_ok_def clone_buf_content(1) [OF buf])
  show ?thesis
    using release_law [OF bcast_loop_law [OF s(1), of "mm_next m" limit sender addr peers]] ok
    by (auto simp: multi_bcast_def q_send_def buf_content_Nil_iff [OF buf(1)] alloc s(2) pkt)
qed

lemma unicast_law:
  assumes ok: "queue_ok ms m (\<lambda>_. 0)" and buf: "buf_ok buf" "length blk = nat (b_capacity buf)"
  shows "implements (multi_unicast blk limit buf mi ms m)
    (q_send (unat (ms_capacity ms)) (buf_content buf, MF_UNICAST)
      (if multi_output_queue_ready limit mi then [bp_instance mi] else []) (content ms m))
    (ms_capacity ms) (\<lambda>_. 0)"
proof -
  let ?m = "store_new blk buf MF_UNICAST m"
  note s = store_law [OF ok, of blk buf MF_UNICAST]
  have pkt: "packet ?m (mm_next m) = (buf_content buf, MF_UNICAST)"
    using alloc_law(2) [of m "queued ms"] ok by (simp add: queue_ok_def clone_buf_content(1) [OF buf])
  have "multi_unicast blk limit buf mi ms m = (if b_len buf > 0
      then do { (ms, m') \<leftarrow> multi_add_mbuf limit mi (mm_next m) ms ?m; m' \<leftarrow> mbuf_free_buf (Some (mm_next m)) m'; Some (ms, m') }
      else Some (ms, m))"
    by (cases m) (simp add: multi_unicast_def mbuf_alloc_buf_def store_new_def Let_def)
  moreover have "implements (multi_add_mbuf limit mi (mm_next m) ms ?m)
      (q_adds (unat (ms_capacity ms)) (buf_content buf, MF_UNICAST)
        (if multi_output_queue_ready limit mi then [bp_instance mi] else []) (content ms m)) (ms_capacity ms) ((\<lambda>_. 0)(mm_next m := 1))"
    using add_item_law [OF s(1), of "mm_next m" "bp_instance mi"] s
    by (auto simp: multi_add_mbuf_def pkt split: option.splits)
  ultimately show ?thesis
    using release_law ok by (auto simp: q_send_def buf_content_Nil_iff [OF buf(1)])
qed

text \<open>Taking a packet from the queue. The flags of a packet decide the processing of its header.\<close>

definition queue_flags :: "u32 \<Rightarrow> u32" where
  "queue_flags f = PIPV4_PASSTOS OR PIPV6_IMCP_NOHOST_SERVER OR (if f AND MF_UNICAST \<noteq> 0 then PIP_MSSFIX else 0)"

lemma get_queue_law:
  assumes ok: "queue_ok ms m (\<lambda>_. 0)"
  shows "\<exists>r ms' m'. multi_get_queue ms m = Some (r, ms', m') \<and> queue_ok ms' m' (\<lambda>_. 0) \<and> ms_capacity ms' = ms_capacity ms
    \<and> map_option (\<lambda>(mi, buf, f). (mi, buf_content buf, f)) r
        = map_option (\<lambda>(mi, pkt, f). (mi, pkt, queue_flags f)) (fst (q_extract (content ms m)))
    \<and> content ms' m' = snd (q_extract (content ms m))"
proof (cases "q_extract (content ms m)")
  case (Pair x q)
  note ex = extract_view [OF ok, unfolded Pair]
  show ?thesis
  proof (cases x)
    case None
    then have "q = []" using Pair hd_dropWhile [of "\<lambda>x. x = None" "content ms m"]
      by (cases "dropWhile (\<lambda>x. x = None) (content ms m)") (auto simp: q_extract_def)
    then show ?thesis using ex None Pair by (auto simp: multi_get_queue_def)
  next
    case (Some y)
    then obtain i pkt f where y: "x = Some (i, pkt, f)" by (cases y) auto
    then obtain it ms' p where e: "mbuf_extract_item ms = (Some it, ms')" "mi_instance it = Some i" "mi_buffer it = Some p"
      "packet m p = (pkt, f)" "queue_ok ms' m ((\<lambda>_. 0)(p := 1))" "ms_capacity ms' = ms_capacity ms" "content ms' m = q"
      using ex by auto
    obtain b where b: "mm_bufs m p = Some b" using refs_ok_bound [of m "queued ms'" "(\<lambda>_. 0)(p := 1)" p] e(5) by (auto simp: queue_ok_def)
    have "implements (Some (ms', m)) (Some q) (ms_capacity ms) ((\<lambda>_. 0)(p := 1))" using e by simp
    note rel = release_law [OF this]
    obtain m' where m': "mbuf_free_buf (Some p) m = Some m'"
      using free_buf_law [of m "queued ms'" "(\<lambda>_. 0)(p := 1)" p] e(5) by (auto simp: queue_ok_def)
    have "multi_get_queue ms m = Some (Some (i, mb_buf b, queue_flags f), ms', m')"
      using e(4) by (simp add: multi_get_queue_def e(1,2,3) b m' queue_flags_def packet_def Let_def or.assoc)
    then show ?thesis using rel m' e(4) b y Pair by (auto simp: packet_def)
  qed
qed

lemma ring_len_c_int: "ring_ok ms \<Longrightarrow> nat (c_int (uint (ms_len ms))) = unat (ms_len ms)"
proof -
  assume "ring_ok ms"
  then obtain j where "j \<le> 30" "unat (ms_len ms) \<le> 2 ^ j" by (auto simp: ring_ok_def)
  moreover then have "(2 :: nat) ^ j \<le> 2 ^ 30" by (intro power_increasing) auto
  ultimately have "unat (ms_len ms) \<le> 2 ^ 30" by linarith
  then have "uint (ms_len ms) \<le> 2 ^ 30" unfolding unat_eq_nat_uint nat_le_iff by simp
  then have "c_int (uint (ms_len ms)) = uint (ms_len ms)"
    using order_trans [of "- 2147483648" 0 "uint (ms_len ms)"] by (intro c_int_id) simp_all
  then show ?thesis by simp
qed

lemma unat_of_nat_u32_le: "k \<le> unat (n :: u32) \<Longrightarrow> unat (of_nat k :: u32) = k"
proof -
  assume "k \<le> unat n"
  moreover have "unat n < 2 ^ LENGTH(32)" by (rule unsigned_less)
  ultimately show ?thesis by (simp add: unat_of_nat)
qed

text \<open>\<^verbatim>\<open>mbuf_peek\<close> tells for which instance the next packet is.\<close>

lemma peek_loop_law:
  assumes "ring_ok ms" and "k + n = unat (ms_len ms)"
  shows "mbuf_peek_loop n (of_nat k) ms
    = (case dropWhile (\<lambda>it. mi_instance it = None) (drop k (queued ms)) of [] \<Rightarrow> None | it # _ \<Rightarrow> mi_instance it)"
  using assms(2)
proof (induction n arbitrary: k)
  case (Suc n)
  have k: "k < unat (ms_len ms)" "unat (of_nat k :: u32) = k" using Suc.prems unat_of_nat_u32_le [of k "ms_len ms"] by simp_all
  have j: "unat (MBUF_INDEX (ms_head ms) (of_nat k) (ms_capacity ms)) = slot ms k"
    using MBUF_INDEX_slot [OF assms(1), of "of_nat k"] k(2) by simp
  have "drop k (queued ms) = ms_array ms ! slot ms k # drop (Suc k) (queued ms)"
    using k(1) Cons_nth_drop_Suc [of k "queued ms"] by (simp add: nth_queued)
  moreover have "of_nat k + 1 = (of_nat (Suc k) :: u32)" by (simp add: add.commute)
  ultimately show ?case using Suc.IH [of "Suc k"] Suc.prems by (simp add: j Let_def add.commute)
qed simp

lemma peek_law:
  assumes "queue_ok ms m ext"
  shows "mbuf_peek ms = map_option fst (fst (q_extract (content ms m)))"
proof -
  have ring: "ring_ok ms" and refs: "refs_ok m (queued ms) ext" using assms by (simp_all add: queue_ok_def)
  let ?d = "dropWhile (\<lambda>it. mi_instance it = None) (queued ms)"
  have "mbuf_peek ms = (case ?d of [] \<Rightarrow> None | it # _ \<Rightarrow> mi_instance it)"
    using peek_loop_law [OF ring, of 0 "unat (ms_len ms)"] ring_len_c_int [OF ring]
    by (simp add: mbuf_peek_def mbuf_peek_dowork_def mbuf_defined_def queued_def)
  moreover have "map_option fst (fst (q_extract (content ms m))) = (case ?d of [] \<Rightarrow> None | it # _ \<Rightarrow> mi_instance it)"
  proof (cases ?d)
    case Nil
    show ?thesis unfolding q_extract_def content_def dropWhile_view [OF refs] Nil by simp
  next
    case (Cons it its)
    obtain i p where "mi_instance it = Some i" "mi_buffer it = Some p" using refs_ok_dropWhile [OF refs Cons] by blast
    then show ?thesis unfolding q_extract_def content_def dropWhile_view [OF refs] Cons by (simp add: view_def)
  qed
  ultimately show ?thesis by simp
qed

subsection \<open>Departing instances\<close>

lemma refs_ok_forget:
  assumes "refs_ok m its ext" and "k < length its" and it: "mi_instance (its ! k) = Some mi"
  shows "\<exists>p m'. mi_buffer (its ! k) = Some p \<and> mbuf_free_buf (Some p) m = Some m' \<and> keeps m m'
    \<and> refs_ok m' (its[k := \<lparr>mi_buffer = None, mi_instance = None\<rparr>]) ext"
proof -
  let ?e = "\<lparr>mi_buffer = None, mi_instance = None\<rparr>"
  obtain p where p: "mi_buffer (its ! k) = Some p" using assms by (auto simp: refs_ok_def all_set_conv_all_nth)
  have its: "its = take k its @ its ! k # drop (Suc k) its" using assms(2) by (simp add: id_take_nth_drop)
  have upd: "its[k := ?e] = take k its @ ?e # drop (Suc k) its" using assms(2) by (simp add: upd_conv_take_nth_drop)
  have cnt: "refs its q = (if q = p then 1 else 0) + refs (its[k := ?e]) q" for q
    unfolding upd by (subst its) (simp add: p)
  have "\<forall>it \<in> set (its[k := ?e]). mi_instance it = None \<longleftrightarrow> mi_buffer it = None"
    using assms(1) set_update_subset_insert [of its k ?e] unfolding refs_ok_def by auto
  then have "refs_ok m (its[k := ?e]) (ext(p := ext p + 1))"
    using assms(1) cnt unfolding refs_ok_def by (auto split: if_splits)
  from free_buf_law [OF this, of p] show ?thesis using p by auto
qed

lemma view_empty [simp]: "view m \<lparr>mi_buffer = None, mi_instance = None\<rparr> = None"
  by (simp add: view_def)

text \<open>The loop of \<^verbatim>\<open>mbuf_dereference_instance\<close> from index \<open>k\<close> on.\<close>

lemma dereference_loop_law:
  assumes "queue_ok ms m ext" and "k + n = unat (ms_len ms)"
  shows "implements (mbuf_dereference_loop n (of_nat k) mi ms m)
    (Some (take k (content ms m) @ q_forget mi (drop k (content ms m)))) (ms_capacity ms) ext"
  using assms
proof (induction n arbitrary: k ms m)
  case 0
  then show ?case by (simp add: q_forget_def)
next
  case (Suc n)
  have ring: "ring_ok ms" and refs: "refs_ok m (queued ms) ext" using Suc.prems(1) by (simp_all add: queue_ok_def)
  have k: "k < unat (ms_len ms)" "unat (of_nat k :: u32) = k" using Suc.prems(2) unat_of_nat_u32_le [of k "ms_len ms"] by simp_all
  have j: "unat (MBUF_INDEX (ms_head ms) (of_nat k) (ms_capacity ms)) = slot ms k"
    using MBUF_INDEX_slot [OF ring, of "of_nat k"] k(2) by simp
  have step: "of_nat k + 1 = (of_nat (Suc k) :: u32)" by (simp add: add.commute)
  have split: "take k (content ms m) @ q_forget mi (drop k (content ms m))
      = take k (content ms m) @ q_forget mi [content ms m ! k] @ q_forget mi (drop (Suc k) (content ms m))"
    using k(1) by (subst Cons_nth_drop_Suc [symmetric]) (simp_all add: q_forget_def)
  have at: "content ms m ! k = view m (ms_array ms ! slot ms k)" using k(1) by (simp add: content_def nth_queued)
  show ?case
  proof (cases "mi_instance (ms_array ms ! slot ms k) = Some mi")
    case False
    then have "q_forget mi [content ms m ! k] = [content ms m ! k]"
      unfolding at by (auto simp: q_forget_def view_def split: option.splits)
    then show ?thesis using Suc.IH [OF Suc.prems(1), of "Suc k"] Suc.prems(2) False k(1)
      unfolding split by (simp add: j step Let_def take_Suc_conv_app_nth)
  next
    case True
    let ?e = "\<lparr>mi_buffer = None, mi_instance = None\<rparr>"
    let ?ms = "ms\<lparr>ms_array := (ms_array ms)[slot ms k := ?e]\<rparr>"
    have upd: "queued ?ms = (queued ms)[k := ?e]" "ring_ok ?ms" using queued_update [OF ring k(1)] by simp_all
    obtain p m' where m': "mi_buffer (ms_array ms ! slot ms k) = Some p" "mbuf_free_buf (Some p) m = Some m'" "keeps m m'"
      "refs_ok m' ((queued ms)[k := ?e]) ext"
      using refs_ok_forget [OF refs, of k mi] True k(1) by (auto simp: nth_queued)
    have ok: "queue_ok ?ms m' ext" using upd m'(4) by (simp add: queue_ok_def)
    have c: "content ?ms m' = (content ms m)[k := None]"
      unfolding content_def upd(1) view_keeps [OF m'(3,4)] by (simp add: map_update)
    have "q_forget mi [content ms m ! k] = [None]"
      unfolding at using True m'(1) by (simp add: q_forget_def view_def)
    then show ?thesis using Suc.IH [OF ok, of "Suc k"] Suc.prems(2) k(1) True
      unfolding split by (simp add: j step Let_def m'(1,2) c take_Suc_conv_app_nth take_update_swap drop_update_cancel list_update_append)
  qed
qed

lemma dereference_law:
  assumes "queue_ok ms m ext"
  shows "implements (mbuf_dereference_instance ms mi m) (Some (q_forget mi (content ms m))) (ms_capacity ms) ext"
  using dereference_loop_law [OF assms, of 0 "unat (ms_len ms)" mi] ring_len_c_int [of ms] assms
  by (simp add: mbuf_dereference_instance_def queue_ok_def)

subsection \<open>The life of a queue\<close>

definition no_mbufs :: mbuf_mem where
  "no_mbufs = \<lparr>mm_bufs = (\<lambda>_. None), mm_next = 0\<rparr>"

lemma init_law:
  assumes "unat sz \<le> 2 ^ 30"
  shows "\<exists>j ms. mbuf_init sz arr = Some ms \<and> unat (ms_capacity ms) = 2 ^ j \<and> j \<le> 30
    \<and> unat sz \<le> 2 ^ j \<and> (j = 0 \<or> 2 ^ (j - 1) < unat sz)
    \<and> queue_ok ms no_mbufs (\<lambda>_. 0) \<and> content ms no_mbufs = []"
proof -
  have u: "unat (ucast sz :: u64) = unat sz" 
    using assms by (simp add: unsigned_ucast_eq take_bit_nat_eq_self_iff)
  have "unat (ucast sz :: u64) \<le> 2 ^ 63" unfolding u using assms by simp
  then obtain j where j: "adjust_power_of_2 (ucast sz) = Some (2 ^ j)" "unat sz \<le> 2 ^ j" "j = 0 \<or> 2 ^ (j - 1) < unat sz"
    using adjust_power_of_2_least [of "ucast sz"] unfolding u by blast
  have "j \<le> 30"
  proof (rule ccontr)
    assume "\<not> j \<le> 30"
    then have "(2 :: nat) ^ 30 \<le> 2 ^ (j - 1)" by (intro power_increasing) auto
    with j(3) assms \<open>\<not> j \<le> 30\<close> show False by auto
  qed
  then have c: "ucast (2 ^ j :: u64) = (2 ^ j :: u32)" "unat (2 ^ j :: u32) = 2 ^ j"
    by (simp_all add: unat_pow2_u32 word_unat_eq_iff unsigned_ucast_eq unat_pow2_u64 take_bit_nat_eq_self_iff)
  show ?thesis
    using j c \<open>j \<le> 30\<close> by (intro exI [of _ j]) (simp add: mbuf_init_def queue_ok_def ring_ok_def refs_ok_def queued_def content_def no_mbufs_def Let_def)
qed

datatype mbuf_event =
    Bcast "byte list" int buffer "inst option" bool "bcast_peer list"
  | Unicast "byte list" int buffer bcast_peer
  | Fetch
  | Leave inst

type_synonym fetched = "(inst \<times> buffer \<times> u32) option"

definition silent :: "(mbuf_set \<times> mbuf_mem) exec \<Rightarrow> (fetched list \<times> mbuf_set \<times> mbuf_mem) exec" where
  "silent r = map_option (\<lambda>s. ([], s)) r"

fun mbuf_step :: "mbuf_event \<Rightarrow> mbuf_set \<Rightarrow> mbuf_mem \<Rightarrow> (fetched list \<times> mbuf_set \<times> mbuf_mem) exec" where
  "mbuf_step (Bcast blk limit buf sender addr peers) ms m = silent (multi_bcast blk limit buf sender addr peers ms m)"
| "mbuf_step (Unicast blk limit buf mi) ms m = silent (multi_unicast blk limit buf mi ms m)"
| "mbuf_step Fetch ms m = map_option (\<lambda>(r, s). ([r], s)) (multi_get_queue ms m)"
| "mbuf_step (Leave mi) ms m = silent (mbuf_dereference_instance ms mi m)"

fun mbuf_run :: "mbuf_event list \<Rightarrow> mbuf_set \<Rightarrow> mbuf_mem \<Rightarrow> (fetched list \<times> mbuf_set \<times> mbuf_mem) exec" where
  "mbuf_run [] ms m = Some ([], ms, m)"
| "mbuf_run (e # es) ms m = (do {
     (out, ms, m) \<leftarrow> mbuf_step e ms m;
     (outs, s) \<leftarrow> mbuf_run es ms m;
     Some (out @ outs, s) })"

text \<open>The same events on the abstract queue.\<close>

type_synonym q_fetched = "(inst \<times> byte list \<times> u32) option"

fun q_event :: "nat \<Rightarrow> mbuf_event \<Rightarrow> places \<Rightarrow> (q_fetched list \<times> places) option" where
  "q_event cap (Bcast blk limit buf sender addr peers) q =
     map_option (Pair []) (q_send cap (buf_content buf, 0) (recipients limit sender addr peers) q)"
| "q_event cap (Unicast blk limit buf mi) q =
     map_option (Pair []) (q_send cap (buf_content buf, MF_UNICAST) (if multi_output_queue_ready limit mi then [bp_instance mi] else []) q)"
| "q_event cap Fetch q =
     (case q_extract q of (r, q) \<Rightarrow> Some ([map_option (\<lambda>(mi, pkt, f). (mi, pkt, queue_flags f)) r], q))"
| "q_event cap (Leave mi) q = Some ([], q_forget mi q)"

fun q_run :: "nat \<Rightarrow> mbuf_event list \<Rightarrow> places \<Rightarrow> (q_fetched list \<times> places) option" where
  "q_run cap [] q = Some ([], q)"
| "q_run cap (e # es) q = (do {
     (out, q) \<leftarrow> q_event cap e q;
     (outs, q) \<leftarrow> q_run cap es q;
     Some (out @ outs, q) })"

text \<open>A packet that is sent is a well-formed buffer, and its copy has a block of its capacity.\<close>

fun event_ok :: "mbuf_event \<Rightarrow> bool" where
  "event_ok (Bcast blk limit buf sender addr peers) \<longleftrightarrow> buf_ok buf \<and> length blk = nat (b_capacity buf)"
| "event_ok (Unicast blk limit buf mi) \<longleftrightarrow> buf_ok buf \<and> length blk = nat (b_capacity buf)"
| "event_ok _ \<longleftrightarrow> True"

definition fetched_content :: "fetched \<Rightarrow> q_fetched" where
  "fetched_content = map_option (\<lambda>(mi, buf, f). (mi, buf_content buf, f))"

lemma silent_law:
  assumes "implements r q cap ext"
  shows "map_option (\<lambda>(out, ms, m). (map fetched_content out, content ms m)) (silent r) = map_option (Pair []) q"
    "silent r = Some (out, ms, m) \<Longrightarrow> queue_ok ms m ext \<and> ms_capacity ms = cap"
  using assms by (auto simp: silent_def implements_def split: option.splits)

lemma event_law:
  assumes ok: "queue_ok ms m (\<lambda>_. 0)" and e: "event_ok e"
  shows "map_option (\<lambda>(out, ms, m). (map fetched_content out, content ms m)) (mbuf_step e ms m)
      = q_event (unat (ms_capacity ms)) e (content ms m)"
    "mbuf_step e ms m = Some (out, ms', m') \<Longrightarrow> queue_ok ms' m' (\<lambda>_. 0) \<and> ms_capacity ms' = ms_capacity ms"
proof -
  have "map_option (\<lambda>(out, ms, m). (map fetched_content out, content ms m)) (mbuf_step e ms m)
      = q_event (unat (ms_capacity ms)) e (content ms m)
    \<and> (mbuf_step e ms m = Some (out, ms', m') \<longrightarrow> queue_ok ms' m' (\<lambda>_. 0) \<and> ms_capacity ms' = ms_capacity ms)"
  proof (cases e)
    case (Bcast blk limit buf sender addr peers)
    then show ?thesis using silent_law [OF bcast_law [OF ok, of buf blk limit sender addr peers]] e by simp
  next
    case (Unicast blk limit buf mi)
    then show ?thesis using silent_law [OF unicast_law [OF ok, of buf blk limit mi]] e by simp
  next
    case Fetch
    then show ?thesis using get_queue_law [OF ok] by (auto simp: fetched_content_def split: prod.splits)
  next
    case (Leave mi)
    then show ?thesis using silent_law [OF dereference_law [OF ok, of mi]] by simp
  qed
  then show "map_option (\<lambda>(out, ms, m). (map fetched_content out, content ms m)) (mbuf_step e ms m)
      = q_event (unat (ms_capacity ms)) e (content ms m)"
    "mbuf_step e ms m = Some (out, ms', m') \<Longrightarrow> queue_ok ms' m' (\<lambda>_. 0) \<and> ms_capacity ms' = ms_capacity ms"
    by blast+
qed

lemma run_law:
  assumes "queue_ok ms m (\<lambda>_. 0)" and "list_all event_ok es"
  shows "map_option (\<lambda>(out, ms, m). (map fetched_content out, content ms m)) (mbuf_run es ms m)
      = q_run (unat (ms_capacity ms)) es (content ms m)
    \<and> (\<forall>out ms' m'. mbuf_run es ms m = Some (out, ms', m') \<longrightarrow> queue_ok ms' m' (\<lambda>_. 0))"
  using assms
proof (induction es arbitrary: ms m)
  case (Cons e es)
  note ev = event_law [OF Cons.prems(1), of e]
  show ?case
  proof (cases "mbuf_step e ms m")
    case None
    then show ?thesis using ev(1) Cons.prems(2) by (simp split: option.splits)
  next
    case (Some x)
    obtain out ms1 m1 where x: "x = (out, ms1, m1)" by (cases x)
    have ok: "queue_ok ms1 m1 (\<lambda>_. 0)" "ms_capacity ms1 = ms_capacity ms" using ev(2) Some x Cons.prems(2) by auto
    have q: "q_event (unat (ms_capacity ms)) e (content ms m) = Some (map fetched_content out, content ms1 m1)"
      using ev(1) Some x Cons.prems(2) by simp
    have ih: "map_option (\<lambda>(out, ms, m). (map fetched_content out, content ms m)) (mbuf_run es ms1 m1)
        = q_run (unat (ms_capacity ms)) es (content ms1 m1)"
      "\<forall>out ms' m'. mbuf_run es ms1 m1 = Some (out, ms', m') \<longrightarrow> queue_ok ms' m' (\<lambda>_. 0)"
      using Cons.IH [OF ok(1)] Cons.prems(2) ok(2) by auto
    show ?thesis using ih(2) Some
      by (cases "mbuf_run es ms1 m1") (auto simp: x q simp flip: ih(1))
  qed
qed simp

text \<open>Closing the queue releases the references it holds.\<close>

lemma refs_ok_Cons:
  assumes "refs_ok m (it # rest) ext" and "mi_buffer it = Some p"
  shows "refs_ok m rest (ext(p := ext p + 1))"
proof -
  have "count_ok (mm_bufs m q) (refs rest q + (ext(p := ext p + 1)) q)" for q
  proof -
    have "count_ok (mm_bufs m q) (refs (it # rest) q + ext q)" using assms(1) unfolding refs_ok_def by blast
    then show ?thesis using assms(2) by (auto split: if_splits)
  qed
  then show ?thesis using assms(1) by (simp add: refs_ok_def)
qed

lemma free_loop_law:
  assumes "ring_ok ms" and "refs_ok m (drop k (queued ms)) (\<lambda>_. 0)" and "k + n = unat (ms_len ms)"
  shows "\<exists>m'. mbuf_free_loop n (of_nat k) ms m = Some m' \<and> (\<forall>p. mm_bufs m' p = None)"
  using assms(2,3)
proof (induction n arbitrary: k m)
  case 0
  then have "count_ok (mm_bufs m p) 0" for p by (simp add: refs_ok_def)
  then have "mm_bufs m p = None" for p by (cases "mm_bufs m p") (use \<open>\<And>p. count_ok (mm_bufs m p) 0\<close> [of p] in auto)
  then show ?case by simp
next
  case (Suc n)
  have k: "k < unat (ms_len ms)" "unat (of_nat k :: u32) = k" using Suc.prems(2) unat_of_nat_u32_le [of k "ms_len ms"] by simp_all
  have j: "unat (MBUF_INDEX (ms_head ms) (of_nat k) (ms_capacity ms)) = slot ms k"
    using MBUF_INDEX_slot [OF assms(1), of "of_nat k"] k(2) by simp
  let ?it = "queued ms ! k" and ?rest = "drop (Suc k) (queued ms)"
  have refs: "refs_ok m (?it # ?rest) (\<lambda>_. 0)" using Suc.prems(1) k(1) by (simp add: Cons_nth_drop_Suc)
  have step: "of_nat k + 1 = (of_nat (Suc k) :: u32)" by (simp add: add.commute)
  have "\<exists>m'. mbuf_free_buf (mi_buffer ?it) m = Some m' \<and> refs_ok m' ?rest (\<lambda>_. 0)"
  proof (cases "mi_buffer ?it")
    case None
    then show ?thesis using refs by (simp add: mbuf_free_buf_def refs_ok_def)
  next
    case (Some p)
    have "refs_ok m ?rest ((\<lambda>_. 0)(p := 1))" using refs_ok_Cons [OF refs Some] by simp
    from free_buf_law [OF this, of p] Some show ?thesis by auto
  qed
  then obtain m' where m': "mbuf_free_buf (mi_buffer ?it) m = Some m'" "refs_ok m' ?rest (\<lambda>_. 0)" by blast
  then show ?case using Suc.IH [OF m'(2)] Suc.prems(2) k(1) by (simp add: j step nth_queued)
qed

lemma free_law:
  assumes "queue_ok ms m (\<lambda>_. 0)"
  shows "\<exists>m'. mbuf_free ms m = Some m' \<and> (\<forall>p. mm_bufs m' p = None)"
  using free_loop_law [of ms m 0 "unat (ms_len ms)"] assms ring_len_c_int [of ms] by (simp add: queue_ok_def mbuf_free_def)

subsection \<open>Properties\<close>


text \<open>
  C13: No packet buffer is leaked and none is used after it is freed. After any sequence of events that does not
  abort, a buffer is allocated exactly when some queued item refers to it, and its reference count is the number
  of these items; closing the queue then succeeds and leaves no buffer allocated.
\<close>

theorem mbuf_references_exact:
  assumes "unat sz \<le> 2 ^ 30" and "list_all event_ok es" and "mbuf_init sz arr = Some ms"
    and "mbuf_run es ms no_mbufs = Some (out, ms', m)"
  shows "(case mm_bufs m p of
       None \<Rightarrow> \<not> (\<exists>it \<in> set (queued ms'). mi_buffer it = Some p)
     | Some b \<Rightarrow> mb_refcount b = int (length (filter (\<lambda>it. mi_buffer it = Some p) (queued ms'))) \<and> mb_refcount b > 0)
    \<and> (\<exists>m'. mbuf_free ms' m = Some m' \<and> mm_bufs m' p = None)"
proof -
  have ok: "queue_ok ms' m (\<lambda>_. 0)"
    using init_law [OF assms(1), of arr] run_law [OF _ assms(2), of ms no_mbufs] assms(3,4) by auto
  then have "count_ok (mm_bufs m p) (refs (queued ms') p + 0)" unfolding queue_ok_def refs_ok_def by blast
  then show ?thesis using free_law [OF ok]
    by (cases "mm_bufs m p") (auto simp: refs_def filter_empty_conv)
qed

text \<open>An example: two clients, a broadcast to both, a unicast, and the departure of one client.\<close>

definition demo_buf :: buffer where
  "demo_buf = \<lparr>b_capacity = 4, b_offset = 1, b_len = 2, b_data = Some [0, 7, 8, 0]\<rparr>"

definition demo_peer :: "inst \<Rightarrow> bcast_peer" where
  "demo_peer i = \<lparr>bp_instance = i, bp_halt = False, bp_pf_c2c = True, bp_pf_addr = True, bp_deferred = Some 3\<rparr>"

definition demo_events :: "mbuf_event list" where
  "demo_events =
     [Bcast [0, 0, 0, 0] 64 demo_buf (Some 3) False [demo_peer 1, demo_peer 2, demo_peer 3],
      Unicast [9, 9, 9, 9] 64 demo_buf (demo_peer 1), Leave 2, Fetch, Fetch, Fetch]"

lemmas demo_defs = demo_events_def demo_buf_def demo_peer_def

lemma demo_event_ok: "list_all event_ok demo_events"
  by (simp add: demo_defs buf_ok_def buf_valid_def BUF_SIZE_MAX_def)


definition demo_init :: "mbuf_set exec" where
  "demo_init = mbuf_init 3 (\<lambda>_. \<lparr>mi_buffer = None, mi_instance = None\<rparr>)"

lemma demo_runs: "\<not> Option.is_none (Option.bind demo_init (\<lambda>ms. mbuf_run (take 4 demo_events) ms no_mbufs))"
  by code_simp

lemma bind_defined: "\<not> Option.is_none (Option.bind x f) \<Longrightarrow> \<exists>a b. x = Some a \<and> f a = Some b"
  by (cases x) (auto simp: Option.is_none_def)

theorem mbuf_references_exact_witness:
  "\<exists>ms out ms' m. mbuf_init 3 (\<lambda>_. \<lparr>mi_buffer = None, mi_instance = None\<rparr>) = Some ms
    \<and> mbuf_run (take 4 demo_events) ms no_mbufs = Some (out, ms', m)
    \<and> (case mm_bufs m 1 of
         None \<Rightarrow> \<not> (\<exists>it \<in> set (queued ms'). mi_buffer it = Some 1)
       | Some b \<Rightarrow> mb_refcount b = int (length (filter (\<lambda>it. mi_buffer it = Some 1) (queued ms'))) \<and> mb_refcount b > 0)
    \<and> (\<exists>m'. mbuf_free ms' m = Some m' \<and> mm_bufs m' 1 = None)"
proof -
  obtain ms r where ms: "mbuf_init 3 (\<lambda>_. \<lparr>mi_buffer = None, mi_instance = None\<rparr>) = Some ms"
    "mbuf_run (take 4 demo_events) ms no_mbufs = Some r"
    using bind_defined [OF demo_runs] unfolding demo_init_def by (elim exE conjE)
  obtain out ms' m where r: "r = (out, ms', m)" by (rule prod_cases3)
  note run = ms [unfolded r]
  have "list_all event_ok (take 4 demo_events)" using demo_event_ok unfolding list_all_iff by (blast dest: in_set_takeD)
  from mbuf_references_exact [OF _ this run, of 1] run show ?thesis
    by (intro exI [of _ ms] exI [of _ out] exI [of _ ms'] exI [of _ m]) simp
qed

subsection \<open>The queue of empty places\<close>

lemma q_run_append: "q_run cap (es @ es') q = (do { (out, q) \<leftarrow> q_run cap es q; (out', q) \<leftarrow> q_run cap es' q; Some (out @ out', q) })"
proof (induction es arbitrary: q)
  case (Cons e es)
  then show ?case by (cases "q_event cap e q") (auto simp: split_beta bind_assoc)
next
  case Nil
  then show ?case by (cases "q_run cap es' q") auto
qed

lemma q_fill:
  assumes "buf_content buf \<noteq> []" and "multi_output_queue_ready limit mi"
  shows "length q + k \<le> cap \<Longrightarrow> q_run cap (replicate k (Unicast blk limit buf mi)) q
    = Some ([], q @ replicate k (Some (bp_instance mi, buf_content buf, MF_UNICAST)))"
  using assms by (induction k arbitrary: q) (auto simp: q_send_def q_add_def)

text \<open>
  C35: The assertion of \<^verbatim>\<open>mbuf_add_item\<close> that a full queue has a packet to give up does not hold. When the queue is
  filled with packets for one client and this client leaves, its packets become empty places that still count, and
  the next packet for any other client aborts the server.
\<close>

theorem mbuf_jam_aborts:
  assumes "unat sz \<le> 2 ^ 30" and init: "mbuf_init sz arr = Some ms"
    and buf: "buf_ok buf" "b_len buf > 0" "length blk = nat (b_capacity buf)"
    and ready: "multi_output_queue_ready limit mi" "multi_output_queue_ready limit mj"
  shows "mbuf_run (replicate (unat (ms_capacity ms)) (Unicast blk limit buf mi) @ [Leave (bp_instance mi)]) ms no_mbufs \<noteq> None
    \<and> mbuf_run (replicate (unat (ms_capacity ms)) (Unicast blk limit buf mi) @ [Leave (bp_instance mi), Unicast blk limit buf mj])
      ms no_mbufs = None"
proof -
  let ?cap = "unat (ms_capacity ms)"
  have ok: "queue_ok ms no_mbufs (\<lambda>_. 0)" and c: "content ms no_mbufs = []" using init_law [OF assms(1), of arr] init by auto
  have ne: "buf_content buf \<noteq> []" using buf buf_content_Nil_iff by auto
  have "dropWhile (\<lambda>x. x = None) (replicate ?cap None) = ([] :: places)" by (induction ?cap) auto
  then have "q_run ?cap (replicate ?cap (Unicast blk limit buf mi) @ [Leave (bp_instance mi), Unicast blk limit buf mj]) [] = None"
    "q_run ?cap (replicate ?cap (Unicast blk limit buf mi) @ [Leave (bp_instance mi)]) [] \<noteq> None"
    using q_fill [OF ne ready(1), of "[]"] ready(2) ne
    by (simp_all add: q_run_append q_forget_def q_send_def q_add_def q_extract_def)
  then show ?thesis
    using run_law [OF ok, of "replicate ?cap (Unicast blk limit buf mi) @ [Leave (bp_instance mi)]"]
      run_law [OF ok, of "replicate ?cap (Unicast blk limit buf mi) @ [Leave (bp_instance mi), Unicast blk limit buf mj]"] buf
    unfolding c by (auto simp: list_all_iff)
qed

theorem mbuf_jam_aborts_witness:
  "\<exists>ms. mbuf_init 3 (\<lambda>_. \<lparr>mi_buffer = None, mi_instance = None\<rparr>) = Some ms
    \<and> mbuf_run (replicate (unat (ms_capacity ms)) (Unicast [0, 0, 0, 0] 64 demo_buf (demo_peer 1)) @ [Leave 1]) ms no_mbufs \<noteq> None
    \<and> mbuf_run (replicate (unat (ms_capacity ms)) (Unicast [0, 0, 0, 0] 64 demo_buf (demo_peer 1)) @
        [Leave 1, Unicast [0, 0, 0, 0] 64 demo_buf (demo_peer 2)]) ms no_mbufs = None"
proof -
  obtain ms where ms: "mbuf_init 3 (\<lambda>_. \<lparr>mi_buffer = None, mi_instance = None\<rparr>) = Some ms"
    using bind_defined [OF demo_runs] unfolding demo_init_def by (elim exE conjE)
  have "buf_ok demo_buf" by (simp add: demo_defs buf_ok_def buf_valid_def BUF_SIZE_MAX_def)
  then show ?thesis
    using mbuf_jam_aborts [OF _ ms, of demo_buf "[0, 0, 0, 0]" 64 "demo_peer 1" "demo_peer 2"] ms
    by (simp add: demo_buf_def demo_peer_def multi_output_queue_ready_def)
qed

end
