(* ===== verification/Stream_Buf.thy ===== *)
theory Stream_Buf
  imports Frame
begin

section \<open>Packets in a TCP stream (socket.c, socket.h, ps.c)\<close>

text \<open>
  Over TCP every packet is preceded by its length in two bytes, and the receiver cuts the stream into packets again.
  \<^verbatim>\<open>struct stream_buf\<close> collects a packet in one block of memory: its members \<^verbatim>\<open>buf_init\<close>, \<^verbatim>\<open>buf\<close> and \<^verbatim>\<open>next\<close> are three
  windows into it, so that a write through one of them is seen through the others (\<open>share_block\<close>); \<^verbatim>\<open>residual\<close> has a
  block of its own. \<^verbatim>\<open>recv\<close> is an argument: what it returns is a list of bytes, empty when the peer has closed the
  connection, or an error.
\<close>

subsection \<open>State\<close>

definition PS_DISABLED :: int where "PS_DISABLED = 0"
definition PS_ENABLED :: int where "PS_ENABLED = 1"
definition PS_FOREIGN :: int where "PS_FOREIGN = 2"

record stream_buf =
  sb_buf_init :: buffer
  sb_residual :: buffer
  sb_maxlen :: int
  sb_residual_fully_formed :: bool
  sb_buf :: buffer
  sb_next :: buffer
  sb_len :: int
  sb_error :: bool
  sb_port_share_state :: int

record link_socket =
  ls_stream_buf :: stream_buf
  ls_stream_reset :: bool

datatype recv_result = Received "byte list" | Recv_error

definition share_block :: "byte list option \<Rightarrow> stream_buf \<Rightarrow> stream_buf" where
  "share_block d sb = sb\<lparr>sb_buf_init := (sb_buf_init sb)\<lparr>b_data := d\<rparr>, sb_buf := (sb_buf sb)\<lparr>b_data := d\<rparr>,
     sb_next := (if buf_defined (sb_next sb) then (sb_next sb)\<lparr>b_data := d\<rparr> else sb_next sb)\<rparr>"

subsection \<open>Cutting the stream\<close>

definition stream_buf_reset :: "stream_buf \<Rightarrow> stream_buf" where
  "stream_buf_reset sb =
     sb\<lparr>sb_residual_fully_formed := False, sb_buf := sb_buf_init sb, sb_next := buf_reset (sb_next sb), sb_len := -1\<rparr>"

definition stream_buf_init :: "buffer \<Rightarrow> bool \<Rightarrow> stream_buf exec" where
  "stream_buf_init buf port_share = (do {
     residual \<leftarrow> alloc_buf (b_len buf);
     Some (stream_buf_reset
       \<lparr>sb_buf_init = buf\<lparr>b_len := 0\<rparr>, sb_residual = residual, sb_maxlen = b_len buf, sb_residual_fully_formed = False,
        sb_buf = clear_buf, sb_next = clear_buf, sb_len = -1, sb_error = False,
        sb_port_share_state = (if port_share then PS_ENABLED else PS_DISABLED)\<rparr>) })"

definition stream_buf_set_next :: "stream_buf \<Rightarrow> stream_buf exec" where
  "stream_buf_set_next sb = (do {
     let nxt = (sb_buf sb)\<lparr>b_offset := b_offset (sb_buf sb) + b_len (sb_buf sb),
                          b_len := (if sb_len sb \<ge> 0 then sb_len sb else sb_maxlen sb) - b_len (sb_buf sb)\<rparr>;
     let sb = sb\<lparr>sb_next := nxt\<rparr>;
     assert_c (b_len (sb_next sb) > 0);
     assert_c (buf_safe (sb_buf sb) (b_len (sb_next sb)));
     Some sb })"

definition stream_buf_get_final :: "stream_buf \<Rightarrow> buffer exec" where
  "stream_buf_get_final sb = (do { assert_c (buf_defined (sb_buf sb)); Some (sb_buf sb) })"

definition stream_buf_get_next :: "stream_buf \<Rightarrow> buffer exec" where
  "stream_buf_get_next sb = (do { assert_c (buf_defined (sb_next sb)); Some (sb_next sb) })"

definition is_openvpn_protocol :: "buffer \<Rightarrow> bool" where
  "is_openvpn_protocol buf =
     (let p = buf_content buf; len = buf_len buf
      in if len \<ge> 3 then p ! 0 = 0 \<and> p ! 1 \<ge> 14 \<and> (p ! 2 = push_bit 3 7 \<or> p ! 2 = push_bit 3 10)
         else if len \<ge> 2 then p ! 0 = 0 \<and> p ! 1 \<ge> 14
         else True)"

text \<open>
  The part of \<^verbatim>\<open>stream_buf_added\<close> that reads the length prefix. The first component of the result tells whether the
  function goes on after it.
\<close>

definition stream_buf_read_len :: "stream_buf \<Rightarrow> (bool \<times> stream_buf) exec" where
  "stream_buf_read_len sb =
     (if sb_len sb < 0 \<and> b_len (sb_buf sb) \<ge> 2 then
        if sb_port_share_state sb = PS_ENABLED \<and> \<not> is_openvpn_protocol (sb_buf sb)
        then Some (False, sb\<lparr>sb_port_share_state := PS_FOREIGN, sb_error := True\<rparr>)
        else do {
          let sb = (if sb_port_share_state sb = PS_ENABLED then sb\<lparr>sb_port_share_state := PS_DISABLED\<rparr> else sb);
          let (r, buf) = buf_read (sb_buf sb) 2;
          net_size \<leftarrow> r;
          let sb = sb\<lparr>sb_buf := buf, sb_len := uint (bytes_u16 net_size)\<rparr>;
          if sb_len sb < 1 \<or> sb_len sb > sb_maxlen sb then Some (False, (stream_buf_reset sb)\<lparr>sb_error := True\<rparr>)
          else Some (True, sb) }
      else Some (True, sb))"

definition stream_buf_added :: "stream_buf \<Rightarrow> int \<Rightarrow> (bool \<times> stream_buf) exec" where
  "stream_buf_added sb length_added = (do {
     let sb = (if length_added > 0 then sb\<lparr>sb_buf := (sb_buf sb)\<lparr>b_len := b_len (sb_buf sb) + length_added\<rparr>\<rparr> else sb);
     (goes_on, sb) \<leftarrow> stream_buf_read_len sb;
     if \<not> goes_on then Some (False, sb)
     else if sb_len sb > 0 \<and> b_len (sb_buf sb) \<ge> sb_len sb then do {
       let (ok, residual) = buf_init (sb_residual sb) 0;
       assert_c ok;
       let sb = sb\<lparr>sb_residual := residual\<rparr>;
       if b_len (sb_buf sb) > sb_len sb then do {
         let (ok, residual, buf) = buf_copy_excess (sb_residual sb) (sb_buf sb) (sb_len sb);
         assert_c ok;
         Some (True, sb\<lparr>sb_residual := residual, sb_buf := buf\<rparr>) }
       else Some (True, sb) }
     else do {
       sb \<leftarrow> stream_buf_set_next sb;
       Some (False, sb) } })"

definition stream_buf_read_setup_dowork :: "link_socket \<Rightarrow> (bool \<times> link_socket) exec" where
  "stream_buf_read_setup_dowork sock = (do {
     let sb = ls_stream_buf sock;
     sb \<leftarrow> (if b_len (sb_residual sb) \<noteq> 0 \<and> \<not> sb_residual_fully_formed sb then do {
              let (ok, buf) = buf_copy (sb_buf sb) (sb_residual sb);
              assert_c ok;
              let sb = share_block (b_data buf) (sb\<lparr>sb_buf := buf\<rparr>);
              let (ok, residual) = buf_init (sb_residual sb) 0;
              assert_c ok;
              (formed, sb) \<leftarrow> stream_buf_added (sb\<lparr>sb_residual := residual\<rparr>) 0;
              Some (sb\<lparr>sb_residual_fully_formed := formed\<rparr>) }
            else Some sb);
     sb \<leftarrow> (if \<not> sb_residual_fully_formed sb then stream_buf_set_next sb else Some sb);
     Some (\<not> sb_residual_fully_formed sb, sock\<lparr>ls_stream_buf := sb\<rparr>) })"

definition link_socket_read_tcp :: "recv_result \<Rightarrow> link_socket \<Rightarrow> buffer \<Rightarrow> (int \<times> buffer \<times> link_socket) exec" where
  "link_socket_read_tcp rx sock buf = (do {
     let formed = sb_residual_fully_formed (ls_stream_buf sock);
     (len, sb) \<leftarrow> (if \<not> formed then do {
                    let sb = ls_stream_buf sock;
                    frag \<leftarrow> stream_buf_get_next sb;
                    Some (case rx of
                            Recv_error \<Rightarrow> (-1, sb)
                          | Received bs \<Rightarrow> (int (length bs), share_block (b_data (buf_store frag (b_offset frag) bs)) sb)) }
                  else Some (0, ls_stream_buf sock));
     if \<not> formed \<and> len \<le> 0
     then Some (len, buf\<lparr>b_len := len\<rparr>,
                sock\<lparr>ls_stream_buf := sb, ls_stream_reset := (ls_stream_reset sock \<or> len = 0)\<rparr>)
     else do {
       (complete, sb) \<leftarrow> (if formed then Some (True, sb) else stream_buf_added sb len);
       if complete then do {
         buf \<leftarrow> stream_buf_get_final sb;
         Some (b_len buf, buf, sock\<lparr>ls_stream_buf := stream_buf_reset sb\<rparr>) }
       else Some (0, buf\<lparr>b_len := 0\<rparr>, sock\<lparr>ls_stream_buf := sb\<rparr>) } })"

definition socket_connection_reset :: "link_socket \<Rightarrow> int \<Rightarrow> bool \<Rightarrow> bool" where
  "socket_connection_reset sock status econnreset =
     (if ls_stream_reset sock \<or> sb_error (ls_stream_buf sock) then True
      else if status < 0 then econnreset else False)"

definition link_socket_write_tcp :: "link_socket \<Rightarrow> buffer \<Rightarrow> (byte list \<times> buffer) exec" where
  "link_socket_write_tcp sock buf = (do {
     let len = (word_of_int (buf_len buf) :: u16);
     assert_c (uint len \<le> sb_maxlen (ls_stream_buf sock));
     let (ok, buf) = buf_write_prepend buf (u16_bytes len) 2;
     assert_c ok;
     Some (buf_content buf, buf) })"

definition socket_frame_init :: "frame \<Rightarrow> bool \<Rightarrow> link_socket exec" where
  "socket_frame_init frame port_share = (do {
     buf \<leftarrow> alloc_buf_sock_tun frame False FRAME_HEADROOM_MARKER_READ_STREAM;
     sb \<leftarrow> stream_buf_init buf port_share;
     Some \<lparr>ls_stream_buf = sb, ls_stream_reset = False\<rparr> })"

subsection \<open>The reference: parsing the whole stream at once\<close>

function deframe :: "int \<Rightarrow> byte list \<Rightarrow> byte list list \<times> bool" where
  "deframe maxlen bs =
     (if length bs < 2 then ([], False)
      else let n = unat (bytes_u16 bs)
           in if n < 1 \<or> int n > maxlen then ([], True)
              else if length bs < 2 + n then ([], False)
              else case deframe maxlen (drop (2 + n) bs) of (ps, e) \<Rightarrow> (take n (drop 2 bs) # ps, e))"
  by auto
termination by (relation "measure (\<lambda>(maxlen, bs). length bs)") auto

declare deframe.simps [simp del]

end
