(* ===== verification/Stream_Run.thy ===== *)
theory Stream_Run
  imports Stream_Buf
begin

section \<open>Cutting a TCP stream does not depend on its segments\<close>

text \<open>
  Whatever pieces \<^verbatim>\<open>recv\<close> returns, the packets the event loop reads from the stream are those of the reference
  \<^const>\<open>deframe\<close>, which parses the whole stream at once; none of the assertions fails.
\<close>

subsection \<open>Invariant\<close>

definition stream_ok :: "stream_buf \<Rightarrow> bool" where
  "stream_ok sb \<longleftrightarrow> 2 \<le> sb_maxlen sb \<and> sb_port_share_state sb = PS_DISABLED
     \<and> buf_ok (sb_buf_init sb) \<and> buf_defined (sb_buf_init sb) \<and> b_len (sb_buf_init sb) = 0
     \<and> b_offset (sb_buf_init sb) + 2 + sb_maxlen sb \<le> b_capacity (sb_buf_init sb)
     \<and> buf_ok (sb_buf sb) \<and> b_data (sb_buf sb) = b_data (sb_buf_init sb) \<and> b_capacity (sb_buf sb) = b_capacity (sb_buf_init sb)
     \<and> buf_ok (sb_residual sb) \<and> buf_defined (sb_residual sb) \<and> b_capacity (sb_residual sb) = sb_maxlen sb"

text \<open>\<open>gathered sb pend\<close>: the bytes of the stream that \<open>sb\<close> has collected for the current packet.\<close>

definition gathered :: "stream_buf \<Rightarrow> byte list \<Rightarrow> bool" where
  "gathered sb pend \<longleftrightarrow>
     (if sb_len sb < 0 then sb_len sb = -1 \<and> b_offset (sb_buf sb) = b_offset (sb_buf_init sb) \<and> pend = buf_content (sb_buf sb)
        \<and> b_len (sb_buf sb) \<le> sb_maxlen sb
      else 1 \<le> sb_len sb \<and> sb_len sb \<le> sb_maxlen sb \<and> sb_len sb < 2 ^ 16
        \<and> b_offset (sb_buf sb) = b_offset (sb_buf_init sb) + 2
        \<and> pend = u16_bytes (word_of_int (sb_len sb)) @ buf_content (sb_buf sb) \<and> b_len (sb_buf sb) \<le> sb_len sb)"

definition need :: "stream_buf \<Rightarrow> int" where
  "need sb = (if sb_len sb \<ge> 0 then sb_len sb else sb_maxlen sb) - b_len (sb_buf sb)"

text \<open>\<open>next_ok\<close>: the window \<^verbatim>\<open>next\<close> is the room for the missing bytes.\<close>

definition next_ok :: "stream_buf \<Rightarrow> bool" where
  "next_ok sb \<longleftrightarrow> sb_next sb = (sb_buf sb)\<lparr>b_offset := b_offset (sb_buf sb) + b_len (sb_buf sb), b_len := need sb\<rparr> \<and> 0 < need sb"

lemma u16_bytes_len [simp]: "length (u16_bytes w) = 2"
  by (simp add: u16_bytes_def)

lemma stream_ok_simps [simp]:
  "stream_ok (sb\<lparr>sb_next := x\<rparr>) = stream_ok sb" "stream_ok (sb\<lparr>sb_len := l\<rparr>) = stream_ok sb"
  "stream_ok (sb\<lparr>sb_error := e\<rparr>) = stream_ok sb" "stream_ok (sb\<lparr>sb_residual_fully_formed := f\<rparr>) = stream_ok sb"
  by (simp_all add: stream_ok_def)

lemma gathered_simps [simp]:
  "gathered (sb\<lparr>sb_next := x\<rparr>) = gathered sb" "gathered (sb\<lparr>sb_residual := r\<rparr>) = gathered sb"
  "gathered (sb\<lparr>sb_error := e\<rparr>) = gathered sb" "gathered (sb\<lparr>sb_residual_fully_formed := f\<rparr>) = gathered sb"
  by (simp_all add: gathered_def fun_eq_iff)

lemma buf_content_eq_Nil: "buf_ok b \<Longrightarrow> buf_content b = [] \<longleftrightarrow> b_len b = 0"
  using length_buf_content [of b] buf_ok_bounds(2) [of b] by (auto simp: buf_content_empty simp del: buf_ok_bounds length_buf_content)

lemma stream_ok_defined: "stream_ok sb \<Longrightarrow> buf_defined (sb_buf sb)"
  by (simp add: stream_ok_def buf_defined_def)

lemma residual_init: "stream_ok sb \<Longrightarrow> \<exists>res. buf_init (sb_residual sb) 0 = (True, res)"
  using buf_init_iff [of "sb_residual sb" 0]
  by (cases "buf_init (sb_residual sb) 0") (auto simp: stream_ok_def)

lemma set_next_law:
  assumes "stream_ok sb" and "gathered sb pend" and "0 < need sb"
  shows "\<exists>sb'. stream_buf_set_next sb = Some sb' \<and> sb' = sb\<lparr>sb_next := sb_next sb'\<rparr> \<and> next_ok sb'"
proof -
  let ?b = "sb_buf sb"
  have cap: "b_offset ?b + b_len ?b + need sb \<le> b_capacity ?b"
    using assms(1,2) by (auto simp: stream_ok_def gathered_def need_def split: if_splits)
  have "0 \<le> b_offset ?b + b_len ?b" "b_capacity ?b < BUF_SIZE_MAX" using assms(1) by (auto simp: stream_ok_def)
  then have "need sb < BUF_SIZE_MAX" using cap by linarith
  moreover have "buf_valid ?b" using assms(1) stream_ok_defined [OF assms(1)] by (simp add: stream_ok_def buf_valid_def buf_defined_def)
  ultimately have "buf_safe ?b (need sb)" using cap assms(3) by (simp add: buf_safe_def BUF_SIZE_MAX_def)
  then show ?thesis using assms(3)
    by (simp add: stream_buf_set_next_def next_ok_def need_def split: if_splits)
qed

lemma reset_law:
  assumes "stream_ok sb"
  shows "stream_ok (stream_buf_reset sb)" "gathered (stream_buf_reset sb) []"
  using assms by (auto simp: stream_ok_def gathered_def stream_buf_reset_def buf_content_empty)

subsection \<open>A length prefix\<close>

text \<open>The prefix of \<open>pend\<close> and the packet behind it.\<close>

definition frame_len :: "byte list \<Rightarrow> nat" where
  "frame_len pend = unat (bytes_u16 pend)"

lemma bytes_u16_append [simp]: "bytes_u16 (u16_bytes w @ bs) = w"
  using bytes_u16_of_u16 [of w] by (simp add: bytes_u16_def u16_bytes_def)

lemma u16_bytes_of_bytes: "length bs \<ge> 2 \<Longrightarrow> u16_bytes (bytes_u16 bs) = take 2 bs"
proof -
  assume "length bs \<ge> 2"
  then obtain a b r where bs: "bs = a # b # r" by (cases bs; cases "tl bs") auto
  have "ucast (drop_bit 8 (bytes_u16 bs)) = a" "ucast (bytes_u16 bs) = b"
    by (rule bit_word_eqI, auto simp: bs bytes_u16_def bit_simps dest: bit_imp_le_length)+
  then show ?thesis by (simp add: bs u16_bytes_def)
qed

lemma bytes_u16_take: "2 \<le> n \<Longrightarrow> 2 \<le> length bs \<Longrightarrow> bytes_u16 (take n bs) = bytes_u16 bs"
  by (simp add: bytes_u16_def)

text \<open>The state of \<open>sb\<close> once a prefix has been read: as \<^const>\<open>gathered\<close>, but with any number of bytes.\<close>

lemma read_len_law:
  assumes ok: "stream_ok sb" and g: "gathered sb pend"
  shows "case stream_buf_read_len sb of None \<Rightarrow> False | Some (goes_on, sb') \<Rightarrow>
      stream_ok sb' \<and> sb_residual sb' = sb_residual sb \<and> sb_maxlen sb' = sb_maxlen sb
      \<and> (if goes_on then sb_error sb' = sb_error sb \<and> sb_residual_fully_formed sb' = sb_residual_fully_formed sb
           \<and> (if length pend < 2 then sb' = sb \<and> sb_len sb = -1
              else sb_len sb' = int (frame_len pend) \<and> 1 \<le> sb_len sb' \<and> sb_len sb' \<le> sb_maxlen sb
                \<and> b_offset (sb_buf sb') = b_offset (sb_buf_init sb') + 2 \<and> buf_content (sb_buf sb') = drop 2 pend
                \<and> int (length pend) \<le> 2 + sb_maxlen sb)
         else 2 \<le> length pend \<and> sb_error sb' \<and> \<not> sb_residual_fully_formed sb' \<and> gathered sb' []
           \<and> (frame_len pend < 1 \<or> int (frame_len pend) > sb_maxlen sb))"
proof (cases "sb_len sb < 0")
  case False
  then have l: "1 \<le> sb_len sb" "sb_len sb \<le> sb_maxlen sb" "sb_len sb < 2 ^ 16"
    "pend = u16_bytes (word_of_int (sb_len sb)) @ buf_content (sb_buf sb)"
    "b_offset (sb_buf sb) = b_offset (sb_buf_init sb) + 2" "b_len (sb_buf sb) \<le> sb_len sb"
    using g by (simp_all add: gathered_def)
  have "int (frame_len pend) = sb_len sb"
    using l(1,3) unfolding l(4) frame_len_def by (simp add: take_bit_int_eq_self unsigned_of_int)
  moreover have "int (length (buf_content (sb_buf sb))) \<le> sb_maxlen sb"
    using ok l(2,6) by (simp add: stream_ok_def)
  ultimately show ?thesis using False ok l by (simp add: stream_buf_read_len_def)
next
  case True
  then have c: "pend = buf_content (sb_buf sb)" and off: "b_offset (sb_buf sb) = b_offset (sb_buf_init sb)"
    and max: "b_len (sb_buf sb) \<le> sb_maxlen sb" and l: "sb_len sb = -1"
    using g by (simp_all add: gathered_def)
  have bok: "buf_ok (sb_buf sb)" and ps: "sb_port_share_state sb = PS_DISABLED" using ok by (simp_all add: stream_ok_def)
  have len: "length pend = nat (b_len (sb_buf sb))" using bok by (simp add: c)
  show ?thesis
  proof (cases "b_len (sb_buf sb) \<ge> 2")
    case False
    then show ?thesis using ok len l by (simp add: stream_buf_read_len_def)
  next
    case True
    have "buf_content (sb_buf sb) = take 2 pend @ drop 2 pend" by (simp add: c)
    moreover have "2 = int (length (take 2 pend))" using True len by simp
    ultimately obtain b where r: "buf_read (sb_buf sb) 2 = (Some (take 2 pend), b)" "buf_ok b"
      "buf_content b = drop 2 pend" "b_offset b = b_offset (sb_buf sb) + 2" "b_capacity b = b_capacity (sb_buf sb)"
      using buf_read_prefix [OF bok] by (metis zero_less_numeral)
    have d: "b_data b = b_data (sb_buf sb)" using r(1) by (auto simp: buf_read_def buf_read_alloc_def split: if_splits option.splits)
    have n: "uint (bytes_u16 (take 2 pend)) = int (frame_len pend)"
      using True len by (simp add: frame_len_def bytes_u16_take)
    let ?sb = "sb\<lparr>sb_buf := b, sb_len := int (frame_len pend)\<rparr>"
    have ok': "stream_ok ?sb" using ok r(2,5) d by (simp add: stream_ok_def)
    have "stream_buf_read_len sb = (if int (frame_len pend) < 1 \<or> int (frame_len pend) > sb_maxlen sb
        then Some (False, (stream_buf_reset ?sb)\<lparr>sb_error := True\<rparr>) else Some (True, ?sb))"
      using True l ps by (simp add: stream_buf_read_len_def r(1) n PS_DISABLED_def PS_ENABLED_def)
    then show ?thesis using reset_law [OF ok'] ok' r(3,4) off True len max l
      by (auto simp: stream_buf_reset_def [of ?sb])
  qed
qed

lemma copy_excess_fits:
  assumes "buf_ok dest" and "buf_defined dest" and "buf_content dest = []" and "b_offset dest = 0"
    and "buf_ok src" and "0 \<le> n" and "n < b_len src" and "b_len src - n \<le> b_capacity dest"
  shows "\<exists>dest' src'. buf_copy_excess dest src n = (True, dest', src')"
proof -
  have def_: "buf_defined src" using assms(5-7) by (intro buf_ok_len_defined) auto
  then obtain b where b: "buf_advance src n = (True, b)"
    using buf_advance_iff [OF assms(5), of n] assms(6,7) by (cases "buf_advance src n") auto
  note b' = buf_advance_True [OF assms(5) b]
  have "b_len dest = 0" using length_buf_content [OF assms(1)] buf_ok_bounds(2) [OF assms(1)] assms(3) by simp
  then have "fst (buf_copy dest b)"
    using buf_write_iff [OF assms(1), of "buf_content b"] b'(3,5) assms
    by (simp add: buf_copy_def buf_forward_capacity_def buf_valid_def buf_defined_def)
  then show ?thesis using assms(6,7) b by (cases "buf_copy dest b") (simp add: buf_copy_excess_def Let_def)
qed

text \<open>\<open>same sb sb'\<close>: what \<^verbatim>\<open>stream_buf_added\<close> leaves alone as long as the packet is incomplete.\<close>

definition same :: "stream_buf \<Rightarrow> stream_buf \<Rightarrow> bool" where
  "same sb sb' \<longleftrightarrow> sb_residual sb' = sb_residual sb \<and> sb_error sb' = sb_error sb
     \<and> sb_residual_fully_formed sb' = sb_residual_fully_formed sb"

lemma added_short:
  assumes r: "stream_buf_read_len sb = Some (True, sb1)" and ok: "stream_ok sb1" and g: "gathered sb1 pend"
    and short: "0 < need sb1" "\<not> (sb_len sb1 > 0 \<and> b_len (sb_buf sb1) \<ge> sb_len sb1)"
  shows "\<exists>sb'. stream_buf_added sb 0 = Some (False, sb') \<and> stream_ok sb' \<and> sb_maxlen sb' = sb_maxlen sb1
    \<and> gathered sb' pend \<and> next_ok sb' \<and> same sb1 sb'"
proof -
  obtain sb' where s: "stream_buf_set_next sb1 = Some sb'" "sb' = sb1\<lparr>sb_next := sb_next sb'\<rparr>" "next_ok sb'"
    using set_next_law [OF ok g short(1)] by blast
  have "stream_buf_added sb 0 = Some (False, sb')" using r s(1) short(2) by (auto simp: stream_buf_added_def)
  moreover have "stream_ok sb'" "gathered sb' pend" "sb_maxlen sb' = sb_maxlen sb1" "same sb1 sb'"
    using ok g by (subst s(2); simp add: same_def)+
  ultimately show ?thesis using s(3) by blast
qed

lemma added_full:
  assumes r: "stream_buf_read_len sb = Some (True, sb1)" and ok: "stream_ok sb1"
    and full: "1 \<le> sb_len sb1" "sb_len sb1 \<le> b_len (sb_buf sb1)" "b_len (sb_buf sb1) - sb_len sb1 \<le> sb_maxlen sb1"
  shows "\<exists>sb'. stream_buf_added sb 0 = Some (True, sb') \<and> stream_ok sb' \<and> sb_maxlen sb' = sb_maxlen sb1
    \<and> sb_error sb' = sb_error sb1 \<and> buf_content (sb_buf sb') = take (nat (sb_len sb1)) (buf_content (sb_buf sb1))
    \<and> buf_content (sb_residual sb') = drop (nat (sb_len sb1)) (buf_content (sb_buf sb1))"
proof -
  have bufs: "buf_ok (sb_buf sb1)" "buf_ok (sb_residual sb1)" "buf_defined (sb_residual sb1)" "b_capacity (sb_residual sb1) = sb_maxlen sb1"
    "2 \<le> sb_maxlen sb1"
    using ok by (simp_all add: stream_ok_def)
  obtain res where i: "buf_init (sb_residual sb1) 0 = (True, res)" using residual_init [OF ok] by blast
  note i' = buf_init_True [OF bufs(2) i]
  show ?thesis
  proof (cases "b_len (sb_buf sb1) > sb_len sb1")
    case False
    then have "stream_buf_added sb 0 = Some (True, sb1\<lparr>sb_residual := res\<rparr>)"
      using r i full by (simp add: stream_buf_added_def)
    moreover have "stream_ok (sb1\<lparr>sb_residual := res\<rparr>)" using ok i' bufs by (simp add: stream_ok_def)
    ultimately show ?thesis using False full bufs(1) i'(2) by simp
  next
    case True
    obtain res' buf where c: "buf_copy_excess res (sb_buf sb1) (sb_len sb1) = (True, res', buf)"
      using copy_excess_fits [of res "sb_buf sb1" "sb_len sb1"] i' bufs full True by auto
    note c' = buf_copy_excess_True [OF i'(1) bufs(1) c]
    have "stream_buf_added sb 0 = Some (True, sb1\<lparr>sb_residual := res', sb_buf := buf\<rparr>)"
      using r i full c True by (simp add: stream_buf_added_def)
    moreover have "b_capacity res' = b_capacity res" "buf_defined res'" "b_data buf = b_data (sb_buf sb1)" "b_capacity buf = b_capacity (sb_buf sb1)"
      using c True full i'(6)
      by (auto simp: buf_copy_excess_def Let_def buf_copy_def buf_write_def buf_write_alloc_def buf_store_def buf_defined_def
          split: prod.splits if_splits option.splits bool.splits)
    then have "stream_ok (sb1\<lparr>sb_residual := res', sb_buf := buf\<rparr>)" using ok c' i' by (simp add: stream_ok_def)
    ultimately show ?thesis using c' i'(2) by simp
  qed
qed

definition incomplete :: "int \<Rightarrow> byte list \<Rightarrow> bool" where
  "incomplete maxlen pend \<longleftrightarrow> length pend < 2 \<or> 1 \<le> frame_len pend \<and> int (frame_len pend) \<le> maxlen \<and> length pend < 2 + frame_len pend"

definition malformed :: "int \<Rightarrow> byte list \<Rightarrow> bool" where
  "malformed maxlen pend \<longleftrightarrow> 2 \<le> length pend \<and> (frame_len pend < 1 \<or> int (frame_len pend) > maxlen)"

lemma stage_if:
  "(if malformed maxlen pend then A else if incomplete maxlen pend then B else C) =
   (if 2 \<le> length pend \<and> (frame_len pend < 1 \<or> int (frame_len pend) > maxlen) then A
    else if length pend < 2 \<or> length pend < 2 + frame_len pend then B else C)"
  by (auto simp: malformed_def incomplete_def)

lemma added_law:
  assumes ok: "stream_ok sb" and g: "gathered sb pend"
    and room: "length pend < 2 \<Longrightarrow> 0 < need sb"
  shows "\<exists>complete sb'. stream_buf_added sb 0 = Some (complete, sb') \<and> stream_ok sb' \<and> sb_maxlen sb' = sb_maxlen sb
    \<and> (if malformed (sb_maxlen sb) pend
       then \<not> complete \<and> sb_error sb' \<and> gathered sb' [] \<and> sb_residual sb' = sb_residual sb \<and> \<not> sb_residual_fully_formed sb'
       else if incomplete (sb_maxlen sb) pend
       then \<not> complete \<and> gathered sb' pend \<and> next_ok sb' \<and> same sb sb'
       else complete \<and> sb_error sb' = sb_error sb \<and> buf_content (sb_buf sb') = take (frame_len pend) (drop 2 pend)
         \<and> buf_content (sb_residual sb') = drop (2 + frame_len pend) pend)"
proof -
  note law = read_len_law [OF ok g]
  obtain goes_on sb1 where r: "stream_buf_read_len sb = Some (goes_on, sb1)" using law by (auto split: option.splits)
  note law = law [unfolded r, simplified]
  have ok1: "stream_ok sb1" using law by simp
  have len1: "length (buf_content (sb_buf sb1)) = nat (b_len (sb_buf sb1))" "0 \<le> b_len (sb_buf sb1)"
    using ok1 by (simp_all add: stream_ok_def)
  consider (bad) "\<not> goes_on" | (header) "goes_on" "length pend < 2"
    | (body) "goes_on" "2 \<le> length pend" "length pend < 2 + frame_len pend"
    | (full) "goes_on" "2 \<le> length pend" "2 + frame_len pend \<le> length pend" by linarith
  then show ?thesis
  proof cases
    case bad
    then show ?thesis using law r by (intro exI [of _ False] exI [of _ sb1]) (simp add: stream_buf_added_def stage_if)
  next
    case header
    then have "sb1 = sb" "sb_len sb = -1" using law by auto
    then show ?thesis using added_short [of sb sb pend] r ok g room header by (auto simp: stage_if)
  next
    case body
    have "length (drop 2 pend) = nat (b_len (sb_buf sb1))" using law body len1 by auto
    then have short: "b_len (sb_buf sb1) < sb_len sb1" using law body len1(2) by auto
    have "sb_len sb1 < 2 ^ 16" using law body unsigned_less [of "bytes_u16 pend"] by (simp add: frame_len_def)
    then have "gathered sb1 pend" using law body short u16_bytes_of_bytes [OF body(2)]
      by (auto simp: gathered_def frame_len_def)
    then show ?thesis using added_short [of sb sb1 pend] r ok1 short law body by (auto simp: need_def same_def stage_if)
  next
    case full
    have "length (drop 2 pend) = nat (b_len (sb_buf sb1))" using law full len1 by auto
    then have "sb_len sb1 \<le> b_len (sb_buf sb1)" "b_len (sb_buf sb1) - sb_len sb1 \<le> sb_maxlen sb1"
      using law full len1(2) by auto
    then show ?thesis using added_full [of sb sb1] r ok1 law full by (auto simp: add.commute stage_if)
  qed
qed

subsection \<open>Writing into the shared block\<close>

lemma share_block_fields [simp]:
  "sb_residual (share_block d sb) = sb_residual sb" "sb_maxlen (share_block d sb) = sb_maxlen sb"
  "sb_residual_fully_formed (share_block d sb) = sb_residual_fully_formed sb" "sb_len (share_block d sb) = sb_len sb"
  "sb_error (share_block d sb) = sb_error sb" "sb_buf (share_block d sb) = (sb_buf sb)\<lparr>b_data := d\<rparr>"
  by (simp_all add: share_block_def)

lemma share_law:
  assumes ok: "stream_ok sb" and w: "buf_write (sb_buf sb) bs (int (length bs)) = (True, buf)"
  defines "sb' \<equiv> share_block (b_data buf) (sb\<lparr>sb_buf := buf\<rparr>)"
  shows "stream_ok sb'" "sb_buf sb' = buf" "b_offset (sb_buf_init sb') = b_offset (sb_buf_init sb)"
    "buf_content buf = buf_content (sb_buf sb) @ bs" "b_offset buf = b_offset (sb_buf sb)" "b_len buf = b_len (sb_buf sb) + int (length bs)"
proof -
  have b: "buf_ok (sb_buf sb)" "b_capacity (sb_buf sb) = b_capacity (sb_buf_init sb)" using ok by (simp_all add: stream_ok_def)
  note w' = buf_write_True [OF b(1) w refl]
  show "sb_buf sb' = buf" by (simp add: sb'_def)
  have "buf_ok (sb_buf_init sb')"
    using ok w'(1,5,6) b(2) by (cases rule: buf_ok_cases [OF w'(1)]) (auto simp: sb'_def share_block_def stream_ok_def buf_defined_def intro!: buf_okI)
  then show "stream_ok sb'" using ok w' b(2) by (simp add: sb'_def share_block_def stream_ok_def buf_defined_def)
qed (use buf_write_True [of "sb_buf sb" bs "int (length bs)" buf] assms in \<open>simp_all add: share_block_def stream_ok_def\<close>)

definition scribble :: "byte list \<Rightarrow> stream_buf \<Rightarrow> stream_buf" where
  "scribble bs sb = share_block (map_option (\<lambda>d. mem_store 0 (take (length d) bs) d) (b_data (sb_buf_init sb))) sb"

lemma scribble_law:
  assumes "stream_ok sb" and "gathered sb []" and "sb_len sb = -1"
  shows "stream_ok (scribble bs sb)" "gathered (scribble bs sb) []"
proof -
  obtain d where d: "b_data (sb_buf_init sb) = Some d" "b_data (sb_buf sb) = Some d"
    using assms(1) by (auto simp: stream_ok_def buf_defined_def)
  have ok: "buf_ok (b\<lparr>b_data := Some (mem_store 0 (take (length d) bs) d)\<rparr>)" if "buf_ok b" "b_data b = Some d" for b
    using that by (cases rule: buf_ok_cases) (auto intro!: buf_okI)
  have "b_len (sb_buf sb) = 0" using assms buf_content_eq_Nil [of "sb_buf sb"] by (simp add: gathered_def stream_ok_def)
  then show "gathered (scribble bs sb) []" using assms by (simp add: gathered_def scribble_def share_block_def buf_content_empty)
  show "stream_ok (scribble bs sb)"
    using assms(1) ok [of "sb_buf sb"] ok [of "sb_buf_init sb"] d
    by (simp add: stream_ok_def scribble_def share_block_def buf_defined_def)
qed

subsection \<open>One pass of the event loop\<close>

definition at_rest :: "stream_buf \<Rightarrow> byte list \<Rightarrow> bool" where
  "at_rest sb pend \<longleftrightarrow> stream_ok sb \<and> \<not> sb_residual_fully_formed sb \<and> \<not> sb_error sb
     \<and> (if b_len (sb_residual sb) = 0 then gathered sb pend \<and> 0 < need sb \<and> incomplete (sb_maxlen sb) pend
        else gathered sb [] \<and> buf_content (sb_residual sb) = pend \<and> sb_len sb = -1)"

definition is_formed :: "stream_buf \<Rightarrow> byte list \<Rightarrow> bool" where
  "is_formed sb pend \<longleftrightarrow> stream_ok sb \<and> \<not> sb_error sb \<and> \<not> malformed (sb_maxlen sb) pend \<and> \<not> incomplete (sb_maxlen sb) pend
     \<and> buf_content (sb_buf sb) = take (frame_len pend) (drop 2 pend) \<and> buf_content (sb_residual sb) = drop (2 + frame_len pend) pend"

definition listening :: "stream_buf \<Rightarrow> byte list \<Rightarrow> bool" where
  "listening sb pend \<longleftrightarrow> stream_ok sb \<and> \<not> sb_residual_fully_formed sb \<and> next_ok sb \<and> b_len (sb_residual sb) = 0
     \<and> (if sb_error sb then gathered sb [] \<and> malformed (sb_maxlen sb) pend
        else gathered sb pend \<and> incomplete (sb_maxlen sb) pend)"

lemma setup_gathered:
  assumes ok: "stream_ok sb" "gathered sb pend" "0 < need sb" "\<not> sb_residual_fully_formed sb" "b_len (sb_residual sb) = 0"
    and inc: "if sb_error sb then pend = [] \<and> malformed (sb_maxlen sb) p else incomplete (sb_maxlen sb) pend \<and> p = pend"
  shows "\<exists>sb'. stream_buf_set_next sb = Some sb' \<and> listening sb' p \<and> sb_maxlen sb' = sb_maxlen sb"
proof -
  obtain sb' where s: "stream_buf_set_next sb = Some sb'" "sb' = sb\<lparr>sb_next := sb_next sb'\<rparr>" "next_ok sb'"
    using set_next_law [OF ok(1-3)] by blast
  have "stream_ok sb'" "gathered sb' pend" "sb_maxlen sb' = sb_maxlen sb" "\<not> sb_residual_fully_formed sb'"
    "b_len (sb_residual sb') = 0" "sb_error sb' = sb_error sb"
    using ok by (subst s(2); simp)+
  then show ?thesis using s(1,3) inc by (auto simp: listening_def split: if_splits)
qed

lemma gathered_unique: "gathered sb p \<Longrightarrow> gathered sb q \<Longrightarrow> p = q"
  by (auto simp: gathered_def split: if_splits)

lemma gathered_Nil: "stream_ok sb \<Longrightarrow> gathered sb [] \<Longrightarrow> sb_len sb = -1 \<and> 0 < need sb"
  using buf_content_eq_Nil [of "sb_buf sb"] by (auto simp: gathered_def need_def stream_ok_def u16_bytes_def split: if_splits)

lemma need_simps [simp]:
  "need (sb\<lparr>sb_residual_fully_formed := f\<rparr>) = need sb" "need (sb\<lparr>sb_next := x\<rparr>) = need sb"
  by (simp_all add: need_def)

lemma setup_law:
  assumes rest: "at_rest sb pend"
  shows "\<exists>ready sb'. stream_buf_read_setup_dowork \<lparr>ls_stream_buf = sb, ls_stream_reset = r\<rparr>
      = Some (ready, \<lparr>ls_stream_buf = sb', ls_stream_reset = r\<rparr>) \<and> sb_maxlen sb' = sb_maxlen sb
    \<and> sb_residual_fully_formed sb' = (\<not> ready) \<and> (if ready then listening sb' pend else is_formed sb' pend)"
proof (cases "b_len (sb_residual sb) = 0")
  case True
  then obtain sb' where "stream_buf_set_next sb = Some sb'" "listening sb' pend" "sb_maxlen sb' = sb_maxlen sb"
    using setup_gathered [of sb pend pend] rest by (auto simp: at_rest_def)
  then show ?thesis using True rest
    by (intro exI [of _ True] exI [of _ sb']) (auto simp: stream_buf_read_setup_dowork_def at_rest_def listening_def)
next
  case False
  have ok: "stream_ok sb" and flags: "\<not> sb_residual_fully_formed sb" "\<not> sb_error sb" and g: "gathered sb []" "sb_len sb = -1"
    and c: "buf_content (sb_residual sb) = pend"
    using rest False by (simp_all add: at_rest_def)
  have bufs: "buf_ok (sb_buf sb)" "buf_ok (sb_residual sb)" "buf_defined (sb_residual sb)" "b_capacity (sb_residual sb) = sb_maxlen sb"
    using ok by (simp_all add: stream_ok_def)
  have len: "int (length pend) = b_len (sb_residual sb)" "b_len (sb_residual sb) \<le> sb_maxlen sb"
    using bufs(2,4) buf_ok_bounds(2,3,4) [OF bufs(2)] length_buf_content [OF bufs(2)] unfolding c by linarith+
  have e: "b_len (sb_buf sb) = 0" "b_offset (sb_buf sb) = b_offset (sb_buf_init sb)"
    using g bufs(1) buf_content_eq_Nil [of "sb_buf sb"] by (simp_all add: gathered_def)
  have "fst (buf_write (sb_buf sb) pend (int (length pend)))"
    using buf_write_iff [OF bufs(1), of pend] stream_ok_defined [OF ok] ok len e
    by (simp add: buf_forward_capacity_def buf_valid_def buf_defined_def stream_ok_def)
  then obtain buf where w: "buf_write (sb_buf sb) pend (int (length pend)) = (True, buf)"
    by (cases "buf_write (sb_buf sb) pend (int (length pend))") auto
  note sh = share_law [OF ok w]
  obtain res where i: "buf_init (sb_residual sb) 0 = (True, res)" using residual_init [OF ok] by blast
  note i' = buf_init_True [OF bufs(2) i]
  let ?sb = "(share_block (b_data buf) (sb\<lparr>sb_buf := buf\<rparr>))\<lparr>sb_residual := res\<rparr>"
  have ok1: "stream_ok ?sb" using sh(1) i' bufs(4) by (simp add: stream_ok_def)
  have g1: "gathered ?sb pend" using sh(2-6) e g(2) len by (simp add: gathered_def buf_content_empty)
  have room: "0 < need ?sb" if "length pend < 2" using that ok sh(2,6) g(2) e by (simp add: need_def stream_ok_def)
  obtain formed sb1 where a: "stream_buf_added ?sb 0 = Some (formed, sb1)" "stream_ok sb1" "sb_maxlen sb1 = sb_maxlen sb"
    "if malformed (sb_maxlen sb) pend then \<not> formed \<and> sb_error sb1 \<and> gathered sb1 [] \<and> sb_residual sb1 = res
     else if incomplete (sb_maxlen sb) pend then \<not> formed \<and> gathered sb1 pend \<and> next_ok sb1 \<and> same ?sb sb1
     else formed \<and> \<not> sb_error sb1 \<and> buf_content (sb_buf sb1) = take (frame_len pend) (drop 2 pend)
         \<and> buf_content (sb_residual sb1) = drop (2 + frame_len pend) pend"
    using added_law [OF ok1 g1 room] flags(2) by (auto split: if_splits)
  let ?sb1 = "sb1\<lparr>sb_residual_fully_formed := formed\<rparr>"
  have run: "stream_buf_read_setup_dowork \<lparr>ls_stream_buf = sb, ls_stream_reset = r\<rparr> =
      (if formed then Some (False, \<lparr>ls_stream_buf = ?sb1, ls_stream_reset = r\<rparr>)
       else map_option (\<lambda>sb. (\<not> sb_residual_fully_formed sb, \<lparr>ls_stream_buf = sb, ls_stream_reset = r\<rparr>)) (stream_buf_set_next ?sb1))"
    using False flags w i a(1) bufs(2) len c
    by (simp add: stream_buf_read_setup_dowork_def buf_copy_def map_conv_bind_option comp_def)
  consider (full) "formed" "is_formed ?sb1 pend"
    | (bad) "\<not> formed" "malformed (sb_maxlen sb) pend" "sb_error sb1" "gathered sb1 []" "sb_residual sb1 = res"
    | (more) "\<not> formed" "incomplete (sb_maxlen sb) pend" "\<not> sb_error sb1" "gathered sb1 pend" "0 < need sb1" "sb_residual sb1 = res"
    using a(2-4) flags(2) by (cases "malformed (sb_maxlen sb) pend"; cases "incomplete (sb_maxlen sb) pend")
      (simp_all add: is_formed_def same_def next_ok_def)
  then show ?thesis
  proof cases
    case full
    then show ?thesis using run a(3) by (intro exI [of _ False] exI [of _ ?sb1]) simp
  next
    case bad
    then obtain sb' where "stream_buf_set_next ?sb1 = Some sb'" "listening sb' pend" "sb_maxlen sb' = sb_maxlen sb"
      using setup_gathered [of ?sb1 "[]" pend] a(2,3) i'(4) gathered_Nil [OF a(2)] by auto
    then show ?thesis using run bad(1) by (intro exI [of _ True] exI [of _ sb']) (auto simp: listening_def)
  next
    case more
    then obtain sb' where "stream_buf_set_next ?sb1 = Some sb'" "listening sb' pend" "sb_maxlen sb' = sb_maxlen sb"
      using setup_gathered [of ?sb1 pend pend] a(2,3) i'(4) by auto
    then show ?thesis using run more(1) by (intro exI [of _ True] exI [of _ sb']) (auto simp: listening_def)
  qed
qed

text \<open>What \<^verbatim>\<open>link_socket_read_tcp\<close> does with a packet that is complete.\<close>

lemma reset_formed:
  assumes "is_formed sb pend"
  shows "at_rest (stream_buf_reset sb) (drop (2 + frame_len pend) pend)"
proof -
  have ok: "stream_ok sb" "buf_ok (sb_residual sb)" "\<not> sb_error sb" and c: "buf_content (sb_residual sb) = drop (2 + frame_len pend) pend"
    using assms by (simp_all add: is_formed_def stream_ok_def)
  note res = reset_law [OF ok(1)]
  have fields: "sb_residual (stream_buf_reset sb) = sb_residual sb" "\<not> sb_error (stream_buf_reset sb)"
    "\<not> sb_residual_fully_formed (stream_buf_reset sb)"
    using ok(3) by (simp_all add: stream_buf_reset_def)
  have "b_len (sb_residual sb) = 0 \<Longrightarrow> drop (2 + frame_len pend) pend = []" unfolding c [symmetric] by (rule buf_content_empty)
  then show ?thesis using gathered_Nil [OF res] res c by (simp add: at_rest_def fields incomplete_def)
qed

lemma is_formed_len:
  assumes "is_formed sb pend"
  shows "b_len (sb_buf sb) = int (frame_len pend)" "1 \<le> frame_len pend" "2 + frame_len pend \<le> length pend"
    "int (frame_len pend) \<le> sb_maxlen sb" "buf_defined (sb_buf sb)"
proof -
  show n: "1 \<le> frame_len pend" "2 + frame_len pend \<le> length pend" "int (frame_len pend) \<le> sb_maxlen sb"
    using assms by (auto simp: is_formed_def malformed_def incomplete_def)
  have "buf_ok (sb_buf sb)" using assms by (simp add: is_formed_def stream_ok_def)
  moreover have "length (buf_content (sb_buf sb)) = frame_len pend" using assms n by (simp add: is_formed_def)
  ultimately show "b_len (sb_buf sb) = int (frame_len pend)"
    using buf_ok_bounds(2) [of "sb_buf sb"] length_buf_content [of "sb_buf sb"] by linarith
  show "buf_defined (sb_buf sb)" using assms stream_ok_defined by (simp add: is_formed_def)
qed

lemma read_formed:
  assumes "is_formed sb pend" and "sb_residual_fully_formed sb"
  shows "\<exists>buf'. link_socket_read_tcp rx \<lparr>ls_stream_buf = sb, ls_stream_reset = r\<rparr> buf
      = Some (int (frame_len pend), buf', \<lparr>ls_stream_buf = stream_buf_reset sb, ls_stream_reset = r\<rparr>)
    \<and> buf_content buf' = take (frame_len pend) (drop 2 pend)"
  using assms is_formed_len [OF assms(1)] by (simp add: link_socket_read_tcp_def stream_buf_get_final_def is_formed_def)

text \<open>\<^verbatim>\<open>recv\<close> followed by \<^verbatim>\<open>stream_buf_added\<close> appends the bytes received to those gathered.\<close>

lemma recv_added:
  assumes ok: "stream_ok sb" and nxt: "next_ok sb" and g: "gathered sb pend" and bs: "bs \<noteq> []" "int (length bs) \<le> need sb"
  shows "\<exists>sb'. stream_buf_added (share_block (b_data (buf_store (sb_next sb) (b_offset (sb_next sb)) bs)) sb) (int (length bs))
      = stream_buf_added sb' 0
    \<and> stream_ok sb' \<and> gathered sb' (pend @ bs) \<and> sb_maxlen sb' = sb_maxlen sb \<and> same sb sb'
    \<and> (length (pend @ bs) < 2 \<longrightarrow> 0 < need sb')"
proof -
  have b: "buf_ok (sb_buf sb)" "buf_defined (sb_buf sb)" using ok stream_ok_defined by (simp_all add: stream_ok_def)
  have "b_offset (sb_buf sb) + b_len (sb_buf sb) + need sb \<le> b_capacity (sb_buf sb)"
    using ok g by (auto simp: stream_ok_def gathered_def need_def split: if_splits)
  then have "fst (buf_write (sb_buf sb) bs (int (length bs)))"
    using buf_write_iff [OF b(1), of bs] b bs(2) by (simp add: buf_forward_capacity_def buf_valid_def buf_defined_def)
  then obtain buf where w: "buf_write (sb_buf sb) bs (int (length bs)) = (True, buf)"
    by (cases "buf_write (sb_buf sb) bs (int (length bs))") auto
  note sh = share_law [OF ok w]
  let ?sb = "share_block (b_data buf) (sb\<lparr>sb_buf := buf\<rparr>)"
  have buf: "buf = (buf_store (sb_buf sb) (b_offset (sb_buf sb) + b_len (sb_buf sb)) bs)\<lparr>b_len := b_len (sb_buf sb) + int (length bs)\<rparr>"
    using w b by (auto simp: buf_write_def buf_defs split: if_splits)
  have d: "b_data (buf_store (sb_next sb) (b_offset (sb_next sb)) bs) = b_data buf"
    using nxt by (simp add: next_ok_def buf buf_store_def)
  have "(sb_buf (share_block (b_data buf) sb))\<lparr>b_len := b_len (sb_buf sb) + int (length bs)\<rparr> = buf"
    by (simp add: buf buf_store_def)
  moreover have "(share_block (b_data buf) sb)\<lparr>sb_buf := buf\<rparr> = ?sb"
    by (cases sb) (simp add: share_block_def)
  ultimately have "stream_buf_added (share_block (b_data buf) sb) (int (length bs)) = stream_buf_added ?sb 0"
    using bs(1) by (simp add: stream_buf_added_def)
  moreover have "gathered ?sb (pend @ bs)"
    using g sh(2-6) bs(2) by (auto simp: gathered_def need_def split: if_splits)
  moreover have "0 < need ?sb" if "length (pend @ bs) < 2"
    using that g sh(2,6) ok b(1) length_buf_content [OF b(1)] by (auto simp: gathered_def need_def stream_ok_def split: if_splits)
  ultimately show ?thesis using sh(1) unfolding d by (intro exI [of _ ?sb]) (simp add: same_def)
qed

lemma listening_need: "listening sb pend \<Longrightarrow> 0 < need sb \<and> b_len (sb_next sb) = need sb \<and> buf_defined (sb_next sb)"
  using stream_ok_defined [of sb] by (auto simp: listening_def next_ok_def buf_defined_def)

text \<open>
  A read from the socket while the loop is listening: either the connection is given up because of a malformed
  length, or the packet is still incomplete, or a packet is returned.
\<close>

lemma read_received:
  assumes l: "listening sb pend" and bs: "bs \<noteq> []" "int (length bs) \<le> need sb"
  shows "\<exists>status buf' sb'. link_socket_read_tcp (Received bs) \<lparr>ls_stream_buf = sb, ls_stream_reset = r\<rparr> buf
      = Some (status, buf', \<lparr>ls_stream_buf = sb', ls_stream_reset = r\<rparr>)
    \<and> (if sb_error sb \<or> malformed (sb_maxlen sb) (pend @ bs) then sb_error sb' else sb_maxlen sb' = sb_maxlen sb \<and>
       (if incomplete (sb_maxlen sb) (pend @ bs) then status = 0 \<and> at_rest sb' (pend @ bs)
        else \<exists>sb1. is_formed sb1 (pend @ bs) \<and> sb' = stream_buf_reset sb1 \<and> sb_maxlen sb1 = sb_maxlen sb
          \<and> status = int (frame_len (pend @ bs)) \<and> buf_content buf' = take (frame_len (pend @ bs)) (drop 2 (pend @ bs))))"
proof -
  have l': "stream_ok sb" "next_ok sb" "\<not> sb_residual_fully_formed sb" "b_len (sb_residual sb) = 0" using l by (simp_all add: listening_def)
  define p where "p = (if sb_error sb then [] else pend)"
  have g: "gathered sb p" using l by (simp add: listening_def p_def)
  obtain sb0 where s0: "stream_buf_added (share_block (b_data (buf_store (sb_next sb) (b_offset (sb_next sb)) bs)) sb) (int (length bs))
      = stream_buf_added sb0 0" "stream_ok sb0" "gathered sb0 (p @ bs)" "sb_maxlen sb0 = sb_maxlen sb" "same sb sb0"
      "length (p @ bs) < 2 \<longrightarrow> 0 < need sb0"
    using recv_added [OF l'(1,2) g bs] by blast
  obtain complete sb1 where a: "stream_buf_added sb0 0 = Some (complete, sb1)" "stream_ok sb1" "sb_maxlen sb1 = sb_maxlen sb"
    "if malformed (sb_maxlen sb) (p @ bs)
       then \<not> complete \<and> sb_error sb1 \<and> gathered sb1 [] \<and> sb_residual sb1 = sb_residual sb \<and> \<not> sb_residual_fully_formed sb1
       else if incomplete (sb_maxlen sb) (p @ bs)
       then \<not> complete \<and> gathered sb1 (p @ bs) \<and> next_ok sb1 \<and> same sb sb1
       else complete \<and> sb_error sb1 = sb_error sb \<and> buf_content (sb_buf sb1) = take (frame_len (p @ bs)) (drop 2 (p @ bs))
         \<and> buf_content (sb_residual sb1) = drop (2 + frame_len (p @ bs)) (p @ bs)"
    using added_law [OF s0(2,3)] s0(4-6) unfolding same_def by auto
  have read: "link_socket_read_tcp (Received bs) \<lparr>ls_stream_buf = sb, ls_stream_reset = r\<rparr> buf =
      (if complete then Some (b_len (sb_buf sb1), sb_buf sb1, \<lparr>ls_stream_buf = stream_buf_reset sb1, ls_stream_reset = r\<rparr>)
       else Some (0, buf\<lparr>b_len := 0\<rparr>, \<lparr>ls_stream_buf = sb1, ls_stream_reset = r\<rparr>))"
    using l'(3) listening_need [OF l] bs(1) s0(1) a(1) stream_ok_defined [OF a(2)]
    by (simp add: link_socket_read_tcp_def stream_buf_get_next_def stream_buf_get_final_def)
  consider (err) "sb_error sb \<or> malformed (sb_maxlen sb) (pend @ bs)"
    | (more) "\<not> sb_error sb" "\<not> malformed (sb_maxlen sb) (pend @ bs)" "incomplete (sb_maxlen sb) (pend @ bs)"
    | (full) "\<not> sb_error sb" "\<not> malformed (sb_maxlen sb) (pend @ bs)" "\<not> incomplete (sb_maxlen sb) (pend @ bs)" by blast
  then show ?thesis
  proof cases
    case err
    then have "sb_error sb1" using a(4) by (auto simp: p_def same_def split: if_splits)
    then show ?thesis using err read by (auto simp: stream_buf_reset_def)
  next
    case more
    then have "\<not> complete" "at_rest sb1 (pend @ bs)" using a l'(3,4) by (auto simp: p_def same_def at_rest_def next_ok_def)
    then show ?thesis using more read a(3) by auto
  next
    case full
    then have f: "complete" "is_formed sb1 (pend @ bs)" using a by (auto simp: p_def is_formed_def)
    have "sb_maxlen (stream_buf_reset sb1) = sb_maxlen sb" using a(3) by (simp add: stream_buf_reset_def)
    then show ?thesis using full read a(3) f is_formed_len(1) [OF f(2)] by (auto simp: is_formed_def)
  qed
qed

subsection \<open>The event loop\<close>

text \<open>
  The part of the event loop that reads the link: \<^verbatim>\<open>stream_buf_read_setup\<close> when it waits for the socket, and
  \<^verbatim>\<open>read_incoming_link\<close> when the socket has data or a complete packet is left over. The network decides how many of
  the bytes that have arrived \<^verbatim>\<open>recv\<close> returns: at least one, and at most as many as fit. A packet is processed in
  place before the next read, so the block may hold anything then. Each element of the list is one pass: how much
  \<^verbatim>\<open>recv\<close> returns, and what the processing writes into the block.
\<close>

fun tcp_run :: "(nat \<times> byte list) list \<Rightarrow> byte list \<Rightarrow> link_socket \<Rightarrow> byte list list exec" where
  "tcp_run [] input sock = Some []"
| "tcp_run ((n, junk) # ps) input sock = (do {
     (ready, sock) \<leftarrow> stream_buf_read_setup_dowork sock;
     if ready \<and> input = [] then Some []
     else do {
       let k = (if ready then min (Suc n) (nat (b_len (sb_next (ls_stream_buf sock)))) else 0);
       (status, buf, sock) \<leftarrow> link_socket_read_tcp (Received (take k input)) sock clear_buf;
       if socket_connection_reset sock status False then Some []
       else do {
         r \<leftarrow> tcp_run ps (drop k input)
                (if status > 0 then sock\<lparr>ls_stream_buf := scribble junk (ls_stream_buf sock)\<rparr> else sock);
         Some ((if status > 0 then [buf_content buf] else []) @ r) } } })"

lemma deframe_malformed: "malformed maxlen pend \<Longrightarrow> fst (deframe maxlen (pend @ rest)) = []"
  by (subst deframe.simps) (auto simp: malformed_def frame_len_def bytes_u16_def nth_append)

lemma deframe_incomplete: "incomplete maxlen pend \<Longrightarrow> fst (deframe maxlen pend) = []"
  by (subst deframe.simps) (auto simp: incomplete_def frame_len_def)

lemma deframe_complete:
  assumes "\<not> malformed maxlen pend" and "\<not> incomplete maxlen pend"
  shows "fst (deframe maxlen (pend @ rest)) = take (frame_len pend) (drop 2 pend) # fst (deframe maxlen (drop (2 + frame_len pend) pend @ rest))"
proof -
  have n: "2 + frame_len pend \<le> length pend" "1 \<le> frame_len pend" "int (frame_len pend) \<le> maxlen"
    using assms by (auto simp: malformed_def incomplete_def)
  then have "bytes_u16 (pend @ rest) = bytes_u16 pend" by (auto simp: bytes_u16_def nth_append)
  then show ?thesis using n by (subst deframe.simps) (auto simp: frame_len_def Let_def split: prod.split)
qed

lemma scribble_fields [simp]:
  "sb_residual (scribble bs sb) = sb_residual sb" "sb_maxlen (scribble bs sb) = sb_maxlen sb" "sb_error (scribble bs sb) = sb_error sb"
  "sb_residual_fully_formed (scribble bs sb) = sb_residual_fully_formed sb" "sb_len (scribble bs sb) = sb_len sb"
  "need (scribble bs sb) = need sb"
  by (simp_all add: scribble_def need_def)

lemma reset_fields [simp]:
  "sb_maxlen (stream_buf_reset sb) = sb_maxlen sb" "sb_error (stream_buf_reset sb) = sb_error sb"
  by (simp_all add: stream_buf_reset_def)

lemma scribble_rest:
  assumes "is_formed sb pend"
  shows "at_rest (scribble junk (stream_buf_reset sb)) (drop (2 + frame_len pend) pend)"
proof -
  have res: "stream_ok (stream_buf_reset sb)" "gathered (stream_buf_reset sb) []" using assms reset_law by (auto simp: is_formed_def)
  note n = gathered_Nil [OF res]
  have "drop (2 + frame_len pend) pend = []" if "b_len (sb_residual (stream_buf_reset sb)) = 0"
    using reset_formed [OF assms] that gathered_unique [OF _ res(2), of "drop (2 + frame_len pend) pend"] by (simp add: at_rest_def)
  then show ?thesis using scribble_law [OF res conjunct1 [OF n], of junk] reset_formed [OF assms] n
    by (simp add: at_rest_def incomplete_def)
qed

lemma tcp_run_ready:
  assumes IH: "\<And>input sb pend. at_rest sb pend \<Longrightarrow> 2 * length input + length pend \<le> length ps
      \<Longrightarrow> tcp_run ps input \<lparr>ls_stream_buf = sb, ls_stream_reset = False\<rparr> = Some (fst (deframe (sb_maxlen sb) (pend @ input)))"
    and l: "listening sb1 pend" and bs: "bs \<noteq> []" "int (length bs) \<le> need sb1"
    and budget: "2 * length (bs @ rest) + length pend \<le> Suc (length ps)"
  shows "do {
      (status, buf, sock) \<leftarrow> link_socket_read_tcp (Received bs) \<lparr>ls_stream_buf = sb1, ls_stream_reset = False\<rparr> clear_buf;
      if socket_connection_reset sock status False then Some []
      else do {
        r \<leftarrow> tcp_run ps rest (if status > 0 then sock\<lparr>ls_stream_buf := scribble junk (ls_stream_buf sock)\<rparr> else sock);
        Some ((if status > 0 then [buf_content buf] else []) @ r) } }
    = Some (fst (deframe (sb_maxlen sb1) (pend @ bs @ rest)))"
proof -
  let ?M = "sb_maxlen sb1" and ?p = "pend @ bs"
  obtain status buf sb2 where rd: "link_socket_read_tcp (Received bs) \<lparr>ls_stream_buf = sb1, ls_stream_reset = False\<rparr> clear_buf
      = Some (status, buf, \<lparr>ls_stream_buf = sb2, ls_stream_reset = False\<rparr>)"
    and res: "if sb_error sb1 \<or> malformed ?M ?p then sb_error sb2 else sb_maxlen sb2 = ?M \<and>
       (if incomplete ?M ?p then status = 0 \<and> at_rest sb2 ?p
        else \<exists>sb1. is_formed sb1 ?p \<and> sb2 = stream_buf_reset sb1 \<and> sb_maxlen sb1 = ?M
          \<and> status = int (frame_len ?p) \<and> buf_content buf = take (frame_len ?p) (drop 2 ?p))"
    using read_received [OF l bs, of False clear_buf] by blast
  consider (err) "sb_error sb1 \<or> malformed ?M ?p"
    | (more) "\<not> sb_error sb1" "\<not> malformed ?M ?p" "incomplete ?M ?p"
    | (full) "\<not> sb_error sb1" "\<not> malformed ?M ?p" "\<not> incomplete ?M ?p" by blast
  then show ?thesis
  proof cases
    case err
    then have "fst (deframe ?M (pend @ bs @ rest)) = []"
      using deframe_malformed [of ?M pend "bs @ rest"] deframe_malformed [of ?M ?p rest] l by (auto simp: listening_def)
    then show ?thesis using rd res err by (simp add: socket_connection_reset_def)
  next
    case more
    then have "status = 0" "at_rest sb2 ?p" "sb_maxlen sb2 = ?M" "\<not> sb_error sb2" using res by (simp_all add: at_rest_def)
    then show ?thesis using IH [of sb2 ?p rest] budget bs(1) rd by (cases bs) (simp_all add: socket_connection_reset_def)
  next
    case full
    then obtain sb3 where f: "is_formed sb3 ?p" "sb2 = stream_buf_reset sb3" "sb_maxlen sb3 = ?M" "status = int (frame_len ?p)"
      "buf_content buf = take (frame_len ?p) (drop 2 ?p)" using res by auto
    note len = is_formed_len [OF f(1)]
    have M: "sb_maxlen sb2 = ?M" "\<not> sb_error sb2" using f(1-3) by (simp_all add: is_formed_def)
    have "2 * length rest + length (drop (2 + frame_len ?p) ?p) \<le> length ps" using budget len(2,3) by simp
    from IH [OF scribble_rest [OF f(1), of junk] this] show ?thesis
      using rd f(2,4,5) M len(2) deframe_complete [OF full(2,3), of rest] by (simp add: socket_connection_reset_def)
  qed
qed

lemma tcp_run_law:
  assumes "at_rest sb pend" and "2 * length input + length pend \<le> length ps"
  shows "tcp_run ps input \<lparr>ls_stream_buf = sb, ls_stream_reset = False\<rparr> = Some (fst (deframe (sb_maxlen sb) (pend @ input)))"
  using assms
proof (induction ps arbitrary: input sb pend)
  case Nil
  then show ?case by (simp add: deframe.simps)
next
  case (Cons p ps)
  obtain n junk where p: "p = (n, junk)" by fastforce
  obtain ready sb1 where s: "stream_buf_read_setup_dowork \<lparr>ls_stream_buf = sb, ls_stream_reset = False\<rparr>
      = Some (ready, \<lparr>ls_stream_buf = sb1, ls_stream_reset = False\<rparr>)" "sb_maxlen sb1 = sb_maxlen sb"
    "sb_residual_fully_formed sb1 = (\<not> ready)" "if ready then listening sb1 pend else is_formed sb1 pend"
    using setup_law [OF Cons.prems(1)] by blast
  show ?case
  proof (cases ready)
    case False
    then have f: "is_formed sb1 pend" "sb_residual_fully_formed sb1" using s(3,4) by simp_all
    note len = is_formed_len [OF f(1)]
    obtain buf where b: "link_socket_read_tcp (Received []) \<lparr>ls_stream_buf = sb1, ls_stream_reset = False\<rparr> clear_buf
        = Some (int (frame_len pend), buf, \<lparr>ls_stream_buf = stream_buf_reset sb1, ls_stream_reset = False\<rparr>)"
      "buf_content buf = take (frame_len pend) (drop 2 pend)"
      using read_formed [OF f, of "Received []"] by blast
    have "2 * length input + length (drop (2 + frame_len pend) pend) \<le> length ps" using Cons.prems(2) len(2,3) by simp
    from Cons.IH [OF scribble_rest [OF f(1)] this, of junk] show ?thesis
      using s(1,2) b False len(2) deframe_complete [of "sb_maxlen sb" pend input] f(1)
      by (simp add: p socket_connection_reset_def is_formed_def)
  next
    case True
    then have l: "listening sb1 pend" using s(4) by simp
    show ?thesis
    proof (cases "input = []")
      case True
      have "fst (deframe (sb_maxlen sb) pend) = []"
        using l s(2) deframe_malformed [of "sb_maxlen sb" pend "[]"] deframe_incomplete [of "sb_maxlen sb" pend]
        by (auto simp: listening_def split: if_splits)
      then show ?thesis using s(1) True \<open>ready\<close> by (simp add: p)
    next
      case False
      define bs where "bs = take (min (Suc n) (nat (b_len (sb_next sb1)))) input"
      define rest where "rest = drop (min (Suc n) (nat (b_len (sb_next sb1)))) input"
      have bs: "bs \<noteq> []" "int (length bs) \<le> need sb1" "bs @ rest = input"
        using listening_need [OF l] False by (auto simp: bs_def rest_def)
      have "2 * length (bs @ rest) + length pend \<le> Suc (length ps)" using Cons.prems(2) bs(3) by simp
      from tcp_run_ready [OF Cons.IH l bs(1,2) this, of junk] show ?thesis
        using s(1,2) \<open>ready\<close> False bs(3) by (simp add: p bs_def rest_def cong: if_cong)
    qed
  qed
qed

subsection \<open>Properties\<close>

lemma socket_frame_init_law:
  assumes "frame_ok f" and "PAYLOAD_ALIGN < extra_buffer f"
  shows "\<exists>sb. socket_frame_init f False = Some \<lparr>ls_stream_buf = sb, ls_stream_reset = False\<rparr>
    \<and> at_rest sb [] \<and> sb_maxlen sb = MAX_RW_SIZE_LINK f"
proof -
  let ?m = "FRAME_HEADROOM_MARKER_READ_STREAM"
  obtain buf where b: "alloc_buf_sock_tun f False ?m = Some buf" "buf_ok buf" "b_offset buf = frame_headroom f ?m"
    "b_len buf = MAX_RW_SIZE_LINK f" "b_capacity buf = BUF_SIZE f"
    using alloc_sock_tun_law [OF assms(1), of False ?m] by auto
  have M: "2 \<le> b_len buf" "b_offset buf + 2 + b_len buf \<le> b_capacity buf" "b_len buf < BUF_SIZE_MAX"
    using assms frame_headroom_bounds [of f ?m] b(3-5) by (auto simp: frame_ok_def frame_defs)
  have d: "buf_defined buf" using b(2) M(1) by (intro buf_ok_len_defined) auto
  obtain res where r: "alloc_buf (b_len buf) = Some res" using M by (simp add: alloc_buf_def BUF_SIZE_MAX_def)
  note r' = alloc_buf_ok [OF r]
  let ?sb = "stream_buf_reset \<lparr>sb_buf_init = buf\<lparr>b_len := 0\<rparr>, sb_residual = res, sb_maxlen = b_len buf, sb_residual_fully_formed = False,
        sb_buf = clear_buf, sb_next = clear_buf, sb_len = -1, sb_error = False, sb_port_share_state = PS_DISABLED\<rparr>"
  have "stream_ok ?sb" using M r' b(2) d
    by (simp add: stream_ok_def stream_buf_reset_def buf_defined_def BUF_SIZE_MAX_def)
  moreover have "gathered ?sb []" using M by (simp add: gathered_def stream_buf_reset_def buf_content_empty)
  ultimately have "at_rest ?sb []"
    using gathered_Nil [of ?sb] r'(6) M by (simp add: at_rest_def incomplete_def stream_buf_reset_def BUF_SIZE_MAX_def)
  then show ?thesis using b(1,4) r by (auto simp: socket_frame_init_def stream_buf_init_def)
qed


text \<open>The sender: packets are written one after the other.\<close>

fun tcp_send :: "link_socket \<Rightarrow> buffer list \<Rightarrow> byte list exec" where
  "tcp_send sock [] = Some []"
| "tcp_send sock (buf # bufs) = (do {
     (wire, buf) \<leftarrow> link_socket_write_tcp sock buf;
     rest \<leftarrow> tcp_send sock bufs;
     Some (wire @ rest) })"

definition sendable :: "int \<Rightarrow> buffer \<Rightarrow> bool" where
  "sendable maxlen buf \<longleftrightarrow> buf_ok buf \<and> 1 \<le> b_len buf \<and> b_len buf \<le> maxlen \<and> b_len buf < 2 ^ 16 \<and> 2 \<le> b_offset buf"

lemma write_tcp_law:
  assumes "sendable (sb_maxlen (ls_stream_buf sock)) buf"
  shows "\<exists>buf'. link_socket_write_tcp sock buf = Some (u16_bytes (word_of_int (b_len buf)) @ buf_content buf, buf')"
proof -
  let ?w = "word_of_int (b_len buf) :: u16"
  have ok: "buf_ok buf" "1 \<le> b_len buf" "b_len buf < 2 ^ 16" "2 \<le> b_offset buf" "b_len buf \<le> sb_maxlen (ls_stream_buf sock)"
    using assms by (simp_all add: sendable_def)
  have u: "uint ?w = b_len buf" using ok(2,3) by (simp add: take_bit_int_eq_self unsigned_of_int)
  have "fst (buf_write_prepend buf (u16_bytes ?w) 2)"
    using buf_write_prepend_iff [OF ok(1), of "u16_bytes ?w"] ok buf_ok_len_defined [OF ok(1)] by simp
  then obtain buf' where w: "buf_write_prepend buf (u16_bytes ?w) 2 = (True, buf')"
    by (cases "buf_write_prepend buf (u16_bytes ?w) 2") auto
  have "buf_content buf' = u16_bytes ?w @ buf_content buf" using buf_write_prepend_True(2) [OF ok(1) w] by simp
  then show ?thesis using w u ok by (simp add: link_socket_write_tcp_def)
qed

lemma send_deframe:
  assumes "list_all (sendable (sb_maxlen (ls_stream_buf sock))) bufs"
  shows "\<exists>wire. tcp_send sock bufs = Some wire \<and> fst (deframe (sb_maxlen (ls_stream_buf sock)) wire) = map buf_content bufs"
  using assms
proof (induction bufs)
  case (Cons buf bufs)
  let ?M = "sb_maxlen (ls_stream_buf sock)"
  obtain wire where wire: "tcp_send sock bufs = Some wire" "fst (deframe ?M wire) = map buf_content bufs" using Cons by auto
  have s: "sendable ?M buf" using Cons.prems by simp
  obtain buf' where w: "link_socket_write_tcp sock buf = Some (u16_bytes (word_of_int (b_len buf)) @ buf_content buf, buf')"
    using write_tcp_law [OF s] by blast
  let ?p = "u16_bytes (word_of_int (b_len buf)) @ buf_content buf"
  have len: "buf_ok buf" "1 \<le> b_len buf" "b_len buf \<le> ?M" "b_len buf < 2 ^ 16" using s by (simp_all add: sendable_def)
  have n: "frame_len ?p = nat (b_len buf)" using len(2,4) by (simp add: frame_len_def unsigned_of_int take_bit_int_eq_self)
  have "\<not> malformed ?M ?p" "\<not> incomplete ?M ?p" using len by (auto simp: malformed_def incomplete_def n)
  from deframe_complete [OF this, of wire] show ?case using wire w len(1) n by simp
qed (simp add: deframe.simps)

text \<open>
  C11: Packets written to a TCP connection arrive: the two-byte lengths put in front of them let the peer recover exactly
  these packets in this order, however the network cuts the stream.
\<close>

theorem tcp_framing_roundtrip:
  assumes "frame_ok f" and "PAYLOAD_ALIGN < extra_buffer f" and "list_all (sendable (MAX_RW_SIZE_LINK f)) bufs"
  shows "\<exists>sock wire. socket_frame_init f False = Some sock \<and> tcp_send sock bufs = Some wire
    \<and> (\<forall>ps. 2 * length wire \<le> length ps \<longrightarrow> tcp_run ps wire sock = Some (map buf_content bufs))"
proof -
  obtain sb where sb: "socket_frame_init f False = Some \<lparr>ls_stream_buf = sb, ls_stream_reset = False\<rparr>"
    "at_rest sb []" "sb_maxlen sb = MAX_RW_SIZE_LINK f"
    using socket_frame_init_law [OF assms(1,2)] by blast
  obtain wire where wire: "tcp_send \<lparr>ls_stream_buf = sb, ls_stream_reset = False\<rparr> bufs = Some wire"
    "fst (deframe (sb_maxlen sb) wire) = map buf_content bufs"
    using send_deframe [of "\<lparr>ls_stream_buf = sb, ls_stream_reset = False\<rparr>" bufs] assms(3) sb(3) by auto
  then show ?thesis using sb(1) tcp_run_law [OF sb(2), of wire] by auto
qed

text \<open>A stream of two packets, the second one cut short.\<close>

definition demo_stream_frame :: frame where
  "demo_stream_frame = demo_frame\<lparr>extra_buffer := 8\<rparr>"

lemma demo_stream_frame_ok: "frame_ok demo_stream_frame"
  by (simp add: demo_stream_frame_def frame_ok_def frame_defs demo_frame_def BUF_SIZE_MAX_def)


definition demo_packet :: buffer where
  "demo_packet = \<lparr>b_capacity = 6, b_offset = 3, b_len = 2, b_data = Some [0, 0, 0, 7, 8, 0]\<rparr>"

theorem tcp_framing_roundtrip_witness:
  "\<exists>sock wire. socket_frame_init demo_stream_frame False = Some sock \<and> tcp_send sock [demo_packet, demo_packet] = Some wire
    \<and> tcp_run (replicate (2 * length wire) (0, [])) wire sock = Some [[7, 8], [7, 8]]"
proof -
  have "list_all (sendable (MAX_RW_SIZE_LINK demo_stream_frame)) [demo_packet, demo_packet]"
    by (simp add: sendable_def demo_packet_def buf_ok_def BUF_SIZE_MAX_def demo_stream_frame_def demo_frame_def frame_defs)
  moreover have "buf_content demo_packet = [7, 8]" by (simp add: demo_packet_def buf_content_def buf_defs mem_load_def)
  ultimately show ?thesis
    using tcp_framing_roundtrip [OF demo_stream_frame_ok, of "[demo_packet, demo_packet]"]
    by (force simp: demo_stream_frame_def PAYLOAD_ALIGN_def)
qed

end
