(* ===== verification/Checksum.thy ===== *)
theory Checksum
  imports Buffer
begin

section \<open>Internet checksums and packet headers (proto.h, proto.c)\<close>

text \<open>
  Packets of the tunnel are examined and sometimes changed in place. A header field wider than a byte is read in
  the byte order of the machine, which is little-endian on the targets of the build; \<^verbatim>\<open>htons\<close> and \<^verbatim>\<open>ntohs\<close> swap the
  bytes. The checksum of a packet is right when the sum of its 16-bit words is a multiple of 65535, whatever the byte
  order in which the words are read.
\<close>

subsection \<open>Fields\<close>

definition get16 :: "byte list \<Rightarrow> nat \<Rightarrow> u16" where
  "get16 p i = ucast (p ! i) OR push_bit 8 (ucast (p ! Suc i))"

definition put16 :: "nat \<Rightarrow> u16 \<Rightarrow> byte list \<Rightarrow> byte list" where
  "put16 i w p = p[i := ucast w, Suc i := ucast (drop_bit 8 w)]"

definition get32 :: "byte list \<Rightarrow> nat \<Rightarrow> u32" where
  "get32 p i = ucast (get16 p i) OR push_bit 16 (ucast (get16 p (i + 2)))"

definition put32 :: "nat \<Rightarrow> u32 \<Rightarrow> byte list \<Rightarrow> byte list" where
  "put32 i w p = put16 (i + 2) (ucast (drop_bit 16 w)) (put16 i (ucast w) p)"

definition htons :: "u16 \<Rightarrow> u16" where
  "htons w = push_bit 8 w OR drop_bit 8 w"

text \<open>A change of the bytes a buffer holds, in place.\<close>

definition buf_modify :: "(byte list \<Rightarrow> byte list) \<Rightarrow> buffer \<Rightarrow> buffer" where
  "buf_modify g buf = buf_store buf (b_offset buf) (g (buf_content buf))"

subsection \<open>Updating a checksum\<close>

text \<open>\<^verbatim>\<open>acc\<close> accumulates old words minus new words; the macro works on \<^verbatim>\<open>int\<close>.\<close>

definition ADJUST_CHECKSUM :: "int \<Rightarrow> u16 \<Rightarrow> u16" where
  "ADJUST_CHECKSUM acc cksum =
     (let a = acc + uint cksum
      in if a < 0 then
           let a = - a;
               a = drop_bit 16 a + (a AND 0xffff);
               a = a + drop_bit 16 a
           in word_of_int (NOT a)
         else
           let a = drop_bit 16 a + (a AND 0xffff);
               a = a + drop_bit 16 a
           in word_of_int a)"

definition ADD_CHECKSUM_32 :: "int \<Rightarrow> u32 \<Rightarrow> int" where
  "ADD_CHECKSUM_32 acc w = acc + uint (w AND 0xffff) + uint (drop_bit 16 w)"

definition SUB_CHECKSUM_32 :: "int \<Rightarrow> u32 \<Rightarrow> int" where
  "SUB_CHECKSUM_32 acc w = acc - uint (w AND 0xffff) - uint (drop_bit 16 w)"

subsection \<open>Computing a checksum\<close>

text \<open>
  The three loops of \<^verbatim>\<open>ip_checksum\<close> that add 16-bit words to \<^verbatim>\<open>sum\<close>, a 32-bit number that wraps; an odd byte at the end
  counts as the high byte of a word.
\<close>

fun checksum_words :: "u32 \<Rightarrow> byte list \<Rightarrow> u32" where
  "checksum_words s [] = s"
| "checksum_words s [a] = s + push_bit 8 (ucast a)"
| "checksum_words s (a # b # p) = checksum_words (s + (push_bit 8 (ucast a) + ucast b)) p"

text \<open>\<^verbatim>\<open>while (sum >> 16)\<close>\<close>

lemma uint_drop_16: "uint (drop_bit 16 s) = uint s div 65536" for s :: u32
  using uint_drop_bit_div [of 16 s] by simp

lemma fold_step: "uint ((s AND 0xffff) + drop_bit 16 s) = uint s mod 65536 + uint s div 65536" for s :: u32
proof -
  have "s AND 0xffff = take_bit 16 s" by (simp add: take_bit_eq_mask mask_eq_exp_minus_1)
  then have a: "uint (s AND 0xffff) = uint s mod 65536" by (simp only: unsigned_take_bit_eq) (simp add: take_bit_eq_mod)
  note b = uint_drop_16 [of s]
  have "uint s < 4294967296" using unsigned_less [of s] by simp
  then have "uint s div 65536 < 65536" "0 \<le> uint s div 65536" by (simp_all add: pos_imp_zdiv_nonneg_iff)
  then have "uint s mod 65536 + uint s div 65536 < 2 ^ LENGTH(32)" using pos_mod_bound [of 65536 "uint s"] by simp
  then show ?thesis unfolding uint_word_ariths a b by (intro mod_pos_pos_trivial) (simp_all add: pos_imp_zdiv_nonneg_iff)
qed

lemma drop_bit_16_zero: "drop_bit 16 s = 0 \<longleftrightarrow> uint s < 65536" for s :: u32
proof -
  have "drop_bit 16 s = 0 \<longleftrightarrow> uint s div 65536 = 0" unfolding word_uint_eq_iff uint_drop_16 by simp
  then show ?thesis using uint_ge_0 [of s] by (auto simp: zdiv_eq_0_iff)
qed

function checksum_fold :: "u32 \<Rightarrow> u32" where
  "checksum_fold s = (if drop_bit 16 s \<noteq> 0 then checksum_fold ((s AND 0xffff) + drop_bit 16 s) else s)"
  by auto
termination
proof (relation "measure (\<lambda>s. nat (uint s))")
  fix s :: u32 assume "drop_bit 16 s \<noteq> 0"
  then have "65536 \<le> uint s" by (simp add: drop_bit_16_zero)
  moreover have "uint s = 65536 * (uint s div 65536) + uint s mod 65536" by simp
  ultimately have "uint s mod 65536 + uint s div 65536 < uint s"
    using pos_imp_zdiv_pos_iff [of 65536 "uint s"] by linarith
  then have "nat (uint ((s AND 0xffff) + drop_bit 16 s)) < nat (uint s)"
    unfolding fold_step using \<open>65536 \<le> uint s\<close> by linarith
  then show "((s AND 0xffff) + drop_bit 16 s, s) \<in> measure (\<lambda>s. nat (uint s))" by (simp only: in_measure)
qed simp

declare checksum_fold.simps [simp del]

definition AF_INET :: int where "AF_INET = 2"
definition AF_INET6 :: int where "AF_INET6 = 10"

definition ip_checksum :: "int \<Rightarrow> byte list \<Rightarrow> byte list \<Rightarrow> byte list \<Rightarrow> int \<Rightarrow> u16" where
  "ip_checksum af payload src_addr dest_addr proto =
     (let addr_len = if af = AF_INET then 4 else 16;
          s = checksum_words 0 payload;
          s = checksum_words s (take addr_len src_addr);
          s = checksum_words s (take addr_len dest_addr);
          s = s + ucast (word_of_int (int (length payload)) :: u16);
          s = s + ucast (word_of_int proto :: u16)
      in NOT (ucast (checksum_fold s)))"

subsection \<open>Finding the IP header\<close>

definition DEV_TYPE_TUN :: int where "DEV_TYPE_TUN = 2"
definition DEV_TYPE_TAP :: int where "DEV_TYPE_TAP = 3"
definition OPENVPN_ETH_P_IPV4 :: u16 where "OPENVPN_ETH_P_IPV4 = 0x0800"
definition OPENVPN_ETH_P_IPV6 :: u16 where "OPENVPN_ETH_P_IPV6 = 0x86DD"

definition OPENVPN_IPH_GET_VER :: "byte \<Rightarrow> int" where
  "OPENVPN_IPH_GET_VER v = uint (drop_bit 4 v AND 0x0F)"

definition OPENVPN_IPH_GET_LEN :: "byte \<Rightarrow> int" where
  "OPENVPN_IPH_GET_LEN v = push_bit 2 (uint (v AND 0x0F))"

definition is_ipv_X :: "int \<Rightarrow> buffer \<Rightarrow> int \<Rightarrow> bool \<times> buffer" where
  "is_ipv_X tunnel_type buf ip_ver =
     (let p = buf_content buf;
          check = (\<lambda>offset. if OPENVPN_IPH_GET_VER (p ! offset) = ip_ver then buf_advance buf (int offset) else (False, buf))
      in if tunnel_type = DEV_TYPE_TUN then
           if buf_len buf < 20 then (False, buf) else check 0
         else if tunnel_type = DEV_TYPE_TAP then
           if buf_len buf < 34 then (False, buf)
           else if htons (get16 p 12) \<noteq> (if ip_ver = 6 then OPENVPN_ETH_P_IPV6 else OPENVPN_ETH_P_IPV4) then (False, buf)
           else check 14
         else (False, buf))"

definition is_ipv4 :: "int \<Rightarrow> buffer \<Rightarrow> bool \<times> buffer" where
  "is_ipv4 tunnel_type buf = is_ipv_X tunnel_type buf 4"

definition is_ipv6 :: "int \<Rightarrow> buffer \<Rightarrow> bool \<times> buffer" where
  "is_ipv6 tunnel_type buf = is_ipv_X tunnel_type buf 6"

definition get_tun_ip_ver :: "int \<Rightarrow> buffer \<Rightarrow> int \<times> int" where
  "get_tun_ip_ver tunnel_type buf =
     (if tunnel_type = DEV_TYPE_TUN then
        (if buf_len buf \<ge> 20 then OPENVPN_IPH_GET_VER (buf_content buf ! 0) else -1, 0)
      else if tunnel_type = DEV_TYPE_TAP then
        (if buf_len buf \<ge> 14 then
           let proto = htons (get16 (buf_content buf) 12)
           in if proto = OPENVPN_ETH_P_IPV6 then 6 else if proto = OPENVPN_ETH_P_IPV4 then 4 else -1
         else -1, 14)
      else (-1, 0))"

subsection \<open>Writing in place\<close>

lemma buf_modify_law:
  assumes "buf_ok buf" "length (g (buf_content buf)) = length (buf_content buf)"
  shows "buf_ok (buf_modify g buf)" "buf_content (buf_modify g buf) = g (buf_content buf)"
    "b_len (buf_modify g buf) = b_len buf" "b_offset (buf_modify g buf) = b_offset buf"
    "b_capacity (buf_modify g buf) = b_capacity buf"
proof -
  have "buf_ok (buf_modify g buf) \<and> buf_content (buf_modify g buf) = g (buf_content buf)"
    using assms(1)
  proof (cases rule: buf_ok_cases)
    case null
    then have "buf_content buf = []" "buf_modify g buf = buf" by (simp_all add: buf_content_null buf_modify_def buf_store_def)
    then show ?thesis using assms by simp
  next
    case (block d)
    let ?c = "g (buf_content buf)"
    have c: "length ?c = nat (b_len buf)" using assms by simp
    have fits: "nat (b_offset buf) + length ?c \<le> length d" using block unfolding c by linarith
    have eq: "buf_modify g buf = buf\<lparr>b_data := Some (mem_store (nat (b_offset buf)) ?c d)\<rparr>"
      by (simp add: buf_modify_def buf_store_def block(1))
    have ok: "buf_ok (buf_modify g buf)" unfolding eq using block fits by (intro buf_okI) simp_all
    moreover have "buf_content (buf_modify g buf) = mem_load (nat (b_offset buf)) (length ?c) (mem_store (nat (b_offset buf)) ?c d)"
      using buf_content_block [OF ok, of "mem_store (nat (b_offset buf)) ?c d"] unfolding eq c by simp
    ultimately show ?thesis using fits by (simp add: mem_load_store)
  qed
  then show "buf_ok (buf_modify g buf)" "buf_content (buf_modify g buf) = g (buf_content buf)" by simp_all
qed (simp_all add: buf_modify_def buf_store_def)

lemma buf_modify_id:
  assumes "buf_ok buf"
  shows "buf_modify (\<lambda>c. c) buf = buf"
  using assms
proof (cases rule: buf_ok_cases)
  case null
  then show ?thesis by (simp add: buf_modify_def buf_store_def)
next
  case (block d)
  then have "mem_store (nat (b_offset buf)) (buf_content buf) d = d"
    unfolding buf_content_block [OF assms block(1)]
    by (simp add: mem_store_def mem_load_def) (metis add.commute append_take_drop_id drop_drop le_add1 min_def nat_add_distrib take_all)
  then show ?thesis using block by (simp add: buf_modify_def buf_store_def)
qed

text \<open>A copy of the buffer, advanced past a header, shares the block: a change made through it is seen behind the header.\<close>

lemma buf_modify_behind:
  assumes ok: "buf_ok buf" and n: "0 \<le> n" "n \<le> b_len buf"
    and g: "length (g (drop (nat n) (buf_content buf))) = length (drop (nat n) (buf_content buf))"
  defines "nb \<equiv> buf\<lparr>b_offset := b_offset buf + n, b_len := b_len buf - n\<rparr>"
  defines "buf' \<equiv> buf\<lparr>b_data := b_data (buf_modify g nb)\<rparr>"
  shows "buf_ok nb" "buf_content nb = drop (nat n) (buf_content buf)" "buf_ok buf'"
    "buf_content buf' = take (nat n) (buf_content buf) @ g (drop (nat n) (buf_content buf))"
proof -
  have "buf_ok nb \<and> buf_content nb = drop (nat n) (buf_content buf) \<and> buf_ok buf' \<and>
    buf_content buf' = take (nat n) (buf_content buf) @ g (drop (nat n) (buf_content buf))"
    using ok
  proof (cases rule: buf_ok_cases)
    case null
    then have z: "n = 0" "nb = buf" using n by (simp_all add: nb_def)
    have c: "buf_content buf = []" using null by (simp add: buf_content_null)
    have "buf' = buf" using null by (simp add: buf'_def z buf_modify_def buf_store_def)
    then show ?thesis using ok g c by (simp add: z)
  next
    case (block d)
    let ?o = "nat (b_offset buf)" and ?c = "g (drop (nat n) (buf_content buf))"
    have ok': "buf_ok nb" unfolding nb_def using block n by (intro buf_okI) simp_all
    have off: "nat (b_offset buf + n) = ?o + nat n" using block n by (simp add: nat_add_distrib)
    have len: "nat (b_len buf - n) = nat (b_len buf) - nat n" using n by (simp add: nat_diff_distrib)
    have cnb: "buf_content nb = drop (nat n) (buf_content buf)"
      using buf_content_block [OF ok', of d] n unfolding nb_def
      by (simp add: block(1) buf_content_block [OF ok block(1)] drop_mem_load off len nat_mono)
    have lc: "nat n + length ?c = nat (b_len buf)" using g ok n by simp
    have fits: "?o + nat n + length ?c \<le> length d" using block lc by linarith
    have eq: "buf' = buf\<lparr>b_data := Some (mem_store (?o + nat n) ?c d)\<rparr>"
      using cnb block(1) by (simp add: buf'_def buf_modify_def buf_store_def) (simp add: nb_def off)
    have ok'': "buf_ok buf'" unfolding eq using block fits by (intro buf_okI) simp_all
    have "buf_content buf' = mem_load ?o (nat n + length ?c) (mem_store (?o + nat n) ?c d)"
      using buf_content_block [OF ok'', of "mem_store (?o + nat n) ?c d"] unfolding eq lc by simp
    also have "\<dots> = mem_load ?o (nat n) d @ ?c" using fits by (intro mem_load_store_append) simp_all
    finally have "buf_content buf' = take (nat n) (buf_content buf) @ ?c"
      using n by (simp add: buf_content_block [OF ok block(1)] take_mem_load nat_mono)
    with ok' cnb ok'' show ?thesis by simp
  qed
  then show "buf_ok nb" "buf_content nb = drop (nat n) (buf_content buf)" "buf_ok buf'"
    "buf_content buf' = take (nat n) (buf_content buf) @ g (drop (nat n) (buf_content buf))" by simp_all
qed

lemma buf_modify_comp:
  assumes "buf_ok buf" "length (f (buf_content buf)) = length (buf_content buf)"
    "length (g (f (buf_content buf))) = length (buf_content buf)"
  shows "buf_modify g (buf_modify f buf) = buf_modify (\<lambda>c. g (f c)) buf"
proof -
  note m = buf_modify_law [where g = f, OF assms(1,2)]
  have "buf_modify g (buf_modify f buf) = buf_store (buf_modify f buf) (b_offset buf) (g (f (buf_content buf)))"
    by (simp only: buf_modify_def [of g] m)
  also have "\<dots> = buf_modify (\<lambda>c. g (f c)) buf"
    using assms(1)
  proof (cases rule: buf_ok_cases)
    case (block d)
    then have "nat (b_offset buf) \<le> length d" by linarith
    then show ?thesis using block(1) assms(2,3) by (simp add: buf_modify_def buf_store_def mem_store_def add.commute min_absorb2)
  qed (simp add: buf_modify_def buf_store_def)
  finally show ?thesis .
qed

lemma buf_modify_rebase:
  assumes ok: "buf_ok buf" and n: "0 \<le> n" "n \<le> b_len buf"
    and g: "length (g (drop (nat n) (buf_content buf))) = length (drop (nat n) (buf_content buf))"
  shows "buf\<lparr>b_data := b_data (buf_modify g (buf\<lparr>b_offset := b_offset buf + n, b_len := b_len buf - n\<rparr>))\<rparr> =
    buf_modify (\<lambda>c. take (nat n) c @ g (drop (nat n) c)) buf"
  using ok
proof (cases rule: buf_ok_cases)
  case null
  then show ?thesis by (simp add: buf_modify_def buf_store_def)
next
  case (block d)
  let ?nb = "buf\<lparr>b_offset := b_offset buf + n, b_len := b_len buf - n\<rparr>" and ?o = "nat (b_offset buf)"
  note b = buf_modify_behind [where g = g, OF ok n g]
  have o: "nat (b_offset buf + n) = ?o + nat n" using block n by (simp add: nat_add_distrib)
  have t: "take (?o + nat n) d = take ?o d @ take (nat n) (buf_content buf)"
    using n by (simp add: buf_content_block [OF ok block(1)] take_mem_load nat_mono) (simp add: mem_load_def take_add)
  have l: "length (take (nat n) (buf_content buf)) = nat n" using ok n by (simp add: nat_mono min_absorb2)
  have "mem_store (?o + nat n) (g (drop (nat n) (buf_content buf))) d =
      mem_store ?o (take (nat n) (buf_content buf) @ g (drop (nat n) (buf_content buf))) d"
    using l by (simp add: mem_store_def t add.assoc)
  then show ?thesis using block(1) o b(2) by (simp add: buf_modify_def buf_store_def)
qed

lemma buf_modify_cong: "f (buf_content buf) = g (buf_content buf) \<Longrightarrow> buf_modify f buf = buf_modify g buf"
  by (simp add: buf_modify_def)

subsection \<open>Sums of words\<close>

text \<open>The sum of the words of a packet as the machine reads them.\<close>

fun wsum :: "byte list \<Rightarrow> int" where
  "wsum [] = 0"
| "wsum [a] = uint a"
| "wsum (a # b # p) = uint a + 256 * uint b + wsum p"

lemma wsum_update:
  "i < length p \<Longrightarrow> wsum (p[i := v]) = wsum p + (uint v - uint (p ! i)) * (if even i then 1 else 256)"
proof (induction p arbitrary: i rule: wsum.induct)
  case (3 a b p)
  then show ?case
  proof (cases i)
    case (Suc j)
    with 3 show ?thesis by (cases j) (auto simp: algebra_simps)
  qed simp
qed (auto simp: less_Suc_eq_0_disj)

lemma u16_split: "uint (w :: u16) = uint (ucast w :: byte) + 256 * uint (ucast (drop_bit 8 w) :: byte)"
proof -
  have "uint (ucast w :: byte) = uint w mod 256" by (simp add: unsigned_ucast_eq take_bit_eq_mod)
  moreover have "uint (ucast (drop_bit 8 w) :: byte) = uint w div 256"
  proof -
    have "uint (drop_bit 8 w) = uint w div 256" using uint_drop_bit_div [of 8 w] by simp
    moreover have "uint w < 65536" using uint_lt2p [of w] by simp
    then have "0 \<le> uint w div 256" "uint w div 256 < 256" by (simp_all add: pos_imp_zdiv_nonneg_iff)
    ultimately show ?thesis by (simp add: unsigned_ucast_eq take_bit_int_eq_self)
  qed
  ultimately show ?thesis by simp
qed

lemma uint_get16: "uint (get16 p i) = uint (p ! i) + 256 * uint (p ! Suc i)"
proof -
  have "ucast (get16 p i) = p ! i" "ucast (drop_bit 8 (get16 p i)) = p ! Suc i"
    by (rule bit_word_eqI, auto simp: get16_def bit_simps dest: bit_imp_le_length)+
  then show ?thesis using u16_split [of "get16 p i"] by simp
qed

lemma length_put16 [simp]: "length (put16 i w p) = length p"
  by (simp add: put16_def)

lemma wsum_put16:
  assumes "even i" and "Suc i < length p"
  shows "wsum (put16 i w p) = wsum p + uint w - uint (get16 p i)"
  using assms by (simp add: put16_def wsum_update uint_get16 u16_split [of w])

lemma get16_put16:
  assumes "Suc i < length p"
  shows "get16 (put16 i w p) i = w"
  using assms by (intro bit_word_eqI) (auto simp: get16_def put16_def bit_simps)

text \<open>The updated checksum is the old one plus \<^verbatim>\<open>acc\<close>, modulo 65535.\<close>

lemma fold_mod:
  assumes "0 \<le> a" and "a < 2 ^ 31"
  defines "b \<equiv> drop_bit 16 a + (a AND 0xffff :: int)"
  shows "(b + drop_bit 16 b) mod 65536 mod 65535 = a mod 65535"
    "(NOT (b + drop_bit 16 b)) mod 65536 mod 65535 = (- a) mod 65535"
proof -
  have and_: "a AND 0xffff = a mod 65536" using take_bit_eq_mask [of 16 a] by (simp add: take_bit_eq_mod mask_eq_exp_minus_1)
  have b: "b = a div 65536 + a mod 65536" by (simp add: b_def and_ drop_bit_eq_div)
  have "a div 65536 < 32768" "0 \<le> a div 65536" using assms by (simp_all add: pos_imp_zdiv_nonneg_iff)
  then have rb: "0 \<le> b" "b < 98304" unfolding b using pos_mod_bound [of 65536 a] pos_mod_sign [of 65536 a] by linarith+
  define q where "q = a div 65536"
  have "a = b + 65535 * q" unfolding b q_def by (simp add: algebra_simps)
  then have ab: "a mod 65535 = b mod 65535" "(- a) mod 65535 = (- b) mod 65535"
    using mod_mult_self2 [of b 65535 q] mod_mult_self2 [of "- b" 65535 "- q"] by (simp_all only: minus_add_distrib mult_minus_right)
  have "(b + drop_bit 16 b) mod 65536 mod 65535 = b mod 65535 \<and> (NOT (b + drop_bit 16 b)) mod 65536 mod 65535 = (- b) mod 65535"
  proof (cases "b < 65536")
    case True
    have d: "drop_bit 16 b = 0" using True rb by (simp add: drop_bit_eq_div)
    have "(- b - 1) mod 65536 = 65535 - b"
      using True rb int_mod_pos_eq [of "- b - 1" 65536 "-1" "65535 - b"] by linarith
    moreover have "(65535 - b) mod 65535 = (- b) mod 65535" using mod_mult_self2 [of "- b" 65535 1] by simp
    moreover have "b mod 65536 = b" using True rb(1) by (rule mod_pos_pos_trivial [rotated])
    ultimately show ?thesis unfolding d not_int_def by simp
  next
    case False
    have d: "drop_bit 16 b = 1" using False rb int_div_pos_eq [of b 65536 1 "b - 65536"] by (simp add: drop_bit_eq_div)
    have "(b + 1) mod 65536 = b - 65535" using False rb int_mod_pos_eq [of "b + 1" 65536 1 "b - 65535"] by linarith
    moreover have "(b - 65535) mod 65535 = b mod 65535" using mod_mult_self2 [of b 65535 "-1"] by simp
    moreover have "(- (b + 1) - 1) mod 65536 = 131070 - b"
      using False rb int_mod_pos_eq [of "- (b + 1) - 1" 65536 "-2" "131070 - b"] by linarith
    moreover have "(131070 - b) mod 65535 = (- b) mod 65535" using mod_mult_self2 [of "- b" 65535 2] by simp
    ultimately show ?thesis unfolding d not_int_def by simp
  qed
  then show "(b + drop_bit 16 b) mod 65536 mod 65535 = a mod 65535"
    "(NOT (b + drop_bit 16 b)) mod 65536 mod 65535 = (- a) mod 65535"
    unfolding ab by simp_all
qed

lemma ADJUST_CHECKSUM_mod:
  assumes "\<bar>acc + uint ck\<bar> < 2 ^ 31"
  shows "uint (ADJUST_CHECKSUM acc ck) mod 65535 = (acc + uint ck) mod 65535"
proof -
  have u: "uint (word_of_int x :: u16) = x mod 65536" for x by (simp add: unsigned_of_int take_bit_eq_mod)
  define a where "a = acc + uint ck"
  have "\<bar>a\<bar> < 2 ^ 31" using assms by (simp add: a_def)
  then show ?thesis unfolding ADJUST_CHECKSUM_def a_def [symmetric]
    using fold_mod(1) [of a] fold_mod(2) [of "- a"] by (simp add: Let_def u del: of_int_add)
qed

lemma ADJUST_CHECKSUM_small:
  assumes "- 1000000000 \<le> acc" "acc \<le> 1000000000"
  shows "uint (ADJUST_CHECKSUM acc ck) mod 65535 = (acc + uint ck) mod 65535"
proof (rule ADJUST_CHECKSUM_mod)
  have "0 \<le> uint ck" "uint ck < 65536" using uint_lt2p [of ck] by simp_all
  then have "acc + uint ck < 2147483648" "- (acc + uint ck) < 2147483648" using assms by linarith+
  then show "\<bar>acc + uint ck\<bar> < 2 ^ 31" by (simp add: abs_less_iff)
qed

subsection \<open>The checksum computed\<close>

text \<open>The sum of the words in network byte order.\<close>

fun bsum :: "byte list \<Rightarrow> int" where
  "bsum [] = 0"
| "bsum [a] = 256 * uint a"
| "bsum (a # b # p) = 256 * uint a + uint b + bsum p"

lemma bsum_range: "0 \<le> bsum p" "bsum p \<le> 65280 * int (length p)"
proof (induction p rule: bsum.induct)
  case (3 a b p)
  have r: "0 \<le> uint a" "uint a \<le> 255" "0 \<le> uint b" "uint b \<le> 255"
    using uint_lt2p [of a] uint_lt2p [of b] by simp_all
  { case 1 then show ?case using 3 r by simp }
  { case 2 then show ?case using 3 r by simp }
next
  case (2 a)
  have "uint a \<le> 255" using uint_lt2p [of a] by simp
  { case 1 then show ?case by simp }
  { case 2 then show ?case using \<open>uint a \<le> 255\<close> by simp }
qed simp_all

lemma bsum_update:
  "i < length p \<Longrightarrow> bsum (p[i := v]) = bsum p + (uint v - uint (p ! i)) * (if even i then 256 else 1)"
proof (induction p arbitrary: i rule: bsum.induct)
  case (3 a b p)
  then show ?case
  proof (cases i)
    case (Suc j)
    with 3 show ?thesis by (cases j) (auto simp: algebra_simps)
  qed simp
qed (auto simp: less_Suc_eq_0_disj)

lemma uint_add_small: "uint s + uint t < 2 ^ 32 \<Longrightarrow> uint (s + t) = uint s + uint t" for s t :: u32
  by (simp add: uint_word_ariths mod_pos_pos_trivial)

lemma word_of_bytes: "uint (push_bit 8 (ucast a) + ucast b :: u32) = 256 * uint a + uint b" for a b :: byte
proof -
  have r: "uint a \<le> 255" "uint b \<le> 255" using uint_lt2p [of a] uint_lt2p [of b] by simp_all
  have "uint (push_bit 8 (ucast a) :: u32) = 256 * uint a"
    using r by (simp add: push_bit_eq_mult uint_word_ariths unsigned_ucast_eq take_bit_int_eq_self mod_pos_pos_trivial)
  moreover have "uint (ucast b :: u32) = uint b" using r by (simp add: unsigned_ucast_eq take_bit_int_eq_self)
  ultimately show ?thesis using r by (subst uint_add_small) simp_all
qed

lemma checksum_words_bsum:
  "uint s + bsum p < 2 ^ 32 \<Longrightarrow> uint (checksum_words s p) = uint s + bsum p"
proof (induction s p rule: checksum_words.induct)
  case (2 s a)
  then show ?case using word_of_bytes [of a 0] by (simp add: uint_add_small)
next
  case (3 s a b p)
  have "uint (s + (push_bit 8 (ucast a) + ucast b)) = uint s + (256 * uint a + uint b)"
    using 3(2) bsum_range(1) [of p] word_of_bytes [of a b] by (subst uint_add_small) simp_all
  with 3 show ?case by simp
qed simp

lemma checksum_fold_mod:
  "uint (checksum_fold s) mod 65535 = uint s mod 65535 \<and> uint (checksum_fold s) < 65536 \<and> (0 < uint (checksum_fold s) \<longleftrightarrow> 0 < uint s)"
proof (induction s rule: checksum_fold.induct)
  case (1 s)
  show ?case
  proof (cases "drop_bit 16 s = 0")
    case True
    then show ?thesis by (subst checksum_fold.simps; subst checksum_fold.simps; subst checksum_fold.simps) (simp add: drop_bit_16_zero)
  next
    case False
    define t where "t = (s AND 0xffff) + drop_bit 16 s"
    have eq: "checksum_fold s = checksum_fold t" using False by (subst checksum_fold.simps) (simp add: t_def)
    have "uint s = uint t + 65535 * (uint s div 65536)" unfolding t_def fold_step by simp
    then have "uint s mod 65535 = uint t mod 65535" using mod_mult_self2 [of "uint t" 65535 "uint s div 65536"] by simp
    moreover have "0 < uint t" using False pos_imp_zdiv_pos_iff [of 65536 "uint s"] pos_mod_sign [of 65536 "uint s"]
      unfolding t_def fold_step drop_bit_16_zero by linarith
    moreover have "0 < uint s" using False unfolding drop_bit_16_zero by linarith
    ultimately show ?thesis using 1 [OF False] unfolding eq t_def by simp
  qed
qed

definition checksum_total :: "int \<Rightarrow> byte list \<Rightarrow> byte list \<Rightarrow> byte list \<Rightarrow> int \<Rightarrow> int" where
  "checksum_total af payload src dest proto =
     (let n = if af = AF_INET then 4 else 16
      in bsum payload + bsum (take n src) + bsum (take n dest) + int (length payload) mod 65536 + proto mod 65536)"

lemma uint_u32_of_u16: "uint (ucast (word_of_int x :: u16) :: u32) = x mod 65536"
  by (simp add: unsigned_ucast_eq unsigned_of_int take_bit_eq_mod)

lemma ip_checksum_total:
  fixes payload src_addr dest_addr :: "byte list" and af proto :: int
  assumes "length payload \<le> 65535"
  defines "S \<equiv> checksum_total af payload src_addr dest_addr proto"
  obtains F where "uint (ip_checksum af payload src_addr dest_addr proto) = 65535 - F"
    "0 \<le> F" "F < 65536" "F mod 65535 = S mod 65535" "0 < F \<longleftrightarrow> 0 < S" "0 \<le> S"
proof -
  define n :: nat where "n = (if af = AF_INET then 4 else 16)"
  define src where "src = take n src_addr"
  define dest where "dest = take n dest_addr"
  have small: "int (length payload) \<le> 65535" "int (length src) \<le> 16" "int (length dest) \<le> 16"
    using assms by (auto simp: src_def dest_def n_def)
  have b: "bsum payload \<le> 65280 * 65535" "bsum src \<le> 65280 * 16" "bsum dest \<le> 65280 * 16"
    "0 \<le> bsum payload" "0 \<le> bsum src" "0 \<le> bsum dest"
    using bsum_range [of payload] bsum_range [of src] bsum_range [of dest] small by linarith+
  have m: "0 \<le> x mod 65536" "x mod 65536 \<le> 65535" for x :: int using pos_mod_bound [of 65536 x] by simp_all
  define s1 where "s1 = checksum_words 0 payload"
  define s2 where "s2 = checksum_words s1 src"
  define s3 where "s3 = checksum_words s2 dest"
  define s4 where "s4 = s3 + ucast (word_of_int (int (length payload)) :: u16)"
  define s5 where "s5 = s4 + ucast (word_of_int proto :: u16)"
  have 1: "uint s1 = bsum payload" using b unfolding s1_def by (subst checksum_words_bsum) simp_all
  have 2: "uint s2 = bsum payload + bsum src" using b unfolding s2_def by (subst checksum_words_bsum) (simp_all add: 1)
  have 3: "uint s3 = bsum payload + bsum src + bsum dest"
    using b unfolding s3_def by (subst checksum_words_bsum) (simp_all add: 2)
  have 4: "uint s4 = bsum payload + bsum src + bsum dest + int (length payload) mod 65536"
    using b m(2) [of "int (length payload)"] unfolding s4_def by (subst uint_add_small) (simp_all add: 3 uint_u32_of_u16 del: of_int_of_nat_eq)
  have 5: "uint s5 = S" unfolding S_def checksum_total_def Let_def n_def [symmetric] src_def [symmetric] dest_def [symmetric]
    using b m(2) [of "int (length payload)"] m(2) [of proto] unfolding s5_def
    by (subst uint_add_small) (simp_all add: 4 uint_u32_of_u16)
  let ?F = "checksum_fold s5"
  have eq: "ip_checksum af payload src_addr dest_addr proto = NOT (ucast ?F)"
    by (simp add: ip_checksum_def Let_def n_def src_def dest_def s1_def s2_def s3_def s4_def s5_def)
  have F: "uint ?F mod 65535 = S mod 65535" "uint ?F < 65536" "0 < uint ?F \<longleftrightarrow> 0 < S"
    using checksum_fold_mod [of s5] by (simp_all add: 5)
  have "uint (ucast ?F :: u16) = uint ?F" using F(2) by (simp add: unsigned_ucast_eq take_bit_int_eq_self)
  then have "uint (NOT (ucast ?F :: u16)) = 65535 - uint ?F"
    by (simp add: unsigned_not_eq take_bit_not_eq_mask_diff mask_eq_exp_minus_1 take_bit_int_eq_self F(2))
  then show thesis using that [of "uint ?F"] F 5 uint_ge_0 [of s5] unfolding eq by simp
qed

lemma uint_htons_split:
  "uint (ucast (htons w) :: byte) = uint w div 256" "uint (ucast (drop_bit 8 (htons w)) :: byte) = uint w mod 256"
proof -
  have "ucast (htons w) = (ucast (drop_bit 8 w) :: byte)"
    by (rule bit_word_eqI) (auto simp: htons_def bit_simps)
  moreover have "ucast (drop_bit 8 (htons w)) = (ucast w :: byte)"
    by (rule bit_word_eqI) (auto simp: htons_def bit_simps dest: bit_imp_le_length)
  moreover have "uint (ucast (drop_bit 8 w) :: byte) = uint w div 256"
    using uint_lt2p [of w] uint_drop_bit_div [of 8 w] by (simp add: unsigned_ucast_eq take_bit_int_eq_self div_int_pos_iff)
  moreover have "uint (ucast w :: byte) = uint w mod 256" by (simp add: unsigned_ucast_eq take_bit_eq_mod)
  ultimately show "uint (ucast (htons w) :: byte) = uint w div 256" "uint (ucast (drop_bit 8 (htons w)) :: byte) = uint w mod 256"
    by simp_all
qed

lemma bsum_put16_htons:
  assumes "even k" "Suc k < length p"
  shows "bsum (put16 k (htons w) p) = bsum p + uint w - (256 * uint (p ! k) + uint (p ! Suc k))"
  using assms by (simp add: put16_def bsum_update uint_htons_split algebra_simps)

text \<open>A checksum verifies. Let the checksum field of a payload, at an even place, hold 0; compute the checksum and store it
there in network byte order. Computing the checksum again over the result gives 0, which is the receiver's test, for
payloads up to 65535 bytes: within this bound the 32-bit sum does not overflow.\<close>

lemma ip_checksum_verifies:
  assumes "length payload \<le> 65535" "even k" "Suc k < length payload" "get16 payload k = 0"
  shows "ip_checksum af (put16 k (htons (ip_checksum af payload src dest proto)) payload) src dest proto = 0"
proof -
  let ?c = "ip_checksum af payload src dest proto"
  let ?p = "put16 k (htons ?c) payload"
  obtain F where F: "uint ?c = 65535 - F" "0 \<le> F" "F < 65536"
    "F mod 65535 = checksum_total af payload src dest proto mod 65535"
    "0 < F \<longleftrightarrow> 0 < checksum_total af payload src dest proto" "0 \<le> checksum_total af payload src dest proto"
    using ip_checksum_total [OF assms(1)] by blast
  obtain G where G: "uint (ip_checksum af ?p src dest proto) = 65535 - G" "0 \<le> G" "G < 65536"
    "G mod 65535 = checksum_total af ?p src dest proto mod 65535" "0 < G \<longleftrightarrow> 0 < checksum_total af ?p src dest proto"
    using ip_checksum_total [of ?p] assms(1) by (simp add: length_put16) blast
  have "uint (payload ! k) + 256 * uint (payload ! Suc k) = 0" using uint_get16 [of payload k] assms(4) by simp
  then have z: "uint (payload ! k) = 0" "uint (payload ! Suc k) = 0"
    using uint_ge_0 [of "payload ! k"] uint_ge_0 [of "payload ! Suc k"] by linarith+
  have T: "checksum_total af ?p src dest proto = checksum_total af payload src dest proto + uint ?c"
    using assms(2,3) by (simp add: checksum_total_def Let_def bsum_put16_htons z length_put16)
  have "(checksum_total af payload src dest proto + (65535 - F)) mod 65535 = 0"
    using F(4) by (metis mod_0 add_diff_eq mod_add_self2 mod_diff_cong cancel_comm_monoid_add_class.diff_cancel add.commute)
  then have "G mod 65535 = 0" using G(4) unfolding T F(1) by simp
  moreover have "0 < checksum_total af ?p src dest proto" unfolding T F(1) using F(3,5,6) by linarith
  ultimately have "G = 65535" using G(2,3,5) by (auto simp: dvd_def mod_eq_0_iff_dvd)
  then show ?thesis using G(1) by (simp add: word_uint_eq_iff)
qed

lemma ip_checksum_addr_cong:
  "take 4 src = take 4 src' \<Longrightarrow> take 4 dest = take 4 dest' \<Longrightarrow>
   ip_checksum AF_INET payload src dest proto = ip_checksum AF_INET payload src' dest' proto"
  by (simp add: ip_checksum_def)

text \<open>C31: The loop \<^verbatim>\<open>while (sum >> 16)\<close> of \<^verbatim>\<open>ip_checksum\<close> ends: after at most two rounds the sum fits 16 bits, for
every 32-bit sum, so two additions give its result.\<close>

theorem checksum_fold_two_rounds:
  "checksum_fold s =
     (let r = (s AND 0xffff) + drop_bit 16 s; r' = (r AND 0xffff) + drop_bit 16 r in r') \<and>
   drop_bit 16 (checksum_fold s) = 0"
proof -
  define step :: "u32 \<Rightarrow> u32" where "step = (\<lambda>s. (s AND 0xffff) + drop_bit 16 s)"
  have u: "uint (step s) = uint s mod 65536 + uint s div 65536" for s unfolding step_def by (rule fold_step)
  have id: "step s = s" if "uint s < 65536" for s
    using that uint_ge_0 [of s] by (simp add: word_uint_eq_iff u)
  have small: "checksum_fold s = s" if "uint s < 65536" for s
    using that by (subst checksum_fold.simps) (simp add: drop_bit_16_zero)
  have unf: "checksum_fold s = checksum_fold (step s)" for s
  proof (cases "uint s < 65536")
    case True then show ?thesis by (simp add: id)
  next
    case False then show ?thesis by (subst checksum_fold.simps) (simp add: drop_bit_16_zero step_def)
  qed
  have "uint s < 4294967296" using unsigned_less [of s] by simp
  then have "uint (step s) \<le> 131070" using pos_mod_bound [of 65536 "uint s"] unfolding u by linarith
  then have lt: "uint (step (step s)) < 65536"
  proof (cases "uint (step s) < 65536")
    case False
    with \<open>uint (step s) \<le> 131070\<close> have "uint (step s) div 65536 = 1" by (intro int_div_pos_eq [where r = "uint (step s) - 65536"]) linarith+
    with False \<open>uint (step s) \<le> 131070\<close> minus_mult_div_eq_mod [of "uint (step s)" 65536] show ?thesis
      unfolding u [of "step s"] by linarith
  qed (simp add: id)
  have "checksum_fold s = step (step s)" using unf [of s] unf [of "step s"] small [OF lt] by simp
  with lt show ?thesis by (simp add: drop_bit_16_zero step_def Let_def)
qed

end
