(* ===== verification/Mss.thy ===== *)
theory Mss
  imports Checksum
begin

section \<open>Lowering the MSS of TCP connections (mss.c)\<close>

text \<open>
  A TCP endpoint announces the largest segment it takes in an option of its SYN packet. The tunnel lowers the value in
  passing, so that encapsulated segments fit the path, and updates the TCP checksum for the change instead of
  computing it again. The copy \<^verbatim>\<open>newbuf\<close> of \<^verbatim>\<open>*buf\<close> shares its block, so what \<^verbatim>\<open>mss_fixup_dowork\<close> writes is seen in
  \<^verbatim>\<open>buf\<close>.
\<close>

subsection \<open>The code\<close>

definition OPENVPN_IPPROTO_TCP :: byte where "OPENVPN_IPPROTO_TCP = 6"
definition OPENVPN_IP_OFFMASK :: u16 where "OPENVPN_IP_OFFMASK = 0x1fff"
definition OPENVPN_TCPH_SYN_MASK :: byte where "OPENVPN_TCPH_SYN_MASK = 2"
definition OPENVPN_TCPOPT_EOL :: byte where "OPENVPN_TCPOPT_EOL = 0"
definition OPENVPN_TCPOPT_NOP :: byte where "OPENVPN_TCPOPT_NOP = 1"
definition OPENVPN_TCPOPT_MAXSEG :: byte where "OPENVPN_TCPOPT_MAXSEG = 2"
definition OPENVPN_TCPOLEN_MAXSEG :: int where "OPENVPN_TCPOLEN_MAXSEG = 4"

definition OPENVPN_TCPH_GET_DOFF :: "byte \<Rightarrow> int" where
  "OPENVPN_TCPH_GET_DOFF d = drop_bit 2 (uint (d AND 0xF0))"

definition mss_at :: "byte list \<Rightarrow> nat \<Rightarrow> u16" where
  "mss_at p opt = push_bit 8 (ucast (p ! (opt + 2))) + ucast (p ! (opt + 3))"

text \<open>The body of the innermost \<^verbatim>\<open>if\<close>: the segment's checksum is at its bytes 16 and 17.\<close>

definition mss_fix :: "u16 \<Rightarrow> nat \<Rightarrow> byte list \<Rightarrow> byte list" where
  "mss_fix maxmss opt p =
     (let mssval = mss_at p opt
      in if mssval > maxmss then
           let accumulate = uint (htons mssval);
               p = p[opt + 2 := ucast (drop_bit 8 maxmss AND 0xff), opt + 3 := ucast (maxmss AND 0xff)];
               accumulate = accumulate - uint (htons maxmss)
           in put16 16 (ADJUST_CHECKSUM accumulate (get16 p 16)) p
         else p)"

lemma uint_pos: "0 < uint w \<longleftrightarrow> uint w \<noteq> 0"
  using uint_ge_0 [of w] by linarith

text \<open>The loop over the options: \<open>opt\<close> is the index of the current option and \<open>olen\<close> the number of bytes left.\<close>

function mss_options :: "u16 \<Rightarrow> nat \<Rightarrow> int \<Rightarrow> byte list \<Rightarrow> byte list" where
  "mss_options maxmss opt olen p =
     (if \<not> olen > 1 then p
      else if p ! opt = OPENVPN_TCPOPT_EOL then p
      else if p ! opt = OPENVPN_TCPOPT_NOP then mss_options maxmss (opt + 1) (olen - 1) p
      else let optlen = uint (p ! (opt + 1))
           in if optlen \<le> 0 \<or> optlen > olen then p
              else mss_options maxmss (opt + nat optlen) (olen - optlen)
                     (if p ! opt = OPENVPN_TCPOPT_MAXSEG \<and> optlen = OPENVPN_TCPOLEN_MAXSEG then mss_fix maxmss opt p else p))"
  by pat_completeness auto
termination by (relation "measure (\<lambda>(maxmss, opt, olen, p). nat olen)") (auto simp: uint_pos)

declare mss_options.simps [simp del]

definition mss_fixup_dowork :: "buffer \<Rightarrow> u16 \<Rightarrow> buffer" where
  "mss_fixup_dowork buf maxmss =
     (if buf_len buf < 20 then buf
      else let hlen = OPENVPN_TCPH_GET_DOFF (buf_content buf ! 12)
           in if hlen \<le> 20 \<or> hlen > buf_len buf then buf
              else buf_modify (mss_options maxmss 20 (hlen - 20)) buf)"

definition mss_fixup_ipv4 :: "buffer \<Rightarrow> int \<Rightarrow> buffer" where
  "mss_fixup_ipv4 buf maxmss =
     (if buf_len buf < 20 then buf
      else let pip = buf_content buf; hlen = OPENVPN_IPH_GET_LEN (pip ! 0)
           in if pip ! 9 = OPENVPN_IPPROTO_TCP
                \<and> uint (htons (get16 pip 2)) = buf_len buf
                \<and> htons (get16 pip 6) AND OPENVPN_IP_OFFMASK = 0
                \<and> hlen \<le> buf_len buf
                \<and> buf_len buf - hlen \<ge> 20
              then case buf_advance buf hlen of
                     (False, newbuf) \<Rightarrow> buf
                   | (True, newbuf) \<Rightarrow>
                       if buf_content newbuf ! 13 AND OPENVPN_TCPH_SYN_MASK \<noteq> 0
                       then buf\<lparr>b_data := b_data (mss_fixup_dowork newbuf (word_of_int maxmss))\<rparr>
                       else buf
              else buf)"

definition mss_fixup_ipv6 :: "buffer \<Rightarrow> int \<Rightarrow> buffer" where
  "mss_fixup_ipv6 buf maxmss =
     (if buf_len buf < 40 then buf
      else let pip6 = buf_content buf
           in if buf_len buf \<noteq> uint (htons (get16 pip6 4)) + 40 then buf
              else if pip6 ! 6 \<noteq> OPENVPN_IPPROTO_TCP then buf
              else case buf_advance buf 40 of
                     (False, newbuf) \<Rightarrow> buf
                   | (True, newbuf) \<Rightarrow>
                       if buf_len newbuf \<ge> 20 \<and> buf_content newbuf ! 13 AND OPENVPN_TCPH_SYN_MASK \<noteq> 0
                       then buf\<lparr>b_data := b_data (mss_fixup_dowork newbuf (word_of_int (uint (word_of_int maxmss :: u16) - 20)))\<rparr>
                       else buf)"

subsection \<open>The MSS options of a segment\<close>

text \<open>The indices of the MSS options of a segment, in the order of the walk.\<close>

function mss_offsets :: "nat \<Rightarrow> int \<Rightarrow> byte list \<Rightarrow> nat list" where
  "mss_offsets opt olen p =
     (if olen \<le> 1 \<or> p ! opt = OPENVPN_TCPOPT_EOL then []
      else if p ! opt = OPENVPN_TCPOPT_NOP then mss_offsets (opt + 1) (olen - 1) p
      else let optlen = uint (p ! (opt + 1))
           in if optlen \<le> 0 \<or> optlen > olen then []
              else (if p ! opt = OPENVPN_TCPOPT_MAXSEG \<and> optlen = OPENVPN_TCPOLEN_MAXSEG then [opt] else []) @
                   mss_offsets (opt + nat optlen) (olen - optlen) p)"
  by pat_completeness auto
termination by (relation "measure (\<lambda>(opt, olen, p). nat olen)") (auto simp: uint_pos)

declare mss_offsets.simps [simp del]

definition mss_places :: "byte list \<Rightarrow> nat list" where
  "mss_places t =
     (let hlen = OPENVPN_TCPH_GET_DOFF (t ! 12)
      in if length t < 20 \<or> hlen \<le> 20 \<or> hlen > int (length t) then [] else mss_offsets 20 (hlen - 20) t)"

lemma mss_walk_cases:
  obtains
    (stop) "mss_options maxmss opt olen p = p" "mss_offsets opt olen p = []"
  | (skip) n where "0 < n" "int n \<le> olen"
      "mss_options maxmss opt olen p = mss_options maxmss (opt + n) (olen - int n) p"
      "mss_offsets opt olen p = mss_offsets (opt + n) (olen - int n) p"
  | (lower) "4 \<le> olen" "mss_options maxmss opt olen p = mss_options maxmss (opt + 4) (olen - 4) (mss_fix maxmss opt p)"
      "mss_offsets opt olen p = opt # mss_offsets (opt + 4) (olen - 4) p"
proof -
  let ?l = "uint (p ! (opt + 1))"
  note unf = mss_options.simps [of maxmss opt olen p] mss_offsets.simps [of opt olen p]
  consider "olen \<le> 1 \<or> p ! opt = OPENVPN_TCPOPT_EOL"
    | "olen > 1" "p ! opt \<noteq> OPENVPN_TCPOPT_EOL" "p ! opt = OPENVPN_TCPOPT_NOP"
    | "olen > 1" "p ! opt \<noteq> OPENVPN_TCPOPT_EOL" "p ! opt \<noteq> OPENVPN_TCPOPT_NOP" "?l \<le> 0 \<or> ?l > olen"
    | "olen > 1" "p ! opt \<noteq> OPENVPN_TCPOPT_EOL" "p ! opt \<noteq> OPENVPN_TCPOPT_NOP" "0 < ?l" "?l \<le> olen"
      "p ! opt = OPENVPN_TCPOPT_MAXSEG" "?l = OPENVPN_TCPOLEN_MAXSEG"
    | "olen > 1" "p ! opt \<noteq> OPENVPN_TCPOPT_EOL" "p ! opt \<noteq> OPENVPN_TCPOPT_NOP" "0 < ?l" "?l \<le> olen"
      "\<not> (p ! opt = OPENVPN_TCPOPT_MAXSEG \<and> ?l = OPENVPN_TCPOLEN_MAXSEG)"
    by linarith
  then show thesis
  proof cases
    case 1 then show thesis using stop unf by auto
  next
    case 2 then show thesis using skip [of 1] unf by simp
  next
    case 3 then show thesis using stop unf by auto
  next
    case 4 then show thesis using lower unf by (simp add: OPENVPN_TCPOLEN_MAXSEG_def)
  next
    case 5 then show thesis using skip [of "nat ?l"] unf [unfolded Let_def if_not_P [OF 5(6)]] by (simp del: nat_uint_eq)
  qed
qed

lemma mss_walk_range: "k \<in> set (mss_offsets opt olen p) \<Longrightarrow> opt \<le> k \<and> int k + 4 \<le> int opt + olen"
proof (induction "nat olen" arbitrary: opt olen rule: less_induct)
  case less
  show ?case
  proof (cases rule: mss_walk_cases [of 0 opt olen p])
    case stop with less.prems show ?thesis by simp
  next
    case (skip n) with less.prems less.hyps [of "olen - int n" "opt + n"] show ?thesis by simp
  next
    case lower with less.prems less.hyps [of "olen - 4" "opt + 4"] show ?thesis by auto
  qed
qed

lemma mss_offsets_cong:
  "(\<And>i. opt \<le> i \<Longrightarrow> p ! i = q ! i) \<Longrightarrow> mss_offsets opt olen p = mss_offsets opt olen q"
proof (induction opt olen p rule: mss_offsets.induct)
  case (1 opt olen p)
  have e: "p ! opt = q ! opt" "p ! (opt + 1) = q ! (opt + 1)" using 1(3) by simp_all
  show ?case using 1 e by (subst (1 2) mss_offsets.simps) (simp add: Let_def)
qed

subsection \<open>One option\<close>

lemma htons_bytes: "ucast (htons w) = (ucast (drop_bit 8 w AND 0xff) :: byte)"
  "ucast (drop_bit 8 (htons w)) = (ucast (w AND 0xff) :: byte)"
proof -
  have m: "(0xff :: u16) = mask 8" by (simp add: mask_eq_exp_minus_1)
  show "ucast (htons w) = (ucast (drop_bit 8 w AND 0xff) :: byte)" "ucast (drop_bit 8 (htons w)) = (ucast (w AND 0xff) :: byte)"
    by (rule bit_word_eqI; auto simp: htons_def m bit_simps dest: bit_imp_le_length)+
qed

lemma mss_write: "p[opt + 2 := ucast (drop_bit 8 w AND 0xff), opt + 3 := ucast (w AND 0xff)] = put16 (opt + 2) (htons w) p"
  by (simp add: put16_def htons_bytes numeral_3_eq_3)

lemma mss_at_get16: "mss_at p k = htons (get16 p (k + 2))"
proof -
  have "push_bit 8 (ucast a) + ucast b = (push_bit 8 (ucast a) OR ucast b :: u16)" for a b :: byte
    by (rule disjunctive_add) (auto simp: bit_simps dest: bit_imp_le_length)
  moreover have "htons (ucast a OR push_bit 8 (ucast b)) = (push_bit 8 (ucast a) OR ucast b :: u16)" for a b :: byte
    by (rule bit_word_eqI) (auto simp: htons_def bit_simps dest: bit_imp_le_length)
  ultimately show ?thesis by (simp add: mss_at_def get16_def numeral_3_eq_3)
qed

lemma htons_htons [simp]: "htons (htons w) = w"
  by (rule bit_word_eqI) (auto simp: htons_def bit_simps)

lemma mss_fix_alt:
  "mss_fix m opt p =
     (if m < mss_at p opt
      then put16 16 (ADJUST_CHECKSUM (uint (get16 p (opt + 2)) - uint (htons m)) (get16 (put16 (opt + 2) (htons m) p) 16))
             (put16 (opt + 2) (htons m) p)
      else p)"
  unfolding mss_fix_def mss_write Let_def by (simp add: mss_at_get16)

lemma mss_fix_law:
  assumes "20 \<le> opt" "opt + 4 \<le> length p"
  shows "length (mss_fix m opt p) = length p"
    and "i \<notin> {16, 17, opt + 2, opt + 3} \<Longrightarrow> mss_fix m opt p ! i = p ! i"
    and "mss_at (mss_fix m opt p) opt = min (mss_at p opt) m"
    and "even opt \<Longrightarrow> wsum (mss_fix m opt p) mod 65535 = wsum p mod 65535"
proof -
  show "length (mss_fix m opt p) = length p" by (simp add: mss_fix_alt length_put16)
  show "mss_fix m opt p ! i = p ! i" if "i \<notin> {16, 17, opt + 2, opt + 3}" for i
    using that by (simp add: mss_fix_alt put16_def nth_list_update)
  have "mss_at (mss_fix m opt p) opt = m" if "m < mss_at p opt"
  proof -
    have "get16 (mss_fix m opt p) (opt + 2) = get16 (put16 (opt + 2) (htons m) p) (opt + 2)"
      using that assms by (simp add: mss_fix_alt put16_def get16_def)
    also have "\<dots> = htons m" using assms by (simp add: get16_put16)
    finally show ?thesis by (simp add: mss_at_get16)
  qed
  then show "mss_at (mss_fix m opt p) opt = min (mss_at p opt) m"
    by (cases "m < mss_at p opt") (auto simp: mss_fix_alt min_def not_less)
  assume ev: "even opt"
  let ?q = "put16 (opt + 2) (htons m) p" and ?acc = "uint (get16 p (opt + 2)) - uint (htons m)"
  have r: "0 \<le> uint (w :: u16)" "uint w < 65536" for w using uint_lt2p [of w] by simp_all
  have "wsum (mss_fix m opt p) mod 65535 = wsum p mod 65535" if lt: "m < mss_at p opt"
  proof -
    have "- 1000000000 \<le> ?acc" "?acc \<le> 1000000000"
      using r [of "get16 p (opt + 2)"] r [of "htons m"] by linarith+
    note a = ADJUST_CHECKSUM_small [OF this, of "get16 ?q 16"]
    have "wsum (mss_fix m opt p) = wsum p - ?acc - uint (get16 ?q 16) + uint (ADJUST_CHECKSUM ?acc (get16 ?q 16))"
      using lt assms ev by (simp add: mss_fix_alt wsum_put16 length_put16)
    then show ?thesis using mod_add_cong [OF refl a, of "wsum p - ?acc - uint (get16 ?q 16)"] by simp
  qed
  then show "wsum (mss_fix m opt p) mod 65535 = wsum p mod 65535"
    by (cases "m < mss_at p opt") (simp_all add: mss_fix_alt)
qed

subsection \<open>All options\<close>

text \<open>The bytes that lowering may change: the checksum and the values of the MSS options.\<close>

definition mss_touched :: "nat list \<Rightarrow> nat set" where
  "mss_touched ks = {16, 17} \<union> (\<Union>k\<in>set ks. {k + 2, k + 3})"

lemma mss_options_law:
  assumes "20 \<le> opt" "int opt + olen \<le> int (length p)"
  shows "length (mss_options m opt olen p) = length p \<and>
    (\<forall>i. i \<notin> mss_touched (mss_offsets opt olen p) \<longrightarrow> mss_options m opt olen p ! i = p ! i) \<and>
    (\<forall>k\<in>set (mss_offsets opt olen p). mss_at (mss_options m opt olen p) k = min (mss_at p k) m) \<and>
    ((\<forall>k\<in>set (mss_offsets opt olen p). even k) \<longrightarrow> wsum (mss_options m opt olen p) mod 65535 = wsum p mod 65535)"
  using assms
proof (induction "nat olen" arbitrary: opt olen p rule: less_induct)
  case less
  show ?case
  proof (cases rule: mss_walk_cases [of m opt olen p])
    case stop then show ?thesis by simp
  next
    case (skip n) with less.prems less.hyps [of "olen - int n" "opt + n" p] show ?thesis by simp
  next
    case lower
    let ?q = "mss_fix m opt p" and ?ks = "mss_offsets (opt + 4) (olen - 4) p"
    have len: "opt + 4 \<le> length p" using less.prems lower(1) by linarith
    note one = mss_fix_law [OF less.prems(1) len, where m = m]
    have ks: "mss_offsets (opt + 4) (olen - 4) ?q = ?ks" using less.prems(1) by (intro mss_offsets_cong one(2)) auto
    note IH = less.hyps [of "olen - 4" "opt + 4" ?q, unfolded ks one(1)]
    let ?r = "mss_options m (opt + 4) (olen - 4) ?q"
    have far: "opt + 4 \<le> k" if "k \<in> set ?ks" for k using mss_walk_range [OF that] by simp
    have IH1: "length ?r = length p" and IH2: "\<And>i. i \<notin> mss_touched ?ks \<Longrightarrow> ?r ! i = ?q ! i"
      and IH3: "\<And>k. k \<in> set ?ks \<Longrightarrow> mss_at ?r k = min (mss_at ?q k) m"
      and IH4: "\<forall>k\<in>set ?ks. even k \<Longrightarrow> wsum ?r mod 65535 = wsum ?q mod 65535"
      using IH lower(1) less.prems by auto
    have unch: "?r ! i = p ! i" if "i \<notin> mss_touched (opt # ?ks)" for i
      using that IH2 [of i] one(2) [of i] by (auto simp: mss_touched_def)
    have head: "mss_at ?r opt = min (mss_at p opt) m"
    proof -
      have "?r ! (opt + 2) = ?q ! (opt + 2)" "?r ! (opt + 3) = ?q ! (opt + 3)"
        using far less.prems(1) by (intro IH2; force simp: mss_touched_def)+
      then show ?thesis using one(3) by (simp add: mss_at_def)
    qed
    have tail: "mss_at ?r k = min (mss_at p k) m" if "k \<in> set ?ks" for k
    proof -
      have "?q ! (k + 2) = p ! (k + 2)" "?q ! (k + 3) = p ! (k + 3)"
        using far [OF that] less.prems(1) by (intro one(2); simp)+
      then show ?thesis using IH3 [OF that] by (simp add: mss_at_def)
    qed
    show ?thesis unfolding lower(2,3) using IH1 unch head tail IH4 one(4) by auto
  qed
qed

subsection \<open>A segment\<close>

definition mss_segment :: "u16 \<Rightarrow> byte list \<Rightarrow> byte list" where
  "mss_segment m t =
     (let hlen = OPENVPN_TCPH_GET_DOFF (t ! 12)
      in if length t < 20 \<or> hlen \<le> 20 \<or> hlen > int (length t) then t else mss_options m 20 (hlen - 20) t)"

lemma mss_segment_law:
  "length (mss_segment m t) = length t"
  "i \<notin> mss_touched (mss_places t) \<Longrightarrow> mss_segment m t ! i = t ! i"
  "k \<in> set (mss_places t) \<Longrightarrow> mss_at (mss_segment m t) k = min (mss_at t k) m"
  "\<forall>k\<in>set (mss_places t). even k \<Longrightarrow> wsum (mss_segment m t) mod 65535 = wsum t mod 65535"
proof -
  let ?hlen = "OPENVPN_TCPH_GET_DOFF (t ! 12)"
  have "length (mss_segment m t) = length t \<and>
    (\<forall>i. i \<notin> mss_touched (mss_places t) \<longrightarrow> mss_segment m t ! i = t ! i) \<and>
    (\<forall>k\<in>set (mss_places t). mss_at (mss_segment m t) k = min (mss_at t k) m) \<and>
    ((\<forall>k\<in>set (mss_places t). even k) \<longrightarrow> wsum (mss_segment m t) mod 65535 = wsum t mod 65535)"
    using mss_options_law [of 20 "?hlen - 20" t m]
    by (cases "length t < 20 \<or> ?hlen \<le> 20 \<or> ?hlen > int (length t)") (auto simp: mss_segment_def mss_places_def)
  then show "length (mss_segment m t) = length t"
    "i \<notin> mss_touched (mss_places t) \<Longrightarrow> mss_segment m t ! i = t ! i"
    "k \<in> set (mss_places t) \<Longrightarrow> mss_at (mss_segment m t) k = min (mss_at t k) m"
    "\<forall>k\<in>set (mss_places t). even k \<Longrightarrow> wsum (mss_segment m t) mod 65535 = wsum t mod 65535" by auto
qed

lemma mss_fixup_dowork_modify:
  "buf_ok buf \<Longrightarrow> mss_fixup_dowork buf m = buf_modify (mss_segment m) buf"
  using buf_modify_id [of buf]
  by (auto simp: mss_fixup_dowork_def mss_segment_def buf_modify_def Let_def)

lemma IPH_GET_LEN_range: "0 \<le> OPENVPN_IPH_GET_LEN v"
  by (simp add: OPENVPN_IPH_GET_LEN_def)

subsection \<open>Packets\<close>

text \<open>The packets \<^verbatim>\<open>mss_fixup_ipv4\<close> changes: complete, unfragmented TCP packets with the SYN flag.\<close>

definition mss_eligible :: "byte list \<Rightarrow> bool" where
  "mss_eligible p \<longleftrightarrow>
     20 \<le> length p \<and> p ! 9 = OPENVPN_IPPROTO_TCP \<and> uint (htons (get16 p 2)) = int (length p) \<and>
     htons (get16 p 6) AND OPENVPN_IP_OFFMASK = 0 \<and> OPENVPN_IPH_GET_LEN (p ! 0) + 20 \<le> int (length p) \<and>
     p ! (nat (OPENVPN_IPH_GET_LEN (p ! 0)) + 13) AND OPENVPN_TCPH_SYN_MASK \<noteq> 0"

lemma mss_fixup_behind:
  assumes ok: "buf_ok buf" and n: "0 \<le> n" "n \<le> b_len buf" "0 < b_len buf"
  obtains nb where "buf_advance buf n = (True, nb)" "buf_content nb = drop (nat n) (buf_content buf)"
    "buf_len nb = b_len buf - n"
    "\<And>m. buf\<lparr>b_data := b_data (mss_fixup_dowork nb m)\<rparr> = buf_modify (\<lambda>c. take (nat n) c @ mss_segment m (drop (nat n) c)) buf"
proof -
  let ?nb = "buf\<lparr>b_offset := b_offset buf + n, b_len := b_len buf - n\<rparr>"
  note law = buf_modify_behind [where g = "\<lambda>c. c", OF ok n(1,2) refl]
  have "buf_valid buf" using ok n by (cases rule: buf_ok_cases) (simp_all add: buf_valid_def)
  then have "buf_advance buf n = (True, ?nb)" using n by (simp add: buf_advance_def)
  moreover have "buf_len ?nb = b_len buf - n" using buf_ok_bounds(1) [OF law(1)] by simp
  moreover have "buf\<lparr>b_data := b_data (mss_fixup_dowork ?nb m)\<rparr> =
      buf_modify (\<lambda>c. take (nat n) c @ mss_segment m (drop (nat n) c)) buf" for m
    unfolding mss_fixup_dowork_modify [OF law(1)] by (rule buf_modify_rebase [OF ok n(1,2)]) (simp add: mss_segment_law(1))
  ultimately show thesis using that law(2) by blast
qed

definition mss_packet4 :: "int \<Rightarrow> byte list \<Rightarrow> byte list" where
  "mss_packet4 maxmss p =
     (let h = nat (OPENVPN_IPH_GET_LEN (p ! 0))
      in if mss_eligible p then take h p @ mss_segment (word_of_int maxmss) (drop h p) else p)"

definition mss_packet6 :: "int \<Rightarrow> byte list \<Rightarrow> byte list" where
  "mss_packet6 maxmss p =
     (if 60 \<le> length p \<and> int (length p) = uint (htons (get16 p 4)) + 40 \<and> p ! 6 = OPENVPN_IPPROTO_TCP \<and>
         p ! 53 AND OPENVPN_TCPH_SYN_MASK \<noteq> 0
      then take 40 p @ mss_segment (word_of_int (uint (word_of_int maxmss :: u16) - 20)) (drop 40 p) else p)"

lemma length_mss_packet [simp]: "length (mss_packet4 maxmss p) = length p" "length (mss_packet6 maxmss p) = length p"
  by (auto simp: mss_packet4_def mss_packet6_def Let_def mss_segment_law(1) min_def)

lemma mss_fixup_ipv4_modify:
  assumes ok: "buf_ok buf"
  shows "mss_fixup_ipv4 buf maxmss = buf_modify (mss_packet4 maxmss) buf"
proof -
  define p where "p = buf_content buf"
  define hlen where "hlen = OPENVPN_IPH_GET_LEN (p ! 0)"
  have len: "int (length p) = b_len buf" using ok by (simp add: p_def)
  show ?thesis
  proof (cases "b_len buf < 20 \<or> b_len buf - hlen < 20")
    case True
    then have "mss_fixup_ipv4 buf maxmss = buf" "\<not> mss_eligible p"
      using ok len by (auto simp: mss_fixup_ipv4_def Let_def mss_eligible_def p_def hlen_def)
    then show ?thesis using buf_modify_id [OF ok] buf_modify_cong [of "mss_packet4 maxmss" buf "\<lambda>c. c"]
      by (simp add: mss_packet4_def p_def)
  next
    case False
    have h: "0 \<le> hlen" "nat hlen \<le> length p" using False len IPH_GET_LEN_range [of "p ! 0"] unfolding hlen_def by linarith+
    obtain nb where nb: "buf_advance buf hlen = (True, nb)" "buf_content nb = drop (nat hlen) p"
      "\<And>m. buf\<lparr>b_data := b_data (mss_fixup_dowork nb m)\<rparr> = buf_modify (\<lambda>c. take (nat hlen) c @ mss_segment m (drop (nat hlen) c)) buf"
      using mss_fixup_behind [OF ok h(1)] False unfolding p_def by auto
    have "drop (nat hlen) p ! 13 = p ! (nat hlen + 13)" using h by simp
    then have "mss_fixup_ipv4 buf maxmss =
        (if mss_eligible p then buf_modify (\<lambda>c. take (nat hlen) c @ mss_segment (word_of_int maxmss) (drop (nat hlen) c)) buf else buf)"
      using nb False len ok by (auto simp: mss_fixup_ipv4_def Let_def mss_eligible_def p_def [symmetric] hlen_def [symmetric])
    also have "\<dots> = buf_modify (mss_packet4 maxmss) buf"
      using buf_modify_id [OF ok] by (auto simp: mss_packet4_def p_def hlen_def buf_modify_def Let_def)
    finally show ?thesis .
  qed
qed

lemma mss_fixup_ipv6_modify:
  assumes ok: "buf_ok buf"
  shows "mss_fixup_ipv6 buf maxmss = buf_modify (mss_packet6 maxmss) buf"
proof -
  define p where "p = buf_content buf"
  have len: "int (length p) = b_len buf" using ok by (simp add: p_def)
  have id: "mss_packet6 maxmss p = p \<Longrightarrow> buf = buf_modify (mss_packet6 maxmss) buf"
    using buf_modify_id [OF ok] buf_modify_cong [of "mss_packet6 maxmss" buf "\<lambda>c. c"] by (simp add: p_def)
  show ?thesis
  proof (cases "b_len buf < 40")
    case True
    then have "mss_fixup_ipv6 buf maxmss = buf" "mss_packet6 maxmss p = p"
      using ok len by (auto simp: mss_fixup_ipv6_def mss_packet6_def)
    then show ?thesis using id by simp
  next
    case False
    obtain nb where nb: "buf_advance buf 40 = (True, nb)" "buf_content nb = drop 40 p" "buf_len nb = b_len buf - 40"
      "\<And>m. buf\<lparr>b_data := b_data (mss_fixup_dowork nb m)\<rparr> = buf_modify (\<lambda>c. take 40 c @ mss_segment m (drop 40 c)) buf"
      using mss_fixup_behind [OF ok, of 40] False unfolding p_def by auto
    have "drop 40 p ! 13 = p ! 53" using False len by simp
    then have "mss_fixup_ipv6 buf maxmss =
        (if 60 \<le> length p \<and> int (length p) = uint (htons (get16 p 4)) + 40 \<and> p ! 6 = OPENVPN_IPPROTO_TCP \<and>
            p ! 53 AND OPENVPN_TCPH_SYN_MASK \<noteq> 0
         then buf_modify (\<lambda>c. take 40 c @ mss_segment (word_of_int (uint (word_of_int maxmss :: u16) - 20)) (drop 40 c)) buf else buf)"
      using nb False len ok by (auto simp: mss_fixup_ipv6_def Let_def p_def [symmetric])
    also have "\<dots> = buf_modify (mss_packet6 maxmss) buf"
      using id by (auto intro!: buf_modify_cong simp: mss_packet6_def p_def [symmetric])
    finally show ?thesis .
  qed
qed

lemma mss_fixup_ipv4_content:
  assumes "buf_ok buf"
  shows "buf_ok (mss_fixup_ipv4 buf maxmss)" "buf_content (mss_fixup_ipv4 buf maxmss) = mss_packet4 maxmss (buf_content buf)"
  unfolding mss_fixup_ipv4_modify [OF assms]
  using buf_modify_law(1,2) [where g = "mss_packet4 maxmss", OF assms length_mss_packet(1)] by simp_all

lemma mss_fixup_ipv6_content:
  assumes "buf_ok buf"
  shows "buf_ok (mss_fixup_ipv6 buf maxmss)" "buf_content (mss_fixup_ipv6 buf maxmss) = mss_packet6 maxmss (buf_content buf)"
  unfolding mss_fixup_ipv6_modify [OF assms]
  using buf_modify_law(1,2) [where g = "mss_packet6 maxmss", OF assms length_mss_packet(2)] by simp_all

lemma mss_packet_sum:
  "h = nat (OPENVPN_IPH_GET_LEN (p ! 0)) \<Longrightarrow> \<forall>k\<in>set (mss_places (drop h p)). even k \<Longrightarrow>
   wsum (drop h (mss_packet4 maxmss p)) mod 65535 = wsum (drop h p) mod 65535"
  "\<forall>k\<in>set (mss_places (drop 40 p)). even k \<Longrightarrow>
   wsum (drop 40 (mss_packet6 maxmss p)) mod 65535 = wsum (drop 40 p) mod 65535"
proof -
  have tail: "wsum (drop n (take n p @ mss_segment m (drop n p))) mod 65535 = wsum (drop n p) mod 65535"
    if "\<forall>k\<in>set (mss_places (drop n p)). even k" for n m
    using mss_segment_law(1) [of m "drop n p"] mss_segment_law(4) [OF that, of m] by (cases "n \<le> length p") auto
  show "h = nat (OPENVPN_IPH_GET_LEN (p ! 0)) \<Longrightarrow> \<forall>k\<in>set (mss_places (drop h p)). even k \<Longrightarrow>
    wsum (drop h (mss_packet4 maxmss p)) mod 65535 = wsum (drop h p) mod 65535"
    using tail [of h "word_of_int maxmss"] by (simp add: mss_packet4_def Let_def del: drop_append)
  show "\<forall>k\<in>set (mss_places (drop 40 p)). even k \<Longrightarrow>
    wsum (drop 40 (mss_packet6 maxmss p)) mod 65535 = wsum (drop 40 p) mod 65535"
    using tail [of 40 "word_of_int (uint (word_of_int maxmss :: u16) - 20)"] by (simp add: mss_packet6_def del: drop_append)
qed

subsection \<open>Properties\<close>

text \<open>A SYN packet of 48 bytes whose options are the bytes \<open>opts\<close>.\<close>

definition demo_syn :: "byte list \<Rightarrow> buffer" where
  "demo_syn opts = \<lparr>b_capacity = 48, b_offset = 0, b_len = 48, b_data = Some
     ([0x45, 0, 0, 48, 0, 0, 0, 0, 64, 6, 0, 0, 10, 0, 0, 1, 10, 0, 0, 2] @
      [0, 80, 0, 81, 0, 0, 0, 1, 0, 0, 0, 0, 0x70, 2, 16, 0, 0x12, 0x34, 0, 0] @ opts)\<rparr>"

lemma demo_syn_ok: "length opts = 8 \<Longrightarrow> buf_ok (demo_syn opts)"
  by (simp add: demo_syn_def buf_ok_def BUF_SIZE_MAX_def)

lemma demo_syn_content: "length opts = 8 \<Longrightarrow> buf_content (demo_syn opts) =
     [0x45, 0, 0, 48, 0, 0, 0, 0, 64, 6, 0, 0, 10, 0, 0, 1, 10, 0, 0, 2] @
     [0, 80, 0, 81, 0, 0, 0, 1, 0, 0, 0, 0, 0x70, 2, 16, 0, 0x12, 0x34, 0, 0] @ opts"
  by (simp add: demo_syn_def buf_content_def buf_defs mem_load_def)

text \<open>C25: \<^verbatim>\<open>mss_fixup_ipv4\<close> does what it is for. In a complete, unfragmented TCP SYN packet every MSS option the walk over
the options meets announces afterwards the smaller of its value and \<^verbatim>\<open>maxmss\<close>; the IP header, and every byte of the
segment but these values and the checksum, are as before; and the buffer stays well formed.\<close>

theorem mss_fixup_ipv4_lowers:
  assumes "buf_ok buf" "mss_eligible (buf_content buf)"
  shows "buf_ok (mss_fixup_ipv4 buf maxmss) \<and>
    (let p = buf_content buf; h = nat (OPENVPN_IPH_GET_LEN (p ! 0)); t = drop h p;
         q = buf_content (mss_fixup_ipv4 buf maxmss); r = drop h q
     in take h q = take h p \<and> length r = length t \<and>
        (\<forall>k\<in>set (mss_places t). mss_at r k = min (mss_at t k) (word_of_int maxmss)) \<and>
        (\<forall>i. i \<notin> mss_touched (mss_places t) \<longrightarrow> r ! i = t ! i))"
proof -
  let ?p = "buf_content buf"
  let ?h = "nat (OPENVPN_IPH_GET_LEN (?p ! 0))"
  have "?h \<le> length ?p" using assms(2) IPH_GET_LEN_range [of "?p ! 0"] unfolding mss_eligible_def by linarith
  then show ?thesis
    using mss_fixup_ipv4_content [OF assms(1), of maxmss] mss_segment_law [where t = "drop ?h ?p" and m = "word_of_int maxmss"] assms(2)
    by (simp add: Let_def min_absorb2 mss_packet4_def)
qed

theorem mss_fixup_ipv4_lowers_witness:
  "mss_eligible (buf_content (demo_syn [2, 4, 5, 180, 1, 1, 0, 0])) \<and>
   (let r = drop 20 (buf_content (mss_fixup_ipv4 (demo_syn [2, 4, 5, 180, 1, 1, 0, 0]) 1300))
    in \<forall>k\<in>set (mss_places (drop 20 (buf_content (demo_syn [2, 4, 5, 180, 1, 1, 0, 0])))). mss_at r k \<le> 1300)"
proof -
  let ?o = "[2, 4, 5, 180, 1, 1, 0, 0] :: byte list"
  have e: "mss_eligible (buf_content (demo_syn ?o))" unfolding demo_syn_content [of ?o, simplified] by code_simp
  have h: "nat (OPENVPN_IPH_GET_LEN (buf_content (demo_syn ?o) ! 0)) = 20"
    unfolding demo_syn_content [of ?o, simplified] by code_simp
  show ?thesis using mss_fixup_ipv4_lowers [OF demo_syn_ok e, of 1300] e h by (simp add: Let_def)
qed

text \<open>Lowering the MSS keeps the TCP checksum right. When the MSS options of the segment start at even offsets, the
sum of the segment's words is the same modulo 65535 before and after \<^verbatim>\<open>mss_fixup_ipv4\<close> and \<^verbatim>\<open>mss_fixup_ipv6\<close>, so that a
checksum that verified verifies still, with whatever pseudo header.\<close>

theorem mss_fixup_keeps_checksum:
  assumes "buf_ok buf" "h = nat (OPENVPN_IPH_GET_LEN (buf_content buf ! 0))"
  shows "((\<forall>k\<in>set (mss_places (drop h (buf_content buf))). even k) \<longrightarrow>
      wsum (drop h (buf_content (mss_fixup_ipv4 buf maxmss))) mod 65535 = wsum (drop h (buf_content buf)) mod 65535) \<and>
    ((\<forall>k\<in>set (mss_places (drop 40 (buf_content buf))). even k) \<longrightarrow>
      wsum (drop 40 (buf_content (mss_fixup_ipv6 buf maxmss))) mod 65535 = wsum (drop 40 (buf_content buf)) mod 65535)"
  using mss_packet_sum [where p = "buf_content buf" and maxmss = maxmss] assms(2)
  by (simp add: mss_fixup_ipv4_content(2) [OF assms(1)] mss_fixup_ipv6_content(2) [OF assms(1)])

theorem mss_fixup_keeps_checksum_witness:
  "(\<forall>k\<in>set (mss_places (drop 20 (buf_content (demo_syn [2, 4, 5, 180, 1, 1, 0, 0])))). even k) \<and>
   wsum (drop 20 (buf_content (mss_fixup_ipv4 (demo_syn [2, 4, 5, 180, 1, 1, 0, 0]) 1300))) mod 65535 =
   wsum (drop 20 (buf_content (demo_syn [2, 4, 5, 180, 1, 1, 0, 0]))) mod 65535"
proof -
  let ?o = "[2, 4, 5, 180, 1, 1, 0, 0] :: byte list"
  have e: "\<forall>k\<in>set (mss_places (drop 20 (buf_content (demo_syn ?o)))). even k"
    unfolding demo_syn_content [of ?o, simplified] by code_simp
  have h: "20 = nat (OPENVPN_IPH_GET_LEN (buf_content (demo_syn ?o) ! 0))"
    unfolding demo_syn_content [of ?o, simplified] by code_simp
  show ?thesis using mss_fixup_keeps_checksum [OF demo_syn_ok h, of 1300] e by simp
qed


end
