(* ===== verification/Client_Nat.thy ===== *)
theory Client_Nat
  imports Mss
begin

section \<open>Address translation on the client (clinat.c)\<close>

text \<open>
  \<^verbatim>\<open>--client-nat\<close> rewrites the source or the destination address of the packets of the tunnel, one network into
  another, and updates the checksums of the headers for the change. Addresses are in network byte order: a field is
  read and written as the machine's word.
\<close>

subsection \<open>The rules\<close>

definition MAX_CLIENT_NAT :: int where "MAX_CLIENT_NAT = 64"
definition CN_OUTGOING :: int where "CN_OUTGOING = 0"
definition CN_INCOMING :: int where "CN_INCOMING = 1"
definition CN_SNAT :: int where "CN_SNAT = 0"
definition CN_DNAT :: int where "CN_DNAT = 1"

record client_nat_entry =
  cn_type :: int
  cn_network :: u32
  cn_netmask :: u32
  cn_foreign_network :: u32

record client_nat_option_list =
  cl_n :: int
  cl_entries :: "client_nat_entry list"

definition new_client_nat_list :: client_nat_option_list where
  "new_client_nat_list = \<lparr>cl_n = 0, cl_entries = replicate (nat MAX_CLIENT_NAT)
     \<lparr>cn_type = 0, cn_network = 0, cn_netmask = 0, cn_foreign_network = 0\<rparr>\<rparr>"

definition add_entry :: "client_nat_option_list \<Rightarrow> client_nat_entry \<Rightarrow> bool \<times> client_nat_option_list" where
  "add_entry dest e =
     (if cl_n dest \<ge> MAX_CLIENT_NAT then (False, dest)
      else (True, dest\<lparr>cl_entries := (cl_entries dest)[nat (cl_n dest) := e], cl_n := cl_n dest + 1\<rparr>))"

text \<open>\<^verbatim>\<open>*ret = *src\<close>\<close>

definition clone_client_nat_option_list :: "client_nat_option_list \<Rightarrow> client_nat_option_list" where
  "clone_client_nat_option_list src = src"

fun copy_entries :: "client_nat_option_list \<Rightarrow> client_nat_entry list \<Rightarrow> client_nat_option_list" where
  "copy_entries dest [] = dest"
| "copy_entries dest (e # es) = (let (ok, dest) = add_entry dest e in if ok then copy_entries dest es else dest)"

definition copy_client_nat_option_list :: "client_nat_option_list \<Rightarrow> client_nat_option_list \<Rightarrow> client_nat_option_list" where
  "copy_client_nat_option_list dest src = copy_entries dest (take (nat (cl_n src)) (cl_entries src))"

text \<open>\<^verbatim>\<open>getaddr\<close> parses an address; it is an argument that returns \<^const>\<open>None\<close> where it reports an error.\<close>

definition add_client_nat_to_option_list ::
  "(string \<Rightarrow> u32 option) \<Rightarrow> client_nat_option_list \<Rightarrow> string \<Rightarrow> string \<Rightarrow> string \<Rightarrow> string \<Rightarrow> client_nat_option_list" where
  "add_client_nat_to_option_list getaddr dest type network netmask foreign_network =
     (let t = if type = ''snat'' then Some CN_SNAT else if type = ''dnat'' then Some CN_DNAT else None
      in case (t, getaddr network, getaddr netmask, getaddr foreign_network) of
           (Some t, Some nw, Some nm, Some fn) \<Rightarrow>
             snd (add_entry dest \<lparr>cn_type = t, cn_network = nw, cn_netmask = nm, cn_foreign_network = fn\<rparr>)
         | _ \<Rightarrow> dest)"

subsection \<open>Translation\<close>

definition OPENVPN_IPPROTO_UDP :: byte where "OPENVPN_IPPROTO_UDP = 17"

text \<open>One round of the loop over the rules: the packet, \<^verbatim>\<open>accumulate\<close> and \<^verbatim>\<open>alog\<close>.\<close>

definition nat_step :: "int \<Rightarrow> client_nat_entry \<Rightarrow> byte list \<times> int \<times> u32 \<Rightarrow> byte list \<times> int \<times> u32" where
  "nat_step direction e = (\<lambda>(h, accumulate, alog).
     (let (addr_ptr, amask) = if cn_type e XOR direction \<noteq> 0 then (16, 2) else (12, 1);
          addr = get32 h addr_ptr;
          (from, to) = if direction \<noteq> 0 then (cn_foreign_network e, cn_network e) else (cn_network e, cn_foreign_network e)
      in if addr AND cn_netmask e = from \<and> amask AND alog = 0 then
           let accumulate = ADD_CHECKSUM_32 accumulate addr;
               addr = (addr AND NOT (cn_netmask e)) OR to;
               accumulate = SUB_CHECKSUM_32 accumulate addr
           in (put32 addr_ptr addr h, accumulate, alog OR amask)
         else (h, accumulate, alog)))"

definition nat_packet :: "client_nat_option_list \<Rightarrow> int \<Rightarrow> byte list \<Rightarrow> byte list" where
  "nat_packet list direction h =
     (case fold (nat_step direction) (take (nat (cl_n list)) (cl_entries list)) (h, 0, 0) of (h, accumulate, alog) \<Rightarrow>
        if alog \<noteq> 0 then
          let h = put16 10 (ADJUST_CHECKSUM accumulate (get16 h 10)) h
          in if h ! 9 = OPENVPN_IPPROTO_TCP then
               if int (length h) \<ge> 20 + 20 then put16 36 (ADJUST_CHECKSUM accumulate (get16 h 36)) h else h
             else if h ! 9 = OPENVPN_IPPROTO_UDP then
               if int (length h) \<ge> 20 + 8 then put16 26 (ADJUST_CHECKSUM accumulate (get16 h 26)) h else h
             else h
        else h)"

definition client_nat_transform :: "client_nat_option_list \<Rightarrow> buffer \<Rightarrow> int \<Rightarrow> buffer" where
  "client_nat_transform list ipbuf direction = buf_modify (nat_packet list direction) ipbuf"

subsection \<open>The list of rules\<close>

definition cl_ok :: "client_nat_option_list \<Rightarrow> bool" where
  "cl_ok l \<longleftrightarrow> 0 \<le> cl_n l \<and> cl_n l \<le> MAX_CLIENT_NAT \<and> length (cl_entries l) = nat MAX_CLIENT_NAT"

definition cl_rules :: "client_nat_option_list \<Rightarrow> client_nat_entry list" where
  "cl_rules l = take (nat (cl_n l)) (cl_entries l)"

lemma cl_ok_new: "cl_ok new_client_nat_list" "cl_rules new_client_nat_list = []"
  by (simp_all add: cl_ok_def cl_rules_def new_client_nat_list_def MAX_CLIENT_NAT_def)

lemma length_cl_rules: "cl_ok l \<Longrightarrow> length (cl_rules l) = nat (cl_n l)"
  by (simp add: cl_ok_def cl_rules_def nat_mono min_absorb2)

lemma length_cl_rules_le: "cl_ok l \<Longrightarrow> length (cl_rules l) \<le> 64"
  using length_cl_rules [of l] unfolding cl_ok_def MAX_CLIENT_NAT_def by linarith

lemma nat_add_entry_law:
  assumes "cl_ok l" "add_entry l e = (ok, l')"
  shows "cl_ok l'" "ok \<longleftrightarrow> length (cl_rules l) < 64" "cl_rules l' = (if ok then cl_rules l @ [e] else cl_rules l)"
proof -
  have n: "nat (cl_n l + 1) = Suc (nat (cl_n l))" using assms(1) by (simp add: cl_ok_def nat_add_distrib)
  show "cl_ok l'" "ok \<longleftrightarrow> length (cl_rules l) < 64" "cl_rules l' = (if ok then cl_rules l @ [e] else cl_rules l)"
    using assms length_cl_rules [OF assms(1)]
    by (auto simp: add_entry_def cl_ok_def cl_rules_def n take_Suc_conv_app_nth MAX_CLIENT_NAT_def split: if_splits)
qed

lemma copy_entries_law:
  "cl_ok l \<Longrightarrow> cl_ok (copy_entries l es) \<and> cl_rules (copy_entries l es) = take 64 (cl_rules l @ es)"
proof (induction es arbitrary: l)
  case Nil
  then show ?case using length_cl_rules_le [of l] by simp
next
  case (Cons e es)
  obtain ok l' where a: "add_entry l e = (ok, l')" by (cases "add_entry l e")
  note le = length_cl_rules_le [OF Cons.prems]
  show ?case using Cons.IH [of l'] nat_add_entry_law [OF Cons.prems a] a le by (cases ok) (auto simp: Cons.prems take_Cons')
qed

subsection \<open>Sums of the parts of a packet\<close>

definition sum32 :: "u32 \<Rightarrow> int" where
  "sum32 w = uint (w AND 0xffff) + uint (drop_bit 16 w)"

lemma sum32_halves: "sum32 w = uint (ucast w :: u16) + uint (ucast (drop_bit 16 w) :: u16)"
proof -
  have "w AND 0xffff = take_bit 16 w" by (simp add: take_bit_eq_mask mask_eq_exp_minus_1)
  then have a: "uint (w AND 0xffff) = uint (ucast w :: u16)" by (simp only: unsigned_take_bit_eq unsigned_ucast_eq) simp
  have "uint (drop_bit 16 w) = uint w div 65536" by (rule uint_drop_16)
  moreover have "uint w < 4294967296" using unsigned_less [of w] by simp
  ultimately have "uint (drop_bit 16 w) < 65536" "0 \<le> uint (drop_bit 16 w)" using uint_ge_0 [of "drop_bit 16 w"] by linarith+
  then have "uint (ucast (drop_bit 16 w) :: u16) = uint (drop_bit 16 w)"
    by (simp only: unsigned_ucast_eq) (simp add: take_bit_int_eq_self)
  then show ?thesis using a by (simp add: sum32_def)
qed

lemma sum32_range: "0 \<le> sum32 w" "sum32 w \<le> 131070"
  using uint_lt2p [of "ucast w :: u16"] uint_lt2p [of "ucast (drop_bit 16 w) :: u16"] by (simp_all add: sum32_halves)

lemma CHECKSUM_32: "ADD_CHECKSUM_32 acc w = acc + sum32 w" "SUB_CHECKSUM_32 acc w = acc - sum32 w"
  by (simp_all add: ADD_CHECKSUM_32_def SUB_CHECKSUM_32_def sum32_def)

lemma sum32_get32: "sum32 (get32 p i) = uint (get16 p i) + uint (get16 p (i + 2))"
proof -
  have "ucast (get32 p i) = get16 p i" by (rule bit_word_eqI) (auto simp: get32_def bit_simps)
  moreover have "ucast (drop_bit 16 (get32 p i)) = get16 p (i + 2)"
    by (rule bit_word_eqI) (auto simp: get32_def bit_simps dest: bit_imp_le_length)
  ultimately show ?thesis by (simp only: sum32_halves)
qed

lemma get16_other: "j \<noteq> i \<Longrightarrow> j \<noteq> Suc i \<Longrightarrow> i \<noteq> Suc j \<Longrightarrow> get16 (put16 i w p) j = get16 p j"
  by (simp add: get16_def put16_def)

lemma length_put32 [simp]: "length (put32 i w p) = length p"
  by (simp add: put32_def length_put16)

lemma wsum_put32:
  assumes "even i" "i + 3 < length p"
  shows "wsum (put32 i w p) = wsum p + sum32 w - sum32 (get32 p i)"
  using assms by (simp add: put32_def wsum_put16 length_put16 sum32_halves [of w] sum32_get32 get16_other)

lemma get32_put32:
  assumes "i + 3 < length p"
  shows "get32 (put32 i w p) i = w"
proof -
  have "get16 (put32 i w p) i = ucast w" using assms by (simp add: put32_def get16_other get16_put16 length_put16)
  moreover have "get16 (put32 i w p) (i + 2) = ucast (drop_bit 16 w)"
    using assms by (simp add: put32_def get16_put16 length_put16)
  ultimately show ?thesis
    by (intro bit_word_eqI) (auto simp: get32_def bit_simps)
qed

lemma put16_take: "Suc i < n \<Longrightarrow> take n (put16 i w p) = put16 i w (take n p)"
  by (simp add: put16_def take_update_swap)

lemma put16_take_after: "n \<le> i \<Longrightarrow> take n (put16 i w p) = take n p"
  by (simp add: put16_def)

lemma put16_drop: "n \<le> i \<Longrightarrow> drop n (put16 i w p) = put16 (i - n) w (drop n p)"
  by (simp add: put16_def drop_update_swap Suc_diff_le)

lemma put16_drop_before: "Suc i < n \<Longrightarrow> drop n (put16 i w p) = drop n p"
  by (simp add: put16_def)

lemma get16_take: "Suc i < n \<Longrightarrow> get16 (take n p) i = get16 p i"
  by (simp add: get16_def)

lemma get16_drop: "n \<le> i \<Longrightarrow> i \<le> length p \<Longrightarrow> get16 (drop n p) (i - n) = get16 p i"
  by (simp add: get16_def Suc_diff_le [symmetric])

text \<open>The header and the rest with the pseudo header of a packet; \<open>header_sum\<close> is a multiple of 65535 when the header's
checksum is right, \<open>body_sum\<close> changes by what the checksum of a TCP segment or UDP datagram has to follow.\<close>

definition header_sum :: "byte list \<Rightarrow> int" where
  "header_sum p = wsum (take 20 p)"

definition body_sum :: "byte list \<Rightarrow> int" where
  "body_sum p = wsum (drop 12 p)"

lemma header_sum_put16:
  assumes "even i" "20 \<le> length p"
  shows "i < 19 \<Longrightarrow> header_sum (put16 i w p) = header_sum p + uint w - uint (get16 p i)"
    and "20 \<le> i \<Longrightarrow> header_sum (put16 i w p) = header_sum p"
  using assms by (simp_all add: header_sum_def put16_take put16_take_after wsum_put16 get16_take)

lemma body_sum_put16:
  assumes "even i"
  shows "12 \<le> i \<Longrightarrow> Suc i < length p \<Longrightarrow> body_sum (put16 i w p) = body_sum p + uint w - uint (get16 p i)"
    and "i < 11 \<Longrightarrow> body_sum (put16 i w p) = body_sum p"
  using assms get16_drop [of 12 i p]
  by (simp_all add: body_sum_def put16_drop put16_drop_before wsum_put16 Suc_diff_le [symmetric])

lemma part_sums_put32:
  assumes "i = 12 \<or> i = 16" "20 \<le> length p"
  shows "header_sum (put32 i w p) = header_sum p + sum32 w - sum32 (get32 p i)"
    "body_sum (put32 i w p) = body_sum p + sum32 w - sum32 (get32 p i)"
  using assms
  by (auto simp: put32_def header_sum_put16 body_sum_put16 length_put16 sum32_halves [of w] sum32_get32 get16_other)

subsection \<open>The rules applied\<close>

text \<open>The place of the address a rule rewrites, and the networks it rewrites from and to, for a direction.\<close>

definition rule_place :: "int \<Rightarrow> client_nat_entry \<Rightarrow> nat" where
  "rule_place direction e = (if cn_type e = direction then 12 else 16)"

definition rule_from :: "int \<Rightarrow> client_nat_entry \<Rightarrow> u32" where
  "rule_from direction e = (if direction = CN_OUTGOING then cn_network e else cn_foreign_network e)"

definition rule_to :: "int \<Rightarrow> client_nat_entry \<Rightarrow> u32" where
  "rule_to direction e = (if direction = CN_OUTGOING then cn_foreign_network e else cn_network e)"

definition rule_applies :: "int \<Rightarrow> nat \<Rightarrow> u32 \<Rightarrow> client_nat_entry \<Rightarrow> bool" where
  "rule_applies direction place addr e \<longleftrightarrow>
     rule_place direction e = place \<and> addr AND cn_netmask e = rule_from direction e"

text \<open>The address at \<open>place\<close> is rewritten by the first rule that applies to it: its network part is replaced.\<close>

definition translate :: "int \<Rightarrow> client_nat_entry list \<Rightarrow> nat \<Rightarrow> u32 \<Rightarrow> u32" where
  "translate direction rules place addr =
     (case find (rule_applies direction place addr) rules of
        None \<Rightarrow> addr
      | Some e \<Rightarrow> (addr AND NOT (cn_netmask e)) OR rule_to direction e)"

definition place_mask :: "nat \<Rightarrow> u32" where
  "place_mask place = (if place = 12 then 1 else 2)"

lemma xor_zero_iff: "(a XOR b :: int) \<noteq> 0 \<longleftrightarrow> a \<noteq> b"
  by (metis xor_self_eq bit.xor_left_self xor.right_neutral)

lemma nat_step_alt:
  "nat_step direction e (h, acc, alog) =
     (let i = rule_place direction e; addr = get32 h i;
          addr' = (addr AND NOT (cn_netmask e)) OR rule_to direction e
      in if rule_applies direction i addr e \<and> place_mask i AND alog = 0
         then (put32 i addr' h, acc + sum32 addr - sum32 addr', alog OR place_mask i)
         else (h, acc, alog))"
  by (simp add: nat_step_def rule_place_def rule_applies_def rule_from_def rule_to_def place_mask_def xor_zero_iff
      CHECKSUM_32 CN_OUTGOING_def Let_def)

lemma find_append: "find P (xs @ ys) = (case find P xs of None \<Rightarrow> find P ys | Some x \<Rightarrow> Some x)"
  by (induction xs) auto

lemma rule_place_cases: "rule_place direction e = 12 \<or> rule_place direction e = 16"
  by (simp add: rule_place_def)

lemma get32_put32_other:
  "i \<in> {12, 16} \<Longrightarrow> j \<in> {12, 16} \<Longrightarrow> i \<noteq> j \<Longrightarrow> get32 (put32 i w p) j = get32 p j"
  by (auto simp: get32_def put32_def get16_other)

lemma put32_nth: "j < i \<or> i + 4 \<le> j \<Longrightarrow> put32 i w p ! j = p ! j"
  by (auto simp: put32_def put16_def nth_list_update)

definition nat_inv :: "int \<Rightarrow> byte list \<Rightarrow> client_nat_entry list \<Rightarrow> byte list \<times> int \<times> u32 \<Rightarrow> bool" where
  "nat_inv direction h rs = (\<lambda>(h', acc, alog).
     length h' = length h \<and>
     header_sum h' = header_sum h - acc \<and> body_sum h' = body_sum h - acc \<and>
     acc = sum32 (get32 h 12) - sum32 (get32 h' 12) + (sum32 (get32 h 16) - sum32 (get32 h' 16)) \<and>
     (\<forall>j. j < 12 \<or> 20 \<le> j \<longrightarrow> h' ! j = h ! j) \<and>
     alog \<in> {0, 1, 2, 3} \<and>
     (\<forall>i \<in> {12, 16}. (place_mask i AND alog = 0 \<longleftrightarrow> find (rule_applies direction i (get32 h i)) rs = None) \<and>
        get32 h' i = translate direction rs i (get32 h i)))"

lemma alog_bits:
  assumes "alog \<in> {0, 1, 2, 3}" "i \<in> {12, 16}" "j \<in> {12, 16}"
  shows "alog OR place_mask i \<in> {0, 1, 2, 3}"
    and "place_mask j AND (alog OR place_mask i) = 0 \<longleftrightarrow> i \<noteq> j \<and> place_mask j AND alog = 0"
  using assms by (auto simp: place_mask_def)

lemma nat_step_inv:
  assumes len: "20 \<le> length h" and inv: "nat_inv direction h rs s"
  shows "nat_inv direction h (rs @ [e]) (nat_step direction e s)"
proof -
  obtain h' acc alog where s: "s = (h', acc, alog)" by (cases s)
  note I = inv [unfolded nat_inv_def s split_conv]
  have l: "length h' = length h" and sm: "header_sum h' = header_sum h - acc" "body_sum h' = body_sum h - acc"
    and ac: "acc = sum32 (get32 h 12) - sum32 (get32 h' 12) + (sum32 (get32 h 16) - sum32 (get32 h' 16))"
    and n: "\<forall>j. j < 12 \<or> 20 \<le> j \<longrightarrow> h' ! j = h ! j" and al: "alog \<in> {0, 1, 2, 3}"
    and pl: "\<forall>j\<in>{12, 16}. (place_mask j AND alog = 0 \<longleftrightarrow> find (rule_applies direction j (get32 h j)) rs = None) \<and>
      get32 h' j = translate direction rs j (get32 h j)"
    using I by - (elim conjE, assumption)+
  define i where "i = rule_place direction e"
  have i: "i \<in> {12, 16}" using rule_place_cases [of direction e] by (auto simp: i_def)
  have other: "\<not> rule_applies direction j a e" if "j \<noteq> i" for j a using that by (simp add: rule_applies_def i_def)
  have fresh: "get32 h' i = get32 h i" if "place_mask i AND alog = 0" using pl [rule_format, OF i] that by (simp add: translate_def)
  have keep: "(place_mask j AND alog = 0 \<longleftrightarrow> find (rule_applies direction j (get32 h j)) (rs @ [e]) = None) \<and>
      get32 h' j = translate direction (rs @ [e]) j (get32 h j)"
    if "j \<in> {12, 16}" "\<not> (rule_applies direction j (get32 h' j) e \<and> place_mask j AND alog = 0)" for j
    using pl [rule_format, OF that(1)] that(2) by (auto simp: find_append translate_def split: option.splits)
  show ?thesis
  proof (cases "rule_applies direction i (get32 h' i) e \<and> place_mask i AND alog = 0")
    case False
    have "nat_step direction e s = s" unfolding s nat_step_alt Let_def i_def [symmetric] using False by (rule if_not_P)
    moreover have "\<not> (rule_applies direction j (get32 h' j) e \<and> place_mask j AND alog = 0)" for j
      using False other [of j] by (cases "j = i") auto
    ultimately show ?thesis using l sm ac al n keep unfolding nat_inv_def s by simp
  next
    case True
    note fire = True
    let ?a = "(get32 h' i AND NOT (cn_netmask e)) OR rule_to direction e"
    let ?h = "put32 i ?a h'"
    have st: "nat_step direction e s = (?h, acc + sum32 (get32 h' i) - sum32 ?a, alog OR place_mask i)"
      unfolding s nat_step_alt Let_def i_def [symmetric] using True by (rule if_P)
    have l': "20 \<le> length h'" "i + 3 < length h'" using l len i by auto
    have gi: "get32 ?h i = ?a" using get32_put32 [OF l'(2)] .
    have gj: "get32 ?h j = get32 h' j" if "j \<in> {12, 16}" "j \<noteq> i" for j using get32_put32_other i that by metis
    have sums: "header_sum ?h = header_sum h' + sum32 ?a - sum32 (get32 h' i)"
      "body_sum ?h = body_sum h' + sum32 ?a - sum32 (get32 h' i)" using part_sums_put32 i l' by auto
    have places: "(place_mask j AND (alog OR place_mask i) = 0 \<longleftrightarrow> find (rule_applies direction j (get32 h j)) (rs @ [e]) = None) \<and>
        get32 ?h j = translate direction (rs @ [e]) j (get32 h j)" if j: "j \<in> {12, 16}" for j
    proof (cases "j = i")
      case True
      then show ?thesis using pl [rule_format, OF i] gi fresh fire alog_bits(2) [OF al i i]
        by (auto simp: find_append translate_def split: option.splits)
    next
      case False
      then show ?thesis using keep [OF j] other [OF False] gj [OF j False] alog_bits(2) [OF al i j] by simp
    qed
    have acc: "acc + sum32 (get32 h' i) - sum32 ?a =
        sum32 (get32 h 12) - sum32 (get32 ?h 12) + (sum32 (get32 h 16) - sum32 (get32 ?h 16))"
      using ac i gi gj [of 12] gj [of 16] by auto
    have nth: "?h ! j = h ! j" if "j < 12 \<or> 20 \<le> j" for j
      using that i n [rule_format, of j] put32_nth [of j i ?a h'] by auto
    show ?thesis unfolding st nat_inv_def split_conv using l sm sums places acc nth alog_bits(1) [OF al i i] by simp
  qed
qed

lemma nat_fold_inv:
  assumes "20 \<le> length h"
  shows "nat_inv direction h rs (fold (nat_step direction) rs (h, 0, 0))"
proof (induction rs rule: rev_induct)
  case Nil
  then show ?case by (simp add: nat_inv_def translate_def)
next
  case (snoc e rs)
  then show ?case using nat_step_inv [OF assms snoc] by simp
qed

subsection \<open>The packet\<close>

lemma put16_nth: "j \<noteq> i \<Longrightarrow> j \<noteq> Suc i \<Longrightarrow> put16 i w p ! j = p ! j"
  by (simp add: put16_def)

lemma put16_adjust_mod:
  assumes "- 1000000000 \<le> acc" "acc \<le> 1000000000"
  shows "(s + uint (ADJUST_CHECKSUM acc ck) - uint ck) mod 65535 = (s + acc) mod 65535"
  using mod_add_cong [OF refl ADJUST_CHECKSUM_small [OF assms, of ck], of "s - uint ck"] by (simp add: algebra_simps)

text \<open>Where a packet's TCP or UDP checksum is, for a header without options.\<close>

definition body_check :: "byte list \<Rightarrow> nat option" where
  "body_check p =
     (if p ! 9 = OPENVPN_IPPROTO_TCP \<and> 40 \<le> length p then Some 36
      else if p ! 9 = OPENVPN_IPPROTO_UDP \<and> 28 \<le> length p then Some 26 else None)"

lemma nat_packet_shape:
  assumes len: "20 \<le> length p"
  obtains h acc alog where "nat_inv direction p (cl_rules l) (h, acc, alog)" "- 1000000000 \<le> acc" "acc \<le> 1000000000"
    "nat_packet l direction p =
       (if alog = 0 then h
        else let h1 = put16 10 (ADJUST_CHECKSUM acc (get16 h 10)) h
             in case body_check p of None \<Rightarrow> h1 | Some k \<Rightarrow> put16 k (ADJUST_CHECKSUM acc (get16 h1 k)) h1)"
proof -
  obtain h acc alog where f: "fold (nat_step direction) (cl_rules l) (p, 0, 0) = (h, acc, alog)"
    by (cases "fold (nat_step direction) (cl_rules l) (p, 0, 0)")
  have inv: "nat_inv direction p (cl_rules l) (h, acc, alog)" using nat_fold_inv [OF len, of direction "cl_rules l"] by (simp add: f)
  then have I: "length h = length p" "h ! 9 = p ! 9"
    "acc = sum32 (get32 p 12) - sum32 (get32 h 12) + (sum32 (get32 p 16) - sum32 (get32 h 16))"
    by (simp_all add: nat_inv_def)
  have "- 1000000000 \<le> acc" "acc \<le> 1000000000"
    using I(3) sum32_range [of "get32 p 12"] sum32_range [of "get32 p 16"] sum32_range [of "get32 h 12"] sum32_range [of "get32 h 16"]
    by linarith+
  moreover have "OPENVPN_IPPROTO_TCP \<noteq> OPENVPN_IPPROTO_UDP" by (simp add: OPENVPN_IPPROTO_TCP_def OPENVPN_IPPROTO_UDP_def)
  then have "nat_packet l direction p =
       (if alog = 0 then h
        else let h1 = put16 10 (ADJUST_CHECKSUM acc (get16 h 10)) h
             in case body_check p of None \<Rightarrow> h1 | Some k \<Rightarrow> put16 k (ADJUST_CHECKSUM acc (get16 h1 k)) h1)"
    using f I by (simp add: nat_packet_def cl_rules_def [symmetric] body_check_def Let_def put16_nth length_put16)
  ultimately show thesis using that inv by blast
qed

lemma body_check_even: "body_check p = Some k \<Longrightarrow> even k \<and> 20 \<le> k \<and> Suc k < length p"
  by (auto simp: body_check_def split: if_splits)

lemma nat_packet_law:
  fixes p :: "byte list" and l :: client_nat_option_list and direction :: int
  assumes len: "20 \<le> length p"
  defines "q \<equiv> nat_packet l direction p"
  shows "length q = length p"
    "header_sum q mod 65535 = header_sum p mod 65535"
    "body_check p \<noteq> None \<Longrightarrow> body_sum q mod 65535 = body_sum p mod 65535"
    "i \<in> {12, 16} \<Longrightarrow> get32 q i = translate direction (cl_rules l) i (get32 p i)"
    "j < 10 \<or> 20 \<le> j \<and> (\<forall>k. body_check p = Some k \<longrightarrow> j \<noteq> k \<and> j \<noteq> Suc k) \<Longrightarrow> q ! j = p ! j"
proof -
  obtain h acc alog where inv: "nat_inv direction p (cl_rules l) (h, acc, alog)"
    and b: "- 1000000000 \<le> acc" "acc \<le> 1000000000"
    and q: "q = (if alog = 0 then h
        else let h1 = put16 10 (ADJUST_CHECKSUM acc (get16 h 10)) h
             in case body_check p of None \<Rightarrow> h1 | Some k \<Rightarrow> put16 k (ADJUST_CHECKSUM acc (get16 h1 k)) h1)"
    using nat_packet_shape [OF len] unfolding q_def by blast
  have hb: "header_sum h = header_sum p - acc" "body_sum h = body_sum p - acc" and lh: "length h = length p"
    and g: "i \<in> {12, 16} \<Longrightarrow> get32 h i = translate direction (cl_rules l) i (get32 p i)"
    and n: "j < 12 \<or> 20 \<le> j \<Longrightarrow> h ! j = p ! j" for i j
    using inv by (auto simp: nat_inv_def)
  define h1 where "h1 = put16 10 (ADJUST_CHECKSUM acc (get16 h 10)) h"
  have q': "q = (if alog = 0 then h else case body_check p of None \<Rightarrow> h1 | Some k \<Rightarrow> put16 k (ADJUST_CHECKSUM acc (get16 h1 k)) h1)"
    unfolding q h1_def Let_def ..
  have z: "acc = 0" if "alog = 0" using inv that by (simp add: nat_inv_def translate_def)
  have l: "length h = length p" "length h1 = length p" using lh by (simp_all add: h1_def length_put16)
  have hs: "header_sum h1 mod 65535 = header_sum p mod 65535" "body_sum h1 = body_sum h"
    using hb lh len put16_adjust_mod [OF b, of "header_sum h"] by (simp_all add: h1_def header_sum_put16 body_sum_put16)
  show "length q = length p" using l by (simp add: q' length_put16 split: option.split)
  show "header_sum q mod 65535 = header_sum p mod 65535"
    using hb z hs l len body_check_even [of p] by (auto simp: q' header_sum_put16 split: option.split)
  show "body_sum q mod 65535 = body_sum p mod 65535" if "body_check p \<noteq> None"
    using that hb z hs l len body_check_even [of p] put16_adjust_mod [OF b, of "body_sum h"]
    by (auto simp: q' body_sum_put16 split: option.split)
  show "get32 q i = translate direction (cl_rules l) i (get32 p i)" if "i \<in> {12, 16}"
    using g [OF that] that body_check_even [of p] by (auto simp: q' h1_def get32_def get16_other split: option.split)
  show "q ! j = p ! j" if "j < 10 \<or> 20 \<le> j \<and> (\<forall>k. body_check p = Some k \<longrightarrow> j \<noteq> k \<and> j \<noteq> Suc k)"
    using that n [of j] body_check_even [of p] by (auto simp: q' h1_def put16_nth split: option.split)
qed

lemma client_nat_transform_content:
  assumes "buf_ok ipbuf" "20 \<le> b_len ipbuf"
  shows "buf_ok (client_nat_transform l ipbuf direction)"
    "buf_content (client_nat_transform l ipbuf direction) = nat_packet l direction (buf_content ipbuf)"
    "20 \<le> length (buf_content ipbuf)"
proof -
  show len: "20 \<le> length (buf_content ipbuf)" using assms by simp
  show "buf_ok (client_nat_transform l ipbuf direction)"
    "buf_content (client_nat_transform l ipbuf direction) = nat_packet l direction (buf_content ipbuf)"
    unfolding client_nat_transform_def
    using buf_modify_law [of ipbuf "nat_packet l direction"] nat_packet_law(1) [OF len] assms(1) by simp_all
qed

subsection \<open>Properties\<close>

text \<open>The rule that sends 10.0.0.0/8 to 44.0.0.0/8, and a TCP packet from 10.1.2.3 with 20 bytes behind its header.\<close>

definition demo_rule :: client_nat_entry where
  "demo_rule = \<lparr>cn_type = CN_SNAT, cn_network = 10, cn_netmask = 255, cn_foreign_network = 44\<rparr>"

definition demo_rules :: client_nat_option_list where
  "demo_rules = snd (add_entry new_client_nat_list demo_rule)"

definition demo_ip :: "byte \<Rightarrow> byte \<Rightarrow> byte list \<Rightarrow> buffer" where
  "demo_ip frag proto rest = \<lparr>b_capacity = 40, b_offset = 0, b_len = 40, b_data = Some
     ([0x45, 0, 0, 40, 0, 0, 0, frag, 64, proto, 0, 0, 10, 1, 2, 3, 192, 0, 2, 1] @ rest)\<rparr>"

lemma demo_rules_rules: "cl_rules demo_rules = [demo_rule]"
  by (simp add: demo_rules_def add_entry_def new_client_nat_list_def cl_rules_def MAX_CLIENT_NAT_def take_Suc nth_list_update
      numeral_eq_Suc)

lemma demo_ip_ok: "length rest = 20 \<Longrightarrow> buf_ok (demo_ip frag proto rest) \<and> 20 \<le> b_len (demo_ip frag proto rest)"
  by (simp add: demo_ip_def buf_ok_def BUF_SIZE_MAX_def)

lemma demo_ip_content: "length rest = 20 \<Longrightarrow> buf_content (demo_ip frag proto rest) =
     [0x45, 0, 0, 40, 0, 0, 0, frag, 64, proto, 0, 0, 10, 1, 2, 3, 192, 0, 2, 1] @ rest"
  by (simp add: demo_ip_def buf_content_def buf_defs mem_load_def)



text \<open>Translation keeps the checksums right: the sum of the words of the header is the same modulo 65535 before and
after, and, in a TCP or UDP packet whose header has no options, so is the sum of the words of the addresses and of the
segment, whose checksum covers the addresses. A checksum that verified verifies still.\<close>

theorem client_nat_keeps_checksums:
  assumes "buf_ok ipbuf" "20 \<le> b_len ipbuf"
  shows "let p = buf_content ipbuf; q = buf_content (client_nat_transform l ipbuf direction)
    in header_sum q mod 65535 = header_sum p mod 65535 \<and>
       (body_check p \<noteq> None \<longrightarrow> body_sum q mod 65535 = body_sum p mod 65535)"
  using client_nat_transform_content(1,2) [OF assms, of l direction] client_nat_transform_content(3) [OF assms] nat_packet_law(2,3) [where p = "buf_content ipbuf"]
  unfolding Let_def by simp

theorem client_nat_keeps_checksums_witness:
  "body_sum (buf_content (client_nat_transform demo_rules (demo_ip 0 6 (replicate 20 0)) CN_OUTGOING)) mod 65535 =
   body_sum (buf_content (demo_ip 0 6 (replicate 20 0))) mod 65535"
proof -
  have "body_check (buf_content (demo_ip 0 6 (replicate 20 0))) \<noteq> None"
    unfolding demo_ip_content [of "replicate 20 0", simplified] by code_simp
  then show ?thesis
    using client_nat_keeps_checksums [of "demo_ip 0 6 (replicate 20 0)" demo_rules CN_OUTGOING] demo_ip_ok [of "replicate 20 0" 0 6]
    unfolding Let_def by simp
qed

text \<open>C29: What a rule does to outgoing packets it undoes for the replies. Let the list hold one rule whose two networks
have no host bits. When an outgoing packet with an address in the rule's network has been rewritten and a packet comes
back that is addressed the other way round to (or, for DNAT, from) the rewritten address, it is rewritten to the
original address.\<close>

theorem client_nat_roundtrip:
  assumes rules: "cl_rules l = [e]" and nets: "cn_network e AND cn_netmask e = cn_network e"
    "cn_foreign_network e AND cn_netmask e = cn_foreign_network e"
    and out: "buf_ok out" "20 \<le> b_len out" and ret: "buf_ok ret" "20 \<le> b_len ret"
    and there: "get32 (buf_content out) (rule_place CN_OUTGOING e) AND cn_netmask e = cn_network e"
    and reply: "get32 (buf_content ret) (rule_place CN_INCOMING e) =
      get32 (buf_content (client_nat_transform l out CN_OUTGOING)) (rule_place CN_OUTGOING e)"
  shows "get32 (buf_content (client_nat_transform l ret CN_INCOMING)) (rule_place CN_INCOMING e) =
    get32 (buf_content out) (rule_place CN_OUTGOING e)"
proof -
  let ?a = "get32 (buf_content out) (rule_place CN_OUTGOING e)" and ?m = "cn_netmask e"
  have places: "rule_place d e \<in> {12, 16}" for d using rule_place_cases [of d e] by auto
  have tr: "get32 (buf_content (client_nat_transform l b d)) (rule_place d e) =
      translate d [e] (rule_place d e) (get32 (buf_content b) (rule_place d e))" if "buf_ok b" "20 \<le> b_len b" for b d
    using client_nat_transform_content(2,3) [OF that] nat_packet_law(4) [OF _ places] by (simp add: rules)
  have "get32 (buf_content ret) (rule_place CN_INCOMING e) = (?a AND NOT ?m) OR cn_foreign_network e"
    unfolding reply tr [OF out] using there
    by (simp add: translate_def rule_applies_def rule_from_def rule_to_def)
  moreover have "((?a AND NOT ?m) OR cn_foreign_network e) AND ?m = cn_foreign_network e"
    using nets(2) by (simp add: bit.conj_disj_distrib2 and.assoc)
  moreover have "((?a AND NOT ?m) OR cn_foreign_network e) AND NOT ?m = ?a AND NOT ?m"
    using arg_cong [OF nets(2), of "\<lambda>x. x AND NOT ?m"] by (simp add: bit.conj_disj_distrib2 and.assoc)
  moreover have "(?a AND NOT ?m) OR cn_network e = ?a"
    unfolding there [symmetric] by (simp flip: bit.conj_disj_distrib)
  ultimately show ?thesis unfolding tr [OF ret]
    by (simp add: translate_def rule_applies_def rule_from_def rule_to_def CN_INCOMING_def CN_OUTGOING_def)
qed

theorem client_nat_roundtrip_witness:
  "get32 (buf_content (client_nat_transform demo_rules
     (buf_modify (\<lambda>p. take 12 p @ [192, 0, 2, 1, 44, 1, 2, 3] @ drop 20 p) (demo_ip 0 6 (replicate 20 0))) CN_INCOMING)) 16 = 0x0302010A"
proof -
  let ?out = "demo_ip 0 6 (replicate 20 0)"
  let ?ret = "buf_modify (\<lambda>p. take 12 p @ [192, 0, 2, 1, 44, 1, 2, 3] @ drop 20 p) ?out"
  have out: "buf_ok ?out" "20 \<le> b_len ?out" using demo_ip_ok [of "replicate 20 0"] by simp_all
  note p = demo_ip_content [of "replicate 20 0" 0 6, simplified]
  have ret: "buf_ok ?ret" "20 \<le> b_len ?ret" "buf_content ?ret = take 12 (buf_content ?out) @ [192, 0, 2, 1, 44, 1, 2, 3] @ drop 20 (buf_content ?out)"
    using out by (subst buf_modify_law; simp)+
  have a: "get32 (buf_content ?out) 12 = 0x0302010A" unfolding p by code_simp
  have pl: "rule_place CN_OUTGOING demo_rule = 12" "rule_place CN_INCOMING demo_rule = 16" by code_simp+
  have nets: "cn_network demo_rule AND cn_netmask demo_rule = cn_network demo_rule"
    "cn_foreign_network demo_rule AND cn_netmask demo_rule = cn_foreign_network demo_rule"
    "0x0302010A AND cn_netmask demo_rule = cn_network demo_rule" by code_simp+
  have "get32 (buf_content (client_nat_transform demo_rules ?out CN_OUTGOING)) 12 = 0x0302012C"
    unfolding client_nat_transform_content(2) [OF out] p by code_simp
  moreover have "get32 (buf_content ?ret) 16 = 0x0302012C" unfolding ret(3) p by code_simp
  ultimately show ?thesis
    using client_nat_roundtrip [OF demo_rules_rules nets(1,2) out ret(1,2)] unfolding pl a nets(3) by simp
qed


text \<open>A UDP datagram sent without a checksum, its field 0, gets one, which is not its checksum.\<close>

lemma client_nat_invents_udp_checksum:
  "get16 (buf_content (demo_ip 0 17 (replicate 20 0))) 26 = 0 \<and>
   get16 (buf_content (client_nat_transform demo_rules (demo_ip 0 17 (replicate 20 0)) CN_OUTGOING)) 26 \<noteq> 0"
proof -
  have ok: "buf_ok (demo_ip 0 17 (replicate 20 0))" "20 \<le> b_len (demo_ip 0 17 (replicate 20 0))"
    using demo_ip_ok [of "replicate 20 0"] by simp_all
  note p = demo_ip_content [of "replicate 20 0" 0 17, simplified]
  have "get16 (buf_content (client_nat_transform demo_rules (demo_ip 0 17 (replicate 20 0)) CN_OUTGOING)) 26 \<noteq> 0"
    unfolding client_nat_transform_content(2) [OF ok] p by code_simp
  moreover have "get16 (buf_content (demo_ip 0 17 (replicate 20 0))) 26 = 0" unfolding p by code_simp
  ultimately show ?thesis by blast
qed

end
