(* ===== verification/Dhcp.thy ===== *)
theory Dhcp
  imports Client_Nat
begin

section \<open>Taking the router out of DHCP answers (dhcp.c)\<close>

text \<open>
  With \<^verbatim>\<open>--route-gateway dhcp\<close> the client reads the gateway from the DHCP answers that come out of the tunnel and removes
  the router option from them, so that the operating system does not install a default route of its own. The functions
  work on the option area of the message, whose length is \<^verbatim>\<open>optlen\<close>, in place.
\<close>

subsection \<open>The code\<close>

definition DHCP_PAD :: byte where "DHCP_PAD = 0"
definition DHCP_ROUTER :: byte where "DHCP_ROUTER = 3"
definition DHCP_MSG_TYPE :: byte where "DHCP_MSG_TYPE = 53"
definition DHCP_END :: byte where "DHCP_END = 255"
definition DHCPOFFER :: int where "DHCPOFFER = 2"
definition DHCPACK :: int where "DHCPACK = 5"
definition BOOTPS_PORT :: u16 where "BOOTPS_PORT = 67"
definition BOOTPC_PORT :: u16 where "BOOTPC_PORT = 68"
definition BOOTREPLY :: byte where "BOOTREPLY = 2"

function dhcp_message_type_from :: "nat \<Rightarrow> byte list \<Rightarrow> int" where
  "dhcp_message_type_from i p =
     (if \<not> i < length p then -1
      else let type = p ! i; room = length p - i
           in if type = DHCP_END then -1
              else if type = DHCP_PAD then dhcp_message_type_from (i + 1) p
              else if type = DHCP_MSG_TYPE then
                if room \<ge> 3 then if p ! (i + 1) = 1 then uint (p ! (i + 2)) else -1 else -1
              else if room \<ge> 2 then dhcp_message_type_from (i + (unat (p ! (i + 1)) + 1) + 1) p
              else dhcp_message_type_from (i + 1) p)"
  by pat_completeness auto
termination by (relation "measure (\<lambda>(i, p). length p - i)") auto

declare dhcp_message_type_from.simps [simp del]

definition get_dhcp_message_type :: "byte list \<Rightarrow> int" where
  "get_dhcp_message_type p = dhcp_message_type_from 0 p"

text \<open>
  The loop of \<^verbatim>\<open>do_extract\<close>. Removing an option does not advance \<open>i\<close>; it moves the rest of the area forward and fills
  the end with padding, so that fewer bytes at and behind \<open>i\<close> are not padding.
\<close>

definition delete_option :: "nat \<Rightarrow> nat \<Rightarrow> byte list \<Rightarrow> byte list" where
  "delete_option i owlen p = take i p @ drop (i + owlen) p @ replicate owlen DHCP_PAD"

definition dhcp_load :: "nat \<Rightarrow> byte list \<Rightarrow> nat" where
  "dhcp_load i p = length (filter (\<lambda>b. b \<noteq> DHCP_PAD) (drop i p))"

lemma dhcp_load_less:
  assumes "i < length p" "p ! i \<noteq> DHCP_PAD" "i < j"
  shows "dhcp_load j p < dhcp_load i p"
proof -
  have "drop j p = drop (j - Suc i) (drop (Suc i) p)" using assms(3) by simp
  then have "length (filter (\<lambda>b. b \<noteq> DHCP_PAD) (drop j p)) \<le> length (filter (\<lambda>b. b \<noteq> DHCP_PAD) (drop (Suc i) p))"
    by (metis append_take_drop_id filter_append length_append le_add2)
  then show ?thesis using assms(1,2) by (simp add: dhcp_load_def Cons_nth_drop_Suc [symmetric])
qed

lemma dhcp_load_delete:
  "i + n \<le> length p \<Longrightarrow> dhcp_load i (delete_option i n p) = dhcp_load (i + n) p"
  by (simp add: dhcp_load_def delete_option_def)

function do_extract_from :: "nat \<Rightarrow> byte list \<Rightarrow> u32 \<Rightarrow> u32 \<times> byte list" where
  "do_extract_from i p ret =
     (if \<not> i < length p then (ret, p)
      else let type = p ! i; room = length p - i; len = unat (p ! (i + 1))
           in if type = DHCP_END then (ret, p)
              else if type = DHCP_PAD then do_extract_from (i + 1) p ret
              else if type = DHCP_ROUTER then
                if room \<ge> 2 then
                  if len \<le> room - 2 then
                    do_extract_from i (delete_option i (len + 2) p)
                      (if ret = 0 \<and> len \<ge> 4 \<and> len mod 4 = 0 then bytes_u32 (take 4 (drop (i + 2) p)) else ret)
                  else (ret, p)
                else (ret, p)
              else if room \<ge> 2 then do_extract_from (i + (len + 2)) p ret
              else (ret, p))"
  by pat_completeness auto
termination
  by (relation "measures [\<lambda>(i, p, ret). dhcp_load i p, \<lambda>(i, p, ret). length p - i]")
     (auto simp: dhcp_load_less dhcp_load_delete, auto simp: dhcp_load_def Cons_nth_drop_Suc [symmetric])

declare do_extract_from.simps [simp del]

definition do_extract :: "byte list \<Rightarrow> u32 \<times> byte list" where
  "do_extract p = do_extract_from 0 p 0"

definition dhcp_extract_router_msg :: "buffer \<Rightarrow> u32 \<times> buffer" where
  "dhcp_extract_router_msg ipbuf =
     (let df = buf_content ipbuf; optlen = buf_len ipbuf - (20 + 8 + 240)
      in if optlen \<ge> 0 \<and> df ! 9 = OPENVPN_IPPROTO_UDP \<and> get16 df 20 = htons BOOTPS_PORT
           \<and> get16 df 22 = htons BOOTPC_PORT \<and> df ! 28 = BOOTREPLY then
           let message_type = get_dhcp_message_type (drop 268 df)
           in if message_type = DHCPACK \<or> message_type = DHCPOFFER then
                let (ret, options) = do_extract (drop 268 df);
                    df = put16 26 0 (take 268 df @ options);
                    df = put16 26 (htons (ip_checksum AF_INET (drop 20 df) (drop 12 df) (drop 16 df)
                           (uint OPENVPN_IPPROTO_UDP))) df
                in (if message_type = DHCPACK then ret else 0, buf_modify (\<lambda>_. df) ipbuf)
              else (0, ipbuf)
         else (0, ipbuf))"

subsection \<open>Options\<close>

text \<open>The options of an area, up to its end marker or its end; \<^const>\<open>None\<close> when an option does not fit.\<close>

function dhcp_parse :: "byte list \<Rightarrow> (byte \<times> byte list) list option" where
  "dhcp_parse [] = Some []"
| "dhcp_parse (t # xs) =
     (if t = DHCP_END then Some []
      else if t = DHCP_PAD then dhcp_parse xs
      else case xs of
             [] \<Rightarrow> None
           | n # ys \<Rightarrow> if unat n \<le> length ys
               then map_option ((#) (t, take (unat n) ys)) (dhcp_parse (drop (unat n) ys)) else None)"
  by pat_completeness auto
termination by (relation "measure length") auto

text \<open>The router the options announce: the first address of the first router option with an address that is not 0.\<close>

definition router_of :: "(byte \<times> byte list) list \<Rightarrow> u32" where
  "router_of os =
     (case find (\<lambda>a. a \<noteq> 0) [bytes_u32 (take 4 v). (t, v) \<leftarrow> os, t = DHCP_ROUTER \<and> 4 \<le> length v \<and> length v mod 4 = 0] of
        None \<Rightarrow> 0 | Some a \<Rightarrow> a)"

lemma dhcp_parse_padded: "dhcp_parse s = Some os \<Longrightarrow> dhcp_parse (s @ replicate n DHCP_PAD) = Some os"
proof (induction s arbitrary: os rule: dhcp_parse.induct)
  case 1
  have "dhcp_parse (replicate n DHCP_PAD) = Some []" by (induction n) (simp_all add: DHCP_PAD_def DHCP_END_def)
  with 1 show ?case by simp
next
  case (2 t xs)
  then show ?case by (auto split: if_splits list.splits)
qed

lemma dhcp_walk_cases:
  assumes "dhcp_parse (drop i p) = Some os" "i < length p"
  obtains (stop) "p ! i = DHCP_END" "os = []"
  | (pad) "p ! i = DHCP_PAD" "p ! i \<noteq> DHCP_END" "dhcp_parse (drop (i + 1) p) = Some os"
  | (option) v os' where "p ! i \<noteq> DHCP_END" "p ! i \<noteq> DHCP_PAD" "2 \<le> length p - i" "unat (p ! (i + 1)) \<le> length p - i - 2"
      "v = take (unat (p ! (i + 1))) (drop (i + 2) p)" "length v = unat (p ! (i + 1))" "os = (p ! i, v) # os'"
      "dhcp_parse (drop (i + (unat (p ! (i + 1)) + 2)) p) = Some os'"
proof -
  have s: "drop i p = p ! i # drop (Suc i) p" using assms(2) by (simp add: Cons_nth_drop_Suc)
  consider "p ! i = DHCP_END" | "p ! i = DHCP_PAD" "p ! i \<noteq> DHCP_END" | "p ! i \<noteq> DHCP_END" "p ! i \<noteq> DHCP_PAD" by blast
  then show thesis
  proof cases
    case 1 then show thesis using assms s stop by simp
  next
    case 2 then show thesis using assms s pad by simp
  next
    case 3
    then obtain n ys where d: "drop (Suc i) p = n # ys" using assms s by (auto split: list.splits)
    then have "Suc i < length p" by (metis drop_all leI list.discI)
    then have n: "n = p ! (i + 1)" "ys = drop (i + 2) p" using d by (auto simp: Cons_nth_drop_Suc [symmetric])
    have "unat n \<le> length ys" using assms(1) 3 s d by (simp split: if_splits)
    moreover from this obtain os' where "os = (p ! i, take (unat n) ys) # os'" "dhcp_parse (drop (unat n) ys) = Some os'"
      using assms(1) 3 s d by (auto split: if_splits)
    ultimately show thesis using option [of "take (unat n) ys" os'] 3 \<open>Suc i < length p\<close> by (simp add: n add.commute)
  qed
qed

lemma dhcp_message_type_parse:
  assumes "dhcp_parse (drop i p) = Some os"
  shows "dhcp_message_type_from i p =
    (case find (\<lambda>(t, v). t = DHCP_MSG_TYPE) os of None \<Rightarrow> -1 | Some (t, v) \<Rightarrow> if length v = 1 then uint (hd v) else -1)"
  using assms
proof (induction i p arbitrary: os rule: dhcp_message_type_from.induct)
  case (1 i p)
  show ?case
  proof (cases "i < length p")
    case False
    then show ?thesis using 1(4) by (subst dhcp_message_type_from.simps) simp
  next
    case True
    from 1(4) True show ?thesis
    proof (cases rule: dhcp_walk_cases)
      case stop
      then show ?thesis using True by (subst dhcp_message_type_from.simps) simp
    next
      case pad
      then show ?thesis using True 1(1) [OF _ refl refl pad(2,1,3)] by (subst dhcp_message_type_from.simps) simp
    next
      case (option v os')
      have hd: "length v = 1 \<Longrightarrow> hd v = p ! (i + 2)" using option(5,6) by (cases v) (auto simp: hd_drop_conv_nth take_Suc)
      have one: "unat (p ! (i + 1)) = 1 \<longleftrightarrow> p ! (i + 1) = 1" by (metis unsigned_1 word_unat_eq_iff)
      show ?thesis
      proof (cases "p ! i = DHCP_MSG_TYPE")
        case msg: True
        then show ?thesis using option True hd one
          by (subst dhcp_message_type_from.simps) (auto simp: Let_def)
      next
        case False
        then show ?thesis using 1(2) [OF _ refl refl option(1,2) False option(3), of os'] option True
          by (subst dhcp_message_type_from.simps) (simp add: Let_def add.assoc)
      qed
    qed
  qed
qed

definition no_router :: "byte \<times> byte list \<Rightarrow> bool" where
  "no_router x = (fst x \<noteq> DHCP_ROUTER)"

lemma no_router_Pair [simp]: "no_router (t, v) \<longleftrightarrow> t \<noteq> DHCP_ROUTER"
  by (simp add: no_router_def)

fun first_router :: "u32 \<Rightarrow> (byte \<times> byte list) list \<Rightarrow> u32" where
  "first_router ret [] = ret"
| "first_router ret ((t, v) # os) =
     first_router (if t = DHCP_ROUTER \<and> ret = 0 \<and> length v \<ge> 4 \<and> length v mod 4 = 0 then bytes_u32 (take 4 v) else ret) os"

lemma first_router_found: "ret \<noteq> 0 \<Longrightarrow> first_router ret os = ret"
  by (induction os) auto

lemma first_router_of: "first_router 0 os = router_of os"
proof (induction os)
  case (Cons x os)
  obtain t v where x: "x = (t, v)" by (cases x)
  show ?case using Cons first_router_found [of "bytes_u32 (take 4 v)" os]
    by (cases "bytes_u32 (take 4 v) = 0") (auto simp: x router_of_def)
qed (simp add: router_of_def)

lemma take_prefix_eq: "take j q = take j p \<Longrightarrow> i \<le> j \<Longrightarrow> take i q = take i p"
  by (metis min_absorb1 take_take)

lemma delete_option_shape:
  assumes "i + n \<le> length p"
  shows "length (delete_option i n p) = length p" "take i (delete_option i n p) = take i p"
    "drop i (delete_option i n p) = drop (i + n) p @ replicate n DHCP_PAD"
  using assms by (simp_all add: delete_option_def)

text \<open>A walk that keeps the options it passes: the bytes before \<open>j\<close> of the result are those of \<open>p\<close>.\<close>

lemma dhcp_parse_step:
  assumes "take j q = take j p" "length q = length p" "i < j" "j \<le> length p" "p ! i = DHCP_PAD" "j = i + 1"
  shows "dhcp_parse (drop i q) = dhcp_parse (drop j q)"
proof -
  have "q ! i = p ! i" using assms(1,3) by (metis nth_take)
  moreover have "drop i q = q ! i # drop (Suc i) q" using assms by (simp add: Cons_nth_drop_Suc)
  ultimately show ?thesis using assms by (simp add: DHCP_PAD_def DHCP_END_def)
qed

lemma dhcp_parse_option:
  assumes q: "take j q = take j p" "length q = length p" and j: "j = i + (unat (p ! (i + 1)) + 2)" "j \<le> length p"
    and t: "p ! i \<noteq> DHCP_END" "p ! i \<noteq> DHCP_PAD"
  shows "dhcp_parse (drop i q) =
    map_option ((#) (p ! i, take (unat (p ! (i + 1))) (drop (i + 2) p))) (dhcp_parse (drop j q))"
proof -
  let ?n = "unat (p ! (i + 1))"
  have n: "q ! k = p ! k" if "k < j" for k using q(1) that by (metis nth_take)
  have d: "drop i q = q ! i # q ! (i + 1) # drop (i + 2) q" using j q(2) by (simp add: Cons_nth_drop_Suc)
  have v: "take ?n (drop (i + 2) q) = take ?n (drop (i + 2) p)"
    using arg_cong [OF q(1), of "drop (i + 2)"] by (simp add: drop_take j)
  show ?thesis unfolding d using t n [of i] n [of "i + 1"] v j q(2) by (simp add: add.commute)
qed

lemma do_extract_law:
  assumes "dhcp_parse (drop i p) = Some os" "i \<le> length p" "do_extract_from i p ret = (r, q)"
  shows "length q = length p \<and> take i q = take i p \<and> dhcp_parse (drop i q) = Some (filter no_router os) \<and> r = first_router ret os"
  using assms
proof (induction i p ret arbitrary: os rule: do_extract_from.induct)
  case (1 i p ret)
  note run = 1(6) [unfolded do_extract_from.simps [of i p ret]]
  show ?case
  proof (cases "i < length p")
    case False
    then show ?thesis using 1(4) run by simp
  next
    case True
    from 1(4) True show ?thesis
    proof (cases rule: dhcp_walk_cases)
      case stop
      then show ?thesis using True run 1(4) by simp
    next
      case pad
      have "do_extract_from (i + 1) p ret = (r, q)" using run True pad by simp
      note IH = 1(1) [OF _ refl refl refl pad(2,1,3) _ this]
      have "take (i + 1) q = take (i + 1) p \<Longrightarrow> take i q = take i p" by (erule take_prefix_eq) simp
      then show ?thesis using IH True dhcp_parse_step [of "i + 1" q p i] pad(1) by simp
    next
      case (option v os')
      let ?n = "unat (p ! (i + 1))"
      have fits: "i + (?n + 2) \<le> length p" using option(3,4) by simp
      show ?thesis
      proof (cases "p ! i = DHCP_ROUTER")
        case router: True
        let ?p = "delete_option i (?n + 2) p"
        let ?ret = "if ret = 0 \<and> 4 \<le> ?n \<and> ?n mod 4 = 0 then bytes_u32 (take 4 (drop (i + 2) p)) else ret"
        note d = delete_option_shape [OF fits]
        have "do_extract_from i ?p ?ret = (r, q)" using run True option router by (simp add: Let_def)
        moreover have "dhcp_parse (drop i ?p) = Some os'" unfolding d(3) using option(8) by (rule dhcp_parse_padded)
        ultimately have IH: "length q = length ?p \<and> take i q = take i ?p \<and>
            dhcp_parse (drop i q) = Some (filter no_router os') \<and> r = first_router ?ret os'"
          using 1(2) [OF _ refl refl refl option(1,2) router option(3) _] option(4) True d(1) by simp
        have "take 4 v = take 4 (drop (i + 2) p)" if "4 \<le> ?n" using that by (simp add: option(5) min_absorb1)
        then have "first_router ret os = first_router ?ret os'" by (simp add: option(6,7) router)
        then show ?thesis using IH d router option(7) by simp
      next
        case False
        have "do_extract_from (i + (?n + 2)) p ret = (r, q)" using run True option False by (simp add: Let_def)
        note IH = 1(3) [OF _ refl refl refl option(1,2) False option(3,8) fits this]
        have "take (i + (?n + 2)) q = take (i + (?n + 2)) p \<Longrightarrow> take i q = take i p" by (erule take_prefix_eq) simp
        then show ?thesis
          using IH True dhcp_parse_option [of "i + (?n + 2)" q p i] option(1,2,5,7) fits False by simp
      qed
    qed
  qed
qed

subsection \<open>The message\<close>

definition dhcp_reply :: "byte list \<Rightarrow> bool" where
  "dhcp_reply p \<longleftrightarrow> 268 \<le> length p \<and> p ! 9 = OPENVPN_IPPROTO_UDP \<and> get16 p 20 = htons BOOTPS_PORT \<and>
     get16 p 22 = htons BOOTPC_PORT \<and> p ! 28 = BOOTREPLY"

definition dhcp_rewrite :: "byte list \<Rightarrow> byte list \<Rightarrow> byte list" where
  "dhcp_rewrite options df =
     (let df = put16 26 0 (take 268 df @ options)
      in put16 26 (htons (ip_checksum AF_INET (drop 20 df) (drop 12 df) (drop 16 df) (uint OPENVPN_IPPROTO_UDP))) df)"

lemma take_drop_put16: "m + n \<le> i \<Longrightarrow> take n (drop m (put16 i w p)) = take n (drop m p)"
  by (simp add: put16_drop put16_take_after)

lemma dhcp_rewrite_law:
  assumes "268 \<le> length p" "length p \<le> 65535" "length options = length p - 268"
  defines "q \<equiv> dhcp_rewrite options p"
  shows "length q = length p" "drop 268 q = options"
    "j < 268 \<Longrightarrow> j \<noteq> 26 \<Longrightarrow> j \<noteq> 27 \<Longrightarrow> q ! j = p ! j"
    "ip_checksum AF_INET (drop 20 q) (drop 12 q) (drop 16 q) (uint OPENVPN_IPPROTO_UDP) = 0"
proof -
  define z where "z = put16 26 0 (take 268 p @ options)"
  define c where "c = ip_checksum AF_INET (drop 20 z) (drop 12 z) (drop 16 z) (uint OPENVPN_IPPROTO_UDP)"
  have q: "q = put16 26 (htons c) z" by (simp add: q_def dhcp_rewrite_def Let_def c_def z_def)
  have lz: "length z = length p" using assms by (simp add: z_def length_put16)
  show "length q = length p" using lz by (simp add: q length_put16)
  show "drop 268 q = options" using assms(1) by (simp add: q z_def put16_drop_before)
  show "q ! j = p ! j" if "j < 268" "j \<noteq> 26" "j \<noteq> 27" using that assms(1) by (simp add: q z_def put16_nth nth_append)
  have "get16 (drop 20 z) 6 = 0" using get16_drop [of 20 26 z] lz assms(1,3) by (simp add: z_def get16_put16)
  then have "ip_checksum AF_INET (put16 6 (htons c) (drop 20 z)) (drop 12 z) (drop 16 z) (uint OPENVPN_IPPROTO_UDP) = 0"
    unfolding c_def using lz assms(1,2) by (intro ip_checksum_verifies) simp_all
  moreover have "drop 20 q = put16 6 (htons c) (drop 20 z)" by (simp add: q put16_drop)
  moreover have "take 4 (drop 12 q) = take 4 (drop 12 z)" "take 4 (drop 16 q) = take 4 (drop 16 z)"
    by (simp_all add: q take_drop_put16)
  note ip_checksum_addr_cong [OF this, of "drop 20 q"]
  ultimately show "ip_checksum AF_INET (drop 20 q) (drop 12 q) (drop 16 q) (uint OPENVPN_IPPROTO_UDP) = 0" by simp
qed

text \<open>C20: From a DHCP offer or acknowledgement with well-formed options \<^verbatim>\<open>dhcp_extract_router_msg\<close> removes exactly the
router options: the options of the message afterwards are the other ones in their order. It returns the router of an
acknowledgement, that is the first address of the first router option that has one, and 0 for an offer; the UDP
checksum of the message verifies, and nothing before the options changes but that checksum.\<close>

theorem dhcp_router_removed:
  assumes "buf_ok ipbuf" "dhcp_reply (buf_content ipbuf)" "b_len ipbuf \<le> 65535"
    and os: "dhcp_parse (drop 268 (buf_content ipbuf)) = Some os"
    and m: "find (\<lambda>(t, v). t = DHCP_MSG_TYPE) os = Some (DHCP_MSG_TYPE, [m])" "uint m = DHCPACK \<or> uint m = DHCPOFFER"
  shows "let (ret, buf') = dhcp_extract_router_msg ipbuf; p = buf_content ipbuf; q = buf_content buf'
    in buf_ok buf' \<and> ret = (if uint m = DHCPACK then router_of os else 0) \<and>
       dhcp_parse (drop 268 q) = Some (filter no_router os) \<and> length q = length p \<and>
       (\<forall>j<268. j \<noteq> 26 \<and> j \<noteq> 27 \<longrightarrow> q ! j = p ! j) \<and>
       ip_checksum AF_INET (drop 20 q) (drop 12 q) (drop 16 q) (uint OPENVPN_IPPROTO_UDP) = 0"
proof -
  let ?p = "buf_content ipbuf"
  obtain r options where x: "do_extract (drop 268 ?p) = (r, options)" by (cases "do_extract (drop 268 ?p)")
  have law: "length options = length ?p - 268" "dhcp_parse options = Some (filter no_router os)" "r = router_of os"
    using do_extract_law [of 0 "drop 268 ?p" os 0 r options] os x by (simp_all add: do_extract_def first_router_of)
  have type: "get_dhcp_message_type (drop 268 ?p) = uint m"
    using dhcp_message_type_parse [of 0 "drop 268 ?p" os] os m(1) by (simp add: get_dhcp_message_type_def)
  have "int (length ?p) = b_len ipbuf" using assms(1) by simp
  then have len: "268 \<le> length ?p" "length ?p \<le> 65535" "268 \<le> b_len ipbuf"
    using assms(2,3) unfolding dhcp_reply_def by linarith+
  note rw = dhcp_rewrite_law [OF len(1,2) law(1)]
  have e: "dhcp_extract_router_msg ipbuf = (if uint m = DHCPACK then r else 0, buf_modify (\<lambda>_. dhcp_rewrite options ?p) ipbuf)"
    using assms(1,2) len(3) m(2) type x
    by (simp add: dhcp_extract_router_msg_def dhcp_reply_def dhcp_rewrite_def Let_def)
  note mod = buf_modify_law [of ipbuf "\<lambda>_. dhcp_rewrite options ?p", OF assms(1) rw(1)]
  show ?thesis using mod rw law(2,3) unfolding e Let_def split_conv by simp
qed

definition demo_ack :: buffer where
  "demo_ack = \<lparr>b_capacity = 278, b_offset = 0, b_len = 278, b_data = Some
     ([0x45, 0, 1, 22, 0, 0, 0, 0, 64, 17, 0, 0, 10, 0, 0, 1, 10, 0, 0, 2, 0, 67, 0, 68, 1, 2, 0, 0, 2] @ replicate 239 0 @
      [53, 1, 5, 3, 4, 10, 0, 0, 1, 255])\<rparr>"

theorem dhcp_router_removed_witness:
  "fst (dhcp_extract_router_msg demo_ack) = 0x0A000001 \<and>
   dhcp_parse (drop 268 (buf_content (snd (dhcp_extract_router_msg demo_ack)))) = Some [(53, [5])]"
proof -
  have ok: "buf_ok demo_ack" "b_len demo_ack \<le> 65535" by (simp_all add: demo_ack_def buf_ok_def BUF_SIZE_MAX_def)
  have p: "buf_content demo_ack =
      ([0x45, 0, 1, 22, 0, 0, 0, 0, 64, 17, 0, 0, 10, 0, 0, 1, 10, 0, 0, 2, 0, 67, 0, 68, 1, 2, 0, 0, 2] @ replicate 239 0 @
       [53, 1, 5, 3, 4, 10, 0, 0, 1, 255])"
    by (simp add: demo_ack_def buf_content_def buf_defs mem_load_def)
  have r: "dhcp_reply (buf_content demo_ack)" unfolding p by code_simp
  have os: "dhcp_parse (drop 268 (buf_content demo_ack)) = Some [(53, [5]), (3, [10, 0, 0, 1])]" unfolding p by code_simp
  have m: "find (\<lambda>(t, v). t = DHCP_MSG_TYPE) [(53, [5]), (3, [10, 0, 0, 1])] = Some (DHCP_MSG_TYPE, [5 :: byte])"
    "uint (5 :: byte) = DHCPACK \<or> uint (5 :: byte) = DHCPOFFER" by code_simp+
  have f: "router_of [(53, [5]), (3, [10, 0, 0, 1])] = 0x0A000001" "uint (5 :: byte) = DHCPACK"
    "filter no_router [(53, [5]), (3, [10, 0, 0, 1])] = [(53, [5])]" by code_simp+
  show ?thesis using dhcp_router_removed [OF ok(1) r ok(2) os m] unfolding f Let_def by (simp add: f(2) split: prod.splits)
qed

end
