(* ===== verification/Ip_Header.thy ===== *)
theory Ip_Header
  imports Dhcp Frame Forward_Flags
begin

section \<open>Packets of the tun device (forward.c, forward.h)\<close>

text \<open>
  What happens to a packet between the tun device and the tunnel: it is dropped when it would be routed into the tunnel
  that carries it; its MSS is lowered, its addresses are translated, a DHCP answer is rewritten; and with
  \<^verbatim>\<open>--block-ipv6\<close> an IPv6 packet is answered with an ICMPv6 error and dropped. The context holds the part of
  \<^verbatim>\<open>struct context\<close> these functions read and change. \<^verbatim>\<open>inet_pton\<close> and the encryption of the packet are arguments.
\<close>

subsection \<open>State\<close>

definition MODE_POINT_TO_POINT :: int where "MODE_POINT_TO_POINT = 0"

record tun_options =
  o_mode :: int
  o_allow_recursive_routing :: bool
  o_mssfix :: int
  o_passtos :: bool
  o_client_nat :: "client_nat_option_list option"
  o_route_gateway_via_dhcp :: bool
  o_block_ipv6 :: bool
  o_ifconfig_ipv6_remote :: "string option"

text \<open>The address of the peer is its family and the bytes of its address; the route list is \<^const>\<open>None\<close> or holds the
  \<^verbatim>\<open>remote_endpoint\<close> of its \<^verbatim>\<open>spec\<close>, when its flag is set.\<close>

record tun_context =
  t_options :: tun_options
  t_tunnel_type :: int
  t_frame :: frame
  t_to_link_addr :: "(int \<times> byte list) option"
  t_route_list :: "u32 option option"
  t_ptos :: "byte option"
  t_tun_read_bytes :: int
  t_buf :: buffer
  t_to_tun :: buffer
  t_to_link :: buffer
  t_aux_buf :: buffer

subsection \<open>Recursive routing\<close>

definition drop_if_recursive_routing :: "tun_context \<Rightarrow> tun_context" where
  "drop_if_recursive_routing c =
     (case t_to_link_addr c of
        None \<Rightarrow> c
      | Some (family, addr) \<Rightarrow>
          let buf = t_buf c;
              (proto_ver, ip_hdr_offset) = get_tun_ip_ver (t_tunnel_type c) buf;
              p = drop (nat ip_hdr_offset) (buf_content buf);
              drop_it =
                (if proto_ver = 4 then
                   if buf_len buf < 20 + ip_hdr_offset then False
                   else if family \<noteq> AF_INET then False
                   else addr = take 4 (drop 16 p)
                 else if proto_ver = 6 then
                   if buf_len buf < 40 + ip_hdr_offset then False
                   else if family \<noteq> AF_INET6 then False
                   else addr = take 16 (drop 24 p)
                 else False)
          in if drop_it then c\<lparr>t_buf := buf\<lparr>b_len := 0\<rparr>\<rparr> else c)"

subsection \<open>ICMPv6 errors\<close>

definition MAX_ICMPV6LEN :: int where "MAX_ICMPV6LEN = 1280"
definition OPENVPN_IPPROTO_ICMPV6 :: byte where "OPENVPN_IPPROTO_ICMPV6 = 58"
definition OPENVPN_ICMP6_DESTINATION_UNREACHABLE :: byte where "OPENVPN_ICMP6_DESTINATION_UNREACHABLE = 1"
definition OPENVPN_ICMP6_DU_NOROUTE :: byte where "OPENVPN_ICMP6_DU_NOROUTE = 0"

definition fe80_7 :: "byte list" where
  "fe80_7 = [0xfe, 0x80, 0, 0, 0, 0, 0, 0, 0, 0, 0, 0, 0, 0, 0, 7]"

text \<open>
  The address the answer comes from: a string that \<^verbatim>\<open>inet_pton\<close> does not accept leaves \<^verbatim>\<open>pip6out.saddr\<close>, a copy of the
  packet's source address, as it is.
\<close>

definition icmp6_saddr :: "(string \<Rightarrow> byte list option) \<Rightarrow> tun_options \<Rightarrow> byte list \<Rightarrow> byte list" where
  "icmp6_saddr inet_pton opt pip6 =
     (case o_ifconfig_ipv6_remote opt of
        None \<Rightarrow> fe80_7
      | Some s \<Rightarrow> (case inet_pton s of None \<Rightarrow> take 16 (drop 8 pip6) | Some a \<Rightarrow> a))"

definition ipv6_send_icmp_unreachable ::
  "(string \<Rightarrow> byte list option) \<Rightarrow> tun_context \<Rightarrow> buffer \<Rightarrow> bool \<Rightarrow> tun_context exec" where
  "ipv6_send_icmp_unreachable inet_pton c buf client =
     (let inputipbuf = snd (is_ipv6 (t_tunnel_type c) buf)
      in if buf_len inputipbuf < 40 then Some c
         else
           let pip6 = buf_content inputipbuf;
               daddr = take 16 (drop 8 pip6);
               saddr = icmp6_saddr inet_pton (t_options c) pip6;
               icmp6out = [OPENVPN_ICMP6_DESTINATION_UNREACHABLE, OPENVPN_ICMP6_DU_NOROUTE, 0, 0, 0, 0, 0, 0];
               icmpheader_len = 40 + 8;
               totalheader_len = (if t_tunnel_type c = DEV_TYPE_TAP then icmpheader_len + 14 else icmpheader_len);
               max_payload_size = min MAX_ICMPV6LEN (TUN_MTU_SIZE (t_frame c) - icmpheader_len);
               payload_len = min max_payload_size (buf_len inputipbuf);
               pip6out = take 4 pip6 @ u16_bytes (word_of_int (8 + payload_len)) @ [OPENVPN_IPPROTO_ICMPV6, pip6 ! 7]
                 @ saddr @ daddr;
               commit = (\<lambda>outbuf. let c = c\<lparr>t_aux_buf := (t_aux_buf c)\<lparr>b_data := b_data outbuf\<rparr>\<rparr>
                 in if client then c\<lparr>t_to_tun := outbuf\<rparr> else c\<lparr>t_to_link := outbuf\<rparr>)
           in do {
                let (ok, outbuf) = buf_init (t_aux_buf c) totalheader_len;
                assert_c ok;
                assert_c (buf_safe outbuf payload_len);
                let (ok, outbuf, inputipbuf) = buf_copy_n outbuf inputipbuf payload_len;
                assert_c ok;
                let (ok, outbuf) = buf_write_prepend outbuf icmp6out 8;
                assert_c ok;
                let new_csum = ip_checksum AF_INET6 (buf_content outbuf) saddr daddr (uint OPENVPN_IPPROTO_ICMPV6);
                let outbuf = buf_modify (put16 2 (htons new_csum)) outbuf;
                let (ok, outbuf) = buf_write_prepend outbuf pip6out 40;
                assert_c ok;
                if t_tunnel_type c = DEV_TYPE_TAP then
                  if buf_len buf < 14 then Some (commit outbuf)
                  else do {
                    let orig = buf_content buf;
                    let ethhdr = take 6 (drop 6 orig) @ take 6 orig @ u16_bytes OPENVPN_ETH_P_IPV6;
                    let (ok, outbuf) = buf_write_prepend outbuf ethhdr 14;
                    assert_c ok;
                    Some (commit outbuf) }
                else Some (commit outbuf) })"

subsection \<open>Headers\<close>

definition MTU_TO_MSS :: "int \<Rightarrow> int" where
  "MTU_TO_MSS mtu = mtu - 20 - 20"

definition route_list_add_vpn_gateway :: "u32 option option \<Rightarrow> u32 \<Rightarrow> u32 option option exec" where
  "route_list_add_vpn_gateway rl addr = do { assert_c (rl \<noteq> None); Some (Some (Some addr)) }"

definition link_socket_extract_tos :: "buffer \<Rightarrow> byte option" where
  "link_socket_extract_tos ipbuf = Some (buf_content ipbuf ! 1)"

text \<open>The flags of features that are not configured are cleared.\<close>

definition pip_flags :: "tun_options \<Rightarrow> u32 \<Rightarrow> u32" where
  "pip_flags opt flags =
     (let flags = (if o_mssfix opt = 0 then flags AND NOT PIP_MSSFIX else flags);
          flags = (if \<not> o_passtos opt then flags AND NOT PIPV4_PASSTOS else flags);
          flags = (if o_client_nat opt = None then flags AND NOT PIPV4_CLIENT_NAT else flags);
          flags = (if \<not> o_route_gateway_via_dhcp opt then flags AND NOT PIPV4_EXTRACT_DHCP_ROUTER else flags)
      in if \<not> o_block_ipv6 opt then flags AND NOT (PIPV6_IMCP_NOHOST_CLIENT OR PIPV6_IMCP_NOHOST_SERVER) else flags)"

text \<open>The copy \<open>ipbuf\<close> of \<open>*buf\<close> shares its block: what is written through it is seen in \<open>buf\<close>.\<close>

definition process_ip_header ::
  "(string \<Rightarrow> byte list option) \<Rightarrow> tun_context \<Rightarrow> u32 \<Rightarrow> buffer \<Rightarrow> (tun_context \<times> buffer) exec" where
  "process_ip_header inet_pton c flags buf =
     (let opt = t_options c;
          flags = pip_flags opt flags;
          maxmss = MTU_TO_MSS (TUN_MTU_SIZE_DYNAMIC (t_frame c))
      in if b_len buf > 0 \<and> flags AND (PIP_MSSFIX OR PIPV4_PASSTOS OR PIPV4_CLIENT_NAT) \<noteq> 0 then
           case is_ipv4 (t_tunnel_type c) buf of
             (True, ipbuf) \<Rightarrow> do {
               let c = (if flags AND PIPV4_PASSTOS \<noteq> 0 then c\<lparr>t_ptos := link_socket_extract_tos ipbuf\<rparr> else c);
               let ipbuf = (if flags AND PIP_MSSFIX \<noteq> 0 then mss_fixup_ipv4 ipbuf maxmss else ipbuf);
               let ipbuf = (case o_client_nat opt of
                              Some l \<Rightarrow> if flags AND PIPV4_CLIENT_NAT \<noteq> 0
                                then client_nat_transform l ipbuf (if flags AND PIP_OUTGOING \<noteq> 0 then CN_INCOMING else CN_OUTGOING)
                                else ipbuf
                            | None \<Rightarrow> ipbuf);
               (c, ipbuf) \<leftarrow> (if flags AND PIPV4_EXTRACT_DHCP_ROUTER \<noteq> 0 then do {
                     let (dhcp_router, ipbuf) = dhcp_extract_router_msg ipbuf;
                     if dhcp_router \<noteq> 0 then do {
                       rl \<leftarrow> route_list_add_vpn_gateway (t_route_list c) dhcp_router;
                       Some (c\<lparr>t_route_list := rl\<rparr>, ipbuf) }
                     else Some (c, ipbuf) }
                   else Some (c, ipbuf));
               Some (c, buf\<lparr>b_data := b_data ipbuf\<rparr>) }
           | (False, _) \<Rightarrow>
               (case is_ipv6 (t_tunnel_type c) buf of
                  (True, ipbuf) \<Rightarrow> do {
                    let ipbuf = (if flags AND PIP_MSSFIX \<noteq> 0 then mss_fixup_ipv6 ipbuf maxmss else ipbuf);
                    let buf = buf\<lparr>b_data := b_data ipbuf\<rparr>;
                    if flags AND PIP_OUTGOING = 0 \<and> flags AND (PIPV6_IMCP_NOHOST_CLIENT OR PIPV6_IMCP_NOHOST_SERVER) \<noteq> 0 then do {
                      c \<leftarrow> ipv6_send_icmp_unreachable inet_pton c buf (flags AND PIPV6_IMCP_NOHOST_CLIENT \<noteq> 0);
                      Some (c, buf\<lparr>b_len := 0\<rparr>) }
                    else Some (c, buf) }
                | (False, _) \<Rightarrow> Some (c, buf))
         else Some (c, buf))"

text \<open>\<open>encrypt_sign\<close> is the function of that name: it fills \<^verbatim>\<open>to_link\<close> from \<^verbatim>\<open>buf\<close>.\<close>

definition process_incoming_tun ::
  "(string \<Rightarrow> byte list option) \<Rightarrow> (tun_context \<Rightarrow> tun_context exec) \<Rightarrow> tun_context \<Rightarrow> tun_context exec" where
  "process_incoming_tun inet_pton encrypt_sign c = do {
     let c = (if b_len (t_buf c) > 0 then c\<lparr>t_tun_read_bytes := t_tun_read_bytes c + b_len (t_buf c)\<rparr> else c);
     c \<leftarrow> (if b_len (t_buf c) > 0 then do {
            let c = (if o_mode (t_options c) = MODE_POINT_TO_POINT \<and> \<not> o_allow_recursive_routing (t_options c)
                     then drop_if_recursive_routing c else c);
            (c, buf) \<leftarrow> process_ip_header inet_pton c
              (PIPV4_PASSTOS OR PIP_MSSFIX OR PIPV4_CLIENT_NAT OR PIPV6_IMCP_NOHOST_CLIENT) (t_buf c);
            Some (c\<lparr>t_buf := buf\<rparr>) }
          else Some c);
     if b_len (t_buf c) > 0 then encrypt_sign c
     else Some (c\<lparr>t_to_link := buf_reset (t_to_link c)\<rparr>) }"

subsection \<open>Lemmas\<close>

definition header_offset :: "int \<Rightarrow> int" where
  "header_offset tunnel_type = (if tunnel_type = DEV_TYPE_TAP then 14 else 0)"

lemma is_ipv_X_True:
  assumes "buf_ok buf" "is_ipv_X tunnel_type buf v = (True, ipbuf)"
  defines "off \<equiv> header_offset tunnel_type"
  shows "ipbuf = buf\<lparr>b_offset := b_offset buf + off, b_len := b_len buf - off\<rparr>"
    "tunnel_type \<in> {DEV_TYPE_TUN, DEV_TYPE_TAP}" "20 + off \<le> b_len buf"
    "buf_ok ipbuf" "buf_content ipbuf = drop (nat off) (buf_content buf)" "b_len ipbuf = b_len buf - off"
    "OPENVPN_IPH_GET_VER (buf_content buf ! nat off) = v"
proof -
  have e: "ipbuf = buf\<lparr>b_offset := b_offset buf + off, b_len := b_len buf - off\<rparr>" "20 + off \<le> b_len buf"
    "tunnel_type \<in> {DEV_TYPE_TUN, DEV_TYPE_TAP}" "OPENVPN_IPH_GET_VER (buf_content buf ! nat off) = v"
    using assms(1,2) by (auto simp: is_ipv_X_def Let_def off_def header_offset_def buf_advance_def DEV_TYPE_TUN_def DEV_TYPE_TAP_def split: if_splits)
  have off: "0 \<le> off" "off \<le> b_len buf" using e(2) by (simp_all add: off_def header_offset_def split: if_splits)
  note b = buf_modify_behind [where g = "\<lambda>c. c", OF assms(1) off refl]
  show "ipbuf = buf\<lparr>b_offset := b_offset buf + off, b_len := b_len buf - off\<rparr>"
    "tunnel_type \<in> {DEV_TYPE_TUN, DEV_TYPE_TAP}" "20 + off \<le> b_len buf" "b_len ipbuf = b_len buf - off"
    "OPENVPN_IPH_GET_VER (buf_content buf ! nat off) = v" using e by simp_all
  show "buf_ok ipbuf" "buf_content ipbuf = drop (nat off) (buf_content buf)" using b(1,2) e(1) by simp_all
qed

lemma prepend_step:
  assumes "buf_ok b" "buf_defined b" "n = int (length src)" "n \<le> b_offset b"
  obtains b' where "buf_write_prepend b src n = (True, b')" "buf_ok b'" "buf_defined b'" "buf_content b' = src @ buf_content b"
    "b_offset b' = b_offset b - n" "b_capacity b' = b_capacity b"
proof -
  have "fst (buf_write_prepend b src n)" using buf_write_prepend_iff [OF assms(1), of src] assms by simp
  then obtain b' where w: "buf_write_prepend b src n = (True, b')" by (cases "buf_write_prepend b src n") simp
  show thesis using that [OF w] buf_write_prepend_True [OF assms(1) w assms(3)] by simp
qed

text \<open>The packet of an ICMPv6 error about \<open>ip\<close>, of which it quotes \<open>n\<close> bytes.\<close>

definition icmp6_message :: "byte list \<Rightarrow> byte list \<Rightarrow> nat \<Rightarrow> byte list" where
  "icmp6_message saddr ip n =
     (let m = [1, 0, 0, 0, 0, 0, 0, 0] @ take n ip
      in put16 2 (htons (ip_checksum AF_INET6 m saddr (take 16 (drop 8 ip)) 58)) m)"

definition icmp6_packet :: "byte list \<Rightarrow> byte list \<Rightarrow> nat \<Rightarrow> byte list" where
  "icmp6_packet saddr ip n =
     take 4 ip @ u16_bytes (word_of_int (8 + int n)) @ [58, ip ! 7] @ saddr @ take 16 (drop 8 ip) @ icmp6_message saddr ip n"

lemma icmp6_message_verifies:
  assumes "n \<le> 1280"
  shows "ip_checksum AF_INET6 (icmp6_message saddr ip n) saddr (take 16 (drop 8 ip)) 58 = 0"
  unfolding icmp6_message_def Let_def using assms
  by (intro ip_checksum_verifies) (simp_all add: get16_def)

lemma icmp6_build:
  assumes aux: "buf_ok aux" "buf_defined aux" and ip: "buf_ok ipb" "40 \<le> b_len ipb" and L: "0 \<le> L" "L \<le> b_len ipb"
    and room: "48 \<le> h" "h + L \<le> b_capacity aux" and s: "length saddr = 16"
  defines "p \<equiv> buf_content ipb"
  obtains o0 o1 i1 o2 o3 where "buf_init aux h = (True, o0)" "buf_safe o0 L" "buf_copy_n o0 ipb L = (True, o1, i1)"
    "buf_write_prepend o1 [1, 0, 0, 0, 0, 0, 0, 0] 8 = (True, o2)"
    "buf_write_prepend (buf_modify (put16 2 (htons (ip_checksum AF_INET6 (buf_content o2) saddr (take 16 (drop 8 p)) 58))) o2)
       (take 4 p @ u16_bytes (word_of_int (8 + L)) @ [58, p ! 7] @ saddr @ take 16 (drop 8 p)) 40 = (True, o3)"
    "buf_ok o3" "buf_defined o3" "buf_content o3 = icmp6_packet saddr p (nat L)" "b_offset o3 = h - 48"
    "b_capacity o3 = b_capacity aux"
proof -
  obtain o0 where o0: "buf_init aux h = (True, o0)"
    using buf_init_iff [of aux h] assms by (cases "buf_init aux h") auto
  note l0 = buf_init_True [OF aux(1) o0]
  have cap: "b_capacity aux < BUF_SIZE_MAX" using aux(1) by simp
  have safe: "buf_safe o0 L" using l0 room L cap by (simp add: buf_safe_def buf_valid_def buf_defined_def BUF_SIZE_MAX_def)
  have fc: "L \<le> buf_forward_capacity o0" using l0 room L by (simp add: buf_forward_capacity_def buf_valid_def buf_defined_def Let_def)
  have "buf_defined ipb" using ip by (intro buf_ok_len_defined) simp_all
  then have "fst (buf_copy_n o0 ipb L)" using buf_copy_n_iff [OF l0(1) ip(1) L(1)] L(2) l0(6) fc by simp
  then obtain o1 i1 where o1: "buf_copy_n o0 ipb L = (True, o1, i1)" by (cases "buf_copy_n o0 ipb L") auto
  note l1 = buf_copy_n_True [OF l0(1) ip(1) o1]
  have d1: "buf_defined o1" using l1(3,8) l0(5) room L by (cases rule: buf_ok_cases) (simp_all add: buf_defined_def)
  obtain o2 where o2: "buf_write_prepend o1 [1, 0, 0, 0, 0, 0, 0, 0] 8 = (True, o2)" "buf_ok o2" "buf_defined o2"
    "buf_content o2 = [1, 0, 0, 0, 0, 0, 0, 0] @ buf_content o1" "b_offset o2 = b_offset o1 - 8" "b_capacity o2 = b_capacity o1"
    using prepend_step [OF l1(3) d1, of 8 "[1, 0, 0, 0, 0, 0, 0, 0]"] l1(7) l0(3) room by auto
  define g where "g = put16 2 (htons (ip_checksum AF_INET6 (buf_content o2) saddr (take 16 (drop 8 p)) 58))"
  have c2: "buf_content o2 = [1, 0, 0, 0, 0, 0, 0, 0] @ take (nat L) p" using o2(4) l1(5) l0(2) by (simp add: p_def)
  note m = buf_modify_law [of o2 g, OF o2(2)]
  have gm: "g (buf_content o2) = icmp6_message saddr p (nat L)" by (simp add: g_def c2 icmp6_message_def Let_def)
  have lg: "length (g (buf_content o2)) = length (buf_content o2)" by (simp add: g_def length_put16)
  have dm: "buf_defined (buf_modify g o2)" using o2(3) by (simp add: buf_modify_def buf_store_def buf_defined_def)
  let ?hd = "take 4 p @ u16_bytes (word_of_int (8 + L)) @ [58, p ! 7] @ saddr @ take 16 (drop 8 p)"
  have "40 \<le> length p" using ip by (simp add: p_def)
  then have lh: "40 = int (length ?hd)" using s by (simp add: u16_bytes_def)
  obtain o3 where o3: "buf_write_prepend (buf_modify g o2) ?hd 40 = (True, o3)" "buf_ok o3" "buf_defined o3"
    "buf_content o3 = ?hd @ buf_content (buf_modify g o2)" "b_offset o3 = b_offset (buf_modify g o2) - 40" "b_capacity o3 = b_capacity (buf_modify g o2)"
    using prepend_step [OF m(1) [OF lg] dm lh] m(4) [OF lg] o2(5) l1(7) l0(3) room by auto
  have "buf_content o3 = icmp6_packet saddr p (nat L)"
    using o3(4) m(2) [OF lg] gm L(1) by (simp add: icmp6_packet_def)
  moreover have "b_offset o3 = h - 48" "b_capacity o3 = b_capacity aux"
    using o3(5,6) m(4,5) [OF lg] o2(5,6) l1(7,8) l0(3,5) by simp_all
  ultimately show thesis using that o0 safe o1 o2(1) o3(1,2,3) unfolding g_def by blast
qed

definition tun_ok :: "tun_context \<Rightarrow> bool" where
  "tun_ok c \<longleftrightarrow> frame_ok (t_frame c) \<and> 7 \<le> FRAME_HEADROOM_BASE (t_frame c) \<and>
     buf_ok (t_aux_buf c) \<and> b_capacity (t_aux_buf c) = BUF_SIZE (t_frame c) \<and> buf_ok (t_buf c)"

definition pton_ok :: "(string \<Rightarrow> byte list option) \<Rightarrow> bool" where
  "pton_ok inet_pton \<longleftrightarrow> (\<forall>s a. inet_pton s = Some a \<longrightarrow> length a = 16)"

text \<open>How much of the packet is quoted, and the Ethernet header of the answer.\<close>

definition icmp6_quote :: "frame \<Rightarrow> nat \<Rightarrow> nat" where
  "icmp6_quote f n = min (min 1280 (nat (TUN_MTU_SIZE f - 48))) n"

definition icmp6_eth :: "int \<Rightarrow> byte list \<Rightarrow> byte list" where
  "icmp6_eth tunnel_type orig =
     (if tunnel_type = DEV_TYPE_TAP then take 6 (drop 6 orig) @ take 6 orig @ [0x86, 0xDD] else [])"

lemma length_icmp6_saddr:
  "pton_ok inet_pton \<Longrightarrow> 24 \<le> length p \<Longrightarrow> length (icmp6_saddr inet_pton opt p) = 16"
  by (auto simp: icmp6_saddr_def fe80_7_def pton_ok_def split: option.splits)

lemma icmp6_law:
  assumes c: "tun_ok c" and pton: "pton_ok inet_pton" and buf: "buf_ok buf" "is_ipv6 (t_tunnel_type c) buf = (True, ipb)"
    and len: "40 \<le> b_len ipb"
  defines "p \<equiv> buf_content ipb"
  obtains out where
    "ipv6_send_icmp_unreachable inet_pton c buf client =
       Some (if client then c\<lparr>t_aux_buf := (t_aux_buf c)\<lparr>b_data := b_data out\<rparr>, t_to_tun := out\<rparr>
             else c\<lparr>t_aux_buf := (t_aux_buf c)\<lparr>b_data := b_data out\<rparr>, t_to_link := out\<rparr>)"
    "buf_ok out" "b_capacity out = b_capacity (t_aux_buf c)" "buf_content out = icmp6_eth (t_tunnel_type c) (buf_content buf) @
       icmp6_packet (icmp6_saddr inet_pton (t_options c) p) p (icmp6_quote (t_frame c) (length p))"
proof -
  define off where "off = header_offset (t_tunnel_type c)"
  note v = is_ipv_X_True [OF buf(1) buf(2) [unfolded is_ipv6_def], folded off_def]
  have off: "off = (if t_tunnel_type c = DEV_TYPE_TAP then 14 else 0)" by (simp add: off_def header_offset_def)
  let ?f = "t_frame c" and ?s = "icmp6_saddr inet_pton (t_options c) p"
  define L where "L = min (min 1280 (TUN_MTU_SIZE ?f - 48)) (b_len ipb)"
  have f: "frame_ok ?f" "7 \<le> FRAME_HEADROOM_BASE ?f" "buf_ok (t_aux_buf c)" "b_capacity (t_aux_buf c) = BUF_SIZE ?f"
    using c by (simp_all add: tun_ok_def)
  have mtu: "100 \<le> TUN_MTU_SIZE ?f" using frame_ok_room(8) [OF f(1)] .
  have L: "0 \<le> L" "L \<le> b_len ipb" "48 + off + L \<le> BUF_SIZE ?f" using mtu len f(2) by (auto simp: L_def BUF_SIZE_def off)
  have lp: "length p = nat (b_len ipb)" using v(4) by (simp add: p_def)
  have nL: "nat L = icmp6_quote ?f (length p)" using mtu len unfolding L_def icmp6_quote_def lp by linarith
  have def_aux: "buf_defined (t_aux_buf c)" using f(3,4) L by (cases rule: buf_ok_cases) (auto simp: buf_defined_def off split: if_splits)
  have s: "length ?s = 16" using length_icmp6_saddr [OF pton, of p] len lp by simp
  have h: "48 \<le> 48 + off" "48 + off + L \<le> b_capacity (t_aux_buf c)" using L(3) f(4) by (simp_all add: off)
  obtain o0 o1 i1 o2 o3 where o: "buf_init (t_aux_buf c) (48 + off) = (True, o0)" "buf_safe o0 L" "buf_copy_n o0 ipb L = (True, o1, i1)"
    "buf_write_prepend o1 [1, 0, 0, 0, 0, 0, 0, 0] 8 = (True, o2)"
    "buf_write_prepend (buf_modify (put16 2 (htons (ip_checksum AF_INET6 (buf_content o2) ?s (take 16 (drop 8 p)) 58))) o2)
       (take 4 p @ u16_bytes (word_of_int (8 + L)) @ [58, p ! 7] @ ?s @ take 16 (drop 8 p)) 40 = (True, o3)"
    "buf_ok o3" "buf_defined o3" "buf_content o3 = icmp6_packet ?s p (nat L)" "b_offset o3 = 48 + off - 48" "b_capacity o3 = b_capacity (t_aux_buf c)"
    by (rule icmp6_build [OF f(3) def_aux v(4) len L(1,2) h s, folded p_def])
  let ?eth = "take 6 (drop 6 (buf_content buf)) @ take 6 (buf_content buf) @ u16_bytes OPENVPN_ETH_P_IPV6"
  have run: "ipv6_send_icmp_unreachable inet_pton c buf client = do {
      outbuf \<leftarrow> (if t_tunnel_type c = DEV_TYPE_TAP then do {
         let (ok, outbuf) = buf_write_prepend o3 ?eth 14; assert_c ok; Some outbuf } else Some o3);
      let c = c\<lparr>t_aux_buf := (t_aux_buf c)\<lparr>b_data := b_data outbuf\<rparr>\<rparr>;
      Some (if client then c\<lparr>t_to_tun := outbuf\<rparr> else c\<lparr>t_to_link := outbuf\<rparr>) }"
  proof -
    have t1: "(if t_tunnel_type c = DEV_TYPE_TAP then 40 + 8 + 14 else 40 + 8) = 48 + off" by (simp add: off)
    have t2: "min (min MAX_ICMPV6LEN (TUN_MTU_SIZE ?f - (40 + 8))) (buf_len ipb) = L"
      using v(4) by (simp add: L_def MAX_ICMPV6LEN_def)
    have t3: "\<not> buf_len ipb < 40" "\<not> (t_tunnel_type c = DEV_TYPE_TAP \<and> buf_len buf < 14)" using v(3,4) buf(1) len by (auto simp: off)
    note cs = OPENVPN_IPPROTO_ICMPV6_def OPENVPN_ICMP6_DESTINATION_UNREACHABLE_def OPENVPN_ICMP6_DU_NOROUTE_def
    have u: "uint (58 :: byte) = 58" by simp
    show ?thesis
      unfolding ipv6_send_icmp_unreachable_def Let_def buf(2) snd_conv p_def [symmetric] t1 t2 cs u if_not_P [OF t3(1)]
      using t3(2) by (simp only: o(1-5) prod.case assert_c_def if_True bind.simps) (simp add: assert_c_def split: prod.split)
  qed
  show thesis
  proof (cases "t_tunnel_type c = DEV_TYPE_TAP")
    case True
    then have l: "14 = int (length ?eth)" "14 \<le> b_offset o3" using v(3) buf(1) off o(9) by (simp_all add: u16_bytes_def)
    obtain o4 where "buf_write_prepend o3 ?eth 14 = (True, o4)" "buf_ok o4" "buf_content o4 = ?eth @ buf_content o3" "b_capacity o4 = b_capacity o3"
      using prepend_step [OF o(6,7) l] by blast
    moreover have "u16_bytes OPENVPN_ETH_P_IPV6 = [0x86, 0xDD]" by code_simp
    ultimately show thesis using that [of o4] run True o(8,10) nL by (simp add: icmp6_eth_def Let_def)
  next
    case False
    then show thesis using that [of o3] run o(6,8,10) nL by (simp add: icmp6_eth_def Let_def)
  qed
qed

subsection \<open>IPv4 packets\<close>

lemma flag_defs:
  "PIPV4_PASSTOS = 1" "PIP_MSSFIX = 2" "PIP_OUTGOING = 4" "PIPV4_EXTRACT_DHCP_ROUTER = 8" "PIPV4_CLIENT_NAT = 16"
  "PIPV6_IMCP_NOHOST_CLIENT = 32" "PIPV6_IMCP_NOHOST_SERVER = 64"
  by (simp_all add: PIPV4_PASSTOS_def PIP_MSSFIX_def PIP_OUTGOING_def PIPV4_EXTRACT_DHCP_ROUTER_def PIPV4_CLIENT_NAT_def
      PIPV6_IMCP_NOHOST_CLIENT_def PIPV6_IMCP_NOHOST_SERVER_def)

text \<open>What \<^verbatim>\<open>process_ip_header\<close> does to the IPv4 packet, DHCP answers apart.\<close>

definition ip4_rewrite :: "tun_options \<Rightarrow> frame \<Rightarrow> u32 \<Rightarrow> byte list \<Rightarrow> byte list" where
  "ip4_rewrite opt f flags p =
     (let p = (if flags AND PIP_MSSFIX \<noteq> 0 then mss_packet4 (MTU_TO_MSS (TUN_MTU_SIZE_DYNAMIC f)) p else p)
      in case o_client_nat opt of
           Some l \<Rightarrow> if flags AND PIPV4_CLIENT_NAT \<noteq> 0
             then nat_packet l (if flags AND PIP_OUTGOING \<noteq> 0 then CN_INCOMING else CN_OUTGOING) p else p
         | None \<Rightarrow> p)"

lemma length_ip4_rewrite: "20 \<le> length p \<Longrightarrow> length (ip4_rewrite opt f flags p) = length p"
  by (simp add: ip4_rewrite_def nat_packet_law(1) split: option.split)

lemma ip4_rewrite_buffer:
  assumes "buf_ok b" "20 \<le> b_len b"
  shows "(let b = (if flags AND PIP_MSSFIX \<noteq> 0 then mss_fixup_ipv4 b (MTU_TO_MSS (TUN_MTU_SIZE_DYNAMIC f)) else b)
      in case o_client_nat opt of
           Some l \<Rightarrow> if flags AND PIPV4_CLIENT_NAT \<noteq> 0
             then client_nat_transform l b (if flags AND PIP_OUTGOING \<noteq> 0 then CN_INCOMING else CN_OUTGOING) else b
         | None \<Rightarrow> b) = buf_modify (ip4_rewrite opt f flags) b"
proof -
  let ?m = "\<lambda>p. if flags AND PIP_MSSFIX \<noteq> 0 then mss_packet4 (MTU_TO_MSS (TUN_MTU_SIZE_DYNAMIC f)) p else p"
  have len: "20 \<le> length (buf_content b)" using assms by simp
  have 1: "(if flags AND PIP_MSSFIX \<noteq> 0 then mss_fixup_ipv4 b (MTU_TO_MSS (TUN_MTU_SIZE_DYNAMIC f)) else b) = buf_modify ?m b"
    using buf_modify_id [OF assms(1)] by (simp add: mss_fixup_ipv4_modify [OF assms(1)] buf_modify_def)
  have 2: "buf_modify (nat_packet l d) (buf_modify ?m b) = buf_modify (\<lambda>p. nat_packet l d (?m p)) b" for l d
    using len by (intro buf_modify_comp [OF assms(1)]) (simp_all add: nat_packet_law(1))
  show ?thesis unfolding 1 Let_def client_nat_transform_def 2
    by (auto simp: ip4_rewrite_def buf_modify_def Let_def split: option.split)
qed

definition pip_examined :: "tun_options \<Rightarrow> u32 \<Rightarrow> bool" where
  "pip_examined opt flags \<longleftrightarrow> pip_flags opt flags AND (PIP_MSSFIX OR PIPV4_PASSTOS OR PIPV4_CLIENT_NAT) \<noteq> 0"

lemma process_ipv4_law:
  assumes ok: "buf_ok buf" and v4: "is_ipv4 (t_tunnel_type c) buf = (True, ipb)" and g: "pip_examined (t_options c) flags"
  defines "F \<equiv> pip_flags (t_options c) flags"
  defines "R \<equiv> ip4_rewrite (t_options c) (t_frame c) F"
  defines "n \<equiv> nat (header_offset (t_tunnel_type c))"
  assumes nodhcp: "F AND PIPV4_EXTRACT_DHCP_ROUTER = 0 \<or> dhcp_extract_router_msg (buf_modify R ipb) = (0, buf_modify R ipb)"
  shows "process_ip_header inet_pton c flags buf =
    Some (if F AND PIPV4_PASSTOS \<noteq> 0 then c\<lparr>t_ptos := link_socket_extract_tos ipb\<rparr> else c,
          buf_modify (\<lambda>p. take n p @ R (drop n p)) buf)"
proof -
  note v = is_ipv_X_True [OF ok v4 [unfolded is_ipv4_def]]
  let ?off = "header_offset (t_tunnel_type c)"
  have off: "0 \<le> ?off" "?off \<le> b_len buf" using v(3) by (simp_all add: header_offset_def split: if_splits)
  have l: "20 \<le> b_len ipb" using v(3,6) by simp
  have "length (R (drop (nat ?off) (buf_content buf))) = length (drop (nat ?off) (buf_content buf))"
    unfolding R_def v(5) [symmetric] using v(4) l by (intro length_ip4_rewrite) simp
  then have re: "buf\<lparr>b_data := b_data (buf_modify R ipb)\<rparr> = buf_modify (\<lambda>p. take n p @ R (drop n p)) buf"
    unfolding v(1) n_def by (rule buf_modify_rebase [OF ok off])
  have pos: "0 < b_len buf" using v(3) off by linarith
  note rw = ip4_rewrite_buffer [OF v(4) l, of F "t_frame c" "t_options c", folded R_def, unfolded Let_def]
  show ?thesis
    using g pos nodhcp unfolding process_ip_header_def Let_def v4 prod.case bool.case F_def [symmetric] pip_examined_def rw
    by (auto simp: re Let_def)
qed

lemma process_unexamined:
  "\<not> pip_examined (t_options c) flags \<Longrightarrow> process_ip_header inet_pton c flags buf = Some (c, buf)"
  by (simp add: process_ip_header_def pip_examined_def Let_def)

lemma is_ipv_X_False: "is_ipv_X ty buf v = (False, b) \<Longrightarrow> b = buf"
  by (auto simp: is_ipv_X_def Let_def buf_advance_def split: if_splits)

lemma ipv6_not_ipv4:
  assumes "buf_ok buf" "is_ipv6 ty buf = (True, ipb)"
  shows "is_ipv4 ty buf = (False, buf)"
proof (cases "is_ipv4 ty buf")
  case (Pair r b)
  have "\<not> r"
  proof
    assume r
    then have "OPENVPN_IPH_GET_VER (buf_content buf ! nat (header_offset ty)) = 4"
      using is_ipv_X_True(7) [OF assms(1)] Pair by (simp add: is_ipv4_def)
    moreover have "OPENVPN_IPH_GET_VER (buf_content buf ! nat (header_offset ty)) = 6"
      using is_ipv_X_True(7) [OF assms(1)] assms(2) by (simp add: is_ipv6_def)
    ultimately show False by simp
  qed
  then show ?thesis using Pair is_ipv_X_False [of ty buf 4 b] by (simp add: is_ipv4_def)
qed

subsection \<open>IPv6 packets\<close>

definition ip6_rewrite :: "frame \<Rightarrow> u32 \<Rightarrow> byte list \<Rightarrow> byte list" where
  "ip6_rewrite f flags p =
     (if flags AND PIP_MSSFIX \<noteq> 0 then mss_packet6 (MTU_TO_MSS (TUN_MTU_SIZE_DYNAMIC f)) p else p)"

lemma ip6_rewrite_law:
  "length (ip6_rewrite f flags p) = length p" "take 40 (ip6_rewrite f flags p) = take 40 p"
  by (simp_all add: ip6_rewrite_def) (auto simp: mss_packet6_def min_absorb2)

lemma is_ipv_X_cong:
  assumes "buf_ok buf" "buf_ok buf'" "b_len buf' = b_len buf" "is_ipv_X ty buf v = (True, ipb)"
    "\<forall>i\<le>14. buf_content buf' ! i = buf_content buf ! i"
  obtains ipb' where "is_ipv_X ty buf' v = (True, ipb')"
proof -
  have e: "get16 (buf_content buf') 12 = get16 (buf_content buf) 12" "buf_content buf' ! 0 = buf_content buf ! 0"
    "buf_content buf' ! 14 = buf_content buf ! 14"
    using assms(5) by (simp_all add: get16_def)
  have "buf_valid buf'" if "0 < b_len buf'" using assms(2) that by (cases rule: buf_ok_cases) (simp_all add: buf_valid_def)
  then have "fst (is_ipv_X ty buf' v)" using assms(1-4) e
    by (auto simp: is_ipv_X_def Let_def buf_advance_def split: if_splits)
  then show thesis using that by (cases "is_ipv_X ty buf' v") auto
qed

lemma process_ipv6_buffer:
  fixes F :: u32
  assumes ok: "buf_ok buf" and v6: "is_ipv6 (t_tunnel_type c) buf = (True, ipb)"
  defines "R \<equiv> ip6_rewrite (t_frame c) F"
  defines "n \<equiv> nat (header_offset (t_tunnel_type c))"
  defines "buf1 \<equiv> buf_modify (\<lambda>p. take n p @ R (drop n p)) buf"
  shows "buf\<lparr>b_data := b_data (if F AND PIP_MSSFIX \<noteq> 0 then mss_fixup_ipv6 ipb (MTU_TO_MSS (TUN_MTU_SIZE_DYNAMIC (t_frame c))) else ipb)\<rparr> = buf1"
    "buf_ok buf1" "b_len buf1 = b_len buf" "buf_content buf1 = take n (buf_content buf) @ R (buf_content ipb)"
    "take n (buf_content buf1) = take n (buf_content buf)" "drop n (buf_content buf1) = R (buf_content ipb)"
    "b_capacity buf1 = b_capacity buf"
proof -
  note v = is_ipv_X_True [OF ok v6 [unfolded is_ipv6_def]]
  let ?off = "header_offset (t_tunnel_type c)"
  have off: "0 \<le> ?off" "?off \<le> b_len buf" using v(3) by (simp_all add: header_offset_def split: if_splits)
  have n: "n \<le> length (buf_content buf)" using ok off by (simp add: n_def nat_mono)
  have g: "length (R (drop (nat ?off) (buf_content buf))) = length (drop (nat ?off) (buf_content buf))"
    by (simp add: R_def ip6_rewrite_law)
  have m: "(if F AND PIP_MSSFIX \<noteq> 0 then mss_fixup_ipv6 ipb (MTU_TO_MSS (TUN_MTU_SIZE_DYNAMIC (t_frame c))) else ipb) = buf_modify R ipb"
    using buf_modify_id [OF v(4)] by (simp add: mss_fixup_ipv6_modify [OF v(4)] R_def ip6_rewrite_def buf_modify_def)
  show "buf\<lparr>b_data := b_data (if F AND PIP_MSSFIX \<noteq> 0 then mss_fixup_ipv6 ipb (MTU_TO_MSS (TUN_MTU_SIZE_DYNAMIC (t_frame c))) else ipb)\<rparr> = buf1"
    unfolding m buf1_def n_def by (subst v(1)) (rule buf_modify_rebase [where g = R, OF ok off g])
  have l: "length (take n (buf_content buf) @ R (drop n (buf_content buf))) = length (buf_content buf)"
    using n by (simp add: R_def ip6_rewrite_law)
  note law = buf_modify_law [where g = "\<lambda>p. take n p @ R (drop n p)", OF ok l, folded buf1_def]
  show "buf_ok buf1" "b_len buf1 = b_len buf" "b_capacity buf1 = b_capacity buf" by (fact law)+
  show c: "buf_content buf1 = take n (buf_content buf) @ R (buf_content ipb)" using law(2) by (simp add: v(5) n_def)
  show "take n (buf_content buf1) = take n (buf_content buf)" "drop n (buf_content buf1) = R (buf_content ipb)" using n by (simp_all add: c)
qed

lemma process_ipv6_law:
  assumes ok: "buf_ok buf" and v6: "is_ipv6 (t_tunnel_type c) buf = (True, ipb)" and g: "pip_examined (t_options c) flags"
  defines "F \<equiv> pip_flags (t_options c) flags"
  defines "n \<equiv> nat (header_offset (t_tunnel_type c))"
  defines "buf1 \<equiv> buf_modify (\<lambda>p. take n p @ ip6_rewrite (t_frame c) F (drop n p)) buf"
  shows "process_ip_header inet_pton c flags buf =
    (if F AND PIP_OUTGOING = 0 \<and> F AND (PIPV6_IMCP_NOHOST_CLIENT OR PIPV6_IMCP_NOHOST_SERVER) \<noteq> 0
     then map_option (\<lambda>c'. (c', buf1\<lparr>b_len := 0\<rparr>)) (ipv6_send_icmp_unreachable inet_pton c buf1 (F AND PIPV6_IMCP_NOHOST_CLIENT \<noteq> 0))
     else Some (c, buf1))"
proof -
  note b = process_ipv6_buffer(1) [OF ok v6, of F, folded n_def, folded buf1_def]
  have "0 < b_len buf" using is_ipv_X_True(3) [OF ok v6 [unfolded is_ipv6_def]] by (simp add: header_offset_def split: if_splits)
  then show ?thesis
    using g unfolding process_ip_header_def Let_def ipv6_not_ipv4 [OF ok v6] v6 prod.case bool.case F_def [symmetric] pip_examined_def b
    by (auto simp: map_option_case split: option.splits)
qed

end
