(* ===== verification/Ip_Processing.thy ===== *)
theory Ip_Processing
  imports Ip_Header
begin

section \<open>What happens to the packets of the tun device\<close>

text \<open>
  The steps of \<^verbatim>\<open>process_ip_header\<close> and \<^verbatim>\<open>process_incoming_tun\<close> together: no assertion fails, TCP packets keep valid
  checksums through all changes, and \<^verbatim>\<open>--block-ipv6\<close> answers what it drops, when it is in effect at all.
\<close>

subsection \<open>Flags\<close>

lemma pip_flags_kept:
  "pip_flags opt flags AND PIP_OUTGOING = flags AND PIP_OUTGOING"
  "o_block_ipv6 opt \<Longrightarrow> pip_flags opt flags AND PIPV6_IMCP_NOHOST_CLIENT = flags AND PIPV6_IMCP_NOHOST_CLIENT"
  by (simp_all add: pip_flags_def Let_def flag_defs and.assoc)

lemma pip_flags_cleared:
  "flags AND PIPV4_EXTRACT_DHCP_ROUTER = 0 \<Longrightarrow> pip_flags opt flags AND PIPV4_EXTRACT_DHCP_ROUTER = 0"
  by (simp add: pip_flags_def Let_def flag_defs and.assoc)

lemma nohost_client: "F AND PIPV6_IMCP_NOHOST_CLIENT \<noteq> 0 \<Longrightarrow> F AND (PIPV6_IMCP_NOHOST_CLIENT OR PIPV6_IMCP_NOHOST_SERVER) \<noteq> 0"
  by (simp add: bit_eq_iff bit_simps) blast

subsection \<open>The context\<close>

lemma tun_ok_aux:
  assumes "tun_ok c" "buf_ok out" "b_capacity out = b_capacity (t_aux_buf c)"
  shows "buf_ok ((t_aux_buf c)\<lparr>b_data := b_data out\<rparr>)"
proof -
  have c: "buf_ok (t_aux_buf c)" "b_capacity (t_aux_buf c) = BUF_SIZE (t_frame c)" "frame_ok (t_frame c)"
    using assms(1) by (simp_all add: tun_ok_def)
  have "0 < b_capacity (t_aux_buf c)" using frame_ok_room(8) [OF c(3)] assms(1) by (simp add: c tun_ok_def BUF_SIZE_def)
  then show ?thesis using assms(3) buf_ok_bounds(2-5) [OF c(1)]
    by (intro buf_okI) (use assms(2) in \<open>auto elim!: buf_ok_cases\<close>)
qed

lemma send_icmp_ok:
  assumes "tun_ok c" "pton_ok inet_pton" "buf_ok buf" "is_ipv6 (t_tunnel_type c) buf = (True, ipb)"
  shows "\<exists>c'. ipv6_send_icmp_unreachable inet_pton c buf client = Some c' \<and> tun_ok c' \<and> t_buf c' = t_buf c"
proof (cases "b_len ipb < 40")
  case True
  have "buf_ok ipb" using is_ipv_X_True(4) [OF assms(3) assms(4) [unfolded is_ipv6_def]] .
  then show ?thesis using True assms(1,4) by (simp add: ipv6_send_icmp_unreachable_def)
next
  case False
  then have "40 \<le> b_len ipb" by simp
  then obtain out where o: "ipv6_send_icmp_unreachable inet_pton c buf client =
       Some (if client then c\<lparr>t_aux_buf := (t_aux_buf c)\<lparr>b_data := b_data out\<rparr>, t_to_tun := out\<rparr>
             else c\<lparr>t_aux_buf := (t_aux_buf c)\<lparr>b_data := b_data out\<rparr>, t_to_link := out\<rparr>)"
    "buf_ok out" "b_capacity out = b_capacity (t_aux_buf c)"
    using icmp6_law [OF assms] by metis
  show ?thesis using o(1) tun_ok_aux [OF assms(1) o(2,3)] assms(1) by (auto simp: tun_ok_def)
qed

subsection \<open>The packet\<close>

text \<open>The change of an IPv4 packet behind the Ethernet header, if there is one.\<close>

lemma ip4_rewrite_behind:
  fixes opt :: tun_options and f :: frame and F :: u32
  assumes ok: "buf_ok buf" and v4: "is_ipv4 ty buf = (True, ipb)"
  defines "n \<equiv> nat (header_offset ty)"
  defines "buf1 \<equiv> buf_modify (\<lambda>p. take n p @ ip4_rewrite opt f F (drop n p)) buf"
  shows "buf_ok buf1" "b_len buf1 = b_len buf"
    "take n (buf_content buf1) = take n (buf_content buf)" "drop n (buf_content buf1) = ip4_rewrite opt f F (buf_content ipb)"
proof -
  note v = is_ipv_X_True [OF ok v4 [unfolded is_ipv4_def], folded n_def]
  have n: "n \<le> length (buf_content buf)" using ok v(3) by (simp add: n_def header_offset_def split: if_splits)
  have "20 \<le> length (drop n (buf_content buf))" using v(3,4,6) unfolding v(5) [symmetric] by simp
  then have l: "length (take n (buf_content buf) @ ip4_rewrite opt f F (drop n (buf_content buf))) = length (buf_content buf)"
    using n by (simp add: length_ip4_rewrite)
  note law = buf_modify_law [where g = "\<lambda>p. take n p @ ip4_rewrite opt f F (drop n p)", OF ok l, folded buf1_def]
  show "buf_ok buf1" "b_len buf1 = b_len buf" by (fact law)+
  show "take n (buf_content buf1) = take n (buf_content buf)" "drop n (buf_content buf1) = ip4_rewrite opt f F (buf_content ipb)"
    using n by (simp_all add: law(2) v(5))
qed

lemma ipv6_again:
  fixes F :: u32
  assumes ok: "buf_ok buf" and v6: "is_ipv6 (t_tunnel_type c) buf = (True, ipb)"
  defines "n \<equiv> nat (header_offset (t_tunnel_type c))"
  defines "buf1 \<equiv> buf_modify (\<lambda>p. take n p @ ip6_rewrite (t_frame c) F (drop n p)) buf"
  obtains ipb1 where "is_ipv6 (t_tunnel_type c) buf1 = (True, ipb1)" "buf_ok buf1" "buf_content ipb1 = ip6_rewrite (t_frame c) F (buf_content ipb)"
    "b_len ipb1 = b_len ipb" "take n (buf_content buf1) = take n (buf_content buf)"
proof -
  note v = is_ipv_X_True [OF ok v6 [unfolded is_ipv6_def], folded n_def]
  note b = process_ipv6_buffer [where F = F, OF ok v6, folded n_def, folded buf1_def]
  have e: "take (n + 40) (buf_content buf1) = take (n + 40) (buf_content buf)"
    unfolding take_add b(5,6) ip6_rewrite_law(2) v(5) ..
  have head: "\<forall>i\<le>14. buf_content buf1 ! i = buf_content buf ! i"
  proof (intro allI impI)
    fix i :: nat assume "i \<le> 14"
    then show "buf_content buf1 ! i = buf_content buf ! i"
      using nth_take [of i "n + 40" "buf_content buf1"] nth_take [of i "n + 40" "buf_content buf"] e by simp
  qed
  obtain ipb1 where v6': "is_ipv6 (t_tunnel_type c) buf1 = (True, ipb1)"
    using is_ipv_X_cong [OF ok b(2,3) v6 [unfolded is_ipv6_def] head] by (auto simp: is_ipv6_def)
  note v' = is_ipv_X_True [OF b(2) v6' [unfolded is_ipv6_def], folded n_def]
  show thesis using that [OF v6' b(2)] v'(5,6) v(6) b(3,5,6) by simp
qed

lemma process_ip_header_ok:
  assumes c: "tun_ok c" "pton_ok inet_pton" and ok: "buf_ok buf" and nodhcp: "flags AND PIPV4_EXTRACT_DHCP_ROUTER = 0"
  shows "\<exists>c' buf'. process_ip_header inet_pton c flags buf = Some (c', buf') \<and> tun_ok c' \<and> buf_ok buf' \<and> t_buf c' = t_buf c"
proof -
  let ?F = "pip_flags (t_options c) flags"
  consider (no) "\<not> pip_examined (t_options c) flags" | (v4) ipb where "pip_examined (t_options c) flags" "is_ipv4 (t_tunnel_type c) buf = (True, ipb)"
    | (v6) ipb where "pip_examined (t_options c) flags" "is_ipv6 (t_tunnel_type c) buf = (True, ipb)"
    | (other) "\<not> fst (is_ipv4 (t_tunnel_type c) buf)" "\<not> fst (is_ipv6 (t_tunnel_type c) buf)"
    by (metis (full_types) prod.collapse)
  then show ?thesis
  proof cases
    case no
    then show ?thesis using process_unexamined [of c flags inet_pton buf] c ok by simp
  next
    case v4
    show ?thesis using process_ipv4_law [OF ok v4(2,1) disjI1 [OF pip_flags_cleared [OF nodhcp]], of inet_pton]
        ip4_rewrite_behind(1) [OF ok v4(2), of "t_options c" "t_frame c" ?F] c by (auto simp: tun_ok_def)
  next
    case v6
    note p = process_ipv6_law [OF ok v6(2,1), of inet_pton]
    let ?n = "nat (header_offset (t_tunnel_type c))"
    let ?b = "buf_modify (\<lambda>p. take ?n p @ ip6_rewrite (t_frame c) ?F (drop ?n p)) buf"
    obtain ipb1 where i: "is_ipv6 (t_tunnel_type c) ?b = (True, ipb1)" "buf_ok ?b" by (rule ipv6_again [OF ok v6(2)])
    obtain c' where "ipv6_send_icmp_unreachable inet_pton c ?b (?F AND PIPV6_IMCP_NOHOST_CLIENT \<noteq> 0) = Some c'" "tun_ok c'" "t_buf c' = t_buf c"
      using send_icmp_ok [OF c i(2,1)] by blast
    then show ?thesis using p i(2) c by auto
  next
    case other
    then obtain b4 b6 where "is_ipv4 (t_tunnel_type c) buf = (False, b4)" "is_ipv6 (t_tunnel_type c) buf = (False, b6)"
      by (metis (full_types) prod.collapse)
    then have "process_ip_header inet_pton c flags buf = Some (c, buf)" unfolding process_ip_header_def Let_def by simp
    then show ?thesis using c ok by simp
  qed
qed

lemma drop_recursive_ok: "tun_ok c \<Longrightarrow> tun_ok (drop_if_recursive_routing c)"
  by (auto simp: drop_if_recursive_routing_def tun_ok_def Let_def split: option.split prod.split)

lemma incoming_flags:
  "(PIPV4_PASSTOS OR PIP_MSSFIX OR PIPV4_CLIENT_NAT OR PIPV6_IMCP_NOHOST_CLIENT) AND PIPV4_EXTRACT_DHCP_ROUTER = 0"
  by (simp add: flag_defs)

subsection \<open>Example\<close>

text \<open>A client with \<^verbatim>\<open>--block-ipv6\<close>, without a remote IPv6 address, on a tun device with an MTU of 1500, and an IPv6 packet
  of 1300 bytes.\<close>

definition demo_tun_options :: tun_options where
  "demo_tun_options = \<lparr>o_mode = 0, o_allow_recursive_routing = False, o_mssfix = 1450, o_passtos = False, o_client_nat = None,
     o_route_gateway_via_dhcp = False, o_block_ipv6 = True, o_ifconfig_ipv6_remote = None\<rparr>"

definition demo_ip6 :: buffer where
  "demo_ip6 = \<lparr>b_capacity = 1300, b_offset = 0, b_len = 1300, b_data = Some (0x60 # replicate 1299 0)\<rparr>"

definition demo_tun :: tun_context where
  "demo_tun = \<lparr>t_options = demo_tun_options, t_tunnel_type = DEV_TYPE_TUN, t_frame = demo_frame, t_to_link_addr = None,
     t_route_list = None, t_ptos = None, t_tun_read_bytes = 0, t_buf = demo_ip6, t_to_tun = clear_buf, t_to_link = clear_buf,
     t_aux_buf = \<lparr>b_capacity = 1600, b_offset = 0, b_len = 0, b_data = Some (replicate 1600 0)\<rparr>\<rparr>"

lemma demo_ip6_ok: "buf_ok demo_ip6" "buf_content demo_ip6 = 0x60 # replicate 1299 0"
  by (simp_all add: demo_ip6_def buf_ok_def BUF_SIZE_MAX_def buf_content_def buf_defs mem_load_def)

lemma demo_tun_ok: "tun_ok demo_tun"
proof -
  have "buf_ok \<lparr>b_capacity = 1600, b_offset = 0, b_len = 0, b_data = Some (replicate 1600 0)\<rparr>"
    by (simp add: buf_ok_def BUF_SIZE_MAX_def)
  then show ?thesis
    using demo_frame_ok demo_ip6_ok(1) by (simp add: demo_tun_def tun_ok_def) (simp add: demo_frame_def frame_defs)
qed

lemma demo_pton_ok: "pton_ok (\<lambda>s. None)"
  by (simp add: pton_ok_def)

lemma demo_ip6_is: "is_ipv6 (t_tunnel_type demo_tun) demo_ip6 = (True, demo_ip6)"
proof -
  have "OPENVPN_IPH_GET_VER 0x60 = 6" by code_simp
  moreover have "buf_len demo_ip6 = 1300" "buf_advance demo_ip6 0 = (True, demo_ip6)"
    by (simp_all add: demo_ip6_def buf_len_def buf_valid_def buf_advance_def)
  ultimately show ?thesis
    unfolding is_ipv6_def is_ipv_X_def Let_def demo_ip6_ok(2) by (simp add: demo_tun_def)
qed

lemma demo_examined: "pip_examined (t_options demo_tun) 34" "(34 :: u32) AND PIP_OUTGOING = 0" "34 AND PIPV6_IMCP_NOHOST_CLIENT \<noteq> 0"
  by (simp_all add: demo_tun_def demo_tun_options_def pip_examined_def pip_flags_def Let_def flag_defs)

text \<open>C19: No assertion fails on the way of a packet from the tun device to the encryption: with well-formed buffers and
geometry, and an \<^verbatim>\<open>inet_pton\<close> that yields addresses of 16 bytes, \<^verbatim>\<open>process_incoming_tun\<close> aborts for no packet, device type
and combination of options, unless \<^verbatim>\<open>encrypt_sign\<close> does; this includes the assertions about room for an ICMPv6 answer.\<close>

theorem process_incoming_tun_never_aborts:
  assumes "tun_ok c" "pton_ok inet_pton" "\<And>c'. tun_ok c' \<Longrightarrow> encrypt_sign c' \<noteq> None"
  shows "process_incoming_tun inet_pton encrypt_sign c \<noteq> None"
proof (cases "b_len (t_buf c) > 0")
  case False
  then show ?thesis by (simp add: process_incoming_tun_def Let_def)
next
  case True
  define c1 where "c1 = c\<lparr>t_tun_read_bytes := t_tun_read_bytes c + b_len (t_buf c)\<rparr>"
  define c2 where "c2 = (if o_mode (t_options c1) = MODE_POINT_TO_POINT \<and> \<not> o_allow_recursive_routing (t_options c1)
                     then drop_if_recursive_routing c1 else c1)"
  have "tun_ok c1" using assms(1) by (simp add: c1_def tun_ok_def)
  then have c2: "tun_ok c2" using drop_recursive_ok by (simp add: c2_def)
  then have "buf_ok (t_buf c2)" by (simp add: tun_ok_def)
  then obtain c3 buf where h: "process_ip_header inet_pton c2
      (PIPV4_PASSTOS OR PIP_MSSFIX OR PIPV4_CLIENT_NAT OR PIPV6_IMCP_NOHOST_CLIENT) (t_buf c2) = Some (c3, buf)"
    "tun_ok c3" "buf_ok buf" using process_ip_header_ok [OF c2 assms(2) _ incoming_flags] by blast
  have "tun_ok (c3\<lparr>t_buf := buf\<rparr>)" using h(2,3) by (simp add: tun_ok_def)
  then show ?thesis using assms(3) True h(1)
    by (simp add: process_incoming_tun_def c1_def [symmetric] Let_def c2_def [symmetric])
qed

theorem process_incoming_tun_never_aborts_witness:
  "tun_ok demo_tun \<and> process_incoming_tun (\<lambda>s. None) Some demo_tun \<noteq> None"
  using process_incoming_tun_never_aborts [OF demo_tun_ok demo_pton_ok, of Some] demo_tun_ok by simp

subsection \<open>Checksums\<close>

lemma wsum_append: "even (length a) \<Longrightarrow> wsum (a @ b) = wsum a + wsum b"
  by (induction a rule: wsum.induct) auto

lemma body_sum_split: "20 \<le> length p \<Longrightarrow> body_sum p = wsum (take 8 (drop 12 p)) + wsum (drop 20 p)"
  using wsum_append [of "take 8 (drop 12 p)" "drop 20 p"] append_take_drop_id [of 8 "drop 12 p"]
  by (simp add: body_sum_def min_absorb2)

lemma mss_packet4_sums:
  assumes "p ! 0 = 0x45" "20 \<le> length p" "\<forall>k\<in>set (mss_places (drop 20 p)). even k"
  shows "header_sum (mss_packet4 m p) = header_sum p" "body_sum (mss_packet4 m p) mod 65535 = body_sum p mod 65535"
    "i < 20 \<Longrightarrow> mss_packet4 m p ! i = p ! i"
proof -
  have h: "nat (OPENVPN_IPH_GET_LEN (p ! 0)) = 20" unfolding assms(1) by code_simp
  have t: "take 20 (mss_packet4 m p) = take 20 p" using assms(2) by (simp add: mss_packet4_def Let_def h min_absorb2)
  show "header_sum (mss_packet4 m p) = header_sum p" by (simp add: header_sum_def t)
  show "mss_packet4 m p ! i = p ! i" if "i < 20" using that t by (metis nth_take)
  have "take 8 (drop 12 (mss_packet4 m p)) = take 8 (drop 12 p)" using arg_cong [OF t, of "drop 12"] by (simp add: drop_take)
  moreover have "wsum (drop 20 (mss_packet4 m p)) mod 65535 = wsum (drop 20 p) mod 65535"
    using mss_packet_sum(1) [of 20 p m] h assms(3) by simp
  ultimately show "body_sum (mss_packet4 m p) mod 65535 = body_sum p mod 65535"
    using assms(2) mod_add_cong [OF refl] by (simp add: body_sum_split)
qed

lemma ip4_rewrite_sums:
  fixes opt :: tun_options and f :: frame and flags :: u32
  assumes p: "p ! 0 = 0x45" "p ! 9 = OPENVPN_IPPROTO_TCP" "40 \<le> length p" and even: "\<forall>k\<in>set (mss_places (drop 20 p)). even k"
  defines "q \<equiv> ip4_rewrite opt f flags p"
  shows "header_sum q mod 65535 = header_sum p mod 65535" "body_sum q mod 65535 = body_sum p mod 65535" "q ! 9 = p ! 9"
proof -
  define r where "r = (if flags AND PIP_MSSFIX \<noteq> 0 then mss_packet4 (MTU_TO_MSS (TUN_MTU_SIZE_DYNAMIC f)) p else p)"
  have r: "header_sum r mod 65535 = header_sum p mod 65535" "body_sum r mod 65535 = body_sum p mod 65535" "r ! 9 = p ! 9" "length r = length p"
    using mss_packet4_sums [OF p(1) _ even] p(3) by (simp_all add: r_def)
  have b: "body_check r \<noteq> None" using r p by (simp add: body_check_def)
  have len: "20 \<le> length r" using r p by simp
  have "q = r \<or> (\<exists>l d. q = nat_packet l d r)" by (auto simp: q_def ip4_rewrite_def r_def Let_def split: option.split)
  then show "header_sum q mod 65535 = header_sum p mod 65535" "body_sum q mod 65535 = body_sum p mod 65535" "q ! 9 = p ! 9"
    using r nat_packet_law(2,5) [OF len] nat_packet_law(3) [OF len b] by auto
qed

text \<open>C18: Lowering the MSS and translating addresses keep the checksums of TCP packets right when they are combined as
\<^verbatim>\<open>process_ip_header\<close> combines them. For an IPv4 TCP packet without header options whose MSS options start at even
offsets, on a tun or a tap device, whatever the options and flags, the function returns, the bytes before the IP header
stay, and the sums of the header's and of the segment's words, with the addresses, are the same modulo 65535.\<close>

theorem process_ip_header_keeps_checksums:
  assumes ok: "buf_ok buf" and v4: "is_ipv4 (t_tunnel_type c) buf = (True, ipb)"
    and p: "buf_content ipb ! 0 = 0x45" "buf_content ipb ! 9 = OPENVPN_IPPROTO_TCP" "40 \<le> b_len ipb"
    and even: "\<forall>k\<in>set (mss_places (drop 20 (buf_content ipb))). even k"
  shows "\<exists>c' buf'. process_ip_header inet_pton c flags buf = Some (c', buf') \<and> buf_ok buf' \<and> b_len buf' = b_len buf \<and>
    (let n = nat (header_offset (t_tunnel_type c)); p = buf_content ipb; q = drop n (buf_content buf')
     in take n (buf_content buf') = take n (buf_content buf) \<and>
        header_sum q mod 65535 = header_sum p mod 65535 \<and> body_sum q mod 65535 = body_sum p mod 65535)"
proof (cases "pip_examined (t_options c) flags")
  case False
  then show ?thesis using process_unexamined ok is_ipv_X_True(5) [OF ok v4 [unfolded is_ipv4_def]] by (simp add: Let_def)
next
  case True
  note v = is_ipv_X_True [OF ok v4 [unfolded is_ipv4_def]]
  let ?F = "pip_flags (t_options c) flags"
  let ?R = "ip4_rewrite (t_options c) (t_frame c) ?F"
  have len: "40 \<le> length (buf_content ipb)" using v(4) p(3) by simp
  note s = ip4_rewrite_sums [OF p(1,2) len even]
  have "length (?R (buf_content ipb)) = length (buf_content ipb)" using len by (simp add: length_ip4_rewrite)
  then have "buf_content (buf_modify ?R ipb) ! 9 = OPENVPN_IPPROTO_TCP"
    using buf_modify_law(2) [where g = ?R, OF v(4)] s(3) p(2) by simp
  then have "dhcp_extract_router_msg (buf_modify ?R ipb) = (0, buf_modify ?R ipb)"
    by (simp add: dhcp_extract_router_msg_def Let_def OPENVPN_IPPROTO_TCP_def OPENVPN_IPPROTO_UDP_def)
  then show ?thesis
    using process_ipv4_law [OF ok v4 True disjI2, of inet_pton] ip4_rewrite_behind [OF ok v4, of "t_options c" "t_frame c" ?F] s
    by (simp add: Let_def)
qed

theorem process_ip_header_keeps_checksums_witness:
  "\<exists>c' buf'. process_ip_header (\<lambda>s. None) demo_tun PIP_MSSFIX (demo_ip 0 6 (replicate 20 0)) = Some (c', buf') \<and>
    body_sum (buf_content buf') mod 65535 = body_sum (buf_content (demo_ip 0 6 (replicate 20 0))) mod 65535"
proof -
  let ?b = "demo_ip 0 6 (replicate 20 0)"
  note p = demo_ip_content [of "replicate 20 0" 0 6, simplified]
  have ok: "buf_ok ?b" using demo_ip_ok [of "replicate 20 0"] by simp
  have "buf_len ?b = 40" "buf_advance ?b 0 = (True, ?b)" "OPENVPN_IPH_GET_VER (buf_content ?b ! 0) = 4"
    unfolding p by (simp_all add: demo_ip_def buf_len_def buf_valid_def buf_advance_def) code_simp
  then have v4: "is_ipv4 (t_tunnel_type demo_tun) ?b = (True, ?b)"
    unfolding is_ipv4_def is_ipv_X_def Let_def by (simp add: demo_tun_def)
  have h: "buf_content ?b ! 0 = 0x45" "buf_content ?b ! 9 = OPENVPN_IPPROTO_TCP"
    "\<forall>k\<in>set (mss_places (drop 20 (buf_content ?b))). even k" unfolding p by code_simp+
  have n: "nat (header_offset (t_tunnel_type demo_tun)) = 0" by (simp add: demo_tun_def header_offset_def DEV_TYPE_TUN_def DEV_TYPE_TAP_def)
  have "40 \<le> b_len ?b" by (simp add: demo_ip_def)
  then show ?thesis
    using process_ip_header_keeps_checksums [OF ok v4 h(1,2) _ h(3), of "\<lambda>s. None" PIP_MSSFIX] unfolding n Let_def by auto
qed

subsection \<open>Blocking IPv6\<close>

lemma length_icmp6_packet:
  "length saddr = 16 \<Longrightarrow> 40 \<le> length ip \<Longrightarrow> n \<le> length ip \<Longrightarrow> length (icmp6_packet saddr ip n) = 48 + n"
  by (simp add: icmp6_packet_def icmp6_message_def u16_bytes_def length_put16 Let_def)

lemma icmp6_quote_range: "icmp6_quote f n \<le> 1280" "icmp6_quote f n \<le> n"
  by (simp_all add: icmp6_quote_def)

lemma icmp6_eth_cong:
  assumes "ty = DEV_TYPE_TAP \<Longrightarrow> take 12 a = take 12 b"
  shows "icmp6_eth ty a = icmp6_eth ty b"
proof -
  have "take 6 a = take 6 b \<and> take 6 (drop 6 a) = take 6 (drop 6 b)" if "take 12 a = take 12 b"
    using arg_cong [OF that, of "take 6"] arg_cong [OF that, of "drop 6"] by (simp add: drop_take)
  then show ?thesis using assms by (simp add: icmp6_eth_def)
qed

lemma block_ipv6_law:
  assumes c: "tun_ok c" "pton_ok inet_pton" and ok: "buf_ok buf" and v6: "is_ipv6 (t_tunnel_type c) buf = (True, ipb)"
    and len: "40 \<le> b_len ipb" and on: "o_block_ipv6 (t_options c)" "pip_examined (t_options c) flags"
    and flags: "flags AND PIP_OUTGOING = 0" "flags AND PIPV6_IMCP_NOHOST_CLIENT \<noteq> 0"
  obtains c' buf' ip where "process_ip_header inet_pton c flags buf = Some (c', buf')" "b_len buf' = 0"
    "length ip = nat (b_len ipb)" "take 40 ip = take 40 (buf_content ipb)" "buf_ok (t_to_tun c')"
    "buf_content (t_to_tun c') = icmp6_eth (t_tunnel_type c) (buf_content buf) @
       icmp6_packet (icmp6_saddr inet_pton (t_options c) ip) ip (icmp6_quote (t_frame c) (length ip))"
proof -
  let ?F = "pip_flags (t_options c) flags" and ?n = "nat (header_offset (t_tunnel_type c))"
  let ?b = "buf_modify (\<lambda>p. take ?n p @ ip6_rewrite (t_frame c) ?F (drop ?n p)) buf"
  have F: "?F AND PIP_OUTGOING = 0" "?F AND PIPV6_IMCP_NOHOST_CLIENT \<noteq> 0" using flags on(1) by (simp_all add: pip_flags_kept)
  note v = is_ipv_X_True [OF ok v6 [unfolded is_ipv6_def]]
  obtain ipb1 where i: "is_ipv6 (t_tunnel_type c) ?b = (True, ipb1)" "buf_ok ?b"
    "buf_content ipb1 = ip6_rewrite (t_frame c) ?F (buf_content ipb)" "b_len ipb1 = b_len ipb"
    "take ?n (buf_content ?b) = take ?n (buf_content buf)" by (rule ipv6_again [OF ok v6])
  have "40 \<le> b_len ipb1" using len i(4) by simp
  then obtain out where o: "ipv6_send_icmp_unreachable inet_pton c ?b True =
      Some (c\<lparr>t_aux_buf := (t_aux_buf c)\<lparr>b_data := b_data out\<rparr>, t_to_tun := out\<rparr>)" "buf_ok out"
    "buf_content out = icmp6_eth (t_tunnel_type c) (buf_content ?b) @
       icmp6_packet (icmp6_saddr inet_pton (t_options c) (buf_content ipb1)) (buf_content ipb1) (icmp6_quote (t_frame c) (length (buf_content ipb1)))"
    using icmp6_law [OF c i(2,1), of True thesis] by auto
  have "icmp6_eth (t_tunnel_type c) (buf_content ?b) = icmp6_eth (t_tunnel_type c) (buf_content buf)"
    by (rule icmp6_eth_cong) (use arg_cong [OF i(5), of "take 12"] in \<open>simp add: header_offset_def\<close>)
  moreover have "process_ip_header inet_pton c flags buf =
      Some (c\<lparr>t_aux_buf := (t_aux_buf c)\<lparr>b_data := b_data out\<rparr>, t_to_tun := out\<rparr>, ?b\<lparr>b_len := 0\<rparr>)"
    using process_ipv6_law [OF ok v6 on(2), of inet_pton] F nohost_client [OF F(2)] o(1) by simp
  ultimately show thesis
    using that [of "c\<lparr>t_aux_buf := (t_aux_buf c)\<lparr>b_data := b_data out\<rparr>, t_to_tun := out\<rparr>" "?b\<lparr>b_len := 0\<rparr>" "buf_content ipb1"]
      o(2,3) i(3) v(4) by (simp add: ip6_rewrite_law)
qed



text \<open>C39: An answer can be longer than the 1280 bytes every IPv6 link carries, which the comment in the code gives as the
limit for the whole packet: the limit is applied to the quoted packet alone. On a tun device whose MTU is at least 1328,
the answer to a packet of at least 1280 bytes has 1328 bytes.\<close>

theorem icmp6_answer_too_long:
  assumes "tun_ok c" "pton_ok inet_pton" "buf_ok buf" "is_ipv6 (t_tunnel_type c) buf = (True, ipb)"
    "o_block_ipv6 (t_options c)" "pip_examined (t_options c) flags" "flags AND PIP_OUTGOING = 0" "flags AND PIPV6_IMCP_NOHOST_CLIENT \<noteq> 0"
    "t_tunnel_type c = DEV_TYPE_TUN" "1328 \<le> TUN_MTU_SIZE (t_frame c)" "1280 \<le> b_len ipb"
  shows "\<exists>c' buf'. process_ip_header inet_pton c flags buf = Some (c', buf') \<and> b_len (t_to_tun c') = 1328"
proof -
  have "40 \<le> b_len ipb" using assms(11) by simp
  then obtain c' buf' ip where c': "process_ip_header inet_pton c flags buf = Some (c', buf')" "length ip = nat (b_len ipb)" "buf_ok (t_to_tun c')"
    "buf_content (t_to_tun c') = icmp6_eth (t_tunnel_type c) (buf_content buf) @
       icmp6_packet (icmp6_saddr inet_pton (t_options c) ip) ip (icmp6_quote (t_frame c) (length ip))"
    by (rule block_ipv6_law [OF assms(1-4) _ assms(5-8)])
  have ip: "1280 \<le> length ip" using c'(2) assms(11) by simp
  then have "icmp6_quote (t_frame c) (length ip) = 1280" using assms(10) by (simp add: icmp6_quote_def)
  moreover have "length (icmp6_saddr inet_pton (t_options c) ip) = 16" using length_icmp6_saddr [OF assms(2)] ip by simp
  ultimately have "length (buf_content (t_to_tun c')) = 1328"
    using c'(4) ip assms(9) length_icmp6_packet by (simp add: icmp6_eth_def DEV_TYPE_TUN_def DEV_TYPE_TAP_def)
  then have "nat (b_len (t_to_tun c')) = 1328" using length_buf_content [OF c'(3)] by simp
  then show ?thesis using c'(1) by auto
qed

theorem icmp6_answer_too_long_witness:
  "\<exists>c' buf'. process_ip_header (\<lambda>s. None) demo_tun 34 demo_ip6 = Some (c', buf') \<and> b_len (t_to_tun c') = 1328"
proof -
  have "1280 \<le> b_len demo_ip6" "o_block_ipv6 (t_options demo_tun)" "t_tunnel_type demo_tun = DEV_TYPE_TUN"
    "1328 \<le> TUN_MTU_SIZE (t_frame demo_tun)"
    by (simp_all add: demo_ip6_def demo_tun_def demo_tun_options_def demo_frame_def frame_defs)
  then show ?thesis
    using icmp6_answer_too_long [OF demo_tun_ok demo_pton_ok demo_ip6_ok(1) demo_ip6_is _ demo_examined] by blast
qed

text \<open>C38: \<^verbatim>\<open>--block-ipv6\<close> and \<^verbatim>\<open>--route-gateway dhcp\<close> have no effect unless another option makes the packet be examined: with
\<^verbatim>\<open>--mssfix 0\<close>, without \<^verbatim>\<open>--passtos\<close> and without \<^verbatim>\<open>--client-nat\<close>, \<^verbatim>\<open>process_ip_header\<close> returns every packet unchanged, so that IPv6 packets
enter the tunnel and routers stay in DHCP answers.\<close>

theorem block_ipv6_needs_examination:
  assumes "o_mssfix (t_options c) = 0" "\<not> o_passtos (t_options c)" "o_client_nat (t_options c) = None"
  shows "process_ip_header inet_pton c flags buf = Some (c, buf)"
proof -
  have "\<not> pip_examined (t_options c) flags"
    using assms by (simp add: pip_examined_def pip_flags_def Let_def flag_defs and.assoc)
  then show ?thesis by (rule process_unexamined)
qed

theorem block_ipv6_needs_examination_witness:
  "let c = demo_tun\<lparr>t_options := demo_tun_options\<lparr>o_mssfix := 0\<rparr>\<rparr>
   in o_block_ipv6 (t_options c) \<and> is_ipv6 (t_tunnel_type c) demo_ip6 = (True, demo_ip6) \<and>
      process_ip_header (\<lambda>s. None) c 34 demo_ip6 = Some (c, demo_ip6)"
  using block_ipv6_needs_examination [of "demo_tun\<lparr>t_options := demo_tun_options\<lparr>o_mssfix := 0\<rparr>\<rparr>" "\<lambda>s. None" 34 demo_ip6] demo_ip6_is
  by (simp add: Let_def demo_tun_options_def)

end
