(* ===== verification/Buffer_Safety.thy ===== *)
theory Buffer_Safety
  imports Buffer
begin

section \<open>Programs over buffers\<close>

text \<open>
  Every packet goes through the operations of buffer.h and buffer.c. Here a program is any sequence of them over any
  number of buffers, which are the elements of a list. A store outside of a block would make the list that models the block
  longer, so that a buffer is well-formed after an operation only if the operation stayed inside the block.
\<close>

datatype buf_op =
    Alloc int
  | Init nat int
  | Reset nat
  | Reset_len nat
  | Inc_len nat int
  | Prepend nat int
  | Advance nat int
  | Write_alloc nat int
  | Read_alloc nat int
  | Write nat "byte list"
  | Write_prepend nat "byte list"
  | Write_u8 nat int
  | Write_u16 nat int
  | Write_u32 nat int
  | Read nat int
  | Read_u8 nat
  | Read_u16 nat
  | Read_u32 nat
  | Clear nat
  | Free nat
  | Assign nat nat
  | Copy nat nat
  | Copy_n nat nat int
  | Copy_range nat int nat int int
  | Copy_excess nat nat int

text \<open>An operation on one buffer, and one on a destination and a source.\<close>

fun buf_op1 :: "buf_op \<Rightarrow> (nat \<times> (buffer \<Rightarrow> buffer)) option" where
  "buf_op1 (Init i n) = Some (i, \<lambda>b. snd (buf_init b n))"
| "buf_op1 (Reset i) = Some (i, buf_reset)"
| "buf_op1 (Reset_len i) = Some (i, buf_reset_len)"
| "buf_op1 (Inc_len i n) = Some (i, \<lambda>b. snd (buf_inc_len b n))"
| "buf_op1 (Prepend i n) = Some (i, \<lambda>b. snd (buf_prepend b n))"
| "buf_op1 (Advance i n) = Some (i, \<lambda>b. snd (buf_advance b n))"
| "buf_op1 (Write_alloc i n) = Some (i, \<lambda>b. snd (buf_write_alloc b n))"
| "buf_op1 (Read_alloc i n) = Some (i, \<lambda>b. snd (buf_read_alloc b n))"
| "buf_op1 (Write i src) = Some (i, \<lambda>b. snd (buf_write b src (int (length src))))"
| "buf_op1 (Write_prepend i src) = Some (i, \<lambda>b. snd (buf_write_prepend b src (int (length src))))"
| "buf_op1 (Write_u8 i n) = Some (i, \<lambda>b. snd (buf_write_u8 b n))"
| "buf_op1 (Write_u16 i n) = Some (i, \<lambda>b. snd (buf_write_u16 b n))"
| "buf_op1 (Write_u32 i n) = Some (i, \<lambda>b. snd (buf_write_u32 b n))"
| "buf_op1 (Read i n) = Some (i, \<lambda>b. snd (buf_read b n))"
| "buf_op1 (Read_u8 i) = Some (i, \<lambda>b. snd (buf_read_u8 b))"
| "buf_op1 (Read_u16 i) = Some (i, \<lambda>b. snd (buf_read_u16 b))"
| "buf_op1 (Read_u32 i) = Some (i, \<lambda>b. snd (buf_read_u32 b))"
| "buf_op1 (Clear i) = Some (i, buf_clear)"
| "buf_op1 (Free i) = Some (i, free_buf)"
| "buf_op1 _ = None"

fun buf_op2 :: "buf_op \<Rightarrow> (nat \<times> nat \<times> (buffer \<Rightarrow> buffer \<Rightarrow> buffer \<times> buffer)) option" where
  "buf_op2 (Assign i j) = Some (i, j, \<lambda>d s. (snd (buf_assign d s), s))"
| "buf_op2 (Copy i j) = Some (i, j, \<lambda>d s. (snd (buf_copy d s), s))"
| "buf_op2 (Copy_n i j n) = Some (i, j, \<lambda>d s. snd (buf_copy_n d s n))"
| "buf_op2 (Copy_range i di j si n) = Some (i, j, \<lambda>d s. (snd (buf_copy_range d di s si n), s))"
| "buf_op2 (Copy_excess i j n) = Some (i, j, \<lambda>d s. snd (buf_copy_excess d s n))"
| "buf_op2 _ = None"

text \<open>Allocation adds a buffer. An index beyond the list names no buffer, and a buffer is not copied onto itself.\<close>

definition buf_step :: "buf_op \<Rightarrow> buffer list \<Rightarrow> buffer list exec" where
  "buf_step x bs =
     (case x of
        Alloc n \<Rightarrow> map_option (\<lambda>b. bs @ [b]) (alloc_buf n)
      | _ \<Rightarrow>
        (case buf_op1 x of
           Some (i, f) \<Rightarrow> Some (if i < length bs then bs[i := f (bs ! i)] else bs)
         | None \<Rightarrow>
           (case buf_op2 x of
              Some (i, j, f) \<Rightarrow>
                Some (if i < length bs \<and> j < length bs \<and> i \<noteq> j
                      then bs[i := fst (f (bs ! i) (bs ! j)), j := snd (f (bs ! i) (bs ! j))] else bs)
            | None \<Rightarrow> Some bs)))"

fun buf_run :: "buf_op list \<Rightarrow> buffer list \<Rightarrow> buffer list exec" where
  "buf_run [] bs = Some bs"
| "buf_run (x # ops) bs = do { bs \<leftarrow> buf_step x bs; buf_run ops bs }"

text \<open>
  The arguments: \<^verbatim>\<open>alloc_buf\<close> takes a \<^verbatim>\<open>size_t\<close> and the others an \<^verbatim>\<open>int\<close>. \<^verbatim>\<open>buf_copy_range\<close> adds
  up its arguments before it compares them with anything, so that its sums overflow unless they are small.
\<close>

fun buf_args :: "buf_op \<Rightarrow> bool" where
  "buf_args (Alloc n) \<longleftrightarrow> 0 \<le> n \<and> n < 2 ^ 64"
| "buf_args (Write_alloc i n) \<longleftrightarrow> - (2 ^ 31) \<le> n \<and> n < 2 ^ 31"
| "buf_args (Copy_range i di j si n) \<longleftrightarrow> di < BUF_SIZE_MAX \<and> si < BUF_SIZE_MAX \<and> n < BUF_SIZE_MAX"
| "buf_args (Write i src) \<longleftrightarrow> int (length src) < 2 ^ 31"
| "buf_args (Write_prepend i src) \<longleftrightarrow> int (length src) < 2 ^ 31"
| "buf_args _ \<longleftrightarrow> True"

subsection \<open>Each operation keeps buffers well-formed\<close>

lemma buf_write_keeps: "buf_ok b \<Longrightarrow> n = int (length src) \<Longrightarrow> buf_ok (snd (buf_write b src n))"
  by (cases "buf_write b src n"; cases "fst (buf_write b src n)") (auto dest: buf_write_True(1) buf_write_False)

lemma buf_write_prepend_keeps: "buf_ok b \<Longrightarrow> n = int (length src) \<Longrightarrow> buf_ok (snd (buf_write_prepend b src n))"
  by (cases "buf_write_prepend b src n"; cases "fst (buf_write_prepend b src n)")
    (auto dest: buf_write_prepend_True(1) buf_write_prepend_False)

lemma buf_read_alloc_keeps:
  assumes "buf_ok b" shows "buf_ok (snd (buf_read_alloc b n))"
  using assms by (cases rule: buf_ok_cases) (auto simp: buf_read_alloc_def buf_ok_def simp del: buf_ok_bounds)

lemma buf_read_keeps: "buf_ok b \<Longrightarrow> buf_ok (snd (buf_read b n))"
  using buf_read_alloc_keeps [of b n] by (auto simp: buf_read_def split: prod.split option.split)

lemma buf_advance_keeps: "buf_ok b \<Longrightarrow> buf_ok (snd (buf_advance b n))"
  by (cases rule: buf_ok_cases) (auto simp: buf_advance_def buf_valid_def intro!: buf_okI)

lemma buf_moves_keep:
  assumes "buf_ok b"
  shows "buf_ok (snd (buf_init b n))" "buf_ok (snd (buf_inc_len b n))" "buf_ok (snd (buf_prepend b n))" "buf_ok (buf_reset_len b)"
    "- (2 ^ 31) \<le> n \<Longrightarrow> n < 2 ^ 31 \<Longrightarrow> buf_ok (snd (buf_write_alloc b n))"
proof -
  show "buf_ok (snd (buf_init b n))" "buf_ok (snd (buf_inc_len b n))" "buf_ok (snd (buf_prepend b n))" "buf_ok (buf_reset_len b)"
    using assms by (cases rule: buf_ok_cases; auto simp: buf_defs buf_reset_len_def Let_def buf_ok_def simp del: buf_ok_bounds; fail)+
  assume n: "- (2 ^ 31) \<le> n" "n < 2 ^ 31"
  then have v: "0 \<le> n" if "buf_size_valid n" using that buf_size_valid_negative [of n] by fastforce
  show "buf_ok (snd (buf_write_alloc b n))"
    using assms v by (cases rule: buf_ok_cases) (auto simp: buf_defs buf_ok_def simp del: buf_ok_bounds)
qed

lemma buf_clear_keeps: "buf_ok b \<Longrightarrow> buf_ok (buf_clear b)"
  by (cases rule: buf_ok_cases) (auto simp: buf_clear_def buf_store_def Let_def buf_ok_def simp del: buf_ok_bounds)

lemma buf_reset_keeps: "buf_ok (buf_reset b)"
  by (simp add: buf_reset_def buf_ok_def del: buf_ok_bounds)

lemma buf_copy_keeps:
  assumes "buf_ok d" "buf_ok s"
  shows "buf_ok (snd (buf_copy d s))"
  unfolding buf_copy_def using assms by (intro buf_write_keeps) simp_all

lemma buf_assign_keeps:
  assumes "buf_ok d" "buf_ok s"
  shows "buf_ok (snd (buf_assign d s))"
proof -
  obtain r d1 where i: "buf_init d (b_offset s) = (r, d1)" by (cases "buf_init d (b_offset s)")
  then have "buf_ok d1" using buf_moves_keep(1) [OF assms(1), of "b_offset s"] by simp
  then have "buf_ok (snd (buf_write d1 (buf_content s) (buf_len s)))" using assms(2) by (intro buf_write_keeps) simp_all
  then show ?thesis using \<open>buf_ok d1\<close> by (simp add: buf_assign_def i split: bool.split)
qed

lemma buf_copy_n_keeps:
  assumes "buf_ok d" "buf_ok s"
  shows "buf_ok (fst (snd (buf_copy_n d s n)))" "buf_ok (snd (snd (buf_copy_n d s n)))"
proof -
  have r: "buf_copy_n d s n = (case buf_read s n of (None, s') \<Rightarrow> (False, d, s') | (Some bs, s') \<Rightarrow> (case buf_write d bs n of (r, d') \<Rightarrow> (r, d', s')))"
    by (simp add: buf_copy_n_def buf_read_def split: prod.split option.split)
  obtain bs s' where b: "buf_read s n = (bs, s')" by (cases "buf_read s n")
  have s': "buf_ok s'" using buf_read_keeps [OF assms(2), of n] b by simp
  have d': "buf_ok (snd (buf_write d x n))" if "bs = Some x" for x
    using buf_read_Some [OF assms(2) b [unfolded that]] by (intro buf_write_keeps [OF assms(1)]) simp
  show "buf_ok (fst (snd (buf_copy_n d s n)))" "buf_ok (snd (snd (buf_copy_n d s n)))"
    using s' d' assms(1) by (auto simp: r b split: option.split prod.split)
qed

lemma buf_copy_range_keeps:
  assumes "buf_ok d" "buf_ok s"
  shows "buf_ok (snd (buf_copy_range d di s si n))"
proof (cases "fst (buf_copy_range d di s si n)")
  case False
  then show ?thesis using assms(1) by (auto simp: buf_copy_range_def Let_def split: if_splits)
next
  case True
  then have g: "0 \<le> si" "0 \<le> n" "si + n \<le> b_len s" "0 \<le> di" "b_offset d + di + n \<le> b_capacity d"
    by (auto simp: buf_copy_range_def Let_def split: if_splits)
  let ?bs = "buf_load s (b_offset s + si) n"
  have e: "snd (buf_copy_range d di s si n) =
      (buf_store d (b_offset d + di) ?bs)\<lparr>b_len := if di + n > b_len d then di + n else b_len d\<rparr>"
    using g by (simp add: buf_copy_range_def buf_store_def Let_def)
  have bs: "length ?bs = nat n"
    using assms(2)
  proof (cases rule: buf_ok_cases)
    case (block sd)
    then have "nat (b_offset s + si) + nat n \<le> length sd" using g by linarith
    then show ?thesis by (simp add: buf_load_def block)
  qed (use g in \<open>simp add: buf_load_def\<close>)
  show ?thesis using assms(1)
  proof (cases rule: buf_ok_cases)
    case (block dd)
    then have "nat (b_offset d + di) + nat n \<le> length dd" using g by linarith
    then show ?thesis using block g bs unfolding e by (intro buf_okI) (auto simp: buf_store_def)
  qed (use g in \<open>simp add: e buf_store_def buf_ok_def del: buf_ok_bounds\<close>)
qed

lemma buf_copy_excess_keeps:
  assumes "buf_ok d" "buf_ok s"
  shows "buf_ok (fst (snd (buf_copy_excess d s n)))" "buf_ok (snd (snd (buf_copy_excess d s n)))"
proof -
  have s': "buf_ok (s\<lparr>b_len := n\<rparr>)" if "0 \<le> n" "n < b_len s"
    using assms(2) that by (cases rule: buf_ok_cases) (auto intro!: buf_okI)
  obtain r a where a: "buf_advance s n = (r, a)" by (cases "buf_advance s n")
  have "buf_ok (snd (buf_copy d a))" using buf_advance_keeps [OF assms(2), of n] a by (intro buf_copy_keeps [OF assms(1)]) simp
  then show "buf_ok (fst (snd (buf_copy_excess d s n)))" "buf_ok (snd (snd (buf_copy_excess d s n)))"
    using assms s' by (auto simp: buf_copy_excess_def Let_def a split: bool.split prod.split)
qed

lemma alloc_buf_None: "0 \<le> n \<Longrightarrow> n < 2 ^ 64 \<Longrightarrow> alloc_buf n = None \<longleftrightarrow> BUF_SIZE_MAX \<le> n"
  by (simp add: alloc_buf_def not_less)

lemma buf_read_words:
  "snd (buf_read_u16 b) = snd (buf_read b 2)" "snd (buf_read_u32 b) = snd (buf_read b 4)"
  by (simp_all add: buf_read_u16_def buf_read_u32_def split: prod.split option.split)

lemma buf_op1_keeps:
  assumes "buf_args x" "buf_op1 x = Some (i, f)" "buf_ok b"
  shows "buf_ok (f b)"
  using assms buf_moves_keep [OF assms(3)] buf_read_keeps [OF assms(3)]
  by (cases x)
    (auto simp: buf_write_u8_def buf_write_u16_def buf_write_u32_def buf_reset_keeps free_buf_def
      buf_read_u8_def buf_read_words buf_clear_keeps buf_read_alloc_keeps buf_advance_keeps
      intro!: buf_write_keeps buf_write_prepend_keeps split: prod.split option.split)

lemma buf_op2_keeps:
  assumes "buf_args x" "buf_op2 x = Some (i, j, f)" "buf_ok d" "buf_ok s"
  shows "buf_ok (fst (f d s))" "buf_ok (snd (f d s))"
  using assms(1,2) buf_copy_keeps [OF assms(3,4)] buf_assign_keeps [OF assms(3,4)] buf_copy_n_keeps [OF assms(3,4)]
    buf_copy_range_keeps [OF assms(3,4)] buf_copy_excess_keeps [OF assms(3,4)] assms(3,4)
  by (cases x; auto; fail)+

lemma buf_step_keeps:
  assumes "buf_args x" "list_all buf_ok bs"
  shows "case buf_step x bs of None \<Rightarrow> \<exists>n\<ge>BUF_SIZE_MAX. x = Alloc n | Some bs' \<Rightarrow> list_all buf_ok bs'"
proof (cases "\<exists>n. x = Alloc n")
  case True
  then obtain n where x: "x = Alloc n" "0 \<le> n" "n < 2 ^ 64" using assms(1) by auto
  show ?thesis
  proof (cases "alloc_buf n")
    case None
    then show ?thesis using alloc_buf_None [OF x(2,3)] x(1) by (auto simp: buf_step_def)
  next
    case (Some b)
    then show ?thesis using alloc_buf_ok(1) [OF Some x(2,3)] x(1) assms(2) by (simp add: buf_step_def)
  qed
next
  case False
  have nth: "buf_ok (bs ! k)" if "k < length bs" for k using assms(2) that by (simp add: list_all_length)
  have upd: "list_all buf_ok (cs[k := b])" if "list_all buf_ok cs" "buf_ok b" for cs k b
    using that by (auto simp: list_all_iff dest: set_update_subset_insert [THEN subsetD])
  have s: "buf_step x bs = (case buf_op1 x of
        Some (i, f) \<Rightarrow> Some (if i < length bs then bs[i := f (bs ! i)] else bs)
      | None \<Rightarrow> (case buf_op2 x of
          Some (i, j, f) \<Rightarrow> Some (if i < length bs \<and> j < length bs \<and> i \<noteq> j
            then bs[i := fst (f (bs ! i) (bs ! j)), j := snd (f (bs ! i) (bs ! j))] else bs)
        | None \<Rightarrow> Some bs))"
    using False by (simp add: buf_step_def split: buf_op.split)
  have one: "list_all buf_ok (if i < length bs then bs[i := f (bs ! i)] else bs)" if "buf_op1 x = Some (i, f)" for i f
    using upd [OF assms(2) buf_op1_keeps [OF assms(1) that nth]] assms(2) by simp
  have two: "list_all buf_ok (if i < length bs \<and> j < length bs \<and> i \<noteq> j
      then bs[i := fst (f (bs ! i) (bs ! j)), j := snd (f (bs ! i) (bs ! j))] else bs)" if "buf_op2 x = Some (i, j, f)" for i j f
    using upd [OF upd [OF assms(2) buf_op2_keeps(1) [OF assms(1) that nth nth]] buf_op2_keeps(2) [OF assms(1) that nth nth]] assms(2) by simp
  show ?thesis unfolding s using one two assms(2) by (simp split: option.split prod.split)
qed

lemma buf_run_keeps:
  "list_all buf_args ops \<Longrightarrow> list_all buf_ok bs \<Longrightarrow>
   case buf_run ops bs of None \<Rightarrow> \<exists>n\<ge>BUF_SIZE_MAX. Alloc n \<in> set ops | Some bs' \<Rightarrow> list_all buf_ok bs'"
proof (induction ops arbitrary: bs)
  case (Cons x ops)
  then have step: "case buf_step x bs of None \<Rightarrow> \<exists>n\<ge>BUF_SIZE_MAX. x = Alloc n | Some bs' \<Rightarrow> list_all buf_ok bs'"
    by (intro buf_step_keeps) simp_all
  show ?case
  proof (cases "buf_step x bs")
    case None
    then show ?thesis using step by auto
  next
    case (Some bs1)
    then show ?thesis using Cons.IH [of bs1] Cons.prems step by (auto split: option.splits)
  qed
qed simp

subsection \<open>Property\<close>

text \<open>A program with operations that succeed and some that are refused.\<close>

definition demo_program :: "buf_op list" where
  "demo_program = [Alloc 8, Alloc 4, Init 0 3, Write 0 [1, 2, 3], Prepend 0 5, Write_prepend 0 [7, 8], Copy_n 1 0 3,
     Inc_len 1 (-9), Copy_range 0 2 1 1 2, Advance 0 100, Write_u32 1 5, Read_u16 0, Free 1]"



end
