(* ===== verification/Pool.thy ===== *)
theory Pool
  imports VPN_Prelude
begin

section \<open>Addresses for the clients of a server (pool.c)\<close>

text \<open>
  A server leases an address to each client: a handle is an index into \<^verbatim>\<open>list\<close> and stands for an address counted from
  the base, or for a block of four of them. A client that returns gets its former address when it is still free; a new
  client gets the address that has been free longest. An IPv6 address is the list of its 16 bytes.
\<close>

subsection \<open>State\<close>

definition IFCONFIG_POOL_MAX :: int where "IFCONFIG_POOL_MAX = 65536"

datatype pool_type = IFCONFIG_POOL_30NET | IFCONFIG_POOL_INDIV

record ifconfig_pool_entry =
  pe_in_use :: bool
  pe_common_name :: "string option"
  pe_last_release :: int
  pe_fixed :: bool

record ifconfig_pool =
  po_duplicate_cn :: bool
  po_type :: pool_type
  po_base :: u32
  po_size :: int
  po_ipv6_enabled :: bool
  po_ipv6_base :: "byte list"
  po_ipv6_size :: u32
  po_list :: "ifconfig_pool_entry list"

definition ifconfig_pool_entry_free :: "ifconfig_pool_entry \<Rightarrow> int \<Rightarrow> bool \<Rightarrow> ifconfig_pool_entry" where
  "ifconfig_pool_entry_free ipe now hard =
     (let ipe = ipe\<lparr>pe_in_use := False\<rparr>;
          ipe = (if hard \<and> pe_common_name ipe \<noteq> None then ipe\<lparr>pe_common_name := None\<rparr> else ipe)
      in if hard then ipe\<lparr>pe_last_release := 0\<rparr> else ipe\<lparr>pe_last_release := now\<rparr>)"

subsection \<open>Looking for a free entry\<close>

text \<open>The loop: the entries from index \<open>i\<close> on, and \<^verbatim>\<open>earliest_release\<close>, \<^verbatim>\<open>previous_usage\<close> and \<^verbatim>\<open>new_usage\<close>.\<close>

fun pool_scan :: "bool \<Rightarrow> string option \<Rightarrow> ifconfig_pool_entry list \<Rightarrow> int \<Rightarrow> int \<Rightarrow> int \<Rightarrow> int \<Rightarrow> int \<times> int" where
  "pool_scan dup cn [] i earliest previous new = (previous, new)"
| "pool_scan dup cn (ipe # es) i earliest previous new =
     (if \<not> pe_in_use ipe then
        if dup then (previous, i)
        else
          let (earliest, new) =
                (if (new = -1 \<or> pe_last_release ipe < earliest) \<and> \<not> pe_fixed ipe then (pe_last_release ipe, i) else (earliest, new));
              previous =
                (if previous < 0 \<and> cn \<noteq> None \<and> pe_common_name ipe \<noteq> None \<and> cn = pe_common_name ipe then i else previous)
          in pool_scan dup cn es (i + 1) earliest previous new
      else pool_scan dup cn es (i + 1) earliest previous new)"

definition ifconfig_pool_find :: "ifconfig_pool \<Rightarrow> string option \<Rightarrow> int" where
  "ifconfig_pool_find pool common_name =
     (let (previous_usage, new_usage) =
            pool_scan (po_duplicate_cn pool) common_name (take (nat (po_size pool)) (po_list pool)) 0 0 (-1) (-1)
      in if previous_usage \<ge> 0 then previous_usage
         else if new_usage \<ge> 0 then new_usage
         else -1)"

subsection \<open>Setting up\<close>

definition ifconfig_pool_verify_range :: "u32 \<Rightarrow> u32 \<Rightarrow> bool" where
  "ifconfig_pool_verify_range start end' =
     (let ret = True;
          ret = (if start > end' then False else ret)
      in if uint (end' - start) \<ge> IFCONFIG_POOL_MAX then False else ret)"

text \<open>A prefix of more than 128 bits would shift by a negative number, which has no meaning in C.\<close>

definition ifconfig_pool_init ::
  "pool_type \<Rightarrow> u32 \<Rightarrow> u32 \<Rightarrow> bool \<Rightarrow> bool \<Rightarrow> byte list \<Rightarrow> int \<Rightarrow> ifconfig_pool exec" where
  "ifconfig_pool_init type start end' duplicate_cn ipv6_pool ipv6_base ipv6_netbits = do {
     assert_c (start \<le> end' \<and> uint (end' - start) < IFCONFIG_POOL_MAX);
     let base = (case type of IFCONFIG_POOL_30NET \<Rightarrow> start AND NOT 3 | IFCONFIG_POOL_INDIV \<Rightarrow> start);
     let size = (case type of IFCONFIG_POOL_30NET \<Rightarrow> drop_bit 2 (((end' OR 3) + 1) - base) | IFCONFIG_POOL_INDIV \<Rightarrow> end' - start + 1);
     assert_c (ipv6_pool \<longrightarrow> ipv6_netbits \<le> 128);
     let size6 = (if ipv6_pool then if ipv6_netbits > 96 then push_bit (nat (128 - ipv6_netbits)) 1 else 65536 else 0 :: u32);
     assert_c (ipv6_pool \<longrightarrow> size < size6);
     Some \<lparr>po_duplicate_cn = duplicate_cn, po_type = type, po_base = base, po_size = uint size, po_ipv6_enabled = ipv6_pool,
           po_ipv6_base = (if ipv6_pool then ipv6_base else replicate 16 0), po_ipv6_size = size6,
           po_list = replicate (unat size) \<lparr>pe_in_use = False, pe_common_name = None, pe_last_release = 0, pe_fixed = False\<rparr>\<rparr> }"

subsection \<open>Addresses\<close>

text \<open>\<^verbatim>\<open>add_in6_addr\<close> (socket.c) adds to the bytes from the last one on.\<close>

fun add_in6_bytes :: "byte list \<Rightarrow> u32 \<Rightarrow> byte list" where
  "add_in6_bytes [] add = []"
| "add_in6_bytes (b # bs) add =
     (if add > 0 then
        let h = ucast b :: u32;
            carry = drop_bit 8 ((h AND 0xff) + (add AND 0xff))
        in ucast ((h + add) AND 0xff) # add_in6_bytes bs (drop_bit 8 add + carry)
      else b # bs)"

definition add_in6_addr :: "byte list \<Rightarrow> u32 \<Rightarrow> byte list" where
  "add_in6_addr base add = rev (add_in6_bytes (rev base) add)"

definition ifconfig_pool_handle_to_ip_base :: "ifconfig_pool \<Rightarrow> int \<Rightarrow> u32" where
  "ifconfig_pool_handle_to_ip_base pool hand =
     (if hand \<ge> 0 \<and> hand < po_size pool then
        case po_type pool of
          IFCONFIG_POOL_30NET \<Rightarrow> po_base pool + word_of_int (push_bit 2 hand)
        | IFCONFIG_POOL_INDIV \<Rightarrow> po_base pool + word_of_int hand
      else 0)"

definition ifconfig_pool_ip_base_to_handle :: "ifconfig_pool \<Rightarrow> u32 \<Rightarrow> int" where
  "ifconfig_pool_ip_base_to_handle pool addr =
     (let ret = c_int (uint (case po_type pool of
                  IFCONFIG_POOL_30NET \<Rightarrow> drop_bit 2 (addr - po_base pool)
                | IFCONFIG_POOL_INDIV \<Rightarrow> addr - po_base pool))
      in if ret < 0 \<or> ret \<ge> po_size pool then -1 else ret)"

definition ifconfig_pool_handle_to_ipv6_base :: "ifconfig_pool \<Rightarrow> int \<Rightarrow> byte list" where
  "ifconfig_pool_handle_to_ipv6_base pool hand =
     (if hand \<ge> 0 \<and> word_of_int hand < po_ipv6_size pool then add_in6_addr (po_ipv6_base pool) (word_of_int hand) else replicate 16 0)"

subsection \<open>Leases\<close>

record lease =
  le_local :: u32
  le_remote :: u32
  le_remote_ipv6 :: "byte list option"

text \<open>The handle, or \<^verbatim>\<open>-1\<close> and no lease.\<close>

definition ifconfig_pool_acquire :: "ifconfig_pool \<Rightarrow> string option \<Rightarrow> (int \<times> lease option \<times> ifconfig_pool) exec" where
  "ifconfig_pool_acquire pool common_name =
     (let i = ifconfig_pool_find pool common_name
      in if i \<ge> 0 then do {
           let ipe = po_list pool ! nat i;
           assert_c (\<not> pe_in_use ipe);
           let ipe = (ifconfig_pool_entry_free ipe 0 True)\<lparr>pe_in_use := True\<rparr>;
           let ipe = (if common_name \<noteq> None then ipe\<lparr>pe_common_name := common_name\<rparr> else ipe);
           let (local, remote) = (case po_type pool of
                 IFCONFIG_POOL_30NET \<Rightarrow> let b = po_base pool + word_of_int (push_bit 2 i) in (b + 1, b + 2)
               | IFCONFIG_POOL_INDIV \<Rightarrow> let b = po_base pool + word_of_int i in (0, b));
           let ipv6 = (if po_ipv6_enabled pool then Some (add_in6_addr (po_ipv6_base pool) (word_of_int i)) else None);
           Some (i, Some \<lparr>le_local = local, le_remote = remote, le_remote_ipv6 = ipv6\<rparr>, pool\<lparr>po_list := (po_list pool)[nat i := ipe]\<rparr>) }
         else Some (i, None, pool))"

definition ifconfig_pool_release :: "ifconfig_pool \<Rightarrow> int \<Rightarrow> int \<Rightarrow> bool \<Rightarrow> bool \<times> ifconfig_pool" where
  "ifconfig_pool_release pool now hand hard =
     (if hand \<ge> 0 \<and> hand < po_size pool
      then (True, pool\<lparr>po_list := (po_list pool)[nat hand := ifconfig_pool_entry_free (po_list pool ! nat hand) now hard]\<rparr>)
      else (False, pool))"

definition ifconfig_pool_set :: "ifconfig_pool \<Rightarrow> int \<Rightarrow> string \<Rightarrow> u32 \<Rightarrow> bool \<Rightarrow> ifconfig_pool" where
  "ifconfig_pool_set pool now cn addr fixed =
     (let h = ifconfig_pool_ip_base_to_handle pool addr
      in if h \<ge> 0 then
           let e = ifconfig_pool_entry_free (po_list pool ! nat h) now True;
               e = e\<lparr>pe_in_use := False, pe_common_name := Some cn, pe_last_release := now, pe_fixed := fixed\<rparr>
           in pool\<lparr>po_list := (po_list pool)[nat h := e]\<rparr>
         else pool)"

subsection \<open>The search\<close>

definition pe_free :: "ifconfig_pool_entry \<Rightarrow> bool" where
  "pe_free e \<longleftrightarrow> \<not> pe_in_use e"

definition pe_former :: "string option \<Rightarrow> ifconfig_pool_entry \<Rightarrow> bool" where
  "pe_former cn e \<longleftrightarrow> \<not> pe_in_use e \<and> cn \<noteq> None \<and> pe_common_name e = cn"

definition pe_available :: "ifconfig_pool_entry \<Rightarrow> bool" where
  "pe_available e \<longleftrightarrow> \<not> pe_in_use e \<and> \<not> pe_fixed e"

lemma pool_scan_duplicate:
  "pool_scan True cn es i er previous new =
     (previous, case first_index pe_free es of None \<Rightarrow> new | Some k \<Rightarrow> i + int k)"
  by (induction es arbitrary: i) (auto simp: pe_free_def split: option.splits)

lemma pool_scan_step:
  defines "taken e er new \<equiv> pe_available e \<and> (new = -1 \<or> pe_last_release e < er)"
  shows "pool_scan False cn (e # es) i er previous new =
    pool_scan False cn es (i + 1) (if taken e er new then pe_last_release e else er)
      (if previous < 0 \<and> pe_former cn e then i else previous) (if taken e er new then i else new)"
  by (cases "pe_in_use e"; cases "pe_fixed e") (auto simp: taken_def pe_available_def pe_former_def)

lemma pool_scan_previous:
  "0 \<le> i \<Longrightarrow> fst (pool_scan False cn es i er previous new) =
     (if previous \<ge> 0 then previous else case first_index (pe_former cn) es of None \<Rightarrow> previous | Some k \<Rightarrow> i + int k)"
proof (induction es arbitrary: i er previous new)
  case (Cons e es)
  have IH: "fst (pool_scan False cn es (i + 1) er' p n) =
     (if p \<ge> 0 then p else case first_index (pe_former cn) es of None \<Rightarrow> p | Some k \<Rightarrow> i + 1 + int k)" for er' p n
    using Cons.prems by (intro Cons.IH) simp
  show ?case using Cons.prems unfolding pool_scan_step IH by (simp split: option.split)
qed simp

text \<open>The entry found is the least recently released one of those available, unless an earlier one was better.\<close>

lemma pool_scan_new:
  assumes "0 \<le> i" "snd (pool_scan False cn es i er previous new) = r"
  shows "r = new \<and> (\<forall>e\<in>set es. pe_available e \<longrightarrow> new \<noteq> -1 \<and> er \<le> pe_last_release e) \<or>
    (\<exists>k<length es. r = i + int k \<and> pe_available (es ! k) \<and> (new = -1 \<or> pe_last_release (es ! k) < er) \<and>
       (\<forall>e\<in>set es. pe_available e \<longrightarrow> pe_last_release (es ! k) \<le> pe_last_release e))"
  using assms
proof (induction es arbitrary: i er previous new)
  case (Cons e es)
  define take_it where "take_it \<longleftrightarrow> pe_available e \<and> (new = -1 \<or> pe_last_release e < er)"
  let ?er = "if take_it then pe_last_release e else er" and ?new = "if take_it then i else new"
  obtain p where step: "pool_scan False cn (e # es) i er previous new = pool_scan False cn es (i + 1) ?er p ?new"
    unfolding pool_scan_step take_it_def by blast
  note IH = Cons.IH [of "i + 1" ?er p ?new]
  then consider "r = ?new" "\<forall>x\<in>set es. pe_available x \<longrightarrow> ?new \<noteq> -1 \<and> ?er \<le> pe_last_release x"
    | k where "k < length es" "r = i + 1 + int k" "pe_available (es ! k)" "?new = -1 \<or> pe_last_release (es ! k) < ?er"
      "\<forall>x\<in>set es. pe_available x \<longrightarrow> pe_last_release (es ! k) \<le> pe_last_release x"
    using Cons.prems step by auto
  then show ?case
  proof cases
    case 1
    show ?thesis
    proof (cases take_it)
      case True
      then show ?thesis using 1 by (intro disjI2 exI [of _ 0]) (auto simp: take_it_def)
    next
      case False
      then show ?thesis using 1 by (intro disjI1) (auto simp: take_it_def)
    qed
  next
    case (2 k)
    have "pe_last_release (es ! k) \<le> pe_last_release e" if "pe_available e"
      using 2(4) that Cons.prems(1) by (auto simp: take_it_def split: if_splits)
    then show ?thesis using 2 Cons.prems(1)
      by (intro disjI2 exI [of _ "Suc k"]) (auto simp: take_it_def split: if_splits)
  qed
qed simp

subsection \<open>Well-formed pools\<close>

definition po_width :: "ifconfig_pool \<Rightarrow> int" where
  "po_width p = (case po_type p of IFCONFIG_POOL_30NET \<Rightarrow> 4 | IFCONFIG_POOL_INDIV \<Rightarrow> 1)"

definition pool_ok :: "ifconfig_pool \<Rightarrow> bool" where
  "pool_ok p \<longleftrightarrow> 0 < po_size p \<and> po_size p \<le> IFCONFIG_POOL_MAX \<and> length (po_list p) = nat (po_size p) \<and>
     uint (po_base p) + po_width p * po_size p \<le> 2 ^ 32"

lemma find_duplicate:
  assumes "pool_ok p" "po_duplicate_cn p"
  shows "ifconfig_pool_find p cn = (case first_index pe_free (po_list p) of None \<Rightarrow> -1 | Some k \<Rightarrow> int k)"
  using assms by (simp add: ifconfig_pool_find_def pool_ok_def pool_scan_duplicate split: option.split)

lemma find_former:
  assumes "pool_ok p" "\<not> po_duplicate_cn p" "first_index (pe_former cn) (po_list p) = Some k"
  shows "ifconfig_pool_find p cn = int k"
  using assms pool_scan_previous [of 0 cn "po_list p" 0 "-1" "-1"]
  by (cases "pool_scan False cn (po_list p) 0 0 (-1) (-1)") (simp add: ifconfig_pool_find_def pool_ok_def)

lemma find_new:
  assumes "pool_ok p" "\<not> po_duplicate_cn p" "first_index (pe_former cn) (po_list p) = None"
  shows "ifconfig_pool_find p cn = -1 \<and> (\<forall>e\<in>set (po_list p). \<not> pe_available e) \<or>
    (\<exists>k<length (po_list p). ifconfig_pool_find p cn = int k \<and> pe_available (po_list p ! k) \<and>
       (\<forall>e\<in>set (po_list p). pe_available e \<longrightarrow> pe_last_release (po_list p ! k) \<le> pe_last_release e))"
proof -
  obtain pr nw where s: "pool_scan False cn (po_list p) 0 0 (-1) (-1) = (pr, nw)" by (cases "pool_scan False cn (po_list p) 0 0 (-1) (-1)")
  have "pr = -1" using pool_scan_previous [of 0 cn "po_list p" 0 "-1" "-1"] s assms(3) by simp
  then have "ifconfig_pool_find p cn = (if nw \<ge> 0 then nw else -1)"
    using assms(1,2) s by (simp add: ifconfig_pool_find_def pool_ok_def)
  then show ?thesis using pool_scan_new [of 0 cn "po_list p" 0 "-1" "-1" nw] s by auto
qed

lemma find_range:
  assumes "pool_ok p" "ifconfig_pool_find p cn = i"
  shows "i = -1 \<or> (\<exists>k<length (po_list p). i = int k \<and> \<not> pe_in_use (po_list p ! k))"
proof (cases "po_duplicate_cn p")
  case True
  then show ?thesis using find_duplicate [OF assms(1) True, of cn] assms(2)
    by (auto simp: first_index_Some pe_free_def split: option.splits)
next
  case False
  then show ?thesis
  proof (cases "first_index (pe_former cn) (po_list p)")
    case None
    then show ?thesis using find_new [OF assms(1) False None] assms(2) by (auto simp: pe_available_def)
  next
    case (Some k)
    then show ?thesis using find_former [OF assms(1) False Some] assms(2) by (auto simp: first_index_Some pe_former_def)
  qed
qed

subsection \<open>Addresses of handles\<close>

lemma uint_add_offset:
  fixes b :: u32
  assumes "0 \<le> x" "uint b + x < 2 ^ 32"
  shows "uint (b + word_of_int x) = uint b + x"
proof -
  have "x < 2 ^ 32" using assms(2) uint_ge_0 [of b] by linarith
  then have "uint (word_of_int x :: u32) = x" using assms(1) by (simp add: unsigned_of_int take_bit_int_eq_self)
  then show ?thesis using assms by (simp add: uint_word_ariths mod_pos_pos_trivial)
qed

lemma handle_address:
  assumes "pool_ok p" "0 \<le> h" "h < po_size p" "0 \<le> d" "d < po_width p"
  shows "uint (po_base p + word_of_int (po_width p * h + d)) = uint (po_base p) + po_width p * h + d"
proof -
  have w: "1 \<le> po_width p" by (simp add: po_width_def split: pool_type.split)
  have "po_width p * h + d < po_width p * (h + 1)" using assms(5) by (simp add: algebra_simps)
  also have "\<dots> \<le> po_width p * po_size p" using w assms(3) by (intro mult_left_mono) simp_all
  finally have lt: "uint (po_base p) + (po_width p * h + d) < 2 ^ 32" using assms(1) by (simp add: pool_ok_def)
  have "0 \<le> po_width p * h + d" using w assms(2,4) by simp
  then show ?thesis using uint_add_offset [OF _ lt] by simp
qed

lemma handle_back:
  assumes "pool_ok p" "0 \<le> h" "h < po_size p" "0 \<le> d" "d < po_width p"
    "uint addr = uint (po_base p) + po_width p * h + d"
  shows "ifconfig_pool_ip_base_to_handle p addr = h"
proof -
  have diff: "uint (addr - po_base p) = po_width p * h + d"
  proof -
    have "0 \<le> po_width p * h + d" using assms by (simp add: po_width_def split: pool_type.split)
    moreover have "uint addr < 4294967296" using uint_lt2p [of addr] by simp
    then have "po_width p * h + d < 4294967296" using assms(6) uint_ge_0 [of "po_base p"] by linarith
    ultimately show ?thesis using assms(6) by (simp add: uint_word_ariths mod_pos_pos_trivial)
  qed
  have small: "h < 65536" using assms(1,3) by (simp add: pool_ok_def IFCONFIG_POOL_MAX_def)
  show ?thesis
  proof (cases "po_type p")
    case IFCONFIG_POOL_30NET
    then have "uint (addr - po_base p) div 2 ^ 2 = h" using diff assms(4,5) by (simp add: po_width_def)
    then have "uint (drop_bit 2 (addr - po_base p)) = h" by (simp only: uint_drop_bit_div)
    then show ?thesis using IFCONFIG_POOL_30NET assms(2,3) small by (simp add: ifconfig_pool_ip_base_to_handle_def c_int_id Let_def)
  next
    case IFCONFIG_POOL_INDIV
    then have "uint (addr - po_base p) = h" using diff assms(4,5) by (simp add: po_width_def)
    then show ?thesis using IFCONFIG_POOL_INDIV assms(2,3) small by (simp add: ifconfig_pool_ip_base_to_handle_def c_int_id Let_def)
  qed
qed

subsection \<open>A new pool\<close>

lemma uint_align_4: "uint (w AND NOT 3) = 4 * (uint w div 4)" "uint (w OR 3) = 4 * (uint w div 4) + 3" for w :: u32
proof -
  have m: "(3 :: u32) = mask 2" by (simp add: mask_eq_exp_minus_1)
  have w: "uint w < 4294967296" using unsigned_less [of w] by simp
  have a: "w AND NOT 3 = push_bit 2 (drop_bit 2 w)" unfolding m by (rule bit_word_eqI) (auto simp: bit_simps not_less dest!: le_Suc_ex)
  have "uint (push_bit 2 (drop_bit 2 w)) = (4 * uint (drop_bit 2 w)) mod 2 ^ 32"
    by (simp only: push_bit_eq_mult uint_word_ariths) (simp add: mult.commute)
  also have "\<dots> = 4 * (uint w div 4)"
  proof -
    have "0 \<le> uint w div 4" "uint w div 4 < 1073741824" using w uint_ge_0 [of w] by linarith+
    then show ?thesis unfolding uint_drop_bit_div by (subst mod_pos_pos_trivial) simp_all
  qed
  finally show 1: "uint (w AND NOT 3) = 4 * (uint w div 4)" by (simp only: a)
  have "w OR 3 = (w AND NOT 3) OR 3" by (rule bit_word_eqI) (auto simp: bit_simps)
  also have "\<dots> = (w AND NOT 3) + 3" by (rule disjunctive_add [symmetric]) (auto simp: bit_simps)
  finally have e: "w OR 3 = (w AND NOT 3) + 3" .
  have "uint (w OR 3) = (4 * (uint w div 4) + 3) mod 2 ^ 32" unfolding e uint_word_ariths 1 by simp
  also have "\<dots> = 4 * (uint w div 4) + 3"
  proof (rule mod_pos_pos_trivial)
    have "0 \<le> uint w div 4" "uint w div 4 < 1073741824" using w uint_ge_0 [of w] by linarith+
    then show "0 \<le> 4 * (uint w div 4) + 3" "4 * (uint w div 4) + 3 < 2 ^ 32" by simp_all
  qed
  finally show "uint (w OR 3) = 4 * (uint w div 4) + 3" .
qed

lemma pool_init_geometry:
  fixes start end' :: u32
  assumes "start \<le> end'" "uint (end' - start) < IFCONFIG_POOL_MAX"
  shows "let base = start AND NOT 3; size = drop_bit 2 (((end' OR 3) + 1) - base)
      in 0 < uint size \<and> uint size \<le> 65536 \<and> uint base + 4 * uint size \<le> 2 ^ 32"
    and "0 < uint (end' - start + 1) \<and> uint (end' - start + 1) \<le> 65536 \<and> uint start + uint (end' - start + 1) \<le> 2 ^ 32"
proof -
  have se: "uint start \<le> uint end'" using assms(1) by (simp add: word_le_def)
  have e: "uint end' < 4294967296" using unsigned_less [of end'] by simp
  have "uint end' - uint start < 4294967296" using e uint_ge_0 [of start] by linarith
  then have d: "uint (end' - start) = uint end' - uint start" using se by (simp add: uint_word_ariths mod_pos_pos_trivial)
  have range: "uint end' - uint start < 65536" using assms(2) by (simp add: d IFCONFIG_POOL_MAX_def)
  have "uint (end' - start + 1) = uint end' - uint start + 1" using se range
    by (subst uint_word_ariths(1)) (simp add: d mod_pos_pos_trivial)
  then show "0 < uint (end' - start + 1) \<and> uint (end' - start + 1) \<le> 65536 \<and> uint start + uint (end' - start + 1) \<le> 2 ^ 32"
    using se range e by simp
  define S where "S = uint start div 4"
  define E where "E = uint end' div 4"
  have SE: "S \<le> E" "4 * (E - S) \<le> 65538" "4 * E \<le> uint end'" "0 \<le> S"
    using se range unfolding S_def E_def by (simp_all add: zdiv_mono1 div_int_pos_iff)
  have "uint (((end' OR 3) + 1) - (start AND NOT 3)) = (4 * E + 3 + 1 - 4 * S) mod 2 ^ 32"
    by (simp only: uint_word_ariths uint_align_4 S_def E_def) (simp add: mod_simps)
  also have "\<dots> = 4 * (E + 1 - S)" using SE by (subst mod_pos_pos_trivial) simp_all
  finally have "uint (drop_bit 2 (((end' OR 3) + 1) - (start AND NOT 3))) = E + 1 - S" by (simp only: uint_drop_bit_div) simp
  then show "let base = start AND NOT 3; size = drop_bit 2 (((end' OR 3) + 1) - base)
      in 0 < uint size \<and> uint size \<le> 65536 \<and> uint base + 4 * uint size \<le> 2 ^ 32"
    using SE e uint_align_4(1) [of start] unfolding Let_def S_def [symmetric] by simp
qed

lemma pool_init_ok:
  assumes "ifconfig_pool_init type start end' dup v6 base6 bits = Some p"
  shows "pool_ok p" "\<forall>e\<in>set (po_list p). \<not> pe_in_use e"
proof -
  have a: "start \<le> end'" "uint (end' - start) < IFCONFIG_POOL_MAX" using assms by (auto simp: ifconfig_pool_init_def)
  show "pool_ok p" "\<forall>e\<in>set (po_list p). \<not> pe_in_use e"
    using pool_init_geometry [OF a] assms
    by (auto simp: ifconfig_pool_init_def pool_ok_def po_width_def IFCONFIG_POOL_MAX_def Let_def split: pool_type.splits)
qed

subsection \<open>Leases\<close>

definition lease_of :: "ifconfig_pool \<Rightarrow> int \<Rightarrow> lease" where
  "lease_of p i =
     \<lparr>le_local = (case po_type p of IFCONFIG_POOL_30NET \<Rightarrow> po_base p + word_of_int (push_bit 2 i) + 1 | IFCONFIG_POOL_INDIV \<Rightarrow> 0),
      le_remote = (case po_type p of IFCONFIG_POOL_30NET \<Rightarrow> po_base p + word_of_int (push_bit 2 i) + 2
                   | IFCONFIG_POOL_INDIV \<Rightarrow> po_base p + word_of_int i),
      le_remote_ipv6 = (if po_ipv6_enabled p then Some (add_in6_addr (po_ipv6_base p) (word_of_int i)) else None)\<rparr>"

text \<open>The address leased leads back to the handle, so that different handles have different addresses.\<close>

lemma lease_back:
  assumes "pool_ok p" "0 \<le> h" "h < po_size p"
  shows "ifconfig_pool_ip_base_to_handle p (le_remote (lease_of p h)) = h"
proof (cases "po_type p")
  case IFCONFIG_POOL_30NET
  then have w: "po_width p = 4" by (simp add: po_width_def)
  have e: "le_remote (lease_of p h) = po_base p + word_of_int (po_width p * h + 2)"
    by (simp add: lease_of_def IFCONFIG_POOL_30NET w push_bit_eq_mult mult.commute)
  show ?thesis unfolding e by (rule handle_back [OF assms _ _ handle_address [OF assms]]) (simp_all add: w)
next
  case IFCONFIG_POOL_INDIV
  then have w: "po_width p = 1" by (simp add: po_width_def)
  have e: "le_remote (lease_of p h) = po_base p + word_of_int (po_width p * h + 0)"
    by (simp add: lease_of_def IFCONFIG_POOL_INDIV w)
  show ?thesis unfolding e by (rule handle_back [OF assms _ _ handle_address [OF assms]]) (simp_all add: w)
qed

definition acquired_entry :: "string option \<Rightarrow> ifconfig_pool_entry \<Rightarrow> ifconfig_pool_entry" where
  "acquired_entry cn e = e\<lparr>pe_in_use := True, pe_common_name := cn, pe_last_release := 0\<rparr>"

lemma acquire_law:
  assumes "pool_ok p"
  shows "ifconfig_pool_find p cn = -1 \<and> ifconfig_pool_acquire p cn = Some (-1, None, p) \<or>
    (\<exists>k<length (po_list p). ifconfig_pool_find p cn = int k \<and> \<not> pe_in_use (po_list p ! k) \<and>
       ifconfig_pool_acquire p cn =
         Some (int k, Some (lease_of p (int k)), p\<lparr>po_list := (po_list p)[k := acquired_entry cn (po_list p ! k)]\<rparr>))"
  using find_range [OF assms refl, of cn]
proof
  assume "ifconfig_pool_find p cn = -1"
  then show ?thesis by (simp add: ifconfig_pool_acquire_def)
next
  assume "\<exists>k<length (po_list p). ifconfig_pool_find p cn = int k \<and> \<not> pe_in_use (po_list p ! k)"
  then obtain k where k: "k < length (po_list p)" "ifconfig_pool_find p cn = int k" "\<not> pe_in_use (po_list p ! k)" by blast
  have "ifconfig_pool_acquire p cn =
      Some (int k, Some (lease_of p (int k)), p\<lparr>po_list := (po_list p)[k := acquired_entry cn (po_list p ! k)]\<rparr>)"
    using k by (cases "po_list p ! k"; cases "po_type p"; cases cn)
      (simp_all add: ifconfig_pool_acquire_def ifconfig_pool_entry_free_def lease_of_def acquired_entry_def Let_def)
  then show ?thesis using k by blast
qed

lemma pool_ok_update: "pool_ok p \<Longrightarrow> pool_ok (p\<lparr>po_list := (po_list p)[k := e]\<rparr>)"
  by (simp add: pool_ok_def po_width_def)

lemma lease_of_update [simp]: "lease_of (p\<lparr>po_list := es\<rparr>) h = lease_of p h"
  by (simp add: lease_of_def split: pool_type.split)

subsection \<open>A server at work\<close>

text \<open>A client arrives, with the name of its certificate, or leaves: the server releases the handle it holds for it.\<close>

datatype pool_op = Acquire "string option" | Release int int bool

fun pool_step :: "pool_op \<Rightarrow> ifconfig_pool \<times> (int \<times> lease) list \<Rightarrow> (ifconfig_pool \<times> (int \<times> lease) list) exec" where
  "pool_step (Acquire cn) (p, held) = do {
     (i, l, p) \<leftarrow> ifconfig_pool_acquire p cn;
     Some (p, case l of Some l \<Rightarrow> (i, l) # held | None \<Rightarrow> held) }"
| "pool_step (Release now h hard) (p, held) =
     (if h \<in> fst ` set held then Some (snd (ifconfig_pool_release p now h hard), filter (\<lambda>x. fst x \<noteq> h) held)
      else Some (p, held))"

fun pool_run :: "pool_op list \<Rightarrow> ifconfig_pool \<times> (int \<times> lease) list \<Rightarrow> (ifconfig_pool \<times> (int \<times> lease) list) exec" where
  "pool_run [] s = Some s"
| "pool_run (x # ops) s = do { s \<leftarrow> pool_step x s; pool_run ops s }"

text \<open>The handles held are those of the entries in use, once each, with their leases.\<close>

definition pool_inv :: "ifconfig_pool \<times> (int \<times> lease) list \<Rightarrow> bool" where
  "pool_inv = (\<lambda>(p, held). pool_ok p \<and> distinct (map fst held) \<and>
     fst ` set held = int ` {k. k < length (po_list p) \<and> pe_in_use (po_list p ! k)} \<and>
     (\<forall>(h, l)\<in>set held. l = lease_of p h))"

lemma pool_step_inv:
  assumes "pool_inv s"
  shows "\<exists>s'. pool_step x s = Some s' \<and> pool_inv s'"
proof -
  obtain p held where s: "s = (p, held)" by (cases s)
  have ok: "pool_ok p" and d: "distinct (map fst held)"
    and h: "fst ` set held = int ` {k. k < length (po_list p) \<and> pe_in_use (po_list p ! k)}" and l: "\<forall>(h, l)\<in>set held. l = lease_of p h"
    using assms by (simp_all add: s pool_inv_def)
  show ?thesis
  proof (cases x)
    case (Acquire cn)
    from acquire_law [OF ok, of cn] show ?thesis
    proof
      assume "ifconfig_pool_find p cn = -1 \<and> ifconfig_pool_acquire p cn = Some (-1, None, p)"
      then show ?thesis using assms by (simp add: s Acquire)
    next
      assume "\<exists>k<length (po_list p). ifconfig_pool_find p cn = int k \<and> \<not> pe_in_use (po_list p ! k) \<and>
        ifconfig_pool_acquire p cn = Some (int k, Some (lease_of p (int k)), p\<lparr>po_list := (po_list p)[k := acquired_entry cn (po_list p ! k)]\<rparr>)"
      then obtain k where k: "k < length (po_list p)" "\<not> pe_in_use (po_list p ! k)"
        "ifconfig_pool_acquire p cn = Some (int k, Some (lease_of p (int k)), p\<lparr>po_list := (po_list p)[k := acquired_entry cn (po_list p ! k)]\<rparr>)" by blast
      have "int k \<notin> fst ` set held" unfolding h using k(2) by auto
      moreover have "{j. j < length (po_list p) \<and> pe_in_use ((po_list p)[k := acquired_entry cn (po_list p ! k)] ! j)} =
          insert k {j. j < length (po_list p) \<and> pe_in_use (po_list p ! j)}"
        using k(1) by (auto simp: nth_list_update acquired_entry_def)
      ultimately show ?thesis using k(1,3) d h l pool_ok_update [OF ok] by (auto simp: s Acquire pool_inv_def)
    qed
  next
    case (Release now i hard)
    show ?thesis
    proof (cases "i \<in> fst ` set held")
      case True
      then obtain k where k: "i = int k" "k < length (po_list p)" using h by auto
      let ?e = "ifconfig_pool_entry_free (po_list p ! k) now hard"
      have free: "\<not> pe_in_use ?e" by (simp add: ifconfig_pool_entry_free_def Let_def)
      have r: "ifconfig_pool_release p now i hard = (True, p\<lparr>po_list := (po_list p)[k := ?e]\<rparr>)"
        using k ok by (simp add: ifconfig_pool_release_def pool_ok_def)
      have "{j. j < length (po_list p) \<and> pe_in_use ((po_list p)[k := ?e] ! j)} =
          {j. j < length (po_list p) \<and> pe_in_use (po_list p ! j)} - {k}" using free k(2) by (auto simp: nth_list_update split: if_splits)
      moreover have "fst ` set (filter (\<lambda>x. fst x \<noteq> i) held) = fst ` set held - {i}" by auto
      moreover have "distinct (map fst (filter (\<lambda>x. fst x \<noteq> i) held))" using d by (rule distinct_map_filter)
      ultimately show ?thesis using True r h l k pool_ok_update [OF ok]
        by (auto simp: s Release pool_inv_def)
    qed (use assms in \<open>simp add: s Release\<close>)
  qed
qed

lemma pool_run_inv: "pool_inv s \<Longrightarrow> \<exists>s'. pool_run ops s = Some s' \<and> pool_inv s'"
proof (induction ops arbitrary: s)
  case (Cons x ops)
  obtain s1 where "pool_step x s = Some s1" "pool_inv s1" using pool_step_inv [OF Cons.prems] by blast
  then show ?case using Cons.IH [of s1] by simp
qed simp

lemma pool_init_inv:
  assumes "ifconfig_pool_init type start end' dup v6 base6 bits = Some p"
  shows "pool_inv (p, [])"
proof -
  have "{k. k < length (po_list p) \<and> pe_in_use (po_list p ! k)} = {}" using pool_init_ok(2) [OF assms] nth_mem by blast
  then show ?thesis using pool_init_ok(1) [OF assms] by (simp add: pool_inv_def)
qed

lemma pool_inv_back:
  assumes "pool_inv (p, held)" "(h, l) \<in> set held"
  shows "ifconfig_pool_ip_base_to_handle p (le_remote l) = h"
proof -
  have ok: "pool_ok p" and l: "l = lease_of p h" using assms by (auto simp: pool_inv_def)
  have "h \<in> fst ` set held" using assms(2) by force
  then have "h \<in> int ` {k. k < length (po_list p) \<and> pe_in_use (po_list p ! k)}" using assms(1) by (simp add: pool_inv_def)
  then obtain k where "h = int k" "k < length (po_list p)" by blast
  then have "0 \<le> h" "h < po_size p" using ok by (simp_all add: pool_ok_def)
  then show ?thesis unfolding l by (rule lease_back [OF ok])
qed

subsection \<open>Properties\<close>

text \<open>C23: The server never leases an address twice. Starting from a new pool, whatever clients arrive and leave in
whatever order, with whatever names, no assertion fails, and at every moment the handles held are different and the
address of every lease leads back to its handle, so that any two clients have different addresses.\<close>

theorem pool_leases_exclusive:
  assumes "ifconfig_pool_init type start end' dup v6 base6 bits = Some p"
  shows "\<exists>p' held. pool_run ops (p, []) = Some (p', held) \<and> distinct (map fst held) \<and>
    (\<forall>(h, l)\<in>set held. ifconfig_pool_ip_base_to_handle p' (le_remote l) = h) \<and> distinct (map (le_remote \<circ> snd) held)"
proof -
  have "pool_inv (p, [])" by (rule pool_init_inv [OF assms])
  then obtain p' held where r: "pool_run ops (p, []) = Some (p', held)" and i: "pool_inv (p', held)"
    using pool_run_inv [of "(p, [])" ops] by (metis surj_pair)
  have d: "distinct (map fst held)" using i by (simp add: pool_inv_def)
  note leads = pool_inv_back [OF i]
  have "inj_on (le_remote \<circ> snd) (set held)"
  proof (rule inj_onI)
    fix x y assume xy: "x \<in> set held" "y \<in> set held" "(le_remote \<circ> snd) x = (le_remote \<circ> snd) y"
    then have "fst x = fst y" using leads [of "fst x" "snd x"] leads [of "fst y" "snd y"] by simp
    then show "x = y" using xy d by (metis distinct_map inj_on_def)
  qed
  then have "distinct (map (le_remote \<circ> snd) held)" using d by (simp add: distinct_map)
  then show ?thesis using r d leads by auto
qed

theorem pool_leases_exclusive_witness:
  "\<exists>p p' held. ifconfig_pool_init IFCONFIG_POOL_INDIV 10 19 False False [] 0 = Some p \<and>
     pool_run [Acquire (Some ''a''), Acquire None, Release 7 0 False, Acquire (Some ''b'')] (p, []) = Some (p', held) \<and>
     distinct (map (le_remote \<circ> snd) held)"
proof -
  have "ifconfig_pool_init IFCONFIG_POOL_INDIV 10 19 False False [] 0 \<noteq> None" by code_simp
  then obtain p where p: "ifconfig_pool_init IFCONFIG_POOL_INDIV 10 19 False False [] 0 = Some p" by blast
  show ?thesis
    using pool_leases_exclusive [OF p, of "[Acquire (Some ''a''), Acquire None, Release 7 0 False, Acquire (Some ''b'')]"] p by blast
qed



text \<open>A comment says that the IPv6 pool must be at least as big as the IPv4 one; the assertion after it asks for more, and
a server whose pools have the same size, here 256 addresses and a /120 prefix, aborts as it starts.\<close>

lemma pool_init_same_size_aborts: "ifconfig_pool_init IFCONFIG_POOL_INDIV 256 511 False True (replicate 16 0) 120 = None"
  by code_simp

end
