(* ===== verification/Spec2Isabelle.thy ===== *)
theory Spec2Isabelle
  imports Replay_Persist Control_Delivery Fragment_System Hash_Iterator Hash_Func Schedule_System Base64 Mbuf_Queue Stream_Run Ip_Processing Buffer_Safety Pool
begin

text \<open>
  \<^bold>\<open>The program.\<close> VPNCore bundles VPN clients for Android. Its protocol engine is OpenVPN, under
  \<^verbatim>\<open>src/openvpn/src/main/cpp/openvpn/src/openvpn\<close> (file names below are relative to that directory). A packet from
  the tun device is examined and adapted (\<^verbatim>\<open>process_ip_header\<close> in \<^verbatim>\<open>forward.c\<close>, with \<^verbatim>\<open>mss.c\<close>, \<^verbatim>\<open>clinat.c\<close>,
  \<^verbatim>\<open>dhcp.c\<close>), compressed, fragmented (\<^verbatim>\<open>fragment.c\<close>), numbered (\<^verbatim>\<open>packet_id.c\<close>), encrypted and sent, over TCP with a length prefix (\<^verbatim>\<open>socket.c\<close>); the peer
  checks the number against replay, decrypts and reassembles. Keys are negotiated by TLS over a control channel, whose
  records a reliability layer (\<^verbatim>\<open>reliable.c\<close>) carries over the unreliable link, driven by \<^verbatim>\<open>ssl.c\<close>. A server has a hash
  table of clients (\<^verbatim>\<open>list.c\<close>), a pool of their addresses (\<^verbatim>\<open>pool.c\<close>), a schedule of their wakeups (\<^verbatim>\<open>schedule.c\<close>) and a queue of the packets that go to
  several of them (\<^verbatim>\<open>mbuf.c\<close>). All of them work on \<^verbatim>\<open>struct buffer\<close> (\<^verbatim>\<open>buffer.h\<close>) and the clock (\<^verbatim>\<open>otime.c\<close>).

  \<^bold>\<open>How the code is translated.\<close> A C function is a HOL function with the name it has in the code; the objects it
  changes through pointers are arguments and results. \<^verbatim>\<open>ASSERT\<close>, \<^verbatim>\<open>M_FATAL\<close>, a null dereference and an access to freed
  memory end the execution: such a function has a result of type \<^verbatim>\<open>'a exec\<close>, an option that is \<^const>\<open>None\<close> then. Error
  returns are values. Unsigned types are words and wrap; \<^verbatim>\<open>int\<close> and \<^verbatim>\<open>time_t\<close> are \<^typ>\<open>int\<close>, with \<^verbatim>\<open>c_int\<close> at
  narrowing conversions and \<^verbatim>\<open>c_div\<close>, \<^verbatim>\<open>c_mod\<close> for division. A pointer into an array is an index; where the code links
  objects by pointers (\<^verbatim>\<open>Schedule\<close>) or shares them (\<^verbatim>\<open>Mbuf\<close>), there is an explicit store. What comes from outside (the
  clock, random numbers, fresh memory, the TLS engine) is an argument. Log messages are left out.

  \<^bold>\<open>The theories.\<close>
    \<^item> \<^verbatim>\<open>VPN_Prelude\<close>: C types, aborting code, \<^verbatim>\<open>memcpy\<close>, network byte order. \<^verbatim>\<open>Integers\<close> (\<^verbatim>\<open>integer.h\<close>): index
      arithmetic, rounding up to a power of two, which returns for every argument up to \<open>2 ^ 63\<close>.
    \<^item> \<^verbatim>\<open>Buffer\<close> (\<^verbatim>\<open>buffer.h\<close>, \<^verbatim>\<open>buffer.c\<close>): a buffer is a window into a block; each operation in terms of the bytes in
      the window, and the conditions under which it succeeds. \<^verbatim>\<open>Buffer_Safety\<close>: no sequence of these operations takes a window
      out of its block. \<^verbatim>\<open>Circ_List\<close> (\<^verbatim>\<open>circ_list.h\<close>): the ring buffer as a list.
    \<^item> \<^verbatim>\<open>Packet_Id\<close> (\<^verbatim>\<open>packet_id.c\<close>, \<^verbatim>\<open>crypto_check_replay\<close>), \<^verbatim>\<open>Replay\<close> (the window over the ring refines an abstract
      window), \<^verbatim>\<open>Replay_Check\<close> (no replay is accepted in either mode, by a locale for replay checks interpreted for both;
      what a sender numbers is accepted), \<^verbatim>\<open>Replay_Persist\<close> (a restart from the persisted state admits replays).
    \<^item> \<^verbatim>\<open>Session_Id\<close>, \<^verbatim>\<open>Reliable\<close> (\<^verbatim>\<open>session_id.c\<close>, \<^verbatim>\<open>reliable.c\<close>), \<^verbatim>\<open>Reliable_Ack\<close> (the acknowledgement record),
      \<^verbatim>\<open>Reliable_Window\<close> (the receive window), \<^verbatim>\<open>Control_Channel\<close> (the steps of \<^verbatim>\<open>tls_process\<close> and \<^verbatim>\<open>tls_pre_decrypt\<close>
      that drive the layer), \<^verbatim>\<open>Control_System\<close>, \<^verbatim>\<open>Control_Invariant\<close>, \<^verbatim>\<open>Control_Delivery\<close>: two peers and a network that
      loses, repeats and reorders packets, as a step relation whose invariant gives delivery in order and without loss.
    \<^item> \<^verbatim>\<open>Timers\<close> (\<^verbatim>\<open>otime.c\<close>, \<^verbatim>\<open>interval.c\<close>): the clock never runs back; timers and the rate limiter. \<^verbatim>\<open>Frame\<close>
      (\<^verbatim>\<open>mtu.h\<close>, \<^verbatim>\<open>mtu.c\<close>): sizes and headroom of packets.
    \<^item> \<^verbatim>\<open>Fragment\<close> (\<^verbatim>\<open>fragment.c\<close>), \<^verbatim>\<open>Fragment_Send\<close>, \<^verbatim>\<open>Fragment_Window\<close>, \<^verbatim>\<open>Fragment_Reassembly\<close>, \<^verbatim>\<open>Fragment_System\<close>:
      what goes on the wire, the window of reassembly buffers, and that reassembly refines a table of received positions.
    \<^item> \<^verbatim>\<open>Hash_Table\<close>, \<^verbatim>\<open>Hash_Iterator\<close>, \<^verbatim>\<open>Hash_Func\<close> (\<^verbatim>\<open>list.c\<close>): the table is a finite map, also under deletion while
      it is iterated.
    \<^item> \<^verbatim>\<open>Schedule\<close> (\<^verbatim>\<open>schedule.c\<close>), \<^verbatim>\<open>Schedule_Treap\<close>, \<^verbatim>\<open>Schedule_Insert\<close>, \<^verbatim>\<open>Schedule_System\<close>: the randomised search tree
      on its pointers refines a map from entries to times; the self-test of the module passes.
    \<^item> \<^verbatim>\<open>Base64\<close> (\<^verbatim>\<open>base64.c\<close>): encoding and decoding.
    \<^item> \<^verbatim>\<open>Mbuf\<close> (\<^verbatim>\<open>mbuf.c\<close>, its callers in \<^verbatim>\<open>multi.c\<close>), \<^verbatim>\<open>Mbuf_Queue\<close>: the queue of shared packets refines a bounded
      list, and reference counts are exact.
    \<^item> \<^verbatim>\<open>Stream_Buf\<close> (\<^verbatim>\<open>socket.c\<close>, \<^verbatim>\<open>socket.h\<close>), \<^verbatim>\<open>Stream_Run\<close>: packets in a TCP stream. However \<^verbatim>\<open>recv\<close> cuts the
      stream, the packets read are those of a parser of the whole stream, and those the peer wrote.
    \<^item> \<^verbatim>\<open>Checksum\<close> (\<^verbatim>\<open>proto.h\<close>, \<^verbatim>\<open>proto.c\<close>): the Internet checksum, its update by differences, and the kinds of packets.
      \<^verbatim>\<open>Mss\<close> (\<^verbatim>\<open>mss.c\<close>), \<^verbatim>\<open>Client_Nat\<close> (\<^verbatim>\<open>clinat.c\<close>), \<^verbatim>\<open>Dhcp\<close> (\<^verbatim>\<open>dhcp.c\<close>): what each of them changes in a packet, what it
      leaves, and when checksums stay right. \<^verbatim>\<open>Forward_Flags\<close>, \<^verbatim>\<open>Ip_Header\<close> (\<^verbatim>\<open>forward.h\<close>, \<^verbatim>\<open>forward.c\<close>),
      \<^verbatim>\<open>Ip_Processing\<close>: their composition in \<^verbatim>\<open>process_ip_header\<close> and \<^verbatim>\<open>process_incoming_tun\<close>, and the ICMPv6 answers. A change
      of a packet in place is \<^verbatim>\<open>buf_modify\<close>: a function on the bytes of the window.
    \<^item> \<^verbatim>\<open>Pool\<close> (\<^verbatim>\<open>pool.c\<close>): clients always hold different addresses, and one that returns gets its former address.

  \<^bold>\<open>Bounds and fuel.\<close> Loops are structural or have a measure. The loops that need not end are
  \<^verbatim>\<open>adjust_power_of_2_loop\<close> and those that follow pointers in \<^verbatim>\<open>Schedule\<close>: they are partial, and shown to return. An
  insertion into the schedule draws random numbers until its key is new; it returns if the values drawn are not all
  taken (\<^verbatim>\<open>fair_random\<close>). \<^verbatim>\<open>fragment_drain\<close> calls the sender until it has nothing left, with one unit of fuel for each
  fragment. A peer of the control channel queues at most \<open>2 ^ 31\<close> payloads; a packet queue has at most \<open>2 ^ 30\<close> places.

  \<^bold>\<open>Not modelled.\<close> The key-state machine of \<^verbatim>\<open>ssl.c\<close> and the bindings to OpenSSL and mbedTLS, which are dominated by
  the TLS library; option parsing, routing, tun devices, the event loop and the system calls on sockets, the management interface, plugins and
  scripts, which are input and output; the file of persistent addresses of a pool, which is text; compression, which is
  that of external libraries; the server's routing by addresses and its packet filter (\<^verbatim>\<open>mroute.c\<close>, \<^verbatim>\<open>pf.c\<close>); the libraries and the other clients in the repository.
\<close>

end
